(* ===== verification/Prelude.thy ===== *)
theory Prelude
  imports Main "HOL-Library.Word" "HOL-Library.Monad_Syntax" "HOL-Library.Multiset"
    "HOL-Library.Signed_Division"
begin

text \<open>
  Shared vocabulary of the development.

  \<^item> C pointers are natural numbers, the null pointer is \<open>0\<close>; a heap of objects of one C
    struct type is a partial map from addresses to records, with a bump allocator.
    \<open>room\<close> counts the allocations that \<^verbatim>\<open>calloc\<close> still grants, so that its failure
    (a null result) is a behaviour of the model.
  \<^item> Undefined behaviour (a dereference of a null, dangling or unallocated pointer, an array
    access out of range) is the value \<^term>\<open>None\<close> of the option monad; a definition returns
    \<^term>\<open>Some\<close> exactly when the C code runs through without it.
  \<^item> \<open>int\<close> and \<open>unsigned int\<close> are 32-bit words where wrap-around or width can matter.
\<close>

named_theorems heap_simps \<open>evaluation rules of the heap operations\<close>

type_synonym ptr = nat
type_synonym u8 = "8 word"
type_synonym u16 = "16 word"
type_synonym u32 = "32 word"
type_synonym u64 = "64 word"
type_synonym 'c objects = "ptr \<rightharpoonup> 'c"

abbreviation (input) NULL :: ptr where
  "NULL \<equiv> 0"

section \<open>Heaps\<close>

record 'c heap =
  objs :: "'c objects"
  brk :: ptr
  room :: nat

definition load :: "'c heap \<Rightarrow> ptr \<Rightarrow> 'c option" where
  "load h p = (if p = NULL then None else objs h p)"

definition store :: "'c heap \<Rightarrow> ptr \<Rightarrow> ('c \<Rightarrow> 'c) \<Rightarrow> 'c heap option" where
  "store h p f =
     (case load h p of None \<Rightarrow> None
      | Some c \<Rightarrow> Some (h\<lparr>objs := (objs h)(p \<mapsto> f c)\<rparr>))"

definition calloc :: "'c \<Rightarrow> 'c heap \<Rightarrow> ptr \<times> 'c heap" where
  "calloc z h =
     (if room h = 0 then (NULL, h)
      else (brk h, h\<lparr>objs := (objs h)(brk h \<mapsto> z), brk := Suc (brk h), room := room h - 1\<rparr>))"

definition free :: "ptr \<Rightarrow> 'c heap \<Rightarrow> 'c heap option" where
  "free p h =
     (if p = NULL then Some h
      else case objs h p of None \<Rightarrow> None
        | Some _ \<Rightarrow> Some (h\<lparr>objs := (objs h)(p := None)\<rparr>))"

definition empty_heap :: "nat \<Rightarrow> 'c heap" where
  "empty_heap n = \<lparr>objs = Map.empty, brk = 1, room = n\<rparr>"

text \<open>Every allocated address is non-null and below the break, so a fresh block is new.\<close>

definition heap_ok :: "'c heap \<Rightarrow> bool" where
  "heap_ok h \<longleftrightarrow> 0 < brk h \<and> (\<forall>p \<in> dom (objs h). 0 < p \<and> p < brk h)"

lemma heap_okD:
  assumes "heap_ok h" and "objs h p = Some c"
  shows "0 < p" and "p < brk h"
  using assms by (auto simp: heap_ok_def)

lemma heap_ok_empty [simp, intro]: "heap_ok (empty_heap n)"
  by (simp add: heap_ok_def empty_heap_def)

lemma load_Some_iff [heap_simps]: "load h p = Some c \<longleftrightarrow> p \<noteq> NULL \<and> objs h p = Some c"
  by (simp add: load_def)

lemma load_NULL [simp]: "load h NULL = None"
  by (simp add: load_def)

lemma store_Some [heap_simps]:
  "load h p = Some c \<Longrightarrow> store h p f = Some (h\<lparr>objs := (objs h)(p \<mapsto> f c)\<rparr>)"
  by (simp add: store_def)

lemma store_eq_Some_iff:
  "store h p f = Some h' \<longleftrightarrow>
     (\<exists>c. load h p = Some c \<and> h' = h\<lparr>objs := (objs h)(p \<mapsto> f c)\<rparr>)"
  by (auto simp: store_def split: option.splits)

lemma heap_ok_upd [simp]:
  "objs h p = Some c \<Longrightarrow> heap_ok (h\<lparr>objs := (objs h)(p \<mapsto> c')\<rparr>) \<longleftrightarrow> heap_ok h"
  by (auto simp: heap_ok_def)

lemma heap_ok_store: "heap_ok h \<Longrightarrow> store h p f = Some h' \<Longrightarrow> heap_ok h'"
  by (auto simp: store_eq_Some_iff load_Some_iff)

lemma heap_ok_calloc: "heap_ok h \<Longrightarrow> heap_ok (snd (calloc z h))"
  by (auto simp: heap_ok_def calloc_def less_Suc_eq)

lemma heap_ok_free: "heap_ok h \<Longrightarrow> free p h = Some h' \<Longrightarrow> heap_ok h'"
  by (auto simp: heap_ok_def free_def split: if_splits option.splits)

lemma calloc_fresh: "heap_ok h \<Longrightarrow> objs h (brk h) = None"
  by (metis heap_okD(2) less_irrefl not_None_eq)

section \<open>Arrays\<close>

text \<open>Array accesses with a C index; out of range is undefined behaviour.\<close>

definition aget :: "'a list \<Rightarrow> int \<Rightarrow> 'a option" where
  "aget xs i = (if 0 \<le> i \<and> i < int (length xs) then Some (xs ! nat i) else None)"

definition aset :: "'a list \<Rightarrow> int \<Rightarrow> 'a \<Rightarrow> 'a list option" where
  "aset xs i v = (if 0 \<le> i \<and> i < int (length xs) then Some (xs[nat i := v]) else None)"

lemma aget_Some [simp]: "0 \<le> i \<Longrightarrow> i < int (length xs) \<Longrightarrow> aget xs i = Some (xs ! nat i)"
  by (simp add: aget_def)

lemma aset_Some [simp]: "0 \<le> i \<Longrightarrow> i < int (length xs) \<Longrightarrow> aset xs i v = Some (xs[nat i := v])"
  by (simp add: aset_def)

section \<open>Lists\<close>

lemma successively_mono_set:
  assumes "successively P xs" and "\<And>a b. a \<in> set xs \<Longrightarrow> b \<in> set xs \<Longrightarrow> P a b \<Longrightarrow> Q a b"
  shows "successively Q xs"
  using assms by (induction xs rule: induct_list012) auto

lemma successively_snocI:
  "successively P xs \<Longrightarrow> xs = [] \<or> P (last xs) x \<Longrightarrow> successively P (xs @ [x])"
  by (simp add: successively_append_iff)

lemma successively_mono_butlast:
  assumes "successively P xs" and "\<And>a b. a \<in> set (butlast xs) \<Longrightarrow> b \<in> set xs \<Longrightarrow> P a b \<Longrightarrow> Q a b"
  shows "successively Q xs"
  using assms by (induction xs rule: induct_list012) auto

lemma distinct_last_butlast: "distinct xs \<Longrightarrow> xs \<noteq> [] \<Longrightarrow> last xs \<notin> set (butlast xs)"
  by (metis append_butlast_last_id distinct_butlast not_distinct_conv_prefix)

lemma in_butlast_neq_last: "distinct xs \<Longrightarrow> a \<in> set (butlast xs) \<Longrightarrow> a \<noteq> last xs"
  using distinct_last_butlast [of xs] by (cases xs) auto

section \<open>Threads\<close>

text \<open>Sums over the first \<open>n\<close> threads, each given by where it is.\<close>

definition thread_sum :: "nat \<Rightarrow> (nat \<Rightarrow> 'p \<Rightarrow> nat) \<Rightarrow> (nat \<Rightarrow> 'p) \<Rightarrow> nat" where
  "thread_sum n f th = (\<Sum>t<n. f t (th t))"

lemma thread_sum_upd:
  assumes "t < n"
  shows "thread_sum n f (th(t := pc)) + f t (th t) = thread_sum n f th + f t pc"
proof -
  have "thread_sum n f (th(t := pc)) = f t pc + (\<Sum>u \<in> {..<n} - {t}. f u (th u))"
    unfolding thread_sum_def using assms by (subst sum.remove [of _ t]) auto
  moreover have "thread_sum n f th = f t (th t) + (\<Sum>u \<in> {..<n} - {t}. f u (th u))"
    unfolding thread_sum_def using assms by (subst sum.remove [of _ t]) auto
  ultimately show ?thesis by simp
qed

lemma thread_sum_ge: "t < n \<Longrightarrow> f t (th t) \<le> thread_sum n f th"
  unfolding thread_sum_def by (intro member_le_sum) auto

lemma sum_if_card: "(\<Sum>t<n. if P t then 1 else (0::nat)) = card {t. t < n \<and> P t}" for n :: nat
  using sum.inter_filter [of "{..<n}" "\<lambda>_. 1 :: nat" P] by simp

end
