(* ===== verification/Prog_Queue.thy ===== *)
theory Prog_Queue
  imports Prelude
begin

text \<open>
  The generic queue of \<^verbatim>\<open>src/prog_queue.c\<close>: an intrusive circular list of
  \<^verbatim>\<open>Queue_node_t\<close> embedded in \<^verbatim>\<open>item_t\<close>, with \<^verbatim>\<open>push\<close> and \<^verbatim>\<open>pop\<close>, and the menu
  of \<^verbatim>\<open>main\<close>. The links are kept as the code writes them: \<open>head->next\<close> is the newest
  element, \<open>prev\<close> leads from an element to the one pushed after it, and the \<open>prev\<close>
  link of the newest element is left stale.
  The function pointers \<^verbatim>\<open>push\<close> and \<^verbatim>\<open>pop\<close> of \<^verbatim>\<open>Queue_type\<close> are only ever set by
  \<^verbatim>\<open>initialize_Queue_list_imp\<close>, to the two functions below, and are called directly here.
\<close>

section \<open>Data\<close>

record Queue_node_t =
  nextp :: ptr
  prevp :: ptr

record item_t = Queue_node_t +
  data :: u32

record Queue_t =
  count :: u32
  head :: ptr

type_synonym item_heap = "item_t heap"

definition zero_item :: item_t where
  "zero_item = \<lparr>nextp = NULL, prevp = NULL, data = 0\<rparr>"

section \<open>Operations\<close>

definition initialize_Queue_list_imp :: Queue_t where
  "initialize_Queue_list_imp = \<lparr>count = 0, head = NULL\<rparr>"

definition push_Queue_list_imp ::
    "Queue_t \<Rightarrow> ptr \<Rightarrow> item_heap \<Rightarrow> (Queue_t \<times> item_heap) option" where
  "push_Queue_list_imp self node h = do {
     (self, h) \<leftarrow>
       (if count self = 0 then do {
          let self = self\<lparr>head := node\<rparr>;
          h \<leftarrow> store h (head self) (nextp_update (\<lambda>_. head self));
          h \<leftarrow> store h (head self) (prevp_update (\<lambda>_. head self));
          Some (self, h)
        } else do {
          let nx = head self;
          hd_obj \<leftarrow> load h (head self);
          let pv = nextp hd_obj;
          h \<leftarrow> store h node (nextp_update (\<lambda>_. nx));
          h \<leftarrow> store h node (prevp_update (\<lambda>_. pv));
          h \<leftarrow> store h nx (nextp_update (\<lambda>_. node));
          h \<leftarrow> store h pv (prevp_update (\<lambda>_. node));
          Some (self, h)
        });
     Some (self\<lparr>count := count self + 1\<rparr>, h)
   }"

definition pop_Queue_list_imp ::
    "Queue_t \<Rightarrow> item_heap \<Rightarrow> (ptr \<times> Queue_t \<times> item_heap) option" where
  "pop_Queue_list_imp self h = do {
     hd_obj \<leftarrow> load h (head self);
     let nx = nextp hd_obj;
     let pv = prevp hd_obj;
     (if count self = 0 then Some (NULL, self, h)
      else if count self = 1 then do {
        let obj = head self;
        h \<leftarrow> store h obj (nextp_update (\<lambda>_. NULL));
        h \<leftarrow> store h obj (prevp_update (\<lambda>_. NULL));
        Some (obj, self\<lparr>count := count self - 1\<rparr>, h)
      } else do {
        h \<leftarrow> store h nx (nextp_update (\<lambda>_. pv));
        h \<leftarrow> store h pv (nextp_update (\<lambda>_. nx));
        let obj = head self;
        let self = self\<lparr>head := pv\<rparr>;
        h \<leftarrow> store h obj (nextp_update (\<lambda>_. NULL));
        h \<leftarrow> store h obj (prevp_update (\<lambda>_. NULL));
        Some (obj, self\<lparr>count := count self - 1\<rparr>, h)
      })
   }"

section \<open>The menu of main\<close>

type_synonym queue_state = "Queue_t \<times> item_heap"

text \<open>
  One allocation-and-push of menu entry 1; the inner \<^term>\<open>None\<close> is a failed
  \<^verbatim>\<open>calloc\<close>, on which \<^verbatim>\<open>main\<close> jumps to \<^verbatim>\<open>END\<close>.
\<close>

definition menu_push :: "u32 \<Rightarrow> queue_state \<Rightarrow> queue_state option option" where
  "menu_push v s =
     (let (q, h) = s; (item, h) = calloc zero_item h
      in if item = NULL then Some None
         else do {
           h \<leftarrow> store h item (data_update (\<lambda>_. v));
           s' \<leftarrow> push_Queue_list_imp q item h;
           Some (Some s')
         })"

text \<open>Menu entry 2: the popped datum that is printed, if there was one.\<close>

definition menu_pop :: "queue_state \<Rightarrow> (u32 option \<times> queue_state) option" where
  "menu_pop s =
     (let (q, h) = s in do {
        (node, q, h) \<leftarrow> pop_Queue_list_imp q h;
        if node = NULL then Some (None, q, h)
        else do {
          item \<leftarrow> load h node;
          h \<leftarrow> free node h;
          Some (Some (data item), q, h)
        }
      })"

text \<open>
  The loop over the integers that \<^verbatim>\<open>scanf\<close> delivers. \<open>Waiting\<close>: the input so far is
  used up; \<open>Ended\<close>: the loop was left through \<^verbatim>\<open>END\<close>. The list holds the printed data.
\<close>

datatype menu_result = Waiting queue_state "u32 list" | Ended "u32 list"

fun menu_loop :: "u32 list \<Rightarrow> queue_state \<Rightarrow> u32 list \<Rightarrow> menu_result option" where
  "menu_loop [] s out = Some (Waiting s out)"
| "menu_loop (c # inp) s out =
     (if c = 1 then
        (case inp of
           [] \<Rightarrow> Some (Waiting s out)
         | v # inp' \<Rightarrow>
             (case menu_push v s of
                None \<Rightarrow> None
              | Some None \<Rightarrow> Some (Ended out)
              | Some (Some s') \<Rightarrow> menu_loop inp' s' out))
      else if c = 2 then
        (case menu_pop s of
           None \<Rightarrow> None
         | Some (None, s') \<Rightarrow> menu_loop inp s' out
         | Some (Some d, s') \<Rightarrow> menu_loop inp s' (out @ [d]))
      else if c = 3 then Some (Ended out)
      else menu_loop inp s out)"

section \<open>Abstraction to a list\<close>

text \<open>
  \<open>queue_rep\<close> relates the linked structure to the list of its nodes, oldest first:
  the head's \<open>next\<close> is the newest node and the \<open>prev\<close> links run from old to new.
  The \<open>prev\<close> link of the newest node is unconstrained.
\<close>

definition prev_link :: "item_heap \<Rightarrow> ptr \<Rightarrow> ptr \<Rightarrow> bool" where
  "prev_link h a b \<longleftrightarrow> (\<exists>c. objs h a = Some c \<and> prevp c = b)"

definition queue_rep :: "queue_state \<Rightarrow> ptr list \<Rightarrow> bool" where
  "queue_rep s xs \<longleftrightarrow>
     (let (q, h) = s in
      distinct xs \<and> NULL \<notin> set xs \<and> set xs \<subseteq> dom (objs h) \<and>
      length xs < 2 ^ 32 \<and> count q = of_nat (length xs) \<and>
      (xs \<noteq> [] \<longrightarrow> head q = hd xs \<and> map_option nextp (objs h (hd xs)) = Some (last xs)) \<and>
      successively (prev_link h) xs)"

lemma of_nat_u32_eq_iff:
  "m < 2 ^ 32 \<Longrightarrow> n < 2 ^ 32 \<Longrightarrow> (of_nat m :: u32) = of_nat n \<longleftrightarrow> m = n"
  by (simp add: word_of_nat_eq_iff take_bit_nat_eq_self)

lemma count_cases:
  assumes "queue_rep (q, h) xs"
  shows "count q = 0 \<longleftrightarrow> xs = []" and "count q = 1 \<longleftrightarrow> length xs = 1"
  using assms of_nat_u32_eq_iff [of "length xs" 0] of_nat_u32_eq_iff [of "length xs" 1]
  by (auto simp: queue_rep_def)

lemma queue_rep_objs:
  assumes "queue_rep (q, h) xs" and "p \<in> set xs"
  obtains c where "objs h p = Some c" and "p \<noteq> NULL"
  using assms by (auto simp: queue_rep_def dest!: subsetD)

lemma queue_rep_head:
  assumes "queue_rep (q, h) xs" and "xs \<noteq> []"
  obtains c where "objs h (hd xs) = Some c" and "nextp c = last xs" and "hd xs \<noteq> NULL"
    and "head q = hd xs"
  using assms by (cases xs) (auto simp: queue_rep_def)

lemma push_rep:
  assumes rep: "queue_rep (q, h) xs" and node: "objs h node = Some c" "node \<noteq> NULL"
    and fresh: "node \<notin> set xs" and len: "Suc (length xs) < 2 ^ 32"
  shows "\<exists>q' h'. push_Queue_list_imp q node h = Some (q', h') \<and> queue_rep (q', h') (xs @ [node]) \<and>
     brk h' = brk h \<and> room h' = room h \<and> dom (objs h') = dom (objs h) \<and>
     (\<forall>p. map_option data (objs h' p) = map_option data (objs h p))"
proof (cases "xs = []")
  case True
  then show ?thesis
    using assms count_cases [OF rep]
    by (auto simp: push_Queue_list_imp_def queue_rep_def load_def store_def)
next
  case False
  let ?x = "hd xs" and ?z = "last xs"
  from False have in_set: "?x \<in> set xs" "?z \<in> set xs" by auto
  with fresh have ne: "?x \<noteq> node" "?z \<noteq> node" by auto
  from queue_rep_head [OF rep False] obtain cx
    where cx: "objs h ?x = Some cx" "nextp cx = ?z" "?x \<noteq> NULL" and hd: "head q = ?x" .
  from queue_rep_objs [OF rep in_set(2)] obtain cz
    where cz: "objs h ?z = Some cz" "?z \<noteq> NULL" .
  define h' where "h' = h\<lparr>objs := (objs h)
      (node \<mapsto> c\<lparr>nextp := ?x, prevp := ?z\<rparr>, ?x \<mapsto> cx\<lparr>nextp := node\<rparr>,
       ?z \<mapsto> (if ?x = ?z then cx\<lparr>nextp := node, prevp := node\<rparr> else cz\<lparr>prevp := node\<rparr>))\<rparr>"
  have run: "push_Queue_list_imp q node h = Some (q\<lparr>count := count q + 1\<rparr>, h')"
    using ne cx cz hd node count_cases(1) [OF rep] False
    by (auto simp: push_Queue_list_imp_def load_def store_def h'_def Let_def)
  have keep: "prev_link h' a b" if a: "a \<in> set (butlast xs)" and "prev_link h a b" for a b
  proof -
    have "a \<noteq> node" using a fresh by (auto dest: in_set_butlastD)
    moreover have "a \<noteq> ?z" using a rep by (auto simp: queue_rep_def dest: in_butlast_neq_last)
    ultimately show ?thesis using that(2) cx(1) by (auto simp: prev_link_def h'_def)
  qed
  have "successively (prev_link h') (xs @ [node])"
  proof (rule successively_snocI)
    have "successively (prev_link h) xs" using rep by (simp add: queue_rep_def)
    then show "successively (prev_link h') xs" using keep by (rule successively_mono_butlast)
    show "xs = [] \<or> prev_link h' ?z node" by (simp add: prev_link_def h'_def)
  qed
  then have "queue_rep (q\<lparr>count := count q + 1\<rparr>, h') (xs @ [node])"
    using rep False fresh node len cx cz ne
    by (auto simp: queue_rep_def h'_def)
  moreover have "dom (objs h') = dom (objs h)"
    using node cx cz ne by (auto simp: h'_def)
  moreover have "map_option data (objs h' p) = map_option data (objs h p)" for p
    using node cx cz ne by (auto simp: h'_def)
  ultimately show ?thesis using run by (auto simp: h'_def)
qed

lemma pop_rep:
  assumes rep: "queue_rep (q, h) (x # xs)"
  shows "\<exists>q' h'. pop_Queue_list_imp q h = Some (x, q', h') \<and> queue_rep (q', h') xs \<and>
     brk h' = brk h \<and> room h' = room h \<and> dom (objs h') = dom (objs h) \<and> (xs = [] \<longrightarrow> head q' = x) \<and>
     (\<forall>p. map_option data (objs h' p) = map_option data (objs h p))"
proof -
  from queue_rep_head [OF rep] obtain cx where cx: "objs h x = Some cx"
    "nextp cx = last (x # xs)" "x \<noteq> NULL" and hd: "head q = x"
    by (metis list.distinct(1) list.sel(1))
  show ?thesis
  proof (cases xs)
    case Nil
    then show ?thesis
      using rep cx hd count_cases [OF rep]
      by (auto simp: pop_Queue_list_imp_def load_def store_def queue_rep_def Let_def)
  next
    case (Cons y ys)
    let ?z = "last xs"
    have in_set: "y \<in> set (x # xs)" "?z \<in> set (x # xs)" "?z \<in> set xs" using Cons by auto
    from queue_rep_objs [OF rep in_set(1)] obtain cy where cy: "objs h y = Some cy" "y \<noteq> NULL" .
    from queue_rep_objs [OF rep in_set(2)] obtain cz where cz: "objs h ?z = Some cz" "?z \<noteq> NULL" .
    have ne: "x \<notin> set xs" "x \<noteq> y" "x \<noteq> ?z"
      using rep in_set(3) Cons by (auto simp: queue_rep_def)
    have pv: "prevp cx = y" using rep cx Cons by (simp add: queue_rep_def prev_link_def)
    define h' where "h' = h\<lparr>objs := (objs h)
      (?z \<mapsto> cz\<lparr>nextp := y\<rparr>, y \<mapsto> cy\<lparr>nextp := ?z\<rparr>, x \<mapsto> cx\<lparr>nextp := NULL, prevp := NULL\<rparr>)\<rparr>"
    have "count q \<noteq> 0" "count q \<noteq> 1" using count_cases [OF rep] Cons by auto
    then have run: "pop_Queue_list_imp q h = Some (x, q\<lparr>head := y, count := count q - 1\<rparr>, h')"
      using cx cy cz ne hd pv Cons
      by (auto simp: pop_Queue_list_imp_def load_def store_def h'_def Let_def)
    have keep: "prev_link h' a b" if "a \<in> set xs" "prev_link h a b" for a b
      using that ne cy cz by (auto simp: prev_link_def h'_def)
    have "successively (prev_link h') xs"
      using rep keep Cons by (auto simp: queue_rep_def intro: successively_mono_set)
    then have "queue_rep (q\<lparr>head := y, count := count q - 1\<rparr>, h') xs"
      using rep Cons cx cy cz ne by (auto simp: queue_rep_def h'_def)
    moreover have "dom (objs h') = dom (objs h)"
      using cx cy cz by (auto simp: h'_def)
    moreover have "map_option data (objs h' p) = map_option data (objs h p)" for p
      using cx cy cz by (auto simp: h'_def)
    ultimately show ?thesis using run Cons by (auto simp: h'_def)
  qed
qed

section \<open>The queue contract\<close>

text \<open>
  What the menu relies on: a bounded FIFO queue of values. \<open>rep s vs\<close> says that the state
  \<open>s\<close> holds the values \<open>vs\<close>, oldest first, and \<open>slots s\<close> is how many allocations
  remain. Removing from an empty queue is undefined behaviour.
\<close>

locale fifo =
  fixes rep :: "'s \<Rightarrow> 'a list \<Rightarrow> bool"
    and slots :: "'s \<Rightarrow> nat"
    and enq :: "'a \<Rightarrow> 's \<Rightarrow> 's option option"
    and deq :: "'s \<Rightarrow> ('a option \<times> 's) option"
  assumes enq_rep: "rep s vs \<Longrightarrow> 0 < slots s \<Longrightarrow>
      \<exists>s'. enq v s = Some (Some s') \<and> rep s' (vs @ [v]) \<and> slots s' = slots s - 1"
    and enq_full: "slots s = 0 \<Longrightarrow> enq v s = Some None"
    and deq_rep: "rep s (v # vs) \<Longrightarrow> \<exists>s'. deq s = Some (Some v, s') \<and> rep s' vs \<and> slots s' = slots s"
    and deq_empty: "rep s [] \<Longrightarrow> deq s = None"
begin

fun enq_all :: "'a list \<Rightarrow> 's \<Rightarrow> 's option option" where
  "enq_all [] s = Some (Some s)"
| "enq_all (v # vs) s =
     (case enq v s of Some (Some s') \<Rightarrow> enq_all vs s' | r \<Rightarrow> r)"

fun deq_n :: "nat \<Rightarrow> 's \<Rightarrow> ('a option list \<times> 's) option" where
  "deq_n 0 s = Some ([], s)"
| "deq_n (Suc n) s =
     (case deq s of None \<Rightarrow> None
      | Some (v, s') \<Rightarrow> map_option (apfst ((#) v)) (deq_n n s'))"

lemma enq_all_rep:
  "rep s vs \<Longrightarrow> length ws \<le> slots s \<Longrightarrow> \<exists>s'. enq_all ws s = Some (Some s') \<and> rep s' (vs @ ws)"
proof (induction ws arbitrary: s vs)
  case (Cons w ws)
  from enq_rep [OF Cons.prems(1), of w] Cons.prems(2)
  obtain s1 where s1: "enq w s = Some (Some s1)" "rep s1 (vs @ [w])" "slots s1 = slots s - 1"
    by auto
  then show ?case using Cons.IH [OF s1(2)] Cons.prems(2) by simp
qed auto

lemma deq_n_rep:
  "rep s (vs @ ws) \<Longrightarrow> \<exists>s'. deq_n (length vs) s = Some (map Some vs, s') \<and> rep s' ws"
proof (induction vs arbitrary: s)
  case (Cons v vs)
  then obtain s1 where s1: "deq s = Some (Some v, s1)" "rep s1 (vs @ ws)"
    using deq_rep by fastforce
  then show ?case using Cons.IH [OF s1(2)] by auto
qed auto

lemma first_in_first_out:
  assumes "rep s []" and "length vs \<le> slots s"
  shows "\<exists>s' s''. enq_all vs s = Some (Some s') \<and>
    deq_n (length vs) s' = Some (map Some vs, s'') \<and> deq s'' = None"
  using enq_all_rep [OF assms] deq_n_rep [of _ vs "[]"] deq_empty by fastforce

end

section \<open>The implementation meets the contract\<close>

text \<open>
  Values held by a state of the menu loop. An empty queue's \<open>head\<close> is either null or points
  to an item that \<^verbatim>\<open>main\<close> has freed. The bound keeps the 32-bit element count exact.
\<close>

definition queue_holds :: "queue_state \<Rightarrow> u32 list \<Rightarrow> bool" where
  "queue_holds s vs \<longleftrightarrow>
     heap_ok (snd s) \<and> room (snd s) + length vs < 2 ^ 32 \<and>
     (vs = [] \<longrightarrow> objs (snd s) (head (fst s)) = None) \<and>
     (\<exists>xs. queue_rep s xs \<and> map (\<lambda>p. map_option data (objs (snd s) p)) xs = map Some vs)"

definition queue_slots :: "queue_state \<Rightarrow> nat" where
  "queue_slots s = room (snd s)"

lemma queue_rep_cong:
  assumes "queue_rep (q, h) xs" and "\<And>p. p \<in> set xs \<Longrightarrow> objs h' p = objs h p"
  shows "queue_rep (q, h') xs"
  using assms
  by (cases xs) (auto simp: queue_rep_def prev_link_def dom_def subset_eq
      intro: successively_mono_set)

lemma queue_holds_init: "n < 2 ^ 32 \<Longrightarrow> queue_holds (initialize_Queue_list_imp, empty_heap n) []"
  by (simp add: queue_holds_def queue_rep_def initialize_Queue_list_imp_def empty_heap_def
      heap_ok_def)

lemma menu_push_holds:
  assumes holds: "queue_holds s vs" and slots: "0 < queue_slots s"
  shows "\<exists>s'. menu_push v s = Some (Some s') \<and> queue_holds s' (vs @ [v]) \<and>
    queue_slots s' = queue_slots s - 1"
proof -
  obtain q h where s: "s = (q, h)" by (cases s)
  let ?n = "brk h"
  define h1 where "h1 = h\<lparr>objs := (objs h)(?n \<mapsto> zero_item\<lparr>data := v\<rparr>), brk := Suc ?n,
      room := room h - 1\<rparr>"
  from holds s obtain xs where ok: "heap_ok h" and bnd: "room h + length vs < 2 ^ 32"
    and rep: "queue_rep (q, h) xs"
    and dat: "map (\<lambda>p. map_option data (objs h p)) xs = map Some vs"
    by (auto simp: queue_holds_def)
  have fresh: "?n \<notin> set xs"
    using rep calloc_fresh [OF ok] by (auto simp: queue_rep_def)
  have len: "length xs = length vs" using dat by (metis length_map)
  have rep1: "queue_rep (q, h1) xs"
    by (rule queue_rep_cong [OF rep]) (use fresh in \<open>auto simp: h1_def\<close>)
  have "objs h1 ?n = Some (zero_item\<lparr>data := v\<rparr>)" "?n \<noteq> NULL"
    using ok by (auto simp: h1_def heap_ok_def)
  from push_rep [OF rep1 this fresh] bnd slots len s obtain q' h'
    where push: "push_Queue_list_imp q ?n h1 = Some (q', h')"
      and rep': "queue_rep (q', h') (xs @ [?n])" and brk': "brk h' = brk h1" "room h' = room h1"
      and dom': "dom (objs h') = dom (objs h1)"
      and dat': "\<And>p. map_option data (objs h' p) = map_option data (objs h1 p)"
    by (auto simp: queue_slots_def)
  have run: "menu_push v s = Some (Some (q', h'))"
    using slots ok push by (cases h) (auto simp: menu_push_def s queue_slots_def calloc_def store_def
        load_def h1_def heap_ok_def zero_item_def)
  have "heap_ok h1" using ok by (auto simp: heap_ok_def h1_def less_Suc_eq)
  then have "heap_ok h'" using brk' dom' by (simp add: heap_ok_def)
  moreover have "map (\<lambda>p. map_option data (objs h1 p)) xs = map (\<lambda>p. map_option data (objs h p)) xs"
    using fresh by (auto simp: h1_def)
  ultimately have "queue_holds (q', h') (vs @ [v])"
    using rep' bnd slots s brk' dat' dat
    by (auto simp: queue_holds_def queue_slots_def h1_def intro!: exI [of _ "xs @ [?n]"])
  then show ?thesis using run brk' s by (auto simp: queue_slots_def h1_def)
qed

lemma menu_pop_holds:
  assumes "queue_holds s (v # vs)"
  shows "\<exists>s'. menu_pop s = Some (Some v, s') \<and> queue_holds s' vs \<and> queue_slots s' = queue_slots s"
proof -
  obtain q h where s: "s = (q, h)" by (cases s)
  from assms s obtain x xs where ok: "heap_ok h" and bnd: "room h + length (v # vs) < 2 ^ 32"
    and rep: "queue_rep (q, h) (x # xs)"
    and dat: "map (\<lambda>p. map_option data (objs h p)) (x # xs) = map Some (v # vs)"
    by (auto simp: queue_holds_def)
  from pop_rep [OF rep] obtain q' h' where pop: "pop_Queue_list_imp q h = Some (x, q', h')"
    and rep': "queue_rep (q', h') xs" and brk': "brk h' = brk h" "room h' = room h"
    and dom': "dom (objs h') = dom (objs h)" and last: "xs = [] \<longrightarrow> head q' = x"
    and dat': "\<And>p. map_option data (objs h' p) = map_option data (objs h p)"
    by auto
  define h2 where "h2 = h'\<lparr>objs := (objs h')(x := None)\<rparr>"
  have x: "x \<noteq> NULL" "x \<notin> set xs" using rep by (auto simp: queue_rep_def)
  from dat dat' have dx: "map_option data (objs h' x) = Some v" by simp
  have run: "menu_pop s = Some (Some v, q', h2)"
    using pop x dx by (auto simp: menu_pop_def s load_def free_def h2_def)
  have "heap_ok h2" using ok brk' dom' by (auto simp: heap_ok_def h2_def)
  moreover have "queue_rep (q', h2) xs"
    by (rule queue_rep_cong [OF rep']) (use x in \<open>auto simp: h2_def\<close>)
  moreover have "map (\<lambda>p. map_option data (objs h2 p)) xs = map (\<lambda>p. map_option data (objs h p)) xs"
    using dat' x by (intro map_cong) (auto simp: h2_def)
  with dat have "map (\<lambda>p. map_option data (objs h2 p)) xs = map Some vs" by simp
  moreover have "vs = [] \<longrightarrow> objs h2 (head q') = None"
    using last dat by (auto simp: h2_def)
  moreover have "room h2 + length vs < 2 ^ 32" using bnd brk' by (simp add: h2_def)
  ultimately have "queue_holds (q', h2) vs" unfolding queue_holds_def by auto
  then show ?thesis using run brk' s by (auto simp: queue_slots_def h2_def)
qed

lemma menu_pop_empty: "queue_holds s [] \<Longrightarrow> menu_pop s = None"
  by (cases s) (simp add: queue_holds_def menu_pop_def pop_Queue_list_imp_def load_def)

lemma menu_push_full: "queue_slots s = 0 \<Longrightarrow> menu_push v s = Some None"
  by (cases s) (simp add: queue_slots_def menu_push_def calloc_def)

interpretation pq: fifo queue_holds queue_slots menu_push menu_pop
  by unfold_locales
    (rule menu_push_holds menu_push_full menu_pop_holds menu_pop_empty; assumption)+

section \<open>Properties of the menu program\<close>

text \<open>
  The reference behaviour of the menu on a plain list of values: \<open>Waiting\<close> becomes
  \<open>(False, out)\<close>, \<open>Ended\<close> becomes \<open>(True, out)\<close>, and a removal from the empty
  queue has no defined behaviour.
\<close>

fun spec_loop :: "u32 list \<Rightarrow> nat \<Rightarrow> u32 list \<Rightarrow> u32 list \<Rightarrow> (bool \<times> u32 list) option" where
  "spec_loop [] n vs out = Some (False, out)"
| "spec_loop (c # inp) n vs out =
     (if c = 1 then
        (case inp of [] \<Rightarrow> Some (False, out)
         | v # inp' \<Rightarrow> if n = 0 then Some (True, out) else spec_loop inp' (n - 1) (vs @ [v]) out)
      else if c = 2 then
        (case vs of [] \<Rightarrow> None | v # vs' \<Rightarrow> spec_loop inp n vs' (out @ [v]))
      else if c = 3 then Some (True, out)
      else spec_loop inp n vs out)"

fun menu_view :: "menu_result \<Rightarrow> bool \<times> u32 list" where
  "menu_view (Waiting s out) = (False, out)"
| "menu_view (Ended out) = (True, out)"

lemma menu_loop_refines:
  "queue_holds s vs \<Longrightarrow>
     map_option menu_view (menu_loop inp s out) = spec_loop inp (queue_slots s) vs out"
proof (induction inp s out arbitrary: vs rule: menu_loop.induct)
  case (2 c inp s out)
  consider (push) "c = 1" | (pop) "c = 2" | (other) "c \<noteq> 1" "c \<noteq> 2" by auto
  then show ?case
  proof cases
    case push
    show ?thesis
    proof (cases inp)
      case (Cons v inp')
      show ?thesis
      proof (cases "queue_slots s = 0")
        case False
        with pq.enq_rep [OF 2(5), of v] obtain s1 where "menu_push v s = Some (Some s1)"
          "queue_holds s1 (vs @ [v])" "queue_slots s1 = queue_slots s - 1" by auto
        then show ?thesis using push Cons False 2(1) [of v inp'] by simp
      qed (use push Cons pq.enq_full in simp)
    qed (use push in simp)
  next
    case pop
    show ?thesis
    proof (cases vs)
      case Nil
      with 2(5) pop show ?thesis using pq.deq_empty by simp
    next
      case (Cons v ws)
      with 2(5) pq.deq_rep obtain s1 where "menu_pop s = Some (Some v, s1)"
        "queue_holds s1 ws" "queue_slots s1 = queue_slots s" by blast
      then show ?thesis using pop Cons 2(3) by simp
    qed
  next
    case other
    with 2 show ?thesis by simp
  qed
qed simp

lemma menu_loop_pushes:
  "pq.enq_all vs s = Some (Some s') \<Longrightarrow>
     menu_loop (concat (map (\<lambda>v. [1, v]) vs) @ inp) s out = menu_loop inp s' out"
  by (induction vs arbitrary: s) (auto split: option.splits)

lemma menu_loop_pops:
  "pq.deq_n (length vs) s = Some (map Some vs, s') \<Longrightarrow>
     menu_loop (replicate (length vs) 2 @ inp) s out = menu_loop inp s' (out @ vs)"
  by (induction vs arbitrary: s out) (fastforce split: option.splits)+

text \<open>C2. The menu program refines a FIFO queue of integers: on every input, with fewer than
  2^32 allocations available, the linked-list implementation prints exactly what the list
  specification prints, ends exactly when it ends (menu entry 3 or a failed allocation), and has
  undefined behaviour exactly when the specification removes from an empty queue.\<close>

theorem menu_refines_fifo:
  assumes "n < 2 ^ 32"
  shows "map_option menu_view (menu_loop inp (initialize_Queue_list_imp, empty_heap n) []) =
    spec_loop inp n [] []"
  using menu_loop_refines [OF queue_holds_init [OF assms]]
  by (simp add: queue_slots_def empty_heap_def)

theorem menu_refines_fifo_witness:
  "(2::nat) < 2 ^ 32 \<and>
   map_option menu_view (menu_loop [1, 7, 1, 9, 2, 2, 3] (initialize_Queue_list_imp, empty_heap 2) [])
     = Some (True, [7, 9])"
  using menu_refines_fifo [of 2 "[1, 7, 1, 9, 2, 2, 3]"] by simp

text \<open>First in, first out: pushing any values that fit into memory and then popping as many
  prints them in the order they were pushed, and one pop more is undefined behaviour.\<close>

theorem menu_first_in_first_out:
  assumes "length vs \<le> n" and "n < 2 ^ 32"
  shows "menu_loop (concat (map (\<lambda>v. [1, v]) vs) @ replicate (length vs) 2 @ [3])
      (initialize_Queue_list_imp, empty_heap n) [] = Some (Ended vs) \<and>
    menu_loop (concat (map (\<lambda>v. [1, v]) vs) @ replicate (length vs) 2 @ [2])
      (initialize_Queue_list_imp, empty_heap n) [] = None"
proof -
  have "length vs \<le> queue_slots (initialize_Queue_list_imp, empty_heap n)"
    using assms by (simp add: queue_slots_def empty_heap_def)
  from pq.first_in_first_out [OF queue_holds_init [OF assms(2)] this] obtain s' s''
    where "pq.enq_all vs (initialize_Queue_list_imp, empty_heap n) = Some (Some s')"
      and "pq.deq_n (length vs) s' = Some (map Some vs, s'')" and "menu_pop s'' = None"
    by blast
  then show ?thesis by (simp add: menu_loop_pushes menu_loop_pops)
qed

theorem menu_first_in_first_out_witness:
  "length [5, 6, 4 :: u32] \<le> 3 \<and> (3::nat) < 2 ^ 32 \<and>
   menu_loop (concat (map (\<lambda>v. [1, v]) [5, 6, 4]) @ replicate (length [5, 6, 4 :: u32]) 2 @ [3])
      (initialize_Queue_list_imp, empty_heap 3) [] = Some (Ended [5, 6, 4])"
  using menu_first_in_first_out [of "[5, 6, 4]" 3] by (simp del: menu_loop.simps)

text \<open>The link structure: on a well-formed queue whose nodes are \<open>x # xs\<close>, pushing a node
  that is not in the queue and then popping returns the oldest node \<open>x\<close> and
  leaves a well-formed queue \<open>xs @ [node]\<close>; no datum of any item changes.\<close>

theorem push_pop_nodes:
  assumes rep: "queue_rep (q, h) (x # xs)" and node: "objs h node = Some c" "node \<noteq> NULL"
    and fresh: "node \<notin> set (x # xs)" and len: "Suc (length (x # xs)) < 2 ^ 32"
  shows "\<exists>q1 h1 q2 h2. push_Queue_list_imp q node h = Some (q1, h1) \<and>
    pop_Queue_list_imp q1 h1 = Some (x, q2, h2) \<and> queue_rep (q2, h2) (xs @ [node]) \<and>
    (\<forall>p. map_option data (objs h2 p) = map_option data (objs h p))"
proof -
  from push_rep [OF assms] obtain q1 h1 where push: "push_Queue_list_imp q node h = Some (q1, h1)"
    and rep1: "queue_rep (q1, h1) (x # (xs @ [node]))"
    and dat1: "\<forall>p. map_option data (objs h1 p) = map_option data (objs h p)"
    by auto
  from pop_rep [OF rep1] push dat1 show ?thesis by auto
qed

theorem push_pop_nodes_witness:
  "\<exists>q1 h1 q2 h2.
     push_Queue_list_imp \<lparr>count = 1, head = 1\<rparr> 2
       \<lparr>objs = [1 \<mapsto> \<lparr>nextp = 1, prevp = 1, data = 7\<rparr>, 2 \<mapsto> zero_item], brk = 3, room = 0\<rparr>
       = Some (q1, h1) \<and>
     pop_Queue_list_imp q1 h1 = Some (1, q2, h2) \<and> queue_rep (q2, h2) [2]"
  using push_pop_nodes [of "\<lparr>count = 1, head = 1\<rparr>"
      "\<lparr>objs = [1 \<mapsto> \<lparr>nextp = 1, prevp = 1, data = 7\<rparr>, 2 \<mapsto> zero_item], brk = 3, room = 0\<rparr>"
      1 "[]" 2 zero_item]
  by (auto simp: queue_rep_def)

text \<open>Popping a freshly initialised queue is undefined behaviour: \<^verbatim>\<open>self->head->next\<close> is
  read before the emptiness test, while \<open>head\<close> is still null, so the branch that should return
  a null object is never reached from the initial state.\<close>

theorem pop_initial_undefined: "pop_Queue_list_imp initialize_Queue_list_imp h = None"
  by (simp add: pop_Queue_list_imp_def initialize_Queue_list_imp_def)

end
