(* ===== verification/Prog_Quicksort.thy ===== *)
theory Prog_Quicksort
  imports Prelude
begin

text \<open>
  The in-place quicksort of \<^verbatim>\<open>src/prog_quicksort.c\<close>. The array is a list; indices are C
  \<open>int\<close>s (negative values occur: \<open>pivIndex - 1\<close> can be \<open>-1\<close>), and an access out of
  range is undefined behaviour. The \<open>goto partLS\<close> into the body of the \<open>do\<close> loop is the
  entry of \<open>part_loop\<close>, which starts with the two scans. \<open>part_loop\<close> and
  \<open>quicksort\<close> are partial functions of the option monad: returning is proved, not assumed.
\<close>

section \<open>The program\<close>

function scan_up :: "int list \<Rightarrow> int \<Rightarrow> int \<Rightarrow> int \<Rightarrow> int option" where
  "scan_up y piv l up =
     (case aget y up of None \<Rightarrow> None
      | Some v \<Rightarrow> if v \<le> piv \<and> up < l then scan_up y piv l (up + 1) else Some up)"
  by pat_completeness auto
termination
  by (relation "measure (\<lambda>(y, piv, l, up). nat (l - up))") auto

function scan_down :: "int list \<Rightarrow> int \<Rightarrow> int \<Rightarrow> int \<Rightarrow> int option" where
  "scan_down y piv f down =
     (case aget y down of None \<Rightarrow> None
      | Some v \<Rightarrow> if v > piv \<and> down > f then scan_down y piv f (down - 1) else Some down)"
  by pat_completeness auto
termination
  by (relation "measure (\<lambda>(y, piv, f, down). nat (down - f))") auto

partial_function (option) part_loop ::
    "int list \<Rightarrow> int \<Rightarrow> int \<Rightarrow> int \<Rightarrow> int \<Rightarrow> int \<Rightarrow> (int list \<times> int) option" where
  "part_loop y piv f l up down = do {
     up \<leftarrow> scan_up y piv l up;
     down \<leftarrow> scan_down y piv f down;
     if down > up then do {
       temp \<leftarrow> aget y up;
       v \<leftarrow> aget y down;
       y \<leftarrow> aset y up v;
       y \<leftarrow> aset y down temp;
       part_loop y piv f l up down
     } else Some (y, down)
   }"

definition partition :: "int list \<Rightarrow> int \<Rightarrow> int \<Rightarrow> (int list \<times> int) option" where
  "partition y f l = do {
     piv \<leftarrow> aget y f;
     (y, down) \<leftarrow> part_loop y piv f l f l;
     v \<leftarrow> aget y down;
     y \<leftarrow> aset y f v;
     y \<leftarrow> aset y down piv;
     Some (y, down)
   }"

partial_function (option) quicksort :: "int list \<Rightarrow> int \<Rightarrow> int \<Rightarrow> int list option" where
  "quicksort x first lst =
     (if first < lst then do {
        (x, pivIndex) \<leftarrow> partition x first lst;
        x \<leftarrow> quicksort x first (pivIndex - 1);
        quicksort x (pivIndex + 1) lst
      } else Some x)"

text \<open>The array sorted and printed by \<^verbatim>\<open>main\<close>.\<close>

definition qs_input :: "int list" where
  "qs_input = [40, 20, 10, 80, 60, 50, 7, 30, 100]"

definition qs_main :: "int list option" where
  "qs_main = quicksort qs_input 0 8"

declare scan_up.simps [simp del] scan_down.simps [simp del]

section \<open>The scans\<close>

abbreviation elem :: "int list \<Rightarrow> int \<Rightarrow> int" where
  "elem y i \<equiv> y ! nat i"

lemma scan_up_ok:
  "0 \<le> up \<Longrightarrow> up \<le> l \<Longrightarrow> l < int (length y) \<Longrightarrow>
   \<exists>u. scan_up y piv l up = Some u \<and> up \<le> u \<and> u \<le> l \<and>
     (\<forall>i. up \<le> i \<and> i < u \<longrightarrow> elem y i \<le> piv) \<and> (u < l \<longrightarrow> piv < elem y u)"
proof (induction y piv l up rule: scan_up.induct)
  case (1 y piv l up)
  show ?case
  proof (cases "elem y up \<le> piv \<and> up < l")
    case True
    with 1 obtain u where u: "scan_up y piv l (up + 1) = Some u" "up + 1 \<le> u" "u \<le> l"
      "\<forall>i. up + 1 \<le> i \<and> i < u \<longrightarrow> elem y i \<le> piv" "u < l \<longrightarrow> piv < elem y u" by auto
    have "elem y i \<le> piv" if "up \<le> i" "i < u" for i
      using that True u(4) by (cases "i = up") auto
    with u True 1 show ?thesis by (subst scan_up.simps) auto
  next
    case False
    with 1 show ?thesis by (subst scan_up.simps) auto
  qed
qed

lemma scan_down_ok:
  "0 \<le> f \<Longrightarrow> f \<le> down \<Longrightarrow> down < int (length y) \<Longrightarrow>
   \<exists>d. scan_down y piv f down = Some d \<and> f \<le> d \<and> d \<le> down \<and>
     (\<forall>i. d < i \<and> i \<le> down \<longrightarrow> piv < elem y i) \<and> (f < d \<longrightarrow> elem y d \<le> piv)"
proof (induction y piv f down rule: scan_down.induct)
  case (1 y piv f down)
  show ?case
  proof (cases "piv < elem y down \<and> f < down")
    case True
    with 1 obtain d where d: "scan_down y piv f (down - 1) = Some d" "f \<le> d" "d \<le> down - 1"
      "\<forall>i. d < i \<and> i \<le> down - 1 \<longrightarrow> piv < elem y i" "f < d \<longrightarrow> elem y d \<le> piv" by auto
    have "piv < elem y i" if "d < i" "i \<le> down" for i
      using that True d(4) by (cases "i = down") auto
    with d True 1 show ?thesis by (subst scan_down.simps) auto
  next
    case False
    with 1 show ?thesis by (subst scan_down.simps) auto
  qed
qed

section \<open>Rearranging a range\<close>

text \<open>\<open>rearranged y y' a b\<close>: \<open>y'\<close> is a permutation of \<open>y\<close> that leaves every
  position outside \<open>a..b\<close> alone.\<close>

definition rearranged :: "int list \<Rightarrow> int list \<Rightarrow> int \<Rightarrow> int \<Rightarrow> bool" where
  "rearranged y y' a b \<longleftrightarrow> length y' = length y \<and> mset y' = mset y \<and>
     (\<forall>i. 0 \<le> i \<and> (i < a \<or> b < i) \<longrightarrow> elem y' i = elem y i)"

lemma rearranged_refl [simp, intro]: "rearranged y y a b"
  by (simp add: rearranged_def)

lemma rearranged_trans:
  "rearranged x y a b \<Longrightarrow> rearranged y z c d \<Longrightarrow> A \<le> a \<Longrightarrow> b \<le> B \<Longrightarrow> A \<le> c \<Longrightarrow> d \<le> B \<Longrightarrow>
   rearranged x z A B"
  by (auto simp: rearranged_def)

lemma rearranged_swap:
  assumes "0 \<le> a" "a \<le> i" "i \<le> b" "a \<le> j" "j \<le> b" "b < int (length y)"
  shows "rearranged y (y[nat i := elem y j, nat j := elem y i]) a b"
  using assms mset_swap [of "nat j" y "nat i"]
  by (auto simp: rearranged_def nth_list_update nat_eq_iff)

lemma mset_conv_range:
  "mset (y :: 'a list) = image_mset ((!) y) (mset_set {..<length y})"
  by (metis map_nth mset_map mset_upt atLeast0LessThan mset_set_upto_eq_mset_upto)

lemma rearranged_elem:
  assumes "rearranged y y' a b" and "0 \<le> a" "a \<le> i" "i \<le> b" "b < int (length y)"
  shows "\<exists>j. a \<le> j \<and> j \<le> b \<and> elem y' i = elem y j"
proof -
  let ?R = "{nat a..nat b}" and ?n = "length y"
  let ?O = "{..<?n} - ?R"
  have split: "{..<?n} = ?R \<union> ?O" using assms by auto
  have dec: "mset z = image_mset ((!) z) (mset_set ?R) + image_mset ((!) z) (mset_set ?O)"
    if "length z = ?n" for z :: "int list"
    by (subst mset_conv_range, simp only: that, subst split, subst mset_set_Union) auto
  have out: "y' ! k = y ! k" if "k \<in> ?O" for k
  proof -
    have "int k < a \<or> b < int k" using that by auto
    then show ?thesis using assms(1) unfolding rearranged_def by (metis nat_int of_nat_0_le_iff)
  qed
  have "image_mset ((!) y') (mset_set ?O) = image_mset ((!) y) (mset_set ?O)"
    by (intro image_mset_cong) (use out in auto)
  then have "image_mset ((!) y') (mset_set ?R) = image_mset ((!) y) (mset_set ?R)"
    using dec [of y] dec [of y'] assms(1) by (simp add: rearranged_def)
  then have eq: "(!) y' ` ?R = (!) y ` ?R"
    by (metis finite_atLeastAtMost finite_set_mset_mset_set set_image_mset)
  have "elem y' i \<in> (!) y' ` ?R" using assms by (intro imageI) auto
  then have "elem y' i \<in> (!) y ` ?R" unfolding eq .
  then obtain k where k: "k \<in> ?R" "elem y' i = y ! k" by auto
  then show ?thesis using assms(2-4) by (intro exI [of _ "int k"]) auto
qed

section \<open>Partition\<close>

definition partitioned :: "int list \<Rightarrow> int \<Rightarrow> int \<Rightarrow> int \<Rightarrow> int \<Rightarrow> bool" where
  "partitioned y piv f d l \<longleftrightarrow> f \<le> d \<and> d \<le> l \<and>
     (\<forall>i. f \<le> i \<and> i \<le> d \<longrightarrow> elem y i \<le> piv) \<and> (\<forall>i. d < i \<and> i \<le> l \<longrightarrow> piv < elem y i)"

lemma part_loop_ok:
  assumes "0 \<le> f" "f \<le> up" "up < down" "down \<le> l" "l < int (length y)" "elem y f = piv"
    and "\<forall>i. f \<le> i \<and> i \<le> up \<longrightarrow> elem y i \<le> piv" and "\<forall>i. down < i \<and> i \<le> l \<longrightarrow> piv < elem y i"
  shows "\<exists>y' d. part_loop y piv f l up down = Some (y', d) \<and> rearranged y y' f l \<and>
    elem y' f = piv \<and> partitioned y' piv f d l"
  using assms
proof (induction "nat (down - up)" arbitrary: y up down rule: less_induct)
  case less
  from less.prems scan_up_ok [of up l y piv] obtain u where u: "scan_up y piv l up = Some u" "up \<le> u"
    "u \<le> l" "\<forall>i. up \<le> i \<and> i < u \<longrightarrow> elem y i \<le> piv" "u < l \<longrightarrow> piv < elem y u" by auto
  from less.prems scan_down_ok [of f down y piv] obtain d where d: "scan_down y piv f down = Some d"
    "f \<le> d" "d \<le> down" "\<forall>i. d < i \<and> i \<le> down \<longrightarrow> piv < elem y i" "f < d \<longrightarrow> elem y d \<le> piv" by auto
  have low: "elem y i \<le> piv" if "f \<le> i" "i < u" for i
    using that u(4) less.prems(7) by (cases "i \<le> up") auto
  have high: "piv < elem y i" if "d < i" "i \<le> l" for i
    using that d(4) less.prems(8) by (cases "i \<le> down") auto
  have up: "up < u" using u less.prems by (cases "up = u") force+
  show ?case
  proof (cases "u < d")
    case True
    define z where "z = y[nat u := elem y d, nat d := elem y u]"
    have run: "part_loop y piv f l up down = part_loop z piv f l u d"
      using True u(1) d(1) less.prems up d(3) by (subst part_loop.simps) (simp add: z_def)
    have sw: "rearranged y z f l"
      unfolding z_def using True less.prems up d(3) by (intro rearranged_swap) auto
    have el: "elem z i = (if i = u then elem y d else if i = d then elem y u else elem y i)"
      if "0 \<le> i" "i \<le> l" for i
      using that True less.prems up d(3) by (auto simp: z_def nth_list_update nat_eq_iff)
    have low': "\<forall>i. f \<le> i \<and> i \<le> u \<longrightarrow> elem z i \<le> piv"
      using low el d(5) u(3) True up less.prems by auto
    have high': "\<forall>i. d < i \<and> i \<le> l \<longrightarrow> piv < elem z i"
      using high el True up less.prems by auto
    have f': "elem z f = piv" using el [of f] True up less.prems d by auto
    have "\<exists>y' e. part_loop z piv f l u d = Some (y', e) \<and> rearranged z y' f l \<and>
      elem y' f = piv \<and> partitioned y' piv f e l"
      by (rule less.hyps) (use True up d low' high' f' less.prems sw in \<open>auto simp: rearranged_def\<close>)
    then show ?thesis using run rearranged_trans [OF sw] by fastforce
  next
    case False
    then have "part_loop y piv f l up down = Some (y, d)"
      using u(1) d(1) by (subst part_loop.simps) simp
    moreover have "partitioned y piv f d l"
      unfolding partitioned_def using False low high d u(3) less.prems
      by (metis dual_order.order_iff_strict not_less order_le_less_trans order_refl)
    ultimately show ?thesis using less.prems by auto
  qed
qed

lemma partition_ok:
  assumes "0 \<le> f" "f < l" "l < int (length y)"
  shows "\<exists>y' p. partition y f l = Some (y', p) \<and> rearranged y y' f l \<and> f \<le> p \<and> p \<le> l \<and>
    (\<forall>i. f \<le> i \<and> i \<le> p \<longrightarrow> elem y' i \<le> elem y' p) \<and> (\<forall>i. p < i \<and> i \<le> l \<longrightarrow> elem y' p < elem y' i)"
proof -
  have "\<forall>i. f \<le> i \<and> i \<le> f \<longrightarrow> elem y i \<le> elem y f" by (metis order_antisym order_refl)
  with part_loop_ok [of f f l l y "elem y f"] assms obtain z d
    where z: "part_loop y (elem y f) f l f l = Some (z, d)" "rearranged y z f l"
      "elem z f = elem y f" "partitioned z (elem y f) f d l" by auto
  define y1 where "y1 = z[nat f := elem z d, nat d := elem z f]"
  have len: "length z = length y" using z(2) by (simp add: rearranged_def)
  have d: "f \<le> d" "d \<le> l" using z(4) by (auto simp: partitioned_def)
  have run: "partition y f l = Some (y1, d)"
    using z assms len d by (simp add: partition_def y1_def)
  have sw: "rearranged z y1 f l"
    unfolding y1_def using assms len d by (intro rearranged_swap) auto
  have el: "elem y1 i = (if i = d then elem z f else if i = f then elem z d else elem z i)"
    if "f \<le> i" "i \<le> l" for i
    using that assms len d by (auto simp: y1_def nth_list_update nat_eq_iff)
  have "\<forall>i. f \<le> i \<and> i \<le> d \<longrightarrow> elem y1 i \<le> elem y1 d"
    using el z(3,4) d by (auto simp: partitioned_def)
  moreover have "\<forall>i. d < i \<and> i \<le> l \<longrightarrow> elem y1 d < elem y1 i"
    using el z(3,4) d by (auto simp: partitioned_def)
  ultimately show ?thesis using run rearranged_trans [OF z(2) sw] d by auto
qed

section \<open>Quicksort\<close>

definition sorted_range :: "int list \<Rightarrow> int \<Rightarrow> int \<Rightarrow> bool" where
  "sorted_range y a b \<longleftrightarrow> (\<forall>i j. a \<le> i \<and> i \<le> j \<and> j \<le> b \<longrightarrow> elem y i \<le> elem y j)"

lemma sorted_range_join:
  assumes "sorted_range y f (p - 1)" "sorted_range y (p + 1) l"
    and "\<And>i. f \<le> i \<Longrightarrow> i < p \<Longrightarrow> elem y i \<le> elem y p" and "\<And>i. p < i \<Longrightarrow> i \<le> l \<Longrightarrow> elem y p \<le> elem y i"
  shows "sorted_range y f l"
  unfolding sorted_range_def
proof (intro allI impI)
  fix i j assume ij: "f \<le> i \<and> i \<le> j \<and> j \<le> l"
  consider "j < p" | "i < p" "p \<le> j" | "i = p" | "p < i" by linarith
  then show "elem y i \<le> elem y j"
  proof cases
    case 2
    with assms(3) [of i] assms(4) [of j] ij show ?thesis by (cases "j = p") auto
  next
    case 3
    with assms(4) [of j] ij show ?thesis by (cases "j = p") auto
  qed (use assms(1,2) ij in \<open>auto simp: sorted_range_def\<close>)
qed

lemma quicksort_ok:
  assumes "0 \<le> first" "lst < int (length x)"
  shows "\<exists>x'. quicksort x first lst = Some x' \<and> rearranged x x' first lst \<and>
    sorted_range x' first lst"
  using assms
proof (induction "nat (lst - first + 1)" arbitrary: x first lst rule: less_induct)
  case less
  show ?case
  proof (cases "first < lst")
    case False
    then have "sorted_range x first lst"
      unfolding sorted_range_def by (metis not_less order_antisym order_refl order_trans)
    with False show ?thesis by (subst quicksort.simps) simp
  next
    case True
    with partition_ok less.prems obtain y p where y: "partition x first lst = Some (y, p)"
      "rearranged x y first lst" "first \<le> p" "p \<le> lst"
      "\<forall>i. first \<le> i \<and> i \<le> p \<longrightarrow> elem y i \<le> elem y p" "\<forall>i. p < i \<and> i \<le> lst \<longrightarrow> elem y p < elem y i"
      by blast
    have len: "length y = length x" using y(2) by (simp add: rearranged_def)
    from less.hyps [of "p - 1" first y] less.prems y len obtain z
      where z: "quicksort y first (p - 1) = Some z" "rearranged y z first (p - 1)"
        "sorted_range z first (p - 1)" by auto
    have lenz: "length z = length x" using z(2) len by (simp add: rearranged_def)
    from less.hyps [of lst "p + 1" z] less.prems y lenz obtain w
      where w: "quicksort z (p + 1) lst = Some w" "rearranged z w (p + 1) lst"
        "sorted_range w (p + 1) lst" by auto
    have run: "quicksort x first lst = Some w"
      using True y(1) z(1) w(1) by (subst quicksort.simps) simp
    have zw: "elem w i = elem z i" if "first \<le> i" "i \<le> p" for i
      using that w(2) less.prems by (auto simp: rearranged_def)
    have yz: "elem z i = elem y i" if "p \<le> i" "i \<le> lst" for i
      using that z(2) y(3) less.prems by (auto simp: rearranged_def)
    have low: "elem w i \<le> elem w p" if i: "first \<le> i" "i < p" for i
    proof -
      obtain j where j: "first \<le> j" "j \<le> p - 1" "elem z i = elem y j"
        using rearranged_elem [OF z(2), of i] less.prems i y len by auto
      then have "elem z i \<le> elem y p" using y(5) by auto
      then show ?thesis using zw [of i] zw [of p] yz [of p] i y by auto
    qed
    have high: "elem w p \<le> elem w i" if i: "p < i" "i \<le> lst" for i
    proof -
      obtain j where j: "p + 1 \<le> j" "j \<le> lst" "elem w i = elem z j"
        using rearranged_elem [OF w(2), of i] less.prems i y lenz by auto
      then have "elem y p < elem y j" using y(6) by auto
      then show ?thesis using j yz [of j] zw [of p] yz [of p] y(3,4) by auto
    qed
    have "sorted_range w first (p - 1)"
      using z(3) zw by (auto simp: sorted_range_def)
    then have "sorted_range w first lst"
      using w(3) low high by (rule sorted_range_join)
    moreover have "rearranged x z first lst" using y(2) z(2) by (rule rearranged_trans) (use y in auto)
    then have "rearranged x w first lst" using w(2) by (rule rearranged_trans) (use y in auto)
    ultimately show ?thesis using run by blast
  qed
qed

text \<open>C10. Quicksort is total, in bounds and correct on a subrange: for every array and every
  range inside it the call returns without an out-of-range access, permutes the array, leaves the
  positions outside the range unchanged and leaves the range in ascending order.\<close>

theorem quicksort_range_correct:
  assumes "0 \<le> first" "lst < int (length x)"
  shows "\<exists>x'. quicksort x first lst = Some x' \<and> length x' = length x \<and> mset x' = mset x \<and>
    (\<forall>i. 0 \<le> i \<and> (i < first \<or> lst < i) \<longrightarrow> x' ! nat i = x ! nat i) \<and>
    (\<forall>i j. first \<le> i \<and> i \<le> j \<and> j \<le> lst \<longrightarrow> x' ! nat i \<le> x' ! nat j)"
  using quicksort_ok [OF assms] by (auto simp: rearranged_def sorted_range_def)

theorem quicksort_range_correct_witness:
  "(0::int) \<le> 1 \<and> (3::int) < int (length [9, 5, 7, 1, 0 :: int]) \<and>
   (\<exists>x'. quicksort [9, 5, 7, 1, 0] 1 3 = Some x' \<and> mset x' = mset [9, 5, 7, 1, 0])"
  using quicksort_range_correct [of 1 3 "[9, 5, 7, 1, 0]"] by auto

lemma sorted_range_sort:
  assumes "rearranged x x' 0 (int (length x) - 1)" and "sorted_range x' 0 (int (length x) - 1)"
  shows "x' = sort x"
proof -
  have len: "length x' = length x" using assms(1) by (simp add: rearranged_def)
  have "x' ! i \<le> x' ! j" if "i \<le> j" "j < length x'" for i j
  proof -
    have "0 \<le> int i \<and> int i \<le> int j \<and> int j \<le> int (length x) - 1" using that len by auto
    with assms(2) have "elem x' (int i) \<le> elem x' (int j)" unfolding sorted_range_def by blast
    then show ?thesis by simp
  qed
  then have "sorted x'" by (simp add: sorted_iff_nth_mono)
  then show ?thesis
    using assms(1) properties_for_sort [of x' x] by (simp add: rearranged_def)
qed

text \<open>Sorting a whole array gives the sorted permutation of the input, and the program as
  shipped sorts its nine sample numbers: the bounds 0 and 8 that \<^verbatim>\<open>main\<close> passes are those of the
  whole array.\<close>

theorem quicksort_sorts:
  "quicksort x 0 (int (length x) - 1) = Some (sort x) \<and>
   qs_main = Some [7, 10, 20, 30, 40, 50, 60, 80, 100]"
proof -
  have whole: "quicksort y 0 (int (length y) - 1) = Some (sort y)" for y
    using quicksort_ok [of 0 "int (length y) - 1" y] sorted_range_sort [of y] by auto
  have "qs_main = Some (sort qs_input)"
    using whole [of qs_input] by (simp add: qs_main_def qs_input_def)
  with whole show ?thesis by (simp add: qs_input_def)
qed

end
