(* ===== verification/In_Cksum.thy ===== *)
theory In_Cksum
  imports Prelude
begin

unbundle bit_operations_syntax

text \<open>
  The Internet checksum \<^verbatim>\<open>in_cksum\<close>, the same text in \<^verbatim>\<open>src/tcpipi/icmptime/icmptime.c\<close>
  and \<^verbatim>\<open>src/tcpipi/icmpaddrmask/icmpaddrmask.c\<close>, over a buffer of bytes. The buffer is read
  through a \<^verbatim>\<open>u_short\<close> pointer, so the byte order of the host is a parameter. The accumulator
  is a C \<open>int\<close>: its value is kept as an integer and an addition that leaves the 32-bit range
  is undefined behaviour.
\<close>

section \<open>Byte order\<close>

datatype host = LittleEndian | BigEndian

fun val16 :: "host \<Rightarrow> u8 \<Rightarrow> u8 \<Rightarrow> nat" where
  "val16 LittleEndian a b = unat a + 256 * unat b"
| "val16 BigEndian a b = 256 * unat a + unat b"

text \<open>The two bytes of an object of type \<^verbatim>\<open>u_short\<close>, in the order they have in memory.\<close>

fun put16 :: "host \<Rightarrow> u16 \<Rightarrow> u8 list" where
  "put16 LittleEndian w = [of_nat (unat w mod 256), of_nat (unat w div 256)]"
| "put16 BigEndian w = [of_nat (unat w div 256), of_nat (unat w mod 256)]"

section \<open>The routine\<close>

text \<open>C \<open>int\<close> addition.\<close>

definition int_add :: "int \<Rightarrow> int \<Rightarrow> int option" where
  "int_add a b = (if - (2 ^ 31) \<le> a + b \<and> a + b < 2 ^ 31 then Some (a + b) else None)"

text \<open>The pointer \<open>w\<close> is the rest of the buffer from where it points on.\<close>

function cksum_loop :: "host \<Rightarrow> u8 list \<Rightarrow> int \<Rightarrow> int \<Rightarrow> (u8 list \<times> int \<times> int) option" where
  "cksum_loop e w nleft acc =
     (if nleft > 1 then
        (case w of
           a # b # w' \<Rightarrow>
             (case int_add acc (int (val16 e a b)) of
                None \<Rightarrow> None
              | Some acc' \<Rightarrow> cksum_loop e w' (nleft - 2) acc')
         | _ \<Rightarrow> None)
      else Some (w, nleft, acc))"
  by pat_completeness auto
termination
  by (relation "measure (\<lambda>(e, w, nleft, acc). nat nleft)") auto

definition in_cksum :: "host \<Rightarrow> u8 list \<Rightarrow> int \<Rightarrow> u16 option" where
  "in_cksum e addr len = do {
     (w, nleft, acc) \<leftarrow> cksum_loop e addr len 0;
     acc \<leftarrow>
       (if nleft = 1
        then (case w of [] \<Rightarrow> None | b # _ \<Rightarrow> int_add acc (int (val16 e b 0)))
        else Some acc);
     acc \<leftarrow> int_add (drop_bit 16 acc) (acc AND 0xffff);
     acc \<leftarrow> int_add acc (drop_bit 16 acc);
     Some (word_of_int (NOT acc))
   }"

declare cksum_loop.simps [simp del]

section \<open>The one's-complement reference\<close>

fun halfwords :: "host \<Rightarrow> u8 list \<Rightarrow> nat list" where
  "halfwords e [] = []"
| "halfwords e [b] = [val16 e b 0]"
| "halfwords e (a # b # bs) = val16 e a b # halfwords e bs"

definition hsum :: "host \<Rightarrow> u8 list \<Rightarrow> nat" where
  "hsum e bs = sum_list (halfwords e bs)"

text \<open>The one's-complement sum in 16 bits: the representative of the sum modulo 65535 in
  \<open>1..65535\<close>, and 0 only for the sum 0.\<close>

definition oc16 :: "nat \<Rightarrow> nat" where
  "oc16 s = (if s = 0 then 0 else (s - 1) mod 65535 + 1)"

lemma val16_bound: "val16 e a b \<le> 65535"
proof -
  have "unat a < 256" "unat b < 256"
    using unsigned_less [of a] unsigned_less [of b] by auto
  then show ?thesis by (cases e) auto
qed

lemma hsum_simps [simp]:
  "hsum e [] = 0" "hsum e [b] = val16 e b 0" "hsum e (a # b # bs) = val16 e a b + hsum e bs"
  by (simp_all add: hsum_def)

lemma hsum_bound: "hsum e bs \<le> 65535 * ((length bs + 1) div 2)"
proof (induction e bs rule: halfwords.induct)
  case (3 e a b bs)
  then show ?case using val16_bound [of e a b] by auto
qed (use val16_bound in auto)

lemma hsum_append: "even (length xs) \<Longrightarrow> hsum e (xs @ ys) = hsum e xs + hsum e ys"
  by (induction e xs rule: halfwords.induct) auto

lemma oc16_bound: "oc16 s \<le> 65535"
proof -
  have "(s - 1) mod 65535 < 65535" by simp
  then have "(s - 1) mod 65535 + 1 \<le> 65535" by linarith
  then show ?thesis by (simp add: oc16_def)
qed

lemma oc16_cong: "oc16 s mod 65535 = s mod 65535"
  by (cases s) (auto simp: oc16_def mod_Suc)

lemma oc16_eq_0: "oc16 s = 0 \<longleftrightarrow> s = 0"
  by (simp add: oc16_def)

lemma mod_residue_unique:
  assumes "x \<le> M" "y \<le> M" "x mod M = y mod M" "x = 0 \<longleftrightarrow> y = (0::nat)"
  shows "x = y"
proof -
  have *: "v = M" if "u = M" "v \<le> M" "u mod M = v mod M" "u = 0 \<longleftrightarrow> v = 0" for u v
  proof (rule ccontr)
    assume "v \<noteq> M"
    with that(2) have "v < M" by simp
    with that(1,3) have "v = 0" by simp
    with that(1,4) have "M = 0" by simp
    with \<open>v < M\<close> show False by simp
  qed
  consider "x = M" | "y = M" | "x < M" "y < M" using assms(1,2) by linarith
  then show ?thesis
  proof cases
    case 1
    with *[OF 1 assms(2-4)] show ?thesis by simp
  next
    case 2
    with *[OF 2 assms(1) assms(3)[symmetric]] assms(4) show ?thesis by simp
  next
    case 3
    with assms(3) show ?thesis by simp
  qed
qed

lemma oc16_unique:
  assumes "r \<le> 65535" "r mod 65535 = s mod 65535" "r = 0 \<longleftrightarrow> s = 0"
  shows "oc16 s = r"
proof (rule mod_residue_unique)
  show "oc16 s \<le> 65535" by (rule oc16_bound)
  show "r \<le> 65535" by (rule assms)
  show "oc16 s mod 65535 = r mod 65535" by (simp only: oc16_cong assms(2))
  show "oc16 s = 0 \<longleftrightarrow> r = 0" by (simp only: oc16_eq_0 assms(3))
qed

section \<open>The routine computes the reference\<close>

lemma int_add_nat [simp]: "int_add (int a) (int b) = (if a + b < 2 ^ 31 then Some (int (a + b)) else None)"
  by (simp add: int_add_def)

lemma cksum_loop_run:
  "n \<le> length w \<Longrightarrow> s + 65535 * ((n + 1) div 2) < 2 ^ 31 \<Longrightarrow>
   cksum_loop e w (int n) (int s) =
     Some (drop (2 * (n div 2)) w, int (n mod 2), int (s + hsum e (take (2 * (n div 2)) w)))"
proof (induction n arbitrary: w s rule: less_induct)
  case (less n)
  show ?case
  proof (cases "n < 2")
    case True
    then have "n = 0 \<or> n = 1" by auto
    then show ?thesis by (auto simp: cksum_loop.simps)
  next
    case False
    then obtain m where n: "n = Suc (Suc m)" by (metis add_2_eq_Suc le_Suc_ex not_less)
    then obtain a b w' where w: "w = a # b # w'" using less.prems(1) by (cases w; cases "tl w") auto
    have bnd: "s + val16 e a b + 65535 * ((m + 1) div 2) < 2 ^ 31"
      using less.prems(2) val16_bound [of e a b] n by simp
    then have "int_add (int s) (int (val16 e a b)) = Some (int (s + val16 e a b))" by simp
    then have "cksum_loop e w (int n) (int s) = cksum_loop e w' (int m) (int (s + val16 e a b))"
      using n w by (subst cksum_loop.simps) simp
    also have "\<dots> = Some (drop (2 * (m div 2)) w', int (m mod 2),
        int (s + val16 e a b + hsum e (take (2 * (m div 2)) w')))"
      by (rule less.IH) (use n w less.prems(1) bnd in auto)
    also have "\<dots> = Some (drop (2 * (n div 2)) w, int (n mod 2), int (s + hsum e (take (2 * (n div 2)) w)))"
      by (simp add: n w)
    finally show ?thesis .
  qed
qed

lemma fold_oc16:
  assumes "s < 2 ^ 31"
  defines "t \<equiv> s div 65536 + s mod 65536"
  shows "(t + t div 65536) mod 65536 = oc16 s"
proof -
  have "s div 65536 < 32768" using assms(1) by (simp add: less_mult_imp_div_less)
  moreover have "s mod 65536 < 65536" by simp
  ultimately have t: "t \<le> 98302" unfolding t_def by linarith
  have s: "s = t + s div 65536 * 65535"
    unfolding t_def using div_mult_mod_eq [of s 65536] by linarith
  let ?r = "(t + t div 65536) mod 65536"
  have cong: "t mod 65535 = s mod 65535"
    by (subst s) (simp only: mod_mult_self1)
  have zero: "t = 0 \<longleftrightarrow> s = 0"
    unfolding t_def using div_mult_mod_eq [of s 65536] by (cases "s div 65536 = 0") auto
  show ?thesis
  proof (cases "t < 65536")
    case True
    then have "?r = t" by (simp only: div_less mod_less add_0_right)
    then show ?thesis using oc16_unique [OF _ cong zero] True by simp
  next
    case False
    then obtain k where k: "t = k + 65536" by (metis le_add_diff_inverse2 not_less)
    then have k_less: "Suc k < 65536" using t by simp
    then have "t div 65536 = 1" using k by (simp add: div_add_self2)
    then have "?r = (Suc k + 65536) mod 65536" using k by simp
    also have "\<dots> = Suc k" using k_less by (simp only: mod_add_self2 mod_less)
    finally have r: "?r = Suc k" .
    have "Suc k + 65535 = t" using k by simp
    then have "Suc k mod 65535 = s mod 65535" using cong by (metis mod_add_self2)
    moreover have "Suc k = 0 \<longleftrightarrow> s = 0" using zero k by simp
    ultimately show ?thesis using oc16_unique [of "Suc k" s] k_less r by simp
  qed
qed

lemma hsum_odd:
  assumes "odd n" "n \<le> length w"
  obtains b r where "drop (2 * (n div 2)) w = b # r"
    and "hsum e (take n w) = hsum e (take (2 * (n div 2)) w) + val16 e b 0"
proof -
  let ?k = "2 * (n div 2)"
  have n: "n = Suc ?k" using assms by presburger
  then obtain b r where d: "drop ?k w = b # r"
    using assms by (metis Cons_nth_drop_Suc Suc_le_eq)
  have "take n w = take ?k w @ [b]"
    using d n by (metis take_Suc_conv_app_nth nth_via_drop Suc_le_eq assms(2))
  then have "hsum e (take n w) = hsum e (take ?k w) + val16 e b 0"
    using assms n by (simp add: hsum_append)
  with d that show ?thesis by blast
qed

lemma int_fold_bits:
  "drop_bit 16 (int s) = int (s div 65536)" "int s AND 0xffff = int (s mod 65536)"
proof -
  show "drop_bit 16 (int s) = int (s div 65536)"
    by (simp add: drop_bit_eq_div zdiv_int)
  have "int s AND 0xffff = take_bit 16 (int s)"
    by (simp add: take_bit_eq_mask mask_eq_exp_minus_1)
  then show "int s AND 0xffff = int (s mod 65536)"
    by (simp add: take_bit_eq_mod zmod_int)
qed

lemma u16_of_nat_mod: "(of_nat (t mod 65536) :: u16) = of_nat t"
proof -
  have "(of_nat t :: u16) = of_nat (t div 65536 * 65536 + t mod 65536)" by simp
  also have "\<dots> = of_nat (t div 65536) * of_nat 65536 + of_nat (t mod 65536)"
    by (simp only: of_nat_add of_nat_mult)
  also have "(of_nat 65536 :: u16) = 0" by simp
  finally show ?thesis by simp
qed

lemma u16_not:
  "(word_of_int (NOT (int t)) :: u16) = of_nat (65535 - t mod 65536)"
proof -
  have "t mod 65536 < 65536" by simp
  then have "t mod 65536 \<le> 65535" by linarith
  then have "(of_nat (65535 - t mod 65536) :: u16) = of_nat 65535 - of_nat (t mod 65536)"
    by (rule of_nat_diff)
  also have "\<dots> = - 1 - of_nat t" by (simp only: u16_of_nat_mod) simp
  finally show ?thesis by (simp add: not_int_def)
qed

lemma in_cksum_run:
  assumes "n \<le> length bs" and "n \<le> 65536"
  shows "in_cksum e bs (int n) = Some (of_nat (65535 - oc16 (hsum e (take n bs))))"
proof -
  let ?s = "hsum e (take n bs)" and ?k = "2 * (n div 2)"
  define t where "t = ?s div 65536 + ?s mod 65536"
  have "(n + 1) div 2 \<le> 32768" using assms(2) by linarith
  then have bnd: "65535 * ((n + 1) div 2) < 2 ^ 31" by simp
  with hsum_bound [of e "take n bs"] assms(1) have s: "?s < 2 ^ 31" by simp
  have loop: "cksum_loop e bs (int n) 0 = Some (drop ?k bs, int (n mod 2), int (hsum e (take ?k bs)))"
    using cksum_loop_run [of n bs 0 e] assms(1) bnd by simp
  have odd_part: "(if int (n mod 2) = 1
      then (case drop ?k bs of [] \<Rightarrow> None | b # _ \<Rightarrow> int_add (int (hsum e (take ?k bs))) (int (val16 e b 0)))
      else Some (int (hsum e (take ?k bs)))) = Some (int ?s)"
  proof (cases "odd n")
    case True
    from hsum_odd [OF True assms(1)] obtain b r where
      "drop ?k bs = b # r" "?s = hsum e (take ?k bs) + val16 e b 0" by metis
    then show ?thesis using True s by (simp add: odd_iff_mod_2_eq_one)
  next
    case False
    then have "?k = n" by simp
    with False show ?thesis by (simp add: even_iff_mod_2_eq_zero)
  qed
  have "?s mod 65536 < 65536" by simp
  moreover have "?s div 65536 < 32768" using s by (simp add: less_mult_imp_div_less)
  ultimately have t: "t < 98304" unfolding t_def by linarith
  then have "t + t div 65536 < 2 ^ 31" using div_le_dividend [of t 65536] by simp
  then have a2: "int_add (int t) (int (t div 65536)) = Some (int (t + t div 65536))" by simp
  have a1: "int_add (int (?s div 65536)) (int (?s mod 65536)) = Some (int t)"
    using t by (simp only: int_add_nat t_def) simp
  have "in_cksum e bs (int n) = Some (word_of_int (NOT (int (t + t div 65536))))"
    by (simp only: in_cksum_def loop bind.bind_lunit prod.case odd_part int_fold_bits a1 a2)
  also have "\<dots> = Some (of_nat (65535 - oc16 ?s))"
    using fold_oc16 [OF s] by (simp only: u16_not t_def)
  finally show ?thesis .
qed

section \<open>Storing a checksum\<close>

lemma unat_u16_bound: "unat (w :: u16) \<le> 65535"
proof -
  have "unat w < 2 ^ 16" using unsigned_less [of w, where 'a = nat] by simp
  then show ?thesis by simp
qed

lemma unat_u16_of_nat: "n \<le> 65535 \<Longrightarrow> unat (of_nat n :: u16) = n"
  by (simp add: unat_of_nat take_bit_nat_eq_self)

lemma unat_u8_of_nat: "n < 256 \<Longrightarrow> unat (of_nat n :: u8) = n"
  by (simp add: unat_of_nat take_bit_nat_eq_self)

lemma put16_split:
  obtains a b where "put16 e w = [a, b]" and "val16 e a b = unat w"
proof -
  have "unat w mod 256 < 256" by simp
  moreover have "unat w div 256 < 256" using unat_u16_bound [of w] by (simp add: less_mult_imp_div_less)
  moreover have "unat w = unat w mod 256 + 256 * (unat w div 256)" by simp
  ultimately show ?thesis using that by (cases e) (auto simp: unat_u8_of_nat)
qed

lemma length_put16 [simp]: "length (put16 e w) = 2"
  by (cases e) auto

lemma take_field:
  assumes "length pre + 2 \<le> n" "length mid = 2"
  shows "take n (pre @ mid @ post) = pre @ mid @ take (n - length pre - 2) post"
  using assms by simp

lemma hsum_field:
  assumes "even (length pre)"
  shows "hsum e (pre @ put16 e w @ post) = hsum e (pre @ [0, 0] @ post) + unat w"
proof -
  obtain a b where "put16 e w = [a, b]" "val16 e a b = unat w" by (rule put16_split)
  moreover have "val16 e 0 0 = 0" by (cases e) auto
  ultimately show ?thesis using assms by (simp add: hsum_append)
qed

lemma oc16_complete: "oc16 (s + (65535 - oc16 s)) = 65535"
proof (rule oc16_unique)
  let ?c = "65535 - oc16 s"
  have c: "oc16 s + ?c = 65535" using oc16_bound [of s] by simp
  have "(s + ?c) mod 65535 = (oc16 s + ?c) mod 65535"
    by (rule mod_add_cong) (simp_all only: oc16_cong)
  then show "65535 mod 65535 = (s + ?c) mod 65535" by (simp only: c)
  show "65535 = (0::nat) \<longleftrightarrow> s + ?c = 0" using oc16_eq_0 [of s] by (cases "s = 0") auto
qed simp

lemma cksum_field_verifies:
  assumes "even (length pre)" and "length pre + 2 \<le> n" and "n \<le> length pre + 2 + length post"
    and "n \<le> 65536" and "in_cksum e (pre @ [0, 0] @ post) (int n) = Some r"
  shows "in_cksum e (pre @ put16 e r @ post) (int n) = Some 0"
proof -
  let ?q = "take (n - length pre - 2) post"
  let ?s = "hsum e (pre @ [0, 0] @ ?q)"
  have "r = of_nat (65535 - oc16 ?s)"
    using assms in_cksum_run [of n "pre @ [0, 0] @ post" e] take_field [of pre n "[0, 0]" post] by simp
  then have r: "unat r = 65535 - oc16 ?s" by (simp add: unat_u16_of_nat)
  have "hsum e (pre @ put16 e r @ ?q) = ?s + (65535 - oc16 ?s)"
    using hsum_field [OF assms(1)] r by simp
  then have "oc16 (hsum e (pre @ put16 e r @ ?q)) = 65535" by (simp only: oc16_complete)
  then show ?thesis
    using assms in_cksum_run [of n "pre @ put16 e r @ post" e] take_field [of pre n "put16 e r" post]
    by simp
qed

text \<open>C15. The checksum is the one's complement of the 16-bit one's-complement sum: for a buffer
  of at most 65536 bytes the routine neither reads outside the first \<open>n\<close> bytes' buffer nor
  overflows its 32-bit accumulator, and its result and the reference sum add up to 65535.\<close>

theorem in_cksum_ones_complement:
  assumes "n \<le> length bs" and "n \<le> 65536"
  shows "\<exists>r. in_cksum e bs (int n) = Some r \<and> unat r + oc16 (hsum e (take n bs)) = 65535"
  using in_cksum_run [OF assms, of e] oc16_bound [of "hsum e (take n bs)"]
    unat_u16_of_nat [of "65535 - oc16 (hsum e (take n bs))"]
  by (metis diff_le_self le_add_diff_inverse2)

theorem in_cksum_ones_complement_witness:
  "in_cksum BigEndian [0x45, 0x00, 0x00, 0x1c, 0x07] (int 5) = Some 0xb3e3 \<and>
   unat (0xb3e3 :: u16) + oc16 (hsum BigEndian [0x45, 0x00, 0x00, 0x1c, 0x07]) = 65535"
  using in_cksum_ones_complement [of 5 "[0x45, 0x00, 0x00, 0x1c, 0x07]" BigEndian]
  by (auto simp: oc16_def word_unat_eq_iff)

text \<open>C37. A packet that carries its own checksum verifies: if the checksum field, at an even
  offset, was zero while the checksum was computed over \<open>n\<close> bytes, then storing the result in
  the field makes the same routine return zero over the same bytes.\<close>

theorem in_cksum_verifies:
  assumes "even (length pre)" and "length pre + 2 \<le> n" and "n \<le> length pre + 2 + length post"
    and "n \<le> 65536" and "in_cksum e (pre @ [0, 0] @ post) (int n) = Some r"
  shows "in_cksum e (pre @ put16 e r @ post) (int n) = Some 0"
  using assms by (rule cksum_field_verifies)

theorem in_cksum_verifies_witness:
  "in_cksum LittleEndian ([13, 0] @ [0, 0] @ [57, 48, 7]) (int 7) = Some 0xcfb2 \<and>
   in_cksum LittleEndian ([13, 0] @ put16 LittleEndian 0xcfb2 @ [57, 48, 7]) (int 7) = Some 0"
proof -
  have "in_cksum LittleEndian ([13, 0] @ [0, 0] @ [57, 48, 7]) (int 7) = Some 0xcfb2"
    by (subst in_cksum_run) (simp_all add: oc16_def)
  with in_cksum_verifies [of "[13, 0]" 7 "[57, 48, 7]" LittleEndian "0xcfb2"] show ?thesis by simp
qed

section \<open>Byte-order independence\<close>

definition swap16 :: "nat \<Rightarrow> nat" where
  "swap16 x = 256 * (x mod 256) + x div 256"

lemma swap16_mod: "swap16 x mod 65535 = 256 * x mod 65535"
proof -
  have "256 * x = swap16 x + x div 256 * 65535"
    unfolding swap16_def using div_mult_mod_eq [of x 256] by linarith
  then show ?thesis by (simp only: mod_mult_self1)
qed

lemma hsum_swap_mod: "hsum BigEndian bs mod 65535 = 256 * hsum LittleEndian bs mod 65535"
proof (induction LittleEndian bs rule: halfwords.induct)
  case (3 a b bs)
  have v: "val16 BigEndian a b mod 65535 = 256 * val16 LittleEndian a b mod 65535" for a b
  proof -
    have "256 * val16 LittleEndian a b = val16 BigEndian a b + unat b * 65535" by simp
    then show ?thesis by (simp only: mod_mult_self1)
  qed
  show ?case
    using mod_add_cong [OF v 3] by (simp only: hsum_simps distrib_left)
qed simp_all

lemma hsum_zero: "hsum LittleEndian bs = 0 \<longleftrightarrow> hsum BigEndian bs = 0"
  by (induction LittleEndian bs rule: halfwords.induct) auto

lemma swap16_bound: "x \<le> 65535 \<Longrightarrow> swap16 x \<le> 65535"
proof -
  assume "x \<le> 65535"
  then have "x div 256 < 256" by (simp add: less_mult_imp_div_less)
  moreover have "x mod 256 < 256" by simp
  ultimately show ?thesis unfolding swap16_def by linarith
qed

lemma swap16_zero: "swap16 x = 0 \<longleftrightarrow> x = 0"
  using div_mult_mod_eq [of x 256] by (auto simp: swap16_def)

lemma oc16_swap: "oc16 (hsum BigEndian bs) = swap16 (oc16 (hsum LittleEndian bs))"
proof (rule oc16_unique)
  let ?l = "oc16 (hsum LittleEndian bs)"
  show "swap16 ?l \<le> 65535" by (rule swap16_bound [OF oc16_bound])
  have "swap16 ?l mod 65535 = 256 * ?l mod 65535" by (rule swap16_mod)
  also have "\<dots> = 256 * hsum LittleEndian bs mod 65535"
    by (rule mod_mult_cong) (simp_all only: oc16_cong)
  finally show "swap16 ?l mod 65535 = hsum BigEndian bs mod 65535" by (simp only: hsum_swap_mod)
  show "swap16 ?l = 0 \<longleftrightarrow> hsum BigEndian bs = 0" by (simp only: swap16_zero oc16_eq_0 hsum_zero)
qed

lemma swap16_not:
  assumes "x \<le> 65535" shows "65535 - swap16 x = swap16 (65535 - x)"
proof -
  let ?h = "x div 256" and ?l = "x mod 256"
  have h: "?h \<le> 255" using assms by simp
  have "?l < 256" by simp
  then have l: "?l \<le> 255" by linarith
  have "65535 - x = (255 - ?l) + (255 - ?h) * 256"
    using div_mult_mod_eq [of x 256] h l by linarith
  moreover have "255 - ?l < 256" by linarith
  ultimately have "(65535 - x) mod 256 = 255 - ?l" "(65535 - x) div 256 = 255 - ?h"
    by (simp_all only: mod_mult_self1 mod_less div_mult_self1 div_less add_0_right zero_neq_numeral
        not_False_eq_True)
  then have "swap16 (65535 - x) = 256 * (255 - ?l) + (255 - ?h)" by (simp only: swap16_def)
  with h l show ?thesis unfolding swap16_def [of x] by linarith
qed

lemma swap16_swap16: "x \<le> 65535 \<Longrightarrow> swap16 (swap16 x) = x"
proof -
  assume "x \<le> 65535"
  then have "x div 256 < 256" by (simp add: less_mult_imp_div_less)
  then have "swap16 x div 256 = x mod 256" "swap16 x mod 256 = x div 256"
    by (simp_all add: swap16_def)
  then show ?thesis by (simp add: swap16_def [of "swap16 x"])
qed

lemma put16_swap:
  assumes "x \<le> 65535" shows "put16 BigEndian (of_nat (swap16 x)) = put16 LittleEndian (of_nat x)"
proof -
  have "x div 256 < 256" using assms by (simp add: less_mult_imp_div_less)
  then have "swap16 x div 256 = x mod 256" "swap16 x mod 256 = x div 256"
    by (simp_all add: swap16_def)
  then show ?thesis using assms swap16_bound [OF assms] by (simp add: unat_u16_of_nat)
qed

text \<open>The checksum does not depend on the byte order of the host: the two bytes that a
  little-endian and a big-endian machine store into the packet are the same, although the code
  reads the buffer as host-order 16-bit words and never calls \<^verbatim>\<open>htons\<close>.\<close>

theorem in_cksum_host_independent:
  assumes "n \<le> length bs" and "n \<le> 65536"
  shows "map_option (put16 LittleEndian) (in_cksum LittleEndian bs (int n)) =
    map_option (put16 BigEndian) (in_cksum BigEndian bs (int n))"
proof -
  let ?l = "oc16 (hsum LittleEndian (take n bs))"
  have "65535 - oc16 (hsum BigEndian (take n bs)) = swap16 (65535 - ?l)"
    by (simp only: oc16_swap swap16_not [OF oc16_bound])
  then have "put16 BigEndian (of_nat (65535 - oc16 (hsum BigEndian (take n bs)))) =
    put16 LittleEndian (of_nat (65535 - ?l))"
    by (simp only: put16_swap diff_le_self)
  then show ?thesis by (simp only: in_cksum_run [OF assms] option.map)
qed

theorem in_cksum_host_independent_witness:
  "map_option (put16 LittleEndian) (in_cksum LittleEndian [1, 2, 3] (int 3)) =
    map_option (put16 BigEndian) (in_cksum BigEndian [1, 2, 3] (int 3))"
  using in_cksum_host_independent [of 3 "[1, 2, 3]"] by simp

end
