(* ===== verification/Icmp.thy ===== *)
theory Icmp
  imports In_Cksum
begin

text \<open>
  The two ICMP query programs: \<^verbatim>\<open>src/tcpipi/icmptime/icmptime.c\<close> (timestamp request, clock
  correction from the reply) and \<^verbatim>\<open>src/tcpipi/icmpaddrmask/icmpaddrmask.c\<close> (address mask
  request). Packets are byte lists in memory order; the ICMP header is type, code, checksum,
  identifier and sequence number (8 bytes), followed by the three timestamps or the mask.
  System calls are parameters: the resolver, the socket, the process id, the clock, the result of
  \<^verbatim>\<open>sendto\<close> and \<^verbatim>\<open>adjtime\<close>, and the sequence of results of \<^verbatim>\<open>recvfrom\<close> with the alarm
  as one of its events. What is printed is a list of messages.
  \<^verbatim>\<open>long\<close> values are integers, \<^verbatim>\<open>/\<close> and \<^verbatim>\<open>%\<close> truncate towards zero.
\<close>

section \<open>Words in packets\<close>

fun put32 :: "host \<Rightarrow> u32 \<Rightarrow> u8 list" where
  "put32 LittleEndian w = put16 LittleEndian (of_nat (unat w mod 65536)) @
     put16 LittleEndian (of_nat (unat w div 65536))"
| "put32 BigEndian w = put16 BigEndian (of_nat (unat w div 65536)) @
     put16 BigEndian (of_nat (unat w mod 65536))"

definition rd8 :: "u8 list \<Rightarrow> int \<Rightarrow> u8 option" where
  "rd8 buf i = aget buf i"

definition rd16 :: "host \<Rightarrow> u8 list \<Rightarrow> int \<Rightarrow> u16 option" where
  "rd16 e buf i = do {
     a \<leftarrow> rd8 buf i;
     b \<leftarrow> rd8 buf (i + 1);
     Some (of_nat (val16 e a b))
   }"

fun join32 :: "host \<Rightarrow> u16 \<Rightarrow> u16 \<Rightarrow> u32" where
  "join32 LittleEndian x y = of_nat (unat x + 65536 * unat y)"
| "join32 BigEndian x y = of_nat (65536 * unat x + unat y)"

definition rd32 :: "host \<Rightarrow> u8 list \<Rightarrow> int \<Rightarrow> u32 option" where
  "rd32 e buf i = do {
     x \<leftarrow> rd16 e buf i;
     y \<leftarrow> rd16 e buf (i + 2);
     Some (join32 e x y)
   }"

text \<open>\<^verbatim>\<open>htonl\<close> and \<^verbatim>\<open>ntohl\<close>: the identity on a big-endian host, a byte swap on a
  little-endian one.\<close>

definition swap32 :: "u32 \<Rightarrow> u32" where
  "swap32 w = of_nat (swap16 (unat w div 65536) + 65536 * swap16 (unat w mod 65536))"

fun htonl :: "host \<Rightarrow> u32 \<Rightarrow> u32" where
  "htonl LittleEndian w = swap32 w"
| "htonl BigEndian w = w"

abbreviation ntohl :: "host \<Rightarrow> u32 \<Rightarrow> u32" where
  "ntohl \<equiv> htonl"

section \<open>Start-up shared by both programs\<close>

text \<open>What the library and the kernel answer during start-up.\<close>

record sysenv =
  env_inet_addr :: "string \<Rightarrow> u32"
  env_gethostbyname :: "string \<Rightarrow> u32 option"
  env_malloc_ok :: bool
  env_proto_icmp :: "int option"
  env_socket :: "int \<Rightarrow> int"

datatype startup = Exit int | Ready u32 int

text \<open>\<open>Ready to s\<close>: the destination address and the socket descriptor.\<close>

definition icmp_startup :: "sysenv \<Rightarrow> string list \<Rightarrow> startup" where
  "icmp_startup env argv =
     (if length argv \<noteq> 2 then Exit 1
      else
        let target = argv ! 1;
            addr = (if env_inet_addr env target \<noteq> - 1 then Some (env_inet_addr env target)
                    else env_gethostbyname env target)
        in case addr of
             None \<Rightarrow> Exit 1
           | Some a \<Rightarrow>
               if \<not> env_malloc_ok env then Exit 1
               else
                 (case env_proto_icmp env of
                    None \<Rightarrow> Exit 1
                  | Some p \<Rightarrow> if env_socket env p < 0 then Exit 1 else Ready a (env_socket env p)))"

definition packlen :: int where
  "packlen = 12 + 60 + 76"

definition ICMP_MINLEN :: int where
  "ICMP_MINLEN = 8"

text \<open>A buffer of the type of \<^verbatim>\<open>outpack\<close>, zero except for its beginning.\<close>

definition outpack :: "u8 list \<Rightarrow> u8 list" where
  "outpack front = front @ replicate (65536 - 60 - 8 - length front) 0"

text \<open>\<open>RecvError True\<close> is \<^verbatim>\<open>EINTR\<close>, on which nothing is printed.\<close>

datatype recv_event = RecvError bool | Packet int "u8 list" | Alarm

section \<open>icmptime: sender\<close>

datatype time_msg =
    SendtoError
  | Wrote int int
  | TooShort int
  | NotEchoed int int
  | BadCc int
  | BadSeq u16
  | BadId u16
  | OrigRecv int int
  | Adjustment int
  | Correction int int
  | AdjtimeError
  | RecvfromError
  | Timeout

definition tsorig_of :: "int \<Rightarrow> int \<Rightarrow> int" where
  "tsorig_of tv_sec tv_usec = (tv_sec smod (24 * 60 * 60)) * 1000 + tv_usec sdiv 1000"

definition time_request :: "host \<Rightarrow> int \<Rightarrow> int \<Rightarrow> u16 \<Rightarrow> u8 list" where
  "time_request e pid ts ck =
     [13, 0] @ put16 e ck @ put16 e (word_of_int pid) @ put16 e 12345 @
     put32 e (htonl e (word_of_int ts)) @ put32 e 0 @ put32 e 0"

text \<open>Result: the originate timestamp kept in \<^verbatim>\<open>tsorig\<close>, the bytes given to \<^verbatim>\<open>sendto\<close> and
  what is printed.\<close>

definition time_sender ::
    "host \<Rightarrow> int \<Rightarrow> int \<times> int \<Rightarrow> (u8 list \<Rightarrow> int) \<Rightarrow> (int \<times> u8 list \<times> time_msg list) option" where
  "time_sender e pid tv sendto = do {
     let tsorig = tsorig_of (fst tv) (snd tv);
     let cc = 12 + 8;
     ck \<leftarrow> in_cksum e (outpack (time_request e pid tsorig 0)) cc;
     let pkt = take (nat cc) (outpack (time_request e pid tsorig ck));
     let i = sendto pkt;
     Some (tsorig, pkt,
       (if i < 0 \<or> i \<noteq> cc then (if i < 0 then [SendtoError] else []) @ [Wrote cc i] else []))
   }"

section \<open>icmptime: procpack and the receive loop\<close>

text \<open>A function that falls out of a bare \<^verbatim>\<open>return\<close> has no value; using it is undefined.\<close>

datatype proc_ret = NoValue | Ret int | ExitWith int

definition time_procpack ::
    "host \<Rightarrow> int \<Rightarrow> int \<Rightarrow> (int \<Rightarrow> int \<Rightarrow> int) \<Rightarrow> u8 list \<Rightarrow> int \<Rightarrow> (proc_ret \<times> time_msg list) option" where
  "time_procpack e pid tsorig adjtime buf cc = do {
     b0 \<leftarrow> rd8 buf 0;
     let hlen = int (unat b0 mod 16) * 4;
     if cc < hlen + ICMP_MINLEN then Some (NoValue, [TooShort cc])
     else do {
       let cc = cc - hlen;
       icmp_type \<leftarrow> rd8 buf hlen;
       if icmp_type = 14 then do {
         otime \<leftarrow> rd32 e buf (hlen + 8);
         seqno \<leftarrow> rd16 e buf (hlen + 6);
         ident \<leftarrow> rd16 e buf (hlen + 4);
         rtime \<leftarrow> rd32 e buf (hlen + 12);
         let m1 = (if uint (ntohl e otime) \<noteq> tsorig then [NotEchoed tsorig (uint (ntohl e otime))] else []);
         let m2 = (if cc \<noteq> 20 then [BadCc cc] else []);
         let m3 = (if seqno \<noteq> 12345 then [BadSeq seqno] else []);
         let m4 = (if uint ident \<noteq> pid then [BadId ident] else []);
         let tsrecv = uint (ntohl e rtime);
         let tsdiff = tsrecv - tsorig;
         let tv_sec = tsdiff sdiv 1000;
         let tv_usec = (tsdiff smod 1000) * 1000;
         let out = m1 @ m2 @ m3 @ m4 @
           [OrigRecv (uint (ntohl e otime)) (uint (ntohl e rtime)), Adjustment tsdiff,
            Correction tv_sec tv_usec];
         if adjtime tv_sec tv_usec < 0 then Some (ExitWith 1, out @ [AdjtimeError])
         else Some (Ret 0, out)
       } else Some (Ret (- 1), [])
     }
   }"

text \<open>The loop of \<^verbatim>\<open>main\<close>: \<^term>\<open>Inr\<close> of the exit status, or \<^term>\<open>Inl\<close> when the given events are
  used up and the program is still waiting.\<close>

fun time_loop ::
    "host \<Rightarrow> int \<Rightarrow> int \<Rightarrow> (int \<Rightarrow> int \<Rightarrow> int) \<Rightarrow> recv_event list \<Rightarrow> time_msg list \<Rightarrow>
     ((unit + int) \<times> time_msg list) option" where
  "time_loop e pid tsorig adjtime [] out = Some (Inl (), out)"
| "time_loop e pid tsorig adjtime (Alarm # evs) out = Some (Inr 1, out @ [Timeout])"
| "time_loop e pid tsorig adjtime (RecvError eintr # evs) out =
     time_loop e pid tsorig adjtime evs (out @ (if eintr then [] else [RecvfromError]))"
| "time_loop e pid tsorig adjtime (Packet cc buf # evs) out =
     (case time_procpack e pid tsorig adjtime buf cc of
        None \<Rightarrow> None
      | Some (NoValue, ms) \<Rightarrow> None
      | Some (ExitWith c, ms) \<Rightarrow> Some (Inr c, out @ ms)
      | Some (Ret r, ms) \<Rightarrow>
          if r = 0 then Some (Inr 0, out @ ms)
          else time_loop e pid tsorig adjtime evs (out @ ms))"

section \<open>icmpaddrmask\<close>

datatype mask_msg =
    MSendtoError
  | MWrote int int
  | MTooShort int
  | MBadCc int
  | MBadSeq u16
  | MBadId u16
  | MaskFrom u32
  | MRecvfromError
  | MTimeout

definition ICMP_MASKLEN :: int where
  "ICMP_MASKLEN = 12"

definition mask_request :: "host \<Rightarrow> int \<Rightarrow> u16 \<Rightarrow> u8 list" where
  "mask_request e pid ck =
     [17, 0] @ put16 e ck @ put16 e (word_of_int pid) @ put16 e 12345 @ put32 e 0"

definition mask_sender ::
    "host \<Rightarrow> int \<Rightarrow> (u8 list \<Rightarrow> int) \<Rightarrow> (u8 list \<times> mask_msg list) option" where
  "mask_sender e pid sendto = do {
     let cc = ICMP_MASKLEN;
     ck \<leftarrow> in_cksum e (outpack (mask_request e pid 0)) cc;
     let pkt = take (nat cc) (outpack (mask_request e pid ck));
     let i = sendto pkt;
     Some (pkt,
       (if i < 0 \<or> i \<noteq> cc then (if i < 0 then [MSendtoError] else []) @ [MWrote cc i] else []))
   }"

text \<open>The new value of the global counter \<^verbatim>\<open>response\<close> and what is printed.\<close>

definition mask_procpack ::
    "host \<Rightarrow> int \<Rightarrow> u32 \<Rightarrow> u8 list \<Rightarrow> int \<Rightarrow> (u32 \<times> mask_msg list) option" where
  "mask_procpack e pid response buf cc = do {
     b0 \<leftarrow> rd8 buf 0;
     let hlen = int (unat b0 mod 16) * 4;
     if cc < hlen + ICMP_MINLEN then Some (response, [MTooShort cc])
     else do {
       let cc = cc - hlen;
       icmp_type \<leftarrow> rd8 buf hlen;
       if icmp_type = 18 then do {
         seqno \<leftarrow> rd16 e buf (hlen + 6);
         ident \<leftarrow> rd16 e buf (hlen + 4);
         mask \<leftarrow> rd32 e buf (hlen + 8);
         let m1 = (if cc \<noteq> ICMP_MASKLEN then [MBadCc cc] else []);
         let m2 = (if seqno \<noteq> 12345 then [MBadSeq seqno] else []);
         let m3 = (if uint ident \<noteq> pid then [MBadId ident] else []);
         Some (response + 1, m1 @ m2 @ m3 @ [MaskFrom (ntohl e mask)])
       } else Some (response, [])
     }
   }"

definition mask_sig_alrm :: "u32 \<Rightarrow> int \<times> mask_msg list" where
  "mask_sig_alrm response = (if response = 0 then (1, [MTimeout]) else (0, []))"

fun mask_loop ::
    "host \<Rightarrow> int \<Rightarrow> u32 \<Rightarrow> recv_event list \<Rightarrow> mask_msg list \<Rightarrow> ((u32 + int) \<times> mask_msg list) option" where
  "mask_loop e pid response [] out = Some (Inl response, out)"
| "mask_loop e pid response (Alarm # evs) out =
     Some (Inr (fst (mask_sig_alrm response)), out @ snd (mask_sig_alrm response))"
| "mask_loop e pid response (RecvError eintr # evs) out =
     mask_loop e pid response evs (out @ (if eintr then [] else [MRecvfromError]))"
| "mask_loop e pid response (Packet cc buf # evs) out =
     (case mask_procpack e pid response buf cc of
        None \<Rightarrow> None
      | Some (response', ms) \<Rightarrow> mask_loop e pid response' evs (out @ ms))"

section \<open>The programs\<close>

text \<open>The two \<^verbatim>\<open>main\<close> functions; the diagnostics of a failed start-up are not recorded.\<close>

definition time_main ::
    "host \<Rightarrow> sysenv \<Rightarrow> string list \<Rightarrow> int \<Rightarrow> int \<times> int \<Rightarrow> (u32 \<Rightarrow> u8 list \<Rightarrow> int) \<Rightarrow>
     (int \<Rightarrow> int \<Rightarrow> int) \<Rightarrow> recv_event list \<Rightarrow> ((unit + int) \<times> time_msg list) option" where
  "time_main e env argv pid tv sendto adjtime evs =
     (case icmp_startup env argv of
        Exit c \<Rightarrow> Some (Inr c, [])
      | Ready whereto s \<Rightarrow> do {
          (tsorig, pkt, ms) \<leftarrow> time_sender e pid tv (sendto whereto);
          time_loop e pid tsorig adjtime evs ms
        })"

definition mask_main ::
    "host \<Rightarrow> sysenv \<Rightarrow> string list \<Rightarrow> int \<Rightarrow> (u32 \<Rightarrow> u8 list \<Rightarrow> int) \<Rightarrow> recv_event list \<Rightarrow>
     ((u32 + int) \<times> mask_msg list) option" where
  "mask_main e env argv pid sendto evs =
     (case icmp_startup env argv of
        Exit c \<Rightarrow> Some (Inr c, [])
      | Ready whereto s \<Rightarrow> do {
          (pkt, ms) \<leftarrow> mask_sender e pid (sendto whereto);
          mask_loop e pid 0 evs ms
        })"

section \<open>Layout lemmas\<close>

lemma length_put32 [simp]: "length (put32 e w) = 4"
  by (cases e) auto

lemma unat_u32_halves: "unat (w :: u32) mod 65536 \<le> 65535" "unat w div 65536 \<le> 65535"
proof -
  have "unat w mod 65536 < 65536" by simp
  then show "unat w mod 65536 \<le> 65535" by linarith
  have "unat w < 2 ^ 32" using unsigned_less [of w, where 'a = nat] by simp
  then have "unat w div 65536 < 65536" by (simp add: less_mult_imp_div_less)
  then show "unat w div 65536 \<le> 65535" by linarith
qed

lemma unat_u32_of_halves:
  assumes "a \<le> 65535" "b \<le> 65535"
  shows "unat (of_nat (a + 65536 * b) :: u32) = a + 65536 * b"
proof -
  have "a + 65536 * b < 2 ^ 32" using assms by simp
  then show ?thesis by (simp only: unat_of_nat) (simp add: take_bit_nat_eq_self)
qed

text \<open>\<^verbatim>\<open>htonl\<close> puts a number into the packet most significant byte first, on both hosts.\<close>

lemma put32_htonl: "put32 e (htonl e w) = put32 BigEndian w"
proof (cases e)
  case LittleEndian
  let ?l = "unat w mod 65536" and ?h = "unat w div 65536"
  have b: "swap16 ?h \<le> 65535" "swap16 ?l \<le> 65535"
    using swap16_bound [OF unat_u32_halves(1)] swap16_bound [OF unat_u32_halves(2)] by auto
  then have "unat (swap32 w) = swap16 ?h + 65536 * swap16 ?l"
    unfolding swap32_def by (rule unat_u32_of_halves)
  then have "unat (swap32 w) mod 65536 = swap16 ?h" "unat (swap32 w) div 65536 = swap16 ?l"
    using b by auto
  moreover have "put16 LittleEndian (of_nat (swap16 x)) = put16 BigEndian (of_nat x)"
    if "x \<le> 65535" for x
    using put16_swap [OF swap16_bound [OF that]] swap16_swap16 [OF that] by simp
  ultimately show ?thesis
    using LittleEndian unat_u32_halves [of w] by (simp del: put16.simps)
qed simp

lemma rd8_append: "i = int (length pre) \<Longrightarrow> rd8 (pre @ a # post) i = Some a"
  by (simp add: rd8_def)

lemma rd16_put16:
  assumes "i = int (length pre)"
  shows "rd16 e (pre @ put16 e w @ post) i = Some w"
proof -
  obtain a b where ab: "put16 e w = [a, b]" "val16 e a b = unat w" by (rule put16_split)
  have "rd8 (pre @ put16 e w @ post) i = Some a" using assms ab by (simp add: rd8_append)
  moreover have "rd8 (pre @ put16 e w @ post) (i + 1) = Some b"
    using assms ab rd8_append [of "i + 1" "pre @ [a]" b post] by simp
  ultimately show ?thesis using ab by (simp add: rd16_def)
qed

lemma unat_split: "unat (of_nat (unat w mod 65536) :: u16) + 65536 * unat (of_nat (unat w div 65536) :: u16)
    = unat (w :: u32)"
  using unat_u32_halves [of w] by (simp only: unat_u16_of_nat) simp

lemma rd32_put32:
  assumes "i = int (length pre)"
  shows "rd32 e (pre @ put32 e w @ post) i = Some w"
proof -
  have "rd16 e (pre @ put16 e x @ put16 e y @ post) i = Some x"
    "rd16 e (pre @ put16 e x @ put16 e y @ post) (i + 2) = Some y" for x y
    using rd16_put16 [OF assms] rd16_put16 [of "i + 2" "pre @ put16 e x" e y post] assms by simp_all
  then show ?thesis
    using unat_split [of w]
    by (cases e) (simp_all add: rd32_def add.commute del: put16.simps of_nat_add of_nat_mult)
qed

lemmas packet_reads = rd8_append rd16_put16 rd32_put32

lemma rd_in_bounds:
  assumes "0 \<le> i" "i + 4 \<le> int (length buf)"
  obtains a w d where "rd8 buf i = Some a" "rd16 e buf i = Some w" "rd32 e buf i = Some d"
  using assms by (auto simp: rd8_def rd16_def rd32_def)

lemma take_outpack: "length front = n \<Longrightarrow> take n (outpack front) = front"
  by (simp add: outpack_def)

text \<open>Both senders fill the checksum field, at offset 2, in the same way.\<close>

lemma request_verifies:
  assumes "n = 4 + length post" "n \<le> 65468"
    and "in_cksum e (outpack ([ty, 0] @ [0, 0] @ post)) (int n) = Some ck"
  shows "in_cksum e ([ty, 0] @ put16 e ck @ post) (int n) = Some 0"
proof -
  let ?tail = "replicate (65468 - n) (0 :: u8)"
  have "in_cksum e ([ty, 0] @ [0, 0] @ (post @ ?tail)) (int n) = Some ck"
    using assms by (simp add: outpack_def)
  then have "in_cksum e ([ty, 0] @ put16 e ck @ (post @ ?tail)) (int n) = Some 0"
    by (rule cksum_field_verifies [rotated -1]) (use assms in auto)
  moreover have "take n (f @ ?tail) = take n f" if "length f = n" for f :: "u8 list" using that by simp
  from this [of "[ty, 0] @ put16 e ck @ post"]
  have "take n ([ty, 0] @ put16 e ck @ post @ ?tail) = take n ([ty, 0] @ put16 e ck @ post)"
    using assms(1) by simp
  ultimately show ?thesis
    using assms(1,2) in_cksum_run [of n "[ty, 0] @ put16 e ck @ post @ ?tail" e]
      in_cksum_run [of n "[ty, 0] @ put16 e ck @ post" e] by simp
qed

lemma put16_0: "put16 e 0 = [0, 0]"
  by (cases e) auto

section \<open>Properties of icmptime\<close>

lemma tsorig_range:
  assumes "0 \<le> sec" "0 \<le> usec" "usec < 1000000"
  shows "0 \<le> tsorig_of sec usec" "tsorig_of sec usec \<le> 86399999"
proof -
  have e: "tsorig_of sec usec = (sec mod 86400) * 1000 + usec div 1000"
    using assms by (cases "sec = 0"; cases "usec = 0")
      (simp_all add: tsorig_of_def signed_modulo_int_def signed_divide_int_def sgn_if)
  have "sec mod 86400 < 86400" "0 \<le> sec mod 86400" by simp_all
  moreover have "usec div 1000 < 1000" "0 \<le> usec div 1000" using assms by auto
  ultimately show "0 \<le> tsorig_of sec usec" "tsorig_of sec usec \<le> 86399999"
    unfolding e by linarith+
qed

text \<open>The timestamp request that \<^verbatim>\<open>sender\<close> transmits is well-formed on either host: 20
  bytes, type 13 and code 0, a checksum that verifies, and the originate timestamp, milliseconds
  since midnight, in network byte order. The timestamp is at most 86399999 (the comment in the
  source says 85,399,999).\<close>

theorem time_sender_packet:
  assumes "0 \<le> sec" "0 \<le> usec" "usec < 1000000"
  shows "\<exists>ts pkt ms. time_sender e pid (sec, usec) sendto = Some (ts, pkt, ms) \<and>
    length pkt = 20 \<and> take 2 pkt = [13, 0] \<and> in_cksum e pkt 20 = Some 0 \<and>
    rd32 BigEndian pkt 8 = Some (word_of_int ts) \<and> 0 \<le> ts \<and> ts \<le> 86399999 \<and>
    (ms = [] \<longleftrightarrow> sendto pkt = 20)"
proof -
  let ?ts = "tsorig_of sec usec"
  let ?post = "put16 e (word_of_int pid) @ put16 e 12345 @ put32 BigEndian (word_of_int ?ts) @
    put32 e 0 @ put32 e 0"
  let ?req = "\<lambda>ck. [13, 0] @ put16 e ck @ ?post"
  have req: "time_request e pid ?ts ck = ?req ck" for ck
    by (simp add: time_request_def put32_htonl del: put32.simps put16.simps)
  have len: "length (?req ck) = 20" for ck by (simp del: put32.simps put16.simps)
  obtain ck where ck: "in_cksum e (outpack (?req 0)) 20 = Some ck"
    using in_cksum_run [of 20 "outpack (?req 0)" e] len [of 0] by (auto simp: outpack_def)
  have run: "time_sender e pid (sec, usec) sendto = Some (?ts, ?req ck,
      (if sendto (?req ck) < 0 \<or> sendto (?req ck) \<noteq> 20
       then (if sendto (?req ck) < 0 then [SendtoError] else []) @ [Wrote 20 (sendto (?req ck))]
       else []))"
    using ck take_outpack [OF len, of ck] by (simp add: time_sender_def req Let_def)
  have "in_cksum e (?req ck) (int 20) = Some 0"
    by (rule request_verifies) (use ck in \<open>simp_all add: put16_0 del: put32.simps put16.simps\<close>)
  moreover have "rd32 BigEndian (?req ck) 8 = Some (word_of_int ?ts)"
    using rd32_put32 [of 8 "[13, 0] @ put16 e ck @ put16 e (word_of_int pid) @ put16 e 12345"
        BigEndian "word_of_int ?ts" "put32 e 0 @ put32 e 0"]
    by (simp del: put32.simps put16.simps)
  ultimately show ?thesis using run len tsorig_range [OF assms] by auto
qed

theorem time_sender_packet_witness:
  "\<exists>ts pkt ms. time_sender LittleEndian 4711 (90000, 250000) (\<lambda>_. 20) = Some (ts, pkt, ms) \<and>
    length pkt = 20 \<and> in_cksum LittleEndian pkt 20 = Some 0 \<and> ts \<le> 86399999 \<and> ms = []"
  using time_sender_packet [of 90000 250000 LittleEndian 4711 "\<lambda>_. 20"] by auto

text \<open>The length of the IP header in front of the ICMP message.\<close>

definition hdr_len :: "u8 list \<Rightarrow> int" where
  "hdr_len buf = int (unat (buf ! 0) mod 16) * 4"

lemma hdr_len_range: "0 \<le> hdr_len buf" "hdr_len buf \<le> 60"
proof -
  have "unat (buf ! 0) mod 16 < 16" by simp
  then have "unat (buf ! 0) mod 16 \<le> 15" by linarith
  then show "hdr_len buf \<le> 60" by (simp add: hdr_len_def)
qed (simp add: hdr_len_def)

lemma msec_correction:
  fixes d :: int
  shows "(d sdiv 1000) * 1000000 + (d smod 1000) * 1000 = d * 1000" "\<bar>(d smod 1000) * 1000\<bar> < 1000000"
proof -
  have "1000 * (d sdiv 1000) + d smod 1000 = d" by (rule mult_sdiv_smod_eq)
  then show "(d sdiv 1000) * 1000000 + (d smod 1000) * 1000 = d * 1000" by linarith
  have "\<bar>d\<bar> mod 1000 < 1000" "0 \<le> \<bar>d\<bar> mod 1000" by simp_all
  then have "\<bar>d smod 1000\<bar> < 1000" by (simp add: signed_modulo_int_def abs_mult abs_sgn_eq)
  then show "\<bar>(d smod 1000) * 1000\<bar> < 1000000" by linarith
qed

lemma packlen_reads:
  assumes "int (length buf) = packlen"
  obtains ty seqno ident otime rtime where "rd8 buf 0 = Some (buf ! 0)"
    and "rd8 buf (hdr_len buf) = Some ty" and "rd16 e buf (hdr_len buf + 6) = Some seqno"
    and "rd16 e buf (hdr_len buf + 4) = Some ident"
    and "rd32 e buf (hdr_len buf + 8) = Some otime" and "rd32 e buf (hdr_len buf + 12) = Some rtime"
proof -
  have b: "0 \<le> hdr_len buf" "hdr_len buf + 16 \<le> int (length buf)"
    using hdr_len_range [of buf] assms by (auto simp: packlen_def)
  have "rd8 buf 0 = Some (buf ! 0)" using assms by (simp add: rd8_def packlen_def)
  moreover have "\<exists>a w d. rd8 buf (hdr_len buf + k) = Some a \<and> rd16 e buf (hdr_len buf + k) = Some w \<and>
      rd32 e buf (hdr_len buf + k) = Some d" if "0 \<le> k" "k \<le> 12" for k
    using rd_in_bounds [of "hdr_len buf + k" buf e] that b by auto
  from this [of 0] this [of 4] this [of 6] this [of 8] this [of 12] obtain ty ident seqno otime rtime
    where "rd8 buf (hdr_len buf) = Some ty" "rd16 e buf (hdr_len buf + 6) = Some seqno"
      "rd16 e buf (hdr_len buf + 4) = Some ident" "rd32 e buf (hdr_len buf + 8) = Some otime"
      "rd32 e buf (hdr_len buf + 12) = Some rtime" by auto
  ultimately show ?thesis using that by blast
qed

text \<open>C25. Processing a received packet is memory safe and classifies it correctly: for every
  content of the 148-byte receive buffer, every header length nibble and every received length, no
  access is out of range; the function has no return value exactly when the packet is too short;
  it returns -1 exactly for other ICMP types; and whenever it returns 0 or fails in
  \<^verbatim>\<open>adjtime\<close>, the correction it applied is exactly the difference of the receive and originate
  timestamps, with a microsecond part below one second in magnitude.\<close>

theorem time_procpack_correct:
  assumes "int (length buf) = packlen"
  shows "\<exists>r ms. time_procpack e pid tsorig adjtime buf cc = Some (r, ms) \<and>
    (r = NoValue \<longleftrightarrow> cc < hdr_len buf + 8) \<and>
    (r = Ret (- 1) \<longleftrightarrow> hdr_len buf + 8 \<le> cc \<and> buf ! nat (hdr_len buf) \<noteq> 14) \<and>
    (r \<noteq> NoValue \<and> r \<noteq> Ret (- 1) \<longrightarrow>
      (\<exists>rtime s u. rd32 e buf (hdr_len buf + 12) = Some rtime \<and> Correction s u \<in> set ms \<and>
        s * 1000000 + u = (uint (ntohl e rtime) - tsorig) * 1000 \<and> \<bar>u\<bar> < 1000000 \<and>
        r = (if adjtime s u < 0 then ExitWith 1 else Ret 0)))"
proof -
  from packlen_reads [OF assms, of e] obtain ty seqno ident otime rtime
    where rd: "rd8 buf 0 = Some (buf ! 0)" "rd8 buf (hdr_len buf) = Some ty"
      "rd16 e buf (hdr_len buf + 6) = Some seqno" "rd16 e buf (hdr_len buf + 4) = Some ident"
      "rd32 e buf (hdr_len buf + 8) = Some otime" "rd32 e buf (hdr_len buf + 12) = Some rtime" .
  have ty: "buf ! nat (hdr_len buf) = ty"
    using rd(2) by (auto simp: rd8_def aget_def split: if_splits)
  have h: "int (unat (buf ! 0) mod 16) * 4 = hdr_len buf" by (simp add: hdr_len_def)
  let ?d = "uint (ntohl e rtime) - tsorig"
  show ?thesis
  proof (cases "cc < hdr_len buf + 8 \<or> ty \<noteq> 14")
    case True
    then show ?thesis using rd ty by (auto simp: time_procpack_def h ICMP_MINLEN_def Let_def)
  next
    case False
    then show ?thesis
      using rd ty msec_correction [of ?d] by (simp add: time_procpack_def h ICMP_MINLEN_def Let_def)
  qed
qed

theorem time_procpack_correct_witness:
  "int (length (0x45 # replicate 19 0 @ 14 # replicate 127 (0 :: u8))) = packlen \<and>
   (\<exists>r ms. time_procpack LittleEndian 7 5000 (\<lambda>_ _. 0)
      (0x45 # replicate 19 0 @ 14 # replicate 127 0) 40 = Some (r, ms) \<and> r \<noteq> NoValue)"
  using time_procpack_correct [of "0x45 # replicate 19 0 @ 14 # replicate 127 0" LittleEndian 7 5000
      "\<lambda>_ _. 0" 40]
  by (auto simp: packlen_def hdr_len_def)

text \<open>A timestamp reply behind an IP header \<open>hdr\<close>: the request with type 14, identifier and
  sequence number reflected, receive and transmit timestamps filled in by the remote host in
  network byte order, and whatever follows in the receive buffer.\<close>

definition time_reply ::
    "host \<Rightarrow> u8 list \<Rightarrow> int \<Rightarrow> int \<Rightarrow> int \<Rightarrow> int \<Rightarrow> u16 \<Rightarrow> u8 list \<Rightarrow> u8 list" where
  "time_reply e hdr pid ts rt tt ck rest =
     hdr @ [14, 0] @ put16 e ck @ put16 e (word_of_int pid) @ put16 e 12345 @
     put32 BigEndian (word_of_int ts) @ put32 BigEndian (word_of_int rt) @
     put32 BigEndian (word_of_int tt) @ rest"

lemma htonl_htonl: "htonl e (htonl e w) = w"
proof -
  have "put32 e (htonl e (htonl e w)) = put32 e w"
  proof (cases e)
    case LittleEndian
    have "put32 BigEndian (htonl LittleEndian w) = put32 LittleEndian w"
    proof -
      let ?l = "unat w mod 65536" and ?h = "unat w div 65536"
      have b: "swap16 ?h \<le> 65535" "swap16 ?l \<le> 65535"
        using swap16_bound [OF unat_u32_halves(1)] swap16_bound [OF unat_u32_halves(2)] by auto
      then have "unat (swap32 w) = swap16 ?h + 65536 * swap16 ?l"
        unfolding swap32_def by (rule unat_u32_of_halves)
      then have "unat (swap32 w) mod 65536 = swap16 ?h" "unat (swap32 w) div 65536 = swap16 ?l"
        using b by auto
      then show ?thesis
        using put16_swap [OF unat_u32_halves(1) [of w]] put16_swap [OF unat_u32_halves(2) [of w]]
        by (simp del: put16.simps)
    qed
    with LittleEndian show ?thesis by (simp only: put32_htonl)
  qed simp
  then show ?thesis
    using rd32_put32 [of 0 "[]" e "htonl e (htonl e w)" "[]"] rd32_put32 [of 0 "[]" e w "[]"] by simp
qed

lemma rd32_network:
  assumes "i = int (length pre)"
  shows "rd32 e (pre @ put32 BigEndian w @ post) i = Some (htonl e w)"
  using rd32_put32 [OF assms, of e "htonl e w" post] by (simp only: put32_htonl)

lemma uint_word_of_int_u32: "0 \<le> x \<Longrightarrow> x < 2 ^ 32 \<Longrightarrow> uint (word_of_int x :: u32) = x"
  by (simp add: uint_word_of_int)



section \<open>Properties of icmpaddrmask\<close>

text \<open>The address mask request is well-formed: 12 bytes, type 17, code 0, mask zero, and a
  checksum that verifies.\<close>

theorem mask_sender_packet:
  "\<exists>pkt ms. mask_sender e pid sendto = Some (pkt, ms) \<and> length pkt = 12 \<and> take 2 pkt = [17, 0] \<and>
    in_cksum e pkt 12 = Some 0 \<and> rd32 e pkt 8 = Some 0 \<and> (ms = [] \<longleftrightarrow> sendto pkt = 12)"
proof -
  let ?post = "put16 e (word_of_int pid) @ put16 e 12345 @ put32 e 0"
  let ?req = "\<lambda>ck. [17, 0] @ put16 e ck @ ?post"
  have req: "mask_request e pid ck = ?req ck" for ck by (simp add: mask_request_def)
  have len: "length (?req ck) = 12" for ck by (simp del: put32.simps put16.simps)
  obtain ck where ck: "in_cksum e (outpack (?req 0)) 12 = Some ck"
    using in_cksum_run [of 12 "outpack (?req 0)" e] len [of 0] by (auto simp: outpack_def)
  have run: "mask_sender e pid sendto = Some (?req ck,
      (if sendto (?req ck) < 0 \<or> sendto (?req ck) \<noteq> 12
       then (if sendto (?req ck) < 0 then [MSendtoError] else []) @ [MWrote 12 (sendto (?req ck))]
       else []))"
    using ck take_outpack [OF len, of ck] by (simp add: mask_sender_def req Let_def ICMP_MASKLEN_def)
  have "in_cksum e (?req ck) (int 12) = Some 0"
    by (rule request_verifies) (use ck in \<open>simp_all add: put16_0 del: put32.simps put16.simps\<close>)
  moreover have "rd32 e (?req ck) 8 = Some 0"
    using rd32_put32 [of 8 "[17, 0] @ put16 e ck @ put16 e (word_of_int pid) @ put16 e 12345" e 0 "[]"]
    by (simp del: put32.simps put16.simps)
  ultimately show ?thesis using run len by auto
qed

text \<open>Packets of the size of the receive buffer, and which of them are mask replies.\<close>

fun received :: "recv_event \<Rightarrow> bool" where
  "received (Packet cc buf) \<longleftrightarrow> int (length buf) = packlen"
| "received (RecvError _) \<longleftrightarrow> True"
| "received Alarm \<longleftrightarrow> False"

fun is_mask_reply :: "recv_event \<Rightarrow> bool" where
  "is_mask_reply (Packet cc buf) \<longleftrightarrow> hdr_len buf + 8 \<le> cc \<and> buf ! nat (hdr_len buf) = 18"
| "is_mask_reply _ \<longleftrightarrow> False"

lemma mask_procpack_step:
  assumes "int (length buf) = packlen"
  shows "\<exists>ms. mask_procpack e pid response buf cc =
    Some (if is_mask_reply (Packet cc buf) then response + 1 else response, ms)"
proof -
  from packlen_reads [OF assms, of e] obtain ty seqno ident otime
    where rd: "rd8 buf 0 = Some (buf ! 0)" "rd8 buf (hdr_len buf) = Some ty"
      "rd16 e buf (hdr_len buf + 6) = Some seqno" "rd16 e buf (hdr_len buf + 4) = Some ident"
      "rd32 e buf (hdr_len buf + 8) = Some otime" .
  have "buf ! nat (hdr_len buf) = ty"
    using rd(2) by (auto simp: rd8_def aget_def split: if_splits)
  moreover have "int (unat (buf ! 0) mod 16) * 4 = hdr_len buf" by (simp add: hdr_len_def)
  ultimately show ?thesis
    using rd by (simp add: mask_procpack_def ICMP_MINLEN_def Let_def)
qed

lemma mask_loop_run:
  assumes "list_all received evs" "k + length evs < 2 ^ 32"
  shows "\<exists>out'. mask_loop e pid (of_nat k) (evs @ Alarm # later) out =
    Some (Inr (if k = 0 \<and> \<not> list_ex is_mask_reply evs then 1 else 0), out')"
  using assms
proof (induction evs arbitrary: k out)
  case Nil
  then have "(of_nat k :: u32) = 0 \<longleftrightarrow> k = 0"
    by (simp add: word_of_nat_eq_0_iff nat_dvd_not_less) (metis dvd_0_right dvd_imp_le not_less gr0I)
  then show ?case by (simp add: mask_sig_alrm_def)
next
  case (Cons ev evs)
  show ?case
  proof (cases ev)
    case (Packet cc buf)
    define k' where "k' = (if is_mask_reply ev then Suc k else k)"
    have "(if is_mask_reply ev then of_nat k + 1 else of_nat k) = (of_nat k' :: u32)"
      by (simp add: k'_def)
    with Cons.prems mask_procpack_step [of buf e pid "of_nat k" cc] Packet obtain ms
      where "mask_procpack e pid (of_nat k) buf cc = Some (of_nat k', ms)" by auto
    then have "mask_loop e pid (of_nat k) ((ev # evs) @ Alarm # later) out =
        mask_loop e pid (of_nat k') (evs @ Alarm # later) (out @ ms)" using Packet by simp
    moreover have "k' + length evs < 2 ^ 32" using Cons.prems by (simp add: k'_def)
    moreover have "k' = 0 \<and> \<not> list_ex is_mask_reply evs \<longleftrightarrow> k = 0 \<and> \<not> list_ex is_mask_reply (ev # evs)"
      by (auto simp: k'_def)
    ultimately show ?thesis using Cons.IH [of k' "out @ ms"] Cons.prems by simp
  next
    case (RecvError b)
    then show ?thesis
      using Cons.IH [of k "out @ (if b then [] else [MRecvfromError])"] Cons.prems by simp
  next
    case Alarm
    then show ?thesis using Cons.prems by simp
  qed
qed

text \<open>The exit status reports whether anyone answered: whatever arrives in the receive buffer
  before the five-second alarm, the program runs without an out-of-range access and exits with
  status 0 exactly when at least one mask reply was among the packets, and 1 otherwise.\<close>

theorem mask_exit_status:
  assumes "list_all received evs" "length evs < 2 ^ 32"
  shows "\<exists>out. mask_loop e pid 0 (evs @ Alarm # later) [] =
    Some (Inr (if list_ex is_mask_reply evs then 0 else 1), out)"
  using mask_loop_run [of evs 0 e pid later "[]"] assms by auto

theorem mask_exit_status_witness:
  "\<exists>out. mask_loop BigEndian 9 0
     ([RecvError False, Packet 32 (0x45 # replicate 19 0 @ 18 # replicate 127 0)] @ [Alarm]) [] =
   Some (Inr 0, out)"
  using mask_exit_status [of "[RecvError False, Packet 32 (0x45 # replicate 19 0 @ 18 # replicate 127 0)]"
      BigEndian 9 "[]"]
  by (simp add: packlen_def hdr_len_def nth_append del: mask_loop.simps)

end
