(* ===== verification/Ring.thy ===== *)
theory Ring
  imports Prelude
begin

text \<open>
  The circular doubly linked list that the CodeWar programs build by hand
  (\<^verbatim>\<open>bloodg_t\<close> and \<^verbatim>\<open>rrh_factor_t\<close> of \<^verbatim>\<open>CodeWar2013/bloodgroup.c\<close>): cells in a heap, a list object
  with a head pointer, an element count and a function pointer for insertion.
  New cells go right behind the head, so following \<^verbatim>\<open>next\<close> visits the head and then the later
  elements latest first, and following \<^verbatim>\<open>prev\<close> visits them in the order of insertion.

  The theory has the two insertions, the counted search loop, a combinator for loops of the form
  \<^verbatim>\<open>while(n--){ body; ptr = ptr->next; }\<close>, and the abstraction \<open>holds\<close> to the list of elements in
  insertion order, with the laws that the locale \<open>unique_list\<close> promises to its clients.
\<close>

section \<open>Model\<close>

record 'd cell =
  payload :: 'd
  cnext :: ptr
  cprev :: ptr

datatype adder = AddPlain | AddUnique

record ring =
  rlist :: ptr
  rhead :: ptr
  rcount :: u32
  rname :: "string option"
  radd :: "adder option"

type_synonym 'd cells = "'d cell heap"

text \<open>A list object comes from \<^verbatim>\<open>calloc\<close>, which may fail; it uses up one allocation.\<close>

definition calloc_ring :: "'d cells \<Rightarrow> ring option \<times> 'd cells" where
  "calloc_ring h =
     (if room h = 0 then (None, h)
      else (Some \<lparr>rlist = NULL, rhead = NULL, rcount = 0, rname = None, radd = None\<rparr>,
            h\<lparr>room := room h - 1\<rparr>))"

definition new_cell :: "'d \<Rightarrow> 'd cells \<Rightarrow> ptr \<times> 'd cells" where
  "new_cell d h = calloc \<lparr>payload = d, cnext = NULL, cprev = NULL\<rparr> h"

definition link_first :: "'d cells \<Rightarrow> ring \<Rightarrow> ptr \<Rightarrow> ('d cells \<times> ring) option" where
  "link_first h r p = do {
     h1 \<leftarrow> store h p (\<lambda>c. c\<lparr>cnext := p\<rparr>);
     h2 \<leftarrow> store h1 p (\<lambda>c. c\<lparr>cprev := p\<rparr>);
     Some (h2, r\<lparr>rlist := p, rhead := p\<rparr>)
   }"

definition link_after_head :: "'d cells \<Rightarrow> ring \<Rightarrow> ptr \<Rightarrow> 'd cells option" where
  "link_after_head h r p = do {
     c \<leftarrow> load h (rhead r);
     let tmp = cnext c;
     h1 \<leftarrow> store h p (\<lambda>c. c\<lparr>cprev := rhead r\<rparr>);
     h2 \<leftarrow> store h1 (rhead r) (\<lambda>c. c\<lparr>cnext := p\<rparr>);
     h3 \<leftarrow> store h2 p (\<lambda>c. c\<lparr>cnext := tmp\<rparr>);
     b \<leftarrow> load h3 p;
     store h3 (cnext b) (\<lambda>c. c\<lparr>cprev := p\<rparr>)
   }"

definition ring_add :: "'d cells \<Rightarrow> ring \<Rightarrow> ptr \<Rightarrow> ('d cells \<times> ring) option" where
  "ring_add h r p =
     (if p = NULL then Some (h, r)
      else if rlist r = NULL then link_first h r p
      else do { h' \<leftarrow> link_after_head h r p; Some (h', r) })"

primrec ring_find :: "('d \<Rightarrow> 'd \<Rightarrow> bool) \<Rightarrow> 'd cells \<Rightarrow> nat \<Rightarrow> ptr \<Rightarrow> ptr \<Rightarrow> bool option" where
  "ring_find eq h 0 p q = Some False"
| "ring_find eq h (Suc n) p q = do {
     c \<leftarrow> load h p;
     b \<leftarrow> load h q;
     if eq (payload c) (payload b) then Some True else ring_find eq h n (cnext c) q
   }"

definition ring_add_unique ::
    "('d \<Rightarrow> 'd \<Rightarrow> bool) \<Rightarrow> 'd cells \<Rightarrow> ring \<Rightarrow> ptr \<Rightarrow> ('d cells \<times> ring) option" where
  "ring_add_unique eq h r p =
     (if p = NULL then Some (h, r)
      else if rlist r = NULL then do {
        (h', r') \<leftarrow> link_first h r p;
        Some (h', r'\<lparr>rcount := rcount r' + 1\<rparr>)
      }
      else do {
        found \<leftarrow> ring_find eq h (unat (rcount r)) (rhead r) p;
        if found then Some (h, r)
        else do {
          h' \<leftarrow> link_after_head h r p;
          Some (h', r\<lparr>rcount := rcount r + 1\<rparr>)
        }
      })"

text \<open>The loop \<^verbatim>\<open>while(n--){ body(ptr); ptr = ptr->step; }\<close> over a state that contains the heap.\<close>

primrec count_loop ::
    "('s \<Rightarrow> 'd cells) \<Rightarrow> ('d cell \<Rightarrow> ptr) \<Rightarrow> (ptr \<Rightarrow> 's \<Rightarrow> 's option) \<Rightarrow> nat \<Rightarrow> ptr \<Rightarrow> 's \<Rightarrow> (ptr \<times> 's) option"
  where
  "count_loop hp step body 0 p s = Some (p, s)"
| "count_loop hp step body (Suc n) p s = do {
     s' \<leftarrow> body p s;
     c \<leftarrow> load (hp s') p;
     count_loop hp step body n (step c) s'
   }"

section \<open>Rings\<close>

definition linked :: "'d cells \<Rightarrow> ptr \<Rightarrow> ptr \<Rightarrow> bool" where
  "linked h a b \<longleftrightarrow>
     (\<exists>ca cb. load h a = Some ca \<and> load h b = Some cb \<and> cnext ca = b \<and> cprev cb = a)"

definition ring_at :: "'d cells \<Rightarrow> ring \<Rightarrow> ptr list \<Rightarrow> bool" where
  "ring_at h r ps \<longleftrightarrow>
     (if ps = [] then rlist r = NULL
      else rlist r = hd ps \<and> rhead r = hd ps \<and> distinct ps \<and>
           successively (linked h) (ps @ [hd ps]))"

lemma ring_at_rcount: "ring_at h (r\<lparr>rcount := k\<rparr>) ps = ring_at h r ps"
  by (simp add: ring_at_def)

definition val_at :: "'d cells \<Rightarrow> ptr \<Rightarrow> 'd" where
  "val_at h p = payload (the (objs h p))"

fun ring_order :: "'a list \<Rightarrow> 'a list" where
  "ring_order [] = []"
| "ring_order (x # xs) = x # rev xs"

definition frame :: "ptr \<Rightarrow> 'd cells \<Rightarrow> 'd cells \<Rightarrow> bool" where
  "frame b h h' \<longleftrightarrow> (\<forall>a < b. objs h' a = objs h a)"

text \<open>
  \<open>holds lo hi h r L\<close>: the list object \<open>r\<close> has the elements \<open>L\<close> in insertion order, in cells whose
  addresses are at least \<open>lo\<close> and below \<open>hi\<close>.
\<close>

definition holds :: "ptr \<Rightarrow> ptr \<Rightarrow> 'd cells \<Rightarrow> ring \<Rightarrow> 'd list \<Rightarrow> bool" where
  "holds lo hi h r L \<longleftrightarrow>
     (\<exists>ps. ring_at h r ps \<and> set ps \<subseteq> {lo..<hi} \<and> map (val_at h) ps = ring_order L)"

lemma ring_order_twice [simp]: "ring_order (ring_order xs) = xs"
  by (cases xs) auto

lemma set_ring_order [simp]: "set (ring_order xs) = set xs"
  by (cases xs) auto

lemma length_ring_order [simp]: "length (ring_order xs) = length xs"
  by (cases xs) auto

lemma ring_order_eq_Nil [simp]: "ring_order xs = [] \<longleftrightarrow> xs = []" "[] = ring_order xs \<longleftrightarrow> xs = []"
  by (cases xs; auto)+

lemma frame_refl [simp, intro]: "frame b h h"
  by (simp add: frame_def)

lemma frame_trans: "frame b h1 h2 \<Longrightarrow> frame b h2 h3 \<Longrightarrow> frame b h1 h3"
  by (simp add: frame_def)

lemma frame_mono: "frame b h1 h2 \<Longrightarrow> a \<le> b \<Longrightarrow> frame a h1 h2"
  by (simp add: frame_def)

lemma frame_load: "frame b h h' \<Longrightarrow> a < b \<Longrightarrow> load h' a = load h a"
  by (simp add: frame_def load_def)

lemma frame_val_at: "frame b h h' \<Longrightarrow> a < b \<Longrightarrow> val_at h' a = val_at h a"
  by (simp add: frame_def val_at_def)

lemma linked_mono:
  assumes "linked h a b" and "load h' a = load h a" and "load h' b = load h b"
  shows "linked h' a b"
  using assms by (auto simp: linked_def)

lemma ring_at_frame:
  assumes "ring_at h r ps" and "\<And>p. p \<in> set ps \<Longrightarrow> load h' p = load h p"
  shows "ring_at h' r ps"
proof (cases "ps = []")
  case False
  then have "successively (linked h) (ps @ [hd ps])"
    using assms(1) by (simp add: ring_at_def)
  then have "successively (linked h') (ps @ [hd ps])"
  proof (rule successively_mono_set)
    fix a b assume "a \<in> set (ps @ [hd ps])" and "b \<in> set (ps @ [hd ps])" and l: "linked h a b"
    then have "a \<in> set ps" and "b \<in> set ps"
      using False by auto
    then show "linked h' a b"
      using linked_mono [OF l] assms(2) by blast
  qed
  then show ?thesis
    using assms(1) False by (simp add: ring_at_def)
qed (use assms in \<open>simp add: ring_at_def\<close>)

lemma holds_frame:
  assumes "holds lo hi h r L" and "frame hi h h'"
  shows "holds lo hi h' r L"
proof -
  obtain ps where ps: "ring_at h r ps" "set ps \<subseteq> {lo..<hi}" "map (val_at h) ps = ring_order L"
    using assms(1) by (auto simp: holds_def)
  have "ring_at h' r ps"
    by (rule ring_at_frame [OF ps(1)]) (use ps(2) assms(2) in \<open>auto simp: frame_load subset_iff\<close>)
  moreover have "map (val_at h') ps = ring_order L"
    unfolding ps(3) [symmetric] using ps(2) assms(2) by (auto simp: frame_val_at subset_iff)
  ultimately show ?thesis
    using ps(2) by (auto simp: holds_def)
qed

lemma holds_widen: "holds lo hi h r L \<Longrightarrow> lo' \<le> lo \<Longrightarrow> hi \<le> hi' \<Longrightarrow> holds lo' hi' h r L"
  unfolding holds_def by fastforce


section \<open>Insertion\<close>

text \<open>What an insertion may change: links of the cells in \<open>S\<close>, never a payload.\<close>

definition relinks :: "ptr set \<Rightarrow> 'd cells \<Rightarrow> 'd cells \<Rightarrow> bool" where
  "relinks S h h' \<longleftrightarrow>
     brk h' = brk h \<and> room h' = room h \<and> dom (objs h') = dom (objs h) \<and>
     (\<forall>a. a \<notin> S \<longrightarrow> objs h' a = objs h a) \<and> (\<forall>a. val_at h' a = val_at h a)"

lemma relinks_heap_ok: "relinks S h h' \<Longrightarrow> heap_ok h \<Longrightarrow> heap_ok h'"
  unfolding relinks_def heap_ok_def by (elim conjE) simp

lemma relinks_frame: "relinks S h h' \<Longrightarrow> (\<And>a. a \<in> S \<Longrightarrow> b \<le> a) \<Longrightarrow> frame b h h'"
  unfolding relinks_def frame_def by (meson not_le)

lemma link_first_ring:
  assumes "load h p = Some c"
  obtains h' where "link_first h r p = Some (h', r\<lparr>rlist := p, rhead := p\<rparr>)"
    and "ring_at h' (r\<lparr>rlist := p, rhead := p\<rparr>) [p]" and "relinks {p} h h'"
proof -
  let ?h = "h\<lparr>objs := (objs h)(p \<mapsto> c\<lparr>cnext := p, cprev := p\<rparr>)\<rparr>"
  have p: "p \<noteq> NULL" "objs h p = Some c"
    using assms by (auto simp: load_def split: if_splits)
  have "link_first h r p = Some (?h, r\<lparr>rlist := p, rhead := p\<rparr>)"
    using p by (simp add: link_first_def store_def load_def)
  moreover have "ring_at ?h (r\<lparr>rlist := p, rhead := p\<rparr>) [p]"
    using p by (simp add: ring_at_def linked_def load_def)
  moreover have "relinks {p} h ?h"
    using p by (auto simp: relinks_def val_at_def)
  ultimately show ?thesis
    by (rule that)
qed

lemma link_after_head_single:
  assumes x: "load h x = Some cx" and "cnext cx = x" and "rhead r = x" "rlist r = x"
    and p: "load h p = Some c" and "p \<noteq> x"
  obtains h' where "link_after_head h r p = Some h'"
    and "ring_at h' r [x, p]" and "relinks {x, p} h h'"
proof -
  let ?h = "h\<lparr>objs := (objs h)(p \<mapsto> c\<lparr>cprev := x, cnext := x\<rparr>, x \<mapsto> cx\<lparr>cnext := p, cprev := p\<rparr>)\<rparr>"
  have nz: "p \<noteq> NULL" "objs h p = Some c" "x \<noteq> NULL" "objs h x = Some cx"
    using x p by (auto simp: load_def split: if_splits)
  have "link_after_head h r p = Some ?h"
    using nz assms by (auto simp: link_after_head_def store_def load_def fun_upd_twist)
  moreover have "ring_at ?h r [x, p]"
    using nz assms by (auto simp: ring_at_def linked_def load_def)
  moreover have "relinks {x, p} h ?h"
    using nz by (auto simp: relinks_def val_at_def)
  ultimately show ?thesis
    by (rule that)
qed

lemma successively_mono_ends:
  assumes "successively P zs"
    and "\<And>a b. a \<in> set (butlast zs) \<Longrightarrow> b \<in> set (tl zs) \<Longrightarrow> P a b \<Longrightarrow> Q a b"
  shows "successively Q zs"
  using assms by (induction zs rule: induct_list012) (auto split: if_splits)

lemma link_after_head_more:
  assumes ring: "ring_at h r (x # y # ys)" and p: "load h p = Some c" and new: "p \<notin> set (x # y # ys)"
  obtains h' where "link_after_head h r p = Some h'"
    and "ring_at h' r (x # p # y # ys)" and "relinks {x, y, p} h h'"
proof -
  have r: "rlist r = x" "rhead r = x" "distinct (x # y # ys)" "linked h x y"
    and succ: "successively (linked h) (y # ys @ [x])"
    using ring by (auto simp: ring_at_def)
  obtain cx cy where c: "load h x = Some cx" "load h y = Some cy" "cnext cx = y" "cprev cy = x"
    using r(4) by (auto simp: linked_def)
  let ?h = "h\<lparr>objs := (objs h)(p \<mapsto> c\<lparr>cprev := x, cnext := y\<rparr>, x \<mapsto> cx\<lparr>cnext := p\<rparr>, y \<mapsto> cy\<lparr>cprev := p\<rparr>)\<rparr>"
  have nz: "p \<noteq> NULL" "objs h p = Some c" "x \<noteq> NULL" "objs h x = Some cx" "y \<noteq> NULL" "objs h y = Some cy"
    using c p by (auto simp: load_def split: if_splits)
  have ne: "p \<noteq> x" "p \<noteq> y" "x \<noteq> y"
    using new r(3) by auto
  have "link_after_head h r p = Some ?h"
    using nz ne c r by (auto simp: link_after_head_def store_def load_def fun_upd_twist)
  moreover have "successively (linked ?h) (y # ys @ [x])"
  proof (rule successively_mono_ends [OF succ])
    fix a b assume a: "a \<in> set (butlast (y # ys @ [x]))" and b: "b \<in> set (tl (y # ys @ [x]))"
      and l: "linked h a b"
    have "a \<noteq> x" "a \<noteq> p" "b \<noteq> p" "b \<noteq> y"
      using a b new r(3) by (auto simp: butlast_append)
    then show "linked ?h a b"
      using l nz ne c by (auto simp: linked_def load_def split: if_splits)
  qed
  then have "ring_at ?h r (x # p # y # ys)"
    using nz ne new r by (auto simp: ring_at_def linked_def load_def)
  moreover have "relinks {x, y, p} h ?h"
    using nz ne by (auto simp: relinks_def val_at_def)
  ultimately show ?thesis
    by (rule that)
qed

lemma relinks_subset: "relinks S h h' \<Longrightarrow> S \<subseteq> T \<Longrightarrow> relinks T h h'"
  unfolding relinks_def by blast

lemma link_after_head_ring:
  assumes ring: "ring_at h r (x # xs)" and p: "load h p = Some c" and new: "p \<notin> set (x # xs)"
  obtains h' where "link_after_head h r p = Some h'"
    and "ring_at h' r (x # p # xs)" and "relinks (set (x # p # xs)) h h'"
proof (cases xs)
  case Nil
  then obtain cx where "load h x = Some cx" "cnext cx = x"
    using ring by (auto simp: ring_at_def linked_def)
  then obtain h' where "link_after_head h r p = Some h'" "ring_at h' r [x, p]" "relinks {x, p} h h'"
    using link_after_head_single [of h x cx r p c] ring p new Nil by (auto simp: ring_at_def)
  then show ?thesis
    using that Nil by simp
next
  case (Cons y ys)
  then obtain h' where h': "link_after_head h r p = Some h'" "ring_at h' r (x # p # y # ys)"
      "relinks {x, y, p} h h'"
    using link_after_head_more [of h r x y ys p c] ring p new by blast
  have "relinks (set (x # p # y # ys)) h h'"
    using h'(3) by (rule relinks_subset) auto
  then show ?thesis
    using that h' Cons by simp
qed


section \<open>Search and traversal\<close>

lemma linked_load: "linked h a b \<Longrightarrow> \<exists>c. load h a = Some c \<and> cnext c = b \<and> payload c = val_at h a"
  by (auto simp: linked_def load_def val_at_def split: if_splits)

lemma linked_load_prev: "linked h a b \<Longrightarrow> \<exists>c. load h b = Some c \<and> cprev c = a \<and> payload c = val_at h b"
  by (auto simp: linked_def load_def val_at_def split: if_splits)

lemma ring_find_path:
  assumes "successively (linked h) (z # zs)" and "load h q = Some b"
  shows "ring_find eq h (length zs) z q =
           Some (\<exists>p \<in> set (butlast (z # zs)). eq (val_at h p) (payload b))"
  using assms
proof (induction zs arbitrary: z)
  case (Cons w ws)
  obtain c where "load h z = Some c" "cnext c = w" "payload c = val_at h z"
    using Cons.prems linked_load by (metis successively.simps(3))
  then show ?case
    using Cons by auto
qed simp

lemma ring_find_ring:
  assumes "ring_at h r ps" and "ps \<noteq> []" and "load h q = Some b"
  shows "ring_find eq h (length ps) (rhead r) q = Some (\<exists>d \<in> val_at h ` set ps. eq d (payload b))"
proof -
  obtain x xs where ps: "ps = x # xs"
    using assms(2) by (cases ps) auto
  have "successively (linked h) (x # (xs @ [x]))" and "rhead r = x"
    using assms(1) ps by (auto simp: ring_at_def)
  then show ?thesis
    using ring_find_path [of h x "xs @ [x]" q b eq] assms(3) ps by (simp add: butlast_append)
qed

lemma count_loop_rule:
  assumes "length zs = Suc n" and "I 0 s"
    and "\<And>i s. i < n \<Longrightarrow> I i s \<Longrightarrow> \<exists>s'. body (zs ! i) s = Some s' \<and> I (Suc i) s' \<and>
           (\<exists>c. load (hp s') (zs ! i) = Some c \<and> step c = zs ! Suc i)"
  shows "\<exists>s'. count_loop hp step body n (zs ! 0) s = Some (zs ! n, s') \<and> I n s'"
  using assms
proof (induction n arbitrary: zs s I)
  case (Suc n)
  obtain s1 c where s1: "body (zs ! 0) s = Some s1" "I (Suc 0) s1"
      "load (hp s1) (zs ! 0) = Some c" "step c = zs ! Suc 0"
    using Suc.prems(2,3) by blast
  have "length (tl zs) = Suc n"
    using Suc.prems(1) by simp
  moreover have nth: "\<And>i. i \<le> n \<Longrightarrow> tl zs ! i = zs ! Suc i"
    using Suc.prems(1) by (cases zs) auto
  ultimately have "\<exists>s'. count_loop hp step body n (tl zs ! 0) s1 = Some (tl zs ! n, s') \<and> I (Suc n) s'"
    by (intro Suc.IH [of "tl zs" "\<lambda>i. I (Suc i)"]) (use s1(2) Suc.prems(3) in auto)
  then show ?case
    using s1 nth by auto
qed simp

section \<open>Duplicate-free insertion\<close>

definition insert_new :: "('d \<Rightarrow> 'd \<Rightarrow> bool) \<Rightarrow> 'd \<Rightarrow> 'd list \<Rightarrow> 'd list" where
  "insert_new eq d L = (if \<exists>x \<in> set L. eq x d then L else L @ [d])"

lemma length_insert_new: "length (insert_new eq d L) \<le> Suc (length L)"
  by (simp add: insert_new_def)

lemma ring_order_snoc: "L \<noteq> [] \<Longrightarrow> ring_order (L @ [d]) = hd (ring_order L) # d # tl (ring_order L)"
  by (cases L) auto

definition uholds :: "ptr \<Rightarrow> 'd cells \<Rightarrow> ring \<Rightarrow> 'd list \<Rightarrow> bool" where
  "uholds b h r L \<longleftrightarrow>
     heap_ok h \<and> b \<le> brk h \<and> radd r = Some AddUnique \<and> rcount r = of_nat (length L) \<and>
     length L < 2 ^ 32 \<and> holds b (brk h) h r L"

lemma unat_of_nat_u32: "n < 2 ^ 32 \<Longrightarrow> unat (of_nat n :: u32) = n"
  by (simp add: unat_of_nat take_bit_nat_eq_self)

lemma new_cell_room:
  assumes "heap_ok h" and "0 < room h"
  obtains h1 where "new_cell d h = (brk h, h1)" and "heap_ok h1" and "frame (brk h) h h1"
    and "brk h1 = Suc (brk h)" and "room h1 = room h - 1"
    and "load h1 (brk h) = Some \<lparr>payload = d, cnext = NULL, cprev = NULL\<rparr>"
proof (rule that)
  let ?h = "snd (new_cell d h)"
  show "new_cell d h = (brk h, ?h)" "brk ?h = Suc (brk h)" "room ?h = room h - 1"
    using assms by (auto simp: new_cell_def calloc_def)
  show "heap_ok ?h"
    using assms heap_ok_calloc by (auto simp: new_cell_def)
  show "frame (brk h) h ?h"
    using assms by (auto simp: new_cell_def calloc_def frame_def)
  show "load ?h (brk h) = Some \<lparr>payload = d, cnext = NULL, cprev = NULL\<rparr>"
    using assms by (auto simp: new_cell_def calloc_def load_def heap_ok_def)
qed

lemma load_nonnull: "load h p = Some c \<Longrightarrow> p \<noteq> NULL"
  by (metis load_NULL option.distinct(1))

lemma ring_at_nonnull:
  assumes "ring_at h r ps" and "ps \<noteq> []"
  shows "rlist r \<noteq> NULL"
proof -
  have "successively (linked h) (ps @ [hd ps])" "rlist r = hd ps"
    using assms by (auto simp: ring_at_def)
  then have "linked h (last ps) (rlist r)"
    using assms(2) by (auto simp: successively_append_iff)
  then show ?thesis
    by (auto simp: linked_def dest: load_nonnull)
qed

lemma ring_add_unique_empty:
  assumes "rlist r = NULL" and p: "load h p = Some c"
  obtains h' where "ring_add_unique eq h r p =
      Some (h', r\<lparr>rlist := p, rhead := p, rcount := rcount r + 1\<rparr>)"
    and "ring_at h' (r\<lparr>rlist := p, rhead := p, rcount := rcount r + 1\<rparr>) [p]" and "relinks {p} h h'"
proof -
  obtain h' where h': "link_first h r p = Some (h', r\<lparr>rlist := p, rhead := p\<rparr>)"
      "ring_at h' (r\<lparr>rlist := p, rhead := p\<rparr>) [p]" "relinks {p} h h'"
    using link_first_ring [OF p] by metis
  moreover note load_nonnull [OF p]
  ultimately show ?thesis
    using that assms(1) by (simp add: ring_add_unique_def ring_at_def)
qed

lemma ring_add_unique_more:
  assumes ring: "ring_at h r (x # xs)" and p: "load h p = Some c" and new: "p \<notin> set (x # xs)"
    and cnt: "unat (rcount r) = length (x # xs)"
    and absent: "\<not> (\<exists>d \<in> val_at h ` set (x # xs). eq d (payload c))"
  obtains h' where "ring_add_unique eq h r p = Some (h', r\<lparr>rcount := rcount r + 1\<rparr>)"
    and "ring_at h' (r\<lparr>rcount := rcount r + 1\<rparr>) (x # p # xs)" and "relinks (set (x # p # xs)) h h'"
proof -
  obtain h' where h': "link_after_head h r p = Some h'" "ring_at h' r (x # p # xs)"
      "relinks (set (x # p # xs)) h h'"
    using link_after_head_ring [OF ring p new] by metis
  have "ring_find eq h (unat (rcount r)) (rhead r) p = Some False"
    unfolding cnt using ring_find_ring [OF ring list.distinct(2) p, of eq] absent by simp
  moreover have "rlist r \<noteq> NULL"
    using ring_at_nonnull [OF ring] by simp
  moreover note load_nonnull [OF p]
  ultimately have "ring_add_unique eq h r p = Some (h', r\<lparr>rcount := rcount r + 1\<rparr>)"
    using h'(1) by (simp add: ring_add_unique_def)
  then show ?thesis
    using that h'(2,3) by (simp add: ring_at_def)
qed

lemma ring_add_unique_present:
  assumes ring: "ring_at h r ps" and p: "load h p = Some c" and cnt: "unat (rcount r) = length ps"
    and found: "\<exists>d \<in> val_at h ` set ps. eq d (payload c)"
  shows "ring_add_unique eq h r p = Some (h, r)"
proof -
  have ne: "ps \<noteq> []"
    using found by auto
  have "ring_find eq h (unat (rcount r)) (rhead r) p = Some True"
    using ring_find_ring [OF ring ne p, of eq] found cnt by simp
  moreover note ring_at_nonnull [OF ring ne] load_nonnull [OF p]
  ultimately show ?thesis
    by (simp add: ring_add_unique_def)
qed

lemma ring_add_unique_ring:
  assumes ring: "ring_at h r ps" and p: "load h p = Some c" and new: "p \<notin> set ps"
    and cnt: "rcount r = of_nat (length ps)" and small: "length ps < 2 ^ 32"
    and L: "map (val_at h) ps = ring_order L"
  shows "\<exists>h' r' ps'. ring_add_unique eq h r p = Some (h', r') \<and> ring_at h' r' ps' \<and>
     set ps' \<subseteq> insert p (set ps) \<and> relinks (insert p (set ps)) h h' \<and> radd r' = radd r \<and>
     rcount r' = of_nat (length ps') \<and>
     map (val_at h) ps' = ring_order (insert_new eq (payload c) L)"
proof -
  have un: "unat (rcount r) = length ps"
    using cnt small unat_of_nat_u32 by simp
  have vals: "val_at h ` set ps = set L"
    using L by (metis list.set_map set_ring_order)
  have vp: "val_at h p = payload c"
    using p by (auto simp: load_def val_at_def split: if_splits)
  consider "ps = []" | "\<exists>d \<in> set L. eq d (payload c)"
    | x xs where "ps = x # xs" "\<not> (\<exists>d \<in> set L. eq d (payload c))"
    by (cases ps) auto
  then show ?thesis
  proof cases
    case 1
    then have "rlist r = NULL" "L = []" "rcount r = 0"
      using ring L cnt by (auto simp: ring_at_def)
    moreover obtain h' where "ring_add_unique eq h r p =
          Some (h', r\<lparr>rlist := p, rhead := p, rcount := rcount r + 1\<rparr>)"
        "ring_at h' (r\<lparr>rlist := p, rhead := p, rcount := rcount r + 1\<rparr>) [p]" "relinks {p} h h'"
      using ring_add_unique_empty [OF \<open>rlist r = NULL\<close> p] by metis
    ultimately show ?thesis
      using vp 1 by (intro exI [of _ h'] exI [of _ "r\<lparr>rlist := p, rhead := p, rcount := rcount r + 1\<rparr>"]
          exI [of _ "[p]"]) (simp add: insert_new_def)
  next
    case 2
    then have "ring_add_unique eq h r p = Some (h, r)" "insert_new eq (payload c) L = L"
      using ring_add_unique_present [OF ring p un] vals by (auto simp: insert_new_def)
    then show ?thesis
      using ring cnt L by (auto simp: relinks_def)
  next
    case 3
    obtain h' where h': "ring_add_unique eq h r p = Some (h', r\<lparr>rcount := rcount r + 1\<rparr>)"
        "ring_at h' (r\<lparr>rcount := rcount r + 1\<rparr>) (x # p # xs)" "relinks (set (x # p # xs)) h h'"
      using ring_add_unique_more [of h r x xs p c eq] ring p new un vals 3 by metis
    moreover have "set (x # p # xs) = insert p (set ps)"
      using 3 by auto
    moreover have "map (val_at h) (x # p # xs) = ring_order (insert_new eq (payload c) L)"
      using L 3 vp by (cases L) (auto simp: insert_new_def)
    ultimately show ?thesis
      using cnt 3(1) by (intro exI [of _ h'] exI [of _ "r\<lparr>rcount := rcount r + 1\<rparr>"]
          exI [of _ "x # p # xs"]) simp
  qed
qed

lemma ring_add_unique_new:
  assumes U: "uholds b h r L" and ok: "0 < room h" and small: "Suc (length L) < 2 ^ 32"
  obtains h1 h' r' where "new_cell d h = (brk h, h1)"
    and "ring_add_unique eq h1 r (brk h) = Some (h', r')"
    and "uholds b h' r' (insert_new eq d L)" and "frame b h h'" and "room h' = room h - 1"
proof -
  have hok: "heap_ok h" and b: "b \<le> brk h" and r: "radd r = Some AddUnique" "rcount r = of_nat (length L)"
    and H: "holds b (brk h) h r L"
    using U by (auto simp: uholds_def)
  obtain h1 where h1: "new_cell d h = (brk h, h1)" "heap_ok h1" "frame (brk h) h h1"
      "brk h1 = Suc (brk h)" "room h1 = room h - 1"
      "load h1 (brk h) = Some \<lparr>payload = d, cnext = NULL, cprev = NULL\<rparr>"
    using new_cell_room [OF hok ok] by metis
  obtain ps where ps: "ring_at h1 r ps" "set ps \<subseteq> {b..<brk h}" "map (val_at h1) ps = ring_order L"
    using holds_frame [OF H h1(3)] by (auto simp: holds_def)
  have len: "length ps = length L"
    using ps(3) by (metis length_map length_ring_order)
  obtain h' r' ps' where h': "ring_add_unique eq h1 r (brk h) = Some (h', r')" "ring_at h' r' ps'"
      "set ps' \<subseteq> insert (brk h) (set ps)" "relinks (insert (brk h) (set ps)) h1 h'" "radd r' = radd r"
      "rcount r' = of_nat (length ps')" "map (val_at h1) ps' = ring_order (insert_new eq d L)"
    using ring_add_unique_ring [OF ps(1) h1(6), of L eq] ps(2,3) r(2) len small by force
  have "length ps' = length (insert_new eq d L)" "map (val_at h') ps' = map (val_at h1) ps'"
    using h'(4,7) by (metis length_map length_ring_order) (use h'(4) in \<open>simp add: relinks_def\<close>)
  moreover have "set ps' \<subseteq> {b..<brk h'}"
    using h'(3,4) ps(2) b h1(4) by (fastforce simp: relinks_def)
  ultimately have "uholds b h' r' (insert_new eq d L)"
    using h' r(1) b small h1(2,4) relinks_heap_ok [OF h'(4)] length_insert_new [of eq d L]
    by (auto simp: uholds_def holds_def relinks_def)
  moreover have "frame b h1 h'"
    by (rule relinks_frame [OF h'(4)]) (use ps(2) b in auto)
  then have "frame b h h'"
    by (rule frame_trans [OF frame_mono [OF h1(3) b]])
  moreover have "room h' = room h - 1"
    using h'(4) h1(5) by (simp add: relinks_def)
  ultimately show ?thesis
    using that h1(1) h'(1) by blast
qed

section \<open>Plain insertion\<close>

lemma ring_add_ring:
  assumes ring: "ring_at h r ps" and p: "load h p = Some c" and new: "p \<notin> set ps"
    and L: "map (val_at h) ps = ring_order L"
  shows "\<exists>h' r' ps'. ring_add h r p = Some (h', r') \<and> ring_at h' r' ps' \<and>
     set ps' = insert p (set ps) \<and> relinks (insert p (set ps)) h h' \<and>
     rcount r' = rcount r \<and> rname r' = rname r \<and> radd r' = radd r \<and>
     map (val_at h) ps' = ring_order (L @ [payload c])"
proof -
  have vp: "val_at h p = payload c"
    using p by (auto simp: load_def val_at_def split: if_splits)
  note nz = load_nonnull [OF p]
  show ?thesis
  proof (cases ps)
    case Nil
    then have "rlist r = NULL" "L = []"
      using ring L by (auto simp: ring_at_def)
    moreover obtain h' where "link_first h r p = Some (h', r\<lparr>rlist := p, rhead := p\<rparr>)"
        "ring_at h' (r\<lparr>rlist := p, rhead := p\<rparr>) [p]" "relinks {p} h h'"
      using link_first_ring [OF p] by metis
    ultimately show ?thesis
      using Nil vp nz by (intro exI [of _ h'] exI [of _ "r\<lparr>rlist := p, rhead := p\<rparr>"]
          exI [of _ "[p]"]) (simp add: ring_add_def)
  next
    case (Cons x xs)
    have "rlist r \<noteq> NULL"
      using ring_at_nonnull [OF ring] Cons by simp
    moreover obtain h' where "link_after_head h r p = Some h'" "ring_at h' r (x # p # xs)"
        "relinks (set (x # p # xs)) h h'"
      using link_after_head_ring [OF _ p] ring new Cons by metis
    moreover have "set (x # p # xs) = insert p (set ps)"
      using Cons by auto
    moreover have "map (val_at h) (x # p # xs) = ring_order (L @ [payload c])"
      using L Cons vp by (cases L) auto
    ultimately show ?thesis
      using nz by (intro exI [of _ h'] exI [of _ r] exI [of _ "x # p # xs"]) (simp add: ring_add_def)
  qed
qed

definition pholds :: "ptr \<Rightarrow> 'd cells \<Rightarrow> ring \<Rightarrow> 'd list \<Rightarrow> bool" where
  "pholds b h r L \<longleftrightarrow> heap_ok h \<and> b \<le> brk h \<and> radd r = Some AddPlain \<and> holds b (brk h) h r L"

lemma ring_add_new:
  assumes U: "pholds b h r L" and ok: "0 < room h"
  obtains h1 h' r' where "new_cell d h = (brk h, h1)" and "ring_add h1 r (brk h) = Some (h', r')"
    and "pholds b h' r' (L @ [d])" and "frame b h h'" and "room h' = room h - 1"
    and "rcount r' = rcount r" and "rname r' = rname r"
proof -
  have hok: "heap_ok h" and b: "b \<le> brk h" and H: "holds b (brk h) h r L" and r: "radd r = Some AddPlain"
    using U by (auto simp: pholds_def)
  obtain h1 where h1: "new_cell d h = (brk h, h1)" "heap_ok h1" "frame (brk h) h h1"
      "brk h1 = Suc (brk h)" "room h1 = room h - 1"
      "load h1 (brk h) = Some \<lparr>payload = d, cnext = NULL, cprev = NULL\<rparr>"
    using new_cell_room [OF hok ok] by metis
  obtain ps where ps: "ring_at h1 r ps" "set ps \<subseteq> {b..<brk h}" "map (val_at h1) ps = ring_order L"
    using holds_frame [OF H h1(3)] by (auto simp: holds_def)
  obtain h' r' ps' where h': "ring_add h1 r (brk h) = Some (h', r')" "ring_at h' r' ps'"
      "set ps' = insert (brk h) (set ps)" "relinks (insert (brk h) (set ps)) h1 h'"
      "rcount r' = rcount r" "rname r' = rname r" "radd r' = radd r"
      "map (val_at h1) ps' = ring_order (L @ [d])"
    using ring_add_ring [OF ps(1) h1(6), of L] ps(2,3) by force
  have "map (val_at h') ps' = map (val_at h1) ps'"
    using h'(4) by (simp add: relinks_def)
  moreover have "set ps' \<subseteq> {b..<brk h'}"
    using h'(3,4) ps(2) b h1(4) by (fastforce simp: relinks_def)
  ultimately have "holds b (brk h') h' r' (L @ [d])"
    unfolding holds_def using h'(2,8) by (intro exI [of _ ps']) simp
  then have "pholds b h' r' (L @ [d])"
    using h' r b h1(2,4) relinks_heap_ok [OF h'(4)] by (auto simp: pholds_def relinks_def)
  moreover have "frame b h1 h'"
    by (rule relinks_frame [OF h'(4)]) (use ps(2) b in auto)
  then have "frame b h h'"
    by (rule frame_trans [OF frame_mono [OF h1(3) b]])
  moreover have "room h' = room h - 1"
    using h'(4) h1(5) by (simp add: relinks_def)
  ultimately show ?thesis
    using that h1(1) h'(1,5,6) by blast
qed

section \<open>The contract of a duplicate-free list\<close>

primrec add_all ::
    "('h \<Rightarrow> 'r \<Rightarrow> 'd \<Rightarrow> ('h \<times> 'r) option) \<Rightarrow> 'd list \<Rightarrow> 'h \<times> 'r \<Rightarrow> ('h \<times> 'r) option" where
  "add_all add [] s = Some s"
| "add_all add (d # ds) s = do { s' \<leftarrow> add (fst s) (snd s) d; add_all add ds s' }"

lemma add_all_append: "add_all add (xs @ ys) s = do { s' \<leftarrow> add_all add xs s; add_all add ys s' }"
  by (induction xs arbitrary: s) (auto split: Option.bind_splits)

text \<open>
  What the clients of the duplicate-free insertion rely on: as long as memory is left and the
  32-bit count does not overflow, an insertion succeeds, appends the element unless an equal one is
  there, uses one allocation and leaves everything outside the list alone.
\<close>

locale unique_list =
  fixes add :: "'h \<Rightarrow> 'r \<Rightarrow> 'd \<Rightarrow> ('h \<times> 'r) option"
    and model :: "'h \<Rightarrow> 'r \<Rightarrow> 'd list \<Rightarrow> bool"
    and slots :: "'h \<Rightarrow> nat"
    and keeps :: "'h \<Rightarrow> 'h \<Rightarrow> bool"
    and eq :: "'d \<Rightarrow> 'd \<Rightarrow> bool"
  assumes add_law: "\<lbrakk>model h r L; 0 < slots h; Suc (length L) < 2 ^ 32\<rbrakk> \<Longrightarrow>
      \<exists>h' r'. add h r d = Some (h', r') \<and> model h' r' (insert_new eq d L) \<and>
              slots h' = slots h - 1 \<and> keeps h h'"
    and keeps_refl: "keeps h h"
    and keeps_trans: "keeps h1 h2 \<Longrightarrow> keeps h2 h3 \<Longrightarrow> keeps h1 h3"
begin

lemma add_all_model:
  assumes "model (fst s) (snd s) L" and "length ds \<le> slots (fst s)" and "length L + length ds < 2 ^ 32"
  shows "\<exists>s'. add_all add ds s = Some s' \<and> model (fst s') (snd s') (fold (insert_new eq) ds L) \<and>
     slots (fst s') = slots (fst s) - length ds \<and> keeps (fst s) (fst s')"
  using assms
proof (induction ds arbitrary: s L)
  case Nil
  then show ?case
    using keeps_refl by simp
next
  case (Cons d ds)
  obtain h' r' where a: "add (fst s) (snd s) d = Some (h', r')" "model h' r' (insert_new eq d L)"
      "slots h' = slots (fst s) - 1" "keeps (fst s) h'"
    using add_law [of "fst s" "snd s" L d] Cons.prems by auto
  have "length (insert_new eq d L) + length ds < 2 ^ 32"
    using length_insert_new [of eq d L] Cons.prems(3) by simp
  then obtain s' where "add_all add ds (h', r') = Some s'"
      "model (fst s') (snd s') (fold (insert_new eq) ds (insert_new eq d L))"
      "slots (fst s') = slots h' - length ds" "keeps h' (fst s')"
    using Cons.IH [of "(h', r')" "insert_new eq d L"] a(2,3) Cons.prems(2) by force
  then show ?case
    using a keeps_trans by auto
qed

text \<open>
  \<open>adds h0 f ds\<close>: from every state in which the memory outside the list is as in \<open>h0\<close> and room is
  left, the code \<open>f\<close> does what inserting \<open>ds\<close> one after the other does.
\<close>

definition adds :: "'h \<Rightarrow> ('h \<times> 'r \<Rightarrow> ('h \<times> 'r) option) \<Rightarrow> 'd list \<Rightarrow> bool" where
  "adds h0 f ds \<longleftrightarrow>
     (\<forall>s L. model (fst s) (snd s) L \<and> keeps h0 (fst s) \<and> length ds \<le> slots (fst s) \<and>
            length L + length ds < 2 ^ 32 \<longrightarrow> f s = add_all add ds s)"

lemma addsI:
  assumes "\<And>s. keeps h0 (fst s) \<Longrightarrow> f s = add_all add ds s"
  shows "adds h0 f ds"
  using assms by (auto simp: adds_def)

lemma adds_cong:
  assumes "adds h0 g ds" and "\<And>s. keeps h0 (fst s) \<Longrightarrow> f s = g s"
  shows "adds h0 f ds"
  using assms unfolding adds_def by auto

lemma adds_None: "adds h0 (\<lambda>s. Some s) []"
  by (simp add: adds_def)

lemma adds_one: "adds h0 (\<lambda>s. add (fst s) (snd s) d) [d]"
  by (simp add: adds_def)

lemma adds_run:
  assumes "adds h0 f ds" and "model (fst s) (snd s) L" and "keeps h0 (fst s)"
    and "length ds \<le> slots (fst s)" and "length L + length ds < 2 ^ 32"
  shows "\<exists>s'. f s = Some s' \<and> model (fst s') (snd s') (fold (insert_new eq) ds L) \<and>
     slots (fst s') = slots (fst s) - length ds \<and> keeps h0 (fst s')"
proof -
  have "f s = add_all add ds s"
    using assms unfolding adds_def by blast
  then show ?thesis
    using add_all_model [OF assms(2,4,5)] keeps_trans [OF assms(3)] by auto
qed

lemma length_fold_insert_new: "length (fold (insert_new eq) ds L) \<le> length L + length ds"
proof (induction ds arbitrary: L)
  case (Cons d ds)
  show ?case
    using Cons [of "insert_new eq d L"] length_insert_new [of eq d L] by simp
qed simp

lemma adds_bind:
  assumes f: "adds h0 f xs" and g: "adds h0 g ys"
  shows "adds h0 (\<lambda>s. Option.bind (f s) g) (xs @ ys)"
  unfolding adds_def
proof (intro allI impI, elim conjE)
  fix s L
  assume m: "model (fst s) (snd s) L" and k: "keeps h0 (fst s)"
    and sl: "length (xs @ ys) \<le> slots (fst s)" and len: "length L + length (xs @ ys) < 2 ^ 32"
  obtain s' where s': "f s = Some s'" "model (fst s') (snd s') (fold (insert_new eq) xs L)"
      "slots (fst s') = slots (fst s) - length xs" "keeps h0 (fst s')"
    using adds_run [OF f m k] sl len by auto
  have "length ys \<le> slots (fst s')" "length (fold (insert_new eq) xs L) + length ys < 2 ^ 32"
    using s'(3) sl len length_fold_insert_new [of xs L] by auto
  then have "g s' = add_all add ys s'"
    using g s'(2,4) unfolding adds_def by blast
  moreover have "length xs \<le> slots (fst s)" "length L + length xs < 2 ^ 32"
    using sl len by auto
  then have "f s = add_all add xs s"
    using f m k unfolding adds_def by blast
  ultimately show "Option.bind (f s) g = add_all add (xs @ ys) s"
    by (simp only: add_all_append s'(1) bind.bind_lunit flip: \<open>f s = add_all add xs s\<close>)
qed

end

end
