(* ===== verification/Bloodgroup.thy ===== *)
theory Bloodgroup
  imports Ring
begin

text \<open>
  \<^verbatim>\<open>CodeWar2013/bloodgroup.c\<close>: the blood groups a child can have, from the groups of its parents.
  Every function the child query runs is modelled, on the heap of list cells of theory \<open>Ring\<close>:
  the two tables, the pairing of the parents' markers and Rh alleles into duplicate-free lists,
  the lookup of the names, and the printed line.  Marker sets and Rh allele sets have the same
  layout and share one heap; the list objects themselves are passed by value, since none of them is
  changed through two names.  Diagnostics on stderr are not recorded.
\<close>

type_synonym marks = "(string \<times> string) cells"
type_synonym table = "ring option list"

definition BLOOD_GROUP_TABLE_LEN :: nat where "BLOOD_GROUP_TABLE_LEN = 4"
definition RRH_FACTOR_TABLE_LEN :: nat where "RRH_FACTOR_TABLE_LEN = 2"

text \<open>\<^verbatim>\<open>s[0]\<close> of a C string.\<close>

definition c0 :: "string \<Rightarrow> char" where
  "c0 s = (case s of [] \<Rightarrow> CHR 0x00 | c # _ \<Rightarrow> c)"

section \<open>Lists of marker sets and of Rh allele sets\<close>

definition new_blood_marker_set :: "string \<Rightarrow> string \<Rightarrow> marks \<Rightarrow> ptr \<times> marks" where
  "new_blood_marker_set first second h = new_cell (first, second) h"

definition new_rh_allele_set :: "string \<Rightarrow> string \<Rightarrow> marks \<Rightarrow> ptr \<times> marks" where
  "new_rh_allele_set first second h = new_cell (first, second) h"

definition add_bloodgroup_marker_set :: "marks \<Rightarrow> ring \<Rightarrow> ptr \<Rightarrow> (marks \<times> ring) option" where
  "add_bloodgroup_marker_set h self bm = ring_add h self bm"

definition add_rh_allele_set :: "marks \<Rightarrow> ring \<Rightarrow> ptr \<Rightarrow> (marks \<times> ring) option" where
  "add_rh_allele_set h self rha = ring_add h self rha"

text \<open>Marker sets are compared with \<^verbatim>\<open>strcmp\<close>, Rh allele sets by their first characters.\<close>

definition same_strings :: "string \<times> string \<Rightarrow> string \<times> string \<Rightarrow> bool" where
  "same_strings a b \<longleftrightarrow> fst a = fst b \<and> snd a = snd b"

definition same_chars :: "string \<times> string \<Rightarrow> string \<times> string \<Rightarrow> bool" where
  "same_chars a b \<longleftrightarrow> c0 (fst a) = c0 (fst b) \<and> c0 (snd a) = c0 (snd b)"

definition add_unique_bloodgroup_marker_set :: "marks \<Rightarrow> ring \<Rightarrow> ptr \<Rightarrow> (marks \<times> ring) option" where
  "add_unique_bloodgroup_marker_set h self bm = ring_add_unique same_strings h self bm"

definition add_unique_rha_set :: "marks \<Rightarrow> ring \<Rightarrow> ptr \<Rightarrow> (marks \<times> ring) option" where
  "add_unique_rha_set h self rha = ring_add_unique same_chars h self rha"

definition rrh_factor_init :: "ring \<Rightarrow> string \<Rightarrow> ring" where
  "rrh_factor_init rhf nm = rhf\<lparr>radd := Some AddPlain, rname := Some nm\<rparr>"

definition bloodgroup_init :: "ring \<Rightarrow> string \<Rightarrow> ring" where
  "bloodgroup_init bg nm = bg\<lparr>radd := Some AddPlain, rname := Some nm\<rparr>"

text \<open>\<^verbatim>\<open>bg->add(bg, new_blood_marker_set(a, b))\<close>, through the function pointer.\<close>

definition bg_add :: "marks \<Rightarrow> ring \<Rightarrow> string \<times> string \<Rightarrow> (marks \<times> ring) option" where
  "bg_add h bg d =
     (let (bm, h1) = new_blood_marker_set (fst d) (snd d) h
      in case radd bg of None \<Rightarrow> None
         | Some AddPlain \<Rightarrow> add_bloodgroup_marker_set h1 bg bm
         | Some AddUnique \<Rightarrow> add_unique_bloodgroup_marker_set h1 bg bm)"

definition rha_add :: "marks \<Rightarrow> ring \<Rightarrow> string \<times> string \<Rightarrow> (marks \<times> ring) option" where
  "rha_add h rhf d =
     (let (rha, h1) = new_rh_allele_set (fst d) (snd d) h
      in case radd rhf of None \<Rightarrow> None
         | Some AddPlain \<Rightarrow> add_rh_allele_set h1 rhf rha
         | Some AddUnique \<Rightarrow> add_unique_rha_set h1 rhf rha)"

section \<open>Tables\<close>

text \<open>
  One block of the table builders: allocate the list object, initialise it, add its sets in order
  and bump the count; a failed allocation leaves a null entry.
\<close>

definition build_bg :: "string \<Rightarrow> (string \<times> string) list \<Rightarrow> u32 \<Rightarrow> marks \<Rightarrow> (ring option \<times> marks) option" where
  "build_bg nm ds k h =
     (case calloc_ring h of (None, h1) \<Rightarrow> Some (None, h1)
      | (Some bg, h1) \<Rightarrow> do {
          (h2, bg') \<leftarrow> add_all bg_add ds (h1, bloodgroup_init bg nm);
          Some (Some (bg'\<lparr>rcount := rcount bg' + k\<rparr>), h2)
        })"

definition build_blood_group_table :: "marks \<Rightarrow> (table \<times> marks) option" where
  "build_blood_group_table h = do {
     (a, h) \<leftarrow> build_bg ''A'' [(''A'', ''A''), (''A'', ''O'')] 2 h;
     (ab, h) \<leftarrow> build_bg ''AB'' [(''A'', ''B'')] 1 h;
     (b, h) \<leftarrow> build_bg ''B'' [(''B'', ''B''), (''B'', ''O'')] 2 h;
     (z, h) \<leftarrow> build_bg ''O'' [(''O'', ''O'')] 1 h;
     Some ([a, ab, b, z], h)
   }"

definition build_rh :: "string \<Rightarrow> (string \<times> string) list \<Rightarrow> u32 \<Rightarrow> marks \<Rightarrow> (ring option \<times> marks) option" where
  "build_rh nm ds k h =
     (case calloc_ring h of (None, h1) \<Rightarrow> Some (None, h1)
      | (Some rhf, h1) \<Rightarrow> do {
          (h2, rhf') \<leftarrow> add_all rha_add ds (h1, rrh_factor_init rhf nm);
          Some (Some (rhf'\<lparr>rcount := rcount rhf' + k\<rparr>), h2)
        })"

definition build_rh_factor_table :: "marks \<Rightarrow> (table \<times> marks) option" where
  "build_rh_factor_table h = do {
     (p, h) \<leftarrow> build_rh ''+'' [(''+'', ''+''), (''+'', ''-''), (''-'', ''+'')] 3 h;
     (m, h) \<leftarrow> build_rh ''-'' [(''-'', ''-'')] 1 h;
     Some ([p, m], h)
   }"

text \<open>
  The lookup loops.  The first ends behind the table when no name matches; reading that entry is
  out of range.
\<close>

function find_name :: "nat \<Rightarrow> table \<Rightarrow> string \<Rightarrow> nat \<Rightarrow> nat option" where
  "find_name len t nm i =
     (if i < len then do {
        e \<leftarrow> aget t (int i);
        r \<leftarrow> e;
        s \<leftarrow> rname r;
        if s = nm then Some i else find_name len t nm (i + 1)
      }
      else Some i)"
  by auto
termination by (relation "measure (\<lambda>(len, t, nm, i). len - i)") auto

definition get_blood_group_from_table :: "table \<Rightarrow> string \<Rightarrow> ring option option" where
  "get_blood_group_from_table t nm = do {
     i \<leftarrow> find_name BLOOD_GROUP_TABLE_LEN t nm 0;
     aget t (int i)
   }"

definition get_rrhfactor_from_table :: "table \<Rightarrow> string \<Rightarrow> ring option option" where
  "get_rrhfactor_from_table t key = do {
     i \<leftarrow> find_name RRH_FACTOR_TABLE_LEN t key 0;
     aget t (int i)
   }"

function find_set :: "nat \<Rightarrow> table \<Rightarrow> marks \<Rightarrow> ptr \<Rightarrow> nat \<Rightarrow> string option option" where
  "find_set len t h q i =
     (if i < len then do {
        e \<leftarrow> aget t (int i);
        r \<leftarrow> e;
        found \<leftarrow> ring_find same_chars h (unat (rcount r)) (rhead r) q;
        if found then Some (rname r) else find_set len t h q (i + 1)
      }
      else Some None)"
  by auto
termination by (relation "measure (\<lambda>(len, t, h, q, i). len - i)") auto

definition get_blood_group_name_from_table :: "table \<Rightarrow> marks \<Rightarrow> ptr \<Rightarrow> string option option" where
  "get_blood_group_name_from_table t h bm = find_set BLOOD_GROUP_TABLE_LEN t h bm 0"

definition get_rrh_factor_name_from_table :: "table \<Rightarrow> marks \<Rightarrow> ptr \<Rightarrow> string option option" where
  "get_rrh_factor_name_from_table t h rha = find_set RRH_FACTOR_TABLE_LEN t h rha 0"

section \<open>Pairing\<close>

text \<open>
  \<open>bm_inner a sel q\<close> is a \<^verbatim>\<open>switch\<close> over the first character of one member of \<open>*q\<close> that adds the
  set of \<open>a\<close> and that letter; \<open>bm_outer sel p q\<close> is the \<^verbatim>\<open>switch\<close> over a member of \<open>*p\<close> around
  two of them.
\<close>

definition bm_inner ::
    "string \<Rightarrow> (string \<times> string \<Rightarrow> string) \<Rightarrow> ptr \<Rightarrow> marks \<times> ring \<Rightarrow> (marks \<times> ring) option" where
  "bm_inner a sel q s = do {
     c \<leftarrow> load (fst s) q;
     let ch = c0 (sel (payload c));
     if ch = CHR ''A'' then bg_add (fst s) (snd s) (a, ''A'')
     else if ch = CHR ''B'' then bg_add (fst s) (snd s) (a, ''B'')
     else if ch = CHR ''O'' then bg_add (fst s) (snd s) (a, ''O'')
     else Some s
   }"

definition bm_outer ::
    "(string \<times> string \<Rightarrow> string) \<Rightarrow> ptr \<Rightarrow> ptr \<Rightarrow> marks \<times> ring \<Rightarrow> (marks \<times> ring) option" where
  "bm_outer sel p q s = do {
     c \<leftarrow> load (fst s) p;
     let ch = c0 (sel (payload c));
     if ch = CHR ''A'' then do { s \<leftarrow> bm_inner ''A'' fst q s; bm_inner ''A'' snd q s }
     else if ch = CHR ''B'' then do { s \<leftarrow> bm_inner ''B'' fst q s; bm_inner ''B'' snd q s }
     else if ch = CHR ''O'' then do { s \<leftarrow> bm_inner ''O'' fst q s; bm_inner ''O'' snd q s }
     else Some s
   }"

definition bm_fptr_first :: "ptr \<Rightarrow> ptr \<Rightarrow> marks \<times> ring \<Rightarrow> (marks \<times> ring) option" where
  "bm_fptr_first fptr mptr s = bm_outer fst fptr mptr s"

definition bm_fptr_second :: "ptr \<Rightarrow> ptr \<Rightarrow> marks \<times> ring \<Rightarrow> (marks \<times> ring) option" where
  "bm_fptr_second fptr mptr s = bm_outer snd fptr mptr s"

definition bm_mptr_first :: "ptr \<Rightarrow> ptr \<Rightarrow> marks \<times> ring \<Rightarrow> (marks \<times> ring) option" where
  "bm_mptr_first fptr mptr s = bm_outer fst mptr fptr s"

definition bm_mptr_second :: "ptr \<Rightarrow> ptr \<Rightarrow> marks \<times> ring \<Rightarrow> (marks \<times> ring) option" where
  "bm_mptr_second fptr mptr s = bm_outer snd mptr fptr s"

text \<open>The output list is allocated on the first call; a failed allocation is dereferenced.\<close>

definition unique_out :: "marks \<Rightarrow> ring option \<Rightarrow> (marks \<times> ring) option" where
  "unique_out h out =
     (case out of Some r \<Rightarrow> Some (h, r)
      | None \<Rightarrow> (case calloc_ring h of (None, _) \<Rightarrow> None
          | (Some r, h1) \<Rightarrow> Some (h1, r\<lparr>radd := Some AddUnique\<rparr>)))"

definition get_all_possible_bmsets ::
    "ptr \<Rightarrow> ptr \<Rightarrow> marks \<times> ring option \<Rightarrow> (marks \<times> ring option) option" where
  "get_all_possible_bmsets fptr mptr s = do {
     s \<leftarrow> unique_out (fst s) (snd s);
     s \<leftarrow> bm_fptr_first fptr mptr s;
     s \<leftarrow> bm_fptr_second fptr mptr s;
     s \<leftarrow> bm_mptr_first fptr mptr s;
     s \<leftarrow> bm_mptr_second fptr mptr s;
     Some (fst s, Some (snd s))
   }"

definition rha_inner ::
    "string \<Rightarrow> (string \<times> string \<Rightarrow> string) \<Rightarrow> ptr \<Rightarrow> marks \<times> ring \<Rightarrow> (marks \<times> ring) option" where
  "rha_inner a sel q s = do {
     c \<leftarrow> load (fst s) q;
     let ch = c0 (sel (payload c));
     if ch = CHR ''+'' then rha_add (fst s) (snd s) (a, ''+'')
     else if ch = CHR ''-'' then rha_add (fst s) (snd s) (a, ''-'')
     else Some s
   }"

definition rha_outer ::
    "(string \<times> string \<Rightarrow> string) \<Rightarrow> ptr \<Rightarrow> ptr \<Rightarrow> marks \<times> ring \<Rightarrow> (marks \<times> ring) option" where
  "rha_outer sel p q s = do {
     c \<leftarrow> load (fst s) p;
     let ch = c0 (sel (payload c));
     if ch = CHR ''+'' then do { s \<leftarrow> rha_inner ''+'' fst q s; rha_inner ''+'' snd q s }
     else if ch = CHR ''-'' then do { s \<leftarrow> rha_inner ''-'' fst q s; rha_inner ''-'' snd q s }
     else Some s
   }"

definition rha_fptr_first :: "ptr \<Rightarrow> ptr \<Rightarrow> marks \<times> ring \<Rightarrow> (marks \<times> ring) option" where
  "rha_fptr_first fptr mptr s = rha_outer fst fptr mptr s"

definition rha_fptr_second :: "ptr \<Rightarrow> ptr \<Rightarrow> marks \<times> ring \<Rightarrow> (marks \<times> ring) option" where
  "rha_fptr_second fptr mptr s = rha_outer snd fptr mptr s"

definition rha_mptr_first :: "ptr \<Rightarrow> ptr \<Rightarrow> marks \<times> ring \<Rightarrow> (marks \<times> ring) option" where
  "rha_mptr_first fptr mptr s = rha_outer fst mptr fptr s"

definition rha_mptr_second :: "ptr \<Rightarrow> ptr \<Rightarrow> marks \<times> ring \<Rightarrow> (marks \<times> ring) option" where
  "rha_mptr_second fptr mptr s = rha_outer snd mptr fptr s"

definition get_all_possible_rhasets ::
    "ptr \<Rightarrow> ptr \<Rightarrow> marks \<times> ring option \<Rightarrow> (marks \<times> ring option) option" where
  "get_all_possible_rhasets fptr mptr s = do {
     s \<leftarrow> unique_out (fst s) (snd s);
     s \<leftarrow> rha_fptr_first fptr mptr s;
     s \<leftarrow> rha_fptr_second fptr mptr s;
     s \<leftarrow> rha_mptr_first fptr mptr s;
     s \<leftarrow> rha_mptr_second fptr mptr s;
     Some (fst s, Some (snd s))
   }"

section \<open>The child query\<close>

record input_set =
  blood_group :: string
  rh_factor :: string
  output_req :: u32

text \<open>
  Reading one line.  \<open>snprintf(dst, n, "%s", ptr)\<close> stores the first \<open>n - 1\<close> characters; the end of the
  list is the terminating zero.
\<close>

definition upd_arg :: "(input_set \<Rightarrow> input_set) \<Rightarrow> nat \<Rightarrow> input_set list \<Rightarrow> input_set list option" where
  "upd_arg f index args = do { a \<leftarrow> aget args (int index); aset args (int index) (f a) }"

text \<open>
  The \<^verbatim>\<open>switch\<close> on the character \<open>c\<close>, with \<open>cs\<close> the characters behind it: whether a second character is
  skipped, the new index, and the records.
\<close>

definition line_switch ::
    "char \<Rightarrow> string \<Rightarrow> nat \<Rightarrow> input_set list \<Rightarrow> (bool \<times> nat \<times> input_set list) option" where
  "line_switch c cs index args =
     (if c = CHR ''A'' then
        (if c0 cs = CHR ''B'' then do {
           args' \<leftarrow> upd_arg (\<lambda>a. a\<lparr>blood_group := take 2 (c # cs)\<rparr>) index args;
           Some (True, index, args')
         }
         else do {
           args' \<leftarrow> upd_arg (\<lambda>a. a\<lparr>blood_group := take 1 (c # cs)\<rparr>) index args;
           Some (False, index, args')
         })
      else if c = CHR ''B'' then do {
        args' \<leftarrow> upd_arg (\<lambda>a. a\<lparr>blood_group := take 1 (c # cs)\<rparr>) index args;
        Some (False, index, args')
      }
      else if c = CHR ''?'' then do {
        args' \<leftarrow> upd_arg (\<lambda>a. a\<lparr>output_req := 1\<rparr>) index args;
        Some (False, index + 1, args')
      }
      else if c = CHR ''+'' \<or> c = CHR ''-'' then do {
        args' \<leftarrow> upd_arg (\<lambda>a. a\<lparr>rh_factor := take 1 (c # cs)\<rparr>) index args;
        Some (False, index + 1, args')
      }
      else Some (False, index, args))"

fun process_loop :: "string \<Rightarrow> nat \<Rightarrow> input_set list \<Rightarrow> input_set list option" where
  "process_loop [] index args = Some args"
| "process_loop (c # cs) index args =
     (if c = CHR 0x00 \<or> \<not> index < 3 then Some args
      else case line_switch c cs index args of None \<Rightarrow> None
        | Some (skip, i, args') \<Rightarrow> process_loop (if skip then tl cs else cs) i args')"

definition process_each_input_line :: "input_set list \<Rightarrow> string \<Rightarrow> input_set list option" where
  "process_each_input_line args line = process_loop line 0 args"

text \<open>\<^verbatim>\<open>input_args\<close> as \<^verbatim>\<open>main\<close> initialises it.\<close>

definition input_args :: "input_set list" where
  "input_args = replicate 3 \<lparr>blood_group = '''', rh_factor = '''', output_req = 0\<rparr>"

text \<open>The two nested counted loops over the parents' lists; \<^verbatim>\<open>mptr\<close> goes round its ring.\<close>

definition inner_loop ::
    "(ptr \<Rightarrow> ptr \<Rightarrow> marks \<times> ring option \<Rightarrow> (marks \<times> ring option) option) \<Rightarrow>
     ring \<Rightarrow> ptr \<Rightarrow> ptr \<times> marks \<times> ring option \<Rightarrow> (ptr \<times> marks \<times> ring option) option" where
  "inner_loop pairing mother fptr s =
     count_loop fst cnext (\<lambda>mptr st. pairing fptr mptr st) (unat (rcount mother)) (fst s) (snd s)"

definition pair_loops ::
    "(ptr \<Rightarrow> ptr \<Rightarrow> marks \<times> ring option \<Rightarrow> (marks \<times> ring option) option) \<Rightarrow>
     ring \<Rightarrow> ring \<Rightarrow> marks \<Rightarrow> (marks \<times> ring option) option" where
  "pair_loops pairing father mother h = do {
     (_, s) \<leftarrow> count_loop (\<lambda>s. fst (snd s)) cnext (\<lambda>fptr s. inner_loop pairing mother fptr s)
        (unat (rcount father)) (rhead father) (rhead mother, h, None);
     Some (snd s)
   }"

text \<open>
  The loop that stores the names: \<^verbatim>\<open>snprintf(child_bglist[index++], 10, "%s", name)\<close> into an array of
  ten zeroed buffers of ten characters.
\<close>

definition put_name :: "string option option \<Rightarrow> string list \<times> nat \<Rightarrow> (string list \<times> nat) option" where
  "put_name lookup s = do {
     nm \<leftarrow> lookup;
     (case nm of None \<Rightarrow> Some s
      | Some str \<Rightarrow> do {
          xs \<leftarrow> aset (fst s) (int (snd s)) (take 9 str);
          Some (xs, snd s + 1)
        })
   }"

definition name_loop :: "(ptr \<Rightarrow> string option option) \<Rightarrow> marks \<Rightarrow> ring \<Rightarrow> (string list) option" where
  "name_loop lookup h out = do {
     (_, s) \<leftarrow> count_loop (\<lambda>_. h) cnext (\<lambda>p s. put_name (lookup p) s)
        (unat (rcount out)) (rhead out) (replicate 10 '''', 0);
     Some (fst s)
   }"

text \<open>The final list: for each table entry the child can have, \<open>+\<close> before \<open>-\<close>.\<close>

function rh_scan :: "string list \<Rightarrow> string \<Rightarrow> string \<Rightarrow> nat \<Rightarrow> marks \<times> ring \<Rightarrow> (marks \<times> ring) option" where
  "rh_scan rl sign nm j s =
     (case aget rl (int j) of None \<Rightarrow> None
      | Some e \<Rightarrow>
          if c0 e = CHR 0x00 then Some s
          else if e = sign then do {
            s' \<leftarrow> bg_add (fst s) (snd s) (nm, sign);
            rh_scan rl sign nm (j + 1) s'
          }
          else rh_scan rl sign nm (j + 1) s)"
  by auto
termination by (relation "measure (\<lambda>(rl, sign, nm, j, s). length rl - j)")
    (auto simp: aget_def split: if_splits)

function bg_scan :: "string list \<Rightarrow> string list \<Rightarrow> string \<Rightarrow> nat \<Rightarrow> marks \<times> ring \<Rightarrow> (marks \<times> ring) option" where
  "bg_scan bl rl nm i s =
     (case aget bl (int i) of None \<Rightarrow> None
      | Some e \<Rightarrow>
          if c0 e = CHR 0x00 then Some s
          else if e = nm then do {
            s1 \<leftarrow> rh_scan rl ''+'' nm 0 s;
            s2 \<leftarrow> rh_scan rl ''-'' nm 0 s1;
            bg_scan bl rl nm (i + 1) s2
          }
          else bg_scan bl rl nm (i + 1) s)"
  by auto
termination by (relation "measure (\<lambda>(bl, rl, nm, i, s). length bl - i)")
    (auto simp: aget_def split: if_splits)

function final_loop :: "table \<Rightarrow> string list \<Rightarrow> string list \<Rightarrow> nat \<Rightarrow> marks \<times> ring \<Rightarrow> (marks \<times> ring) option" where
  "final_loop t bl rl index s =
     (if index < BLOOD_GROUP_TABLE_LEN then do {
        e \<leftarrow> aget t (int index);
        r \<leftarrow> e;
        nm \<leftarrow> rname r;
        s' \<leftarrow> bg_scan bl rl nm 0 s;
        final_loop t bl rl (index + 1) s'
      }
      else Some s)"
  by auto
termination by (relation "measure (\<lambda>(t, bl, rl, i, s). BLOOD_GROUP_TABLE_LEN - i)") auto

declare find_name.simps [simp del] find_set.simps [simp del] rh_scan.simps [simp del]
  bg_scan.simps [simp del] final_loop.simps [simp del]

definition print_set :: "marks \<Rightarrow> ptr \<Rightarrow> string \<Rightarrow> string option" where
  "print_set h p out = do {
     c \<leftarrow> load h p;
     Some (out @ fst (payload c) @ snd (payload c) @ '' '')
   }"

definition print_loop :: "marks \<Rightarrow> ring \<Rightarrow> string option" where
  "print_loop h r = do {
     (_, out) \<leftarrow> count_loop (\<lambda>_. h) cprev (print_set h) (unat (rcount r)) (rhead r) [];
     Some (out @ [CHR 0x0A])
   }"

definition child_blood_group_print :: "input_set list \<Rightarrow> table \<Rightarrow> table \<Rightarrow> marks \<Rightarrow> (marks \<times> string) option" where
  "child_blood_group_print args bg_table rrh_factor_table h = do {
     a0 \<leftarrow> aget args 0;
     a1 \<leftarrow> aget args 1;
     fe \<leftarrow> get_blood_group_from_table bg_table (blood_group a0);
     fre \<leftarrow> get_rrhfactor_from_table rrh_factor_table (rh_factor a0);
     me \<leftarrow> get_blood_group_from_table bg_table (blood_group a1);
     mre \<leftarrow> get_rrhfactor_from_table rrh_factor_table (rh_factor a1);
     father \<leftarrow> fe; mother \<leftarrow> me; father_rrh \<leftarrow> fre; mother_rrh \<leftarrow> mre;
     (h, out) \<leftarrow> pair_loops get_all_possible_bmsets father mother h;
     outlist \<leftarrow> out;
     child_bglist \<leftarrow> name_loop (get_blood_group_name_from_table bg_table h) h outlist;
     (h, out) \<leftarrow> pair_loops get_all_possible_rhasets father_rrh mother_rrh h;
     outlist_rrh \<leftarrow> out;
     child_rrhlist \<leftarrow> name_loop (get_rrh_factor_name_from_table rrh_factor_table h) h outlist_rrh;
     s \<leftarrow> unique_out h None;
     s \<leftarrow> final_loop bg_table child_bglist child_rrhlist 0 s;
     out \<leftarrow> print_loop (fst s) (snd s);
     Some (fst s, out)
   }"

section \<open>The lists behind the heap\<close>

lemma bg_add_law:
  assumes "uholds b h r L" and "0 < room h" and "Suc (length L) < 2 ^ 32"
  shows "\<exists>h' r'. bg_add h r d = Some (h', r') \<and> uholds b h' r' (insert_new same_strings d L) \<and>
     room h' = room h - 1 \<and> frame b h h'"
proof -
  obtain h1 h' r' where "new_cell d h = (brk h, h1)"
      "ring_add_unique same_strings h1 r (brk h) = Some (h', r')"
      "uholds b h' r' (insert_new same_strings d L)" "frame b h h'" "room h' = room h - 1"
    using ring_add_unique_new [OF assms] by metis
  then show ?thesis
    using assms(1) by (simp add: bg_add_def new_blood_marker_set_def uholds_def
        add_unique_bloodgroup_marker_set_def)
qed

lemma rha_add_law:
  assumes "uholds b h r L" and "0 < room h" and "Suc (length L) < 2 ^ 32"
  shows "\<exists>h' r'. rha_add h r d = Some (h', r') \<and> uholds b h' r' (insert_new same_chars d L) \<and>
     room h' = room h - 1 \<and> frame b h h'"
proof -
  obtain h1 h' r' where "new_cell d h = (brk h, h1)"
      "ring_add_unique same_chars h1 r (brk h) = Some (h', r')"
      "uholds b h' r' (insert_new same_chars d L)" "frame b h h'" "room h' = room h - 1"
    using ring_add_unique_new [OF assms] by metis
  then show ?thesis
    using assms(1) by (simp add: rha_add_def new_rh_allele_set_def uholds_def add_unique_rha_set_def)
qed

interpretation bm: unique_list bg_add "uholds b" room "frame b" same_strings for b
  by unfold_locales (use bg_add_law frame_trans in \<open>blast+\<close>)

interpretation rha: unique_list rha_add "uholds b" room "frame b" same_chars for b
  by unfold_locales (use rha_add_law frame_trans in \<open>blast+\<close>)

text \<open>The sets one section of the pairing adds, as lists.\<close>

definition cross1 :: "char list \<Rightarrow> string \<Rightarrow> string \<Rightarrow> (string \<times> string) list" where
  "cross1 letters a y = (if c0 y \<in> set letters then [(a, [c0 y])] else [])"

definition cross2 :: "char list \<Rightarrow> string \<Rightarrow> string \<times> string \<Rightarrow> (string \<times> string) list" where
  "cross2 letters x y =
     (if c0 x \<in> set letters then cross1 letters [c0 x] (fst y) @ cross1 letters [c0 x] (snd y) else [])"

definition crosses :: "char list \<Rightarrow> string \<times> string \<Rightarrow> string \<times> string \<Rightarrow> (string \<times> string) list" where
  "crosses letters f m = cross2 letters (fst f) m @ cross2 letters (snd f) m @
     cross2 letters (fst m) f @ cross2 letters (snd m) f"

lemma length_crosses: "length (crosses letters f m) \<le> 8"
  by (simp add: crosses_def cross2_def cross1_def)

definition at :: "ptr \<Rightarrow> marks \<Rightarrow> ptr \<Rightarrow> string \<times> string \<Rightarrow> bool" where
  "at b h p d \<longleftrightarrow> p < b \<and> (\<exists>c. load h p = Some c \<and> payload c = d)"

lemma at_frame: "at b h p d \<Longrightarrow> frame b h h' \<Longrightarrow> at b h' p d"
  by (auto simp: at_def frame_load)

lemma bm_inner_adds: "at b h0 q d \<Longrightarrow> bm.adds b h0 (bm_inner a sel q) (cross1 ''ABO'' a (sel d))"
  by (rule bm.addsI) (auto simp: at_def frame_load bm_inner_def cross1_def Let_def)

lemma rha_inner_adds: "at b h0 q d \<Longrightarrow> rha.adds b h0 (rha_inner a sel q) (cross1 ''+-'' a (sel d))"
  by (rule rha.addsI) (auto simp: at_def frame_load rha_inner_def cross1_def Let_def)

lemma bm_outer_adds:
  assumes p: "at b h0 p x" and q: "at b h0 q y"
  shows "bm.adds b h0 (bm_outer sel p q) (cross2 ''ABO'' (sel x) y)"
proof -
  let ?g = "\<lambda>a s. Option.bind (bm_inner a fst q s) (bm_inner a snd q)"
  have g: "bm.adds b h0 (?g a) (cross1 ''ABO'' a (fst y) @ cross1 ''ABO'' a (snd y))" for a
    by (rule bm.adds_bind [OF bm_inner_adds [OF q] bm_inner_adds [OF q]])
  show ?thesis
  proof (cases "c0 (sel x) \<in> set ''ABO''")
    case True
    have "bm.adds b h0 (bm_outer sel p q)
        (cross1 ''ABO'' [c0 (sel x)] (fst y) @ cross1 ''ABO'' [c0 (sel x)] (snd y))"
      by (rule bm.adds_cong [OF g]) (use p True in \<open>auto simp: bm_outer_def at_def frame_load Let_def\<close>)
    then show ?thesis
      using True by (simp add: cross2_def)
  next
    case False
    then have "bm.adds b h0 (bm_outer sel p q) []"
      by (intro bm.adds_cong [OF bm.adds_None]) (use p in \<open>auto simp: bm_outer_def at_def frame_load Let_def\<close>)
    then show ?thesis
      using False by (auto simp: cross2_def)
  qed
qed

lemma rha_outer_adds:
  assumes p: "at b h0 p x" and q: "at b h0 q y"
  shows "rha.adds b h0 (rha_outer sel p q) (cross2 ''+-'' (sel x) y)"
proof -
  let ?g = "\<lambda>a s. Option.bind (rha_inner a fst q s) (rha_inner a snd q)"
  have g: "rha.adds b h0 (?g a) (cross1 ''+-'' a (fst y) @ cross1 ''+-'' a (snd y))" for a
    by (rule rha.adds_bind [OF rha_inner_adds [OF q] rha_inner_adds [OF q]])
  show ?thesis
  proof (cases "c0 (sel x) \<in> set ''+-''")
    case True
    have "rha.adds b h0 (rha_outer sel p q)
        (cross1 ''+-'' [c0 (sel x)] (fst y) @ cross1 ''+-'' [c0 (sel x)] (snd y))"
      by (rule rha.adds_cong [OF g]) (use p True in \<open>auto simp: rha_outer_def at_def frame_load Let_def\<close>)
    then show ?thesis
      using True by (simp add: cross2_def)
  next
    case False
    then have "rha.adds b h0 (rha_outer sel p q) []"
      by (intro rha.adds_cong [OF rha.adds_None]) (use p in \<open>auto simp: rha_outer_def at_def frame_load Let_def\<close>)
    then show ?thesis
      using False by (auto simp: cross2_def)
  qed
qed

text \<open>
  One call of a pairing function: \<open>out_ok\<close> relates the heap and the output list, absent before the
  first call, to the sets added so far.
\<close>

definition out_ok ::
    "(string \<times> string \<Rightarrow> string \<times> string \<Rightarrow> bool) \<Rightarrow> ptr \<Rightarrow> marks \<Rightarrow> (string \<times> string) list \<Rightarrow>
     marks \<times> ring option \<Rightarrow> bool" where
  "out_ok eq b h0 ds s \<longleftrightarrow> frame b h0 (fst s) \<and>
     (case snd s of
        None \<Rightarrow> ds = [] \<and> heap_ok (fst s) \<and> b \<le> brk (fst s) \<and> room (fst s) = room h0
      | Some r \<Rightarrow> uholds b (fst s) r (fold (insert_new eq) ds []) \<and> room (fst s) + length ds + 1 = room h0)"

definition pairs_as ::
    "(ptr \<Rightarrow> ptr \<Rightarrow> marks \<times> ring option \<Rightarrow> (marks \<times> ring option) option) \<Rightarrow>
     (string \<times> string \<Rightarrow> string \<times> string \<Rightarrow> bool) \<Rightarrow> char list \<Rightarrow> bool" where
  "pairs_as pairing eq letters \<longleftrightarrow>
     (\<forall>b h0 ds s fptr mptr f m. out_ok eq b h0 ds s \<and> at b h0 fptr f \<and> at b h0 mptr m \<and>
        length ds + 9 \<le> room h0 \<and> length ds + 9 < 2 ^ 32 \<longrightarrow>
        (\<exists>s'. pairing fptr mptr s = Some s' \<and> snd s' \<noteq> None \<and>
              out_ok eq b h0 (ds @ crosses letters f m) s'))"

lemma pairs_asD:
  assumes "pairs_as pairing eq letters" and "out_ok eq b h0 ds s" and "at b h0 fptr f" and "at b h0 mptr m"
    and "length ds + 9 \<le> room h0" and "length ds + 9 < 2 ^ 32"
  shows "\<exists>s'. pairing fptr mptr s = Some s' \<and> snd s' \<noteq> None \<and>
     out_ok eq b h0 (ds @ crosses letters f m) s'"
  using assms unfolding pairs_as_def by blast

lemma unique_out_ok:
  assumes "out_ok eq b h0 ds s" and "0 < room h0"
  obtains s' where "unique_out (fst s) (snd s) = Some s'" and "frame b h0 (fst s')"
    and "uholds b (fst s') (snd s') (fold (insert_new eq) ds [])"
    and "room (fst s') + length ds + 1 = room h0"
proof (cases "snd s")
  case None
  then have "frame b h0 (fst s)" "ds = []" "heap_ok (fst s)" "b \<le> brk (fst s)" "room (fst s) = room h0"
    using assms(1) by (auto simp: out_ok_def)
  then show ?thesis
    using that None assms(2)
    by (auto simp: unique_out_def calloc_ring_def uholds_def holds_def ring_at_def frame_def heap_ok_def)
next
  case (Some r)
  then show ?thesis
    using that assms(1) by (auto simp: out_ok_def unique_out_def)
qed

lemma get_all_possible_bmsets_pairs: "pairs_as get_all_possible_bmsets same_strings ''ABO''"
  unfolding pairs_as_def
proof (intro allI impI, elim conjE)
  fix b h0 ds s fptr mptr f m
  assume ok: "out_ok same_strings b h0 ds s" and f: "at b h0 fptr f" and m: "at b h0 mptr m"
    and rm: "length ds + 9 \<le> room h0" and len: "length ds + 9 < 2 ^ 32"
  let ?four = "\<lambda>s. Option.bind (bm_fptr_first fptr mptr s) (\<lambda>s. Option.bind (bm_fptr_second fptr mptr s)
      (\<lambda>s. Option.bind (bm_mptr_first fptr mptr s) (bm_mptr_second fptr mptr)))"
  obtain s1 where s1: "unique_out (fst s) (snd s) = Some s1" "frame b h0 (fst s1)"
      "uholds b (fst s1) (snd s1) (fold (insert_new same_strings) ds [])"
      "room (fst s1) + length ds + 1 = room h0"
    using unique_out_ok [OF ok] rm by (metis add_gr_0 gr0I le_zero_eq zero_neq_numeral)
  have adds: "bm.adds b h0 ?four (crosses ''ABO'' f m)"
    unfolding crosses_def bm_fptr_first_def bm_fptr_second_def bm_mptr_first_def bm_mptr_second_def
    by (intro bm.adds_bind bm_outer_adds f m)
  have "length (fold (insert_new same_strings) ds []) + length (crosses ''ABO'' f m) < 2 ^ 32"
      "length (crosses ''ABO'' f m) \<le> room (fst s1)"
    using rm len s1(4) length_crosses [of "''ABO''" f m] bm.length_fold_insert_new [of ds "[]"] by auto
  then obtain s2 where s2: "?four s1 = Some s2"
      "uholds b (fst s2) (snd s2) (fold (insert_new same_strings) (ds @ crosses ''ABO'' f m) [])"
      "room (fst s2) + length (crosses ''ABO'' f m) = room (fst s1)" "frame b h0 (fst s2)"
    using bm.adds_run [OF adds s1(3,2)] by auto
  have "get_all_possible_bmsets fptr mptr s = Some (fst s2, Some (snd s2))"
    using s1(1) s2(1) by (auto simp: get_all_possible_bmsets_def bind_eq_Some_conv)
  then show "\<exists>s'. get_all_possible_bmsets fptr mptr s = Some s' \<and> snd s' \<noteq> None \<and>
      out_ok same_strings b h0 (ds @ crosses ''ABO'' f m) s'"
    using s1(4) s2(2-4) by (auto simp: out_ok_def)
qed

lemma get_all_possible_rhasets_pairs: "pairs_as get_all_possible_rhasets same_chars ''+-''"
  unfolding pairs_as_def
proof (intro allI impI, elim conjE)
  fix b h0 ds s fptr mptr f m
  assume ok: "out_ok same_chars b h0 ds s" and f: "at b h0 fptr f" and m: "at b h0 mptr m"
    and rm: "length ds + 9 \<le> room h0" and len: "length ds + 9 < 2 ^ 32"
  let ?four = "\<lambda>s. Option.bind (rha_fptr_first fptr mptr s) (\<lambda>s. Option.bind (rha_fptr_second fptr mptr s)
      (\<lambda>s. Option.bind (rha_mptr_first fptr mptr s) (rha_mptr_second fptr mptr)))"
  obtain s1 where s1: "unique_out (fst s) (snd s) = Some s1" "frame b h0 (fst s1)"
      "uholds b (fst s1) (snd s1) (fold (insert_new same_chars) ds [])"
      "room (fst s1) + length ds + 1 = room h0"
    using unique_out_ok [OF ok] rm by (metis add_gr_0 gr0I le_zero_eq zero_neq_numeral)
  have adds: "rha.adds b h0 ?four (crosses ''+-'' f m)"
    unfolding crosses_def rha_fptr_first_def rha_fptr_second_def rha_mptr_first_def rha_mptr_second_def
    by (intro rha.adds_bind rha_outer_adds f m)
  have "length (fold (insert_new same_chars) ds []) + length (crosses ''+-'' f m) < 2 ^ 32"
      "length (crosses ''+-'' f m) \<le> room (fst s1)"
    using rm len s1(4) length_crosses [of "''+-''" f m] rha.length_fold_insert_new [of ds "[]"] by auto
  then obtain s2 where s2: "?four s1 = Some s2"
      "uholds b (fst s2) (snd s2) (fold (insert_new same_chars) (ds @ crosses ''+-'' f m) [])"
      "room (fst s2) + length (crosses ''+-'' f m) = room (fst s1)" "frame b h0 (fst s2)"
    using rha.adds_run [OF adds s1(3,2)] by auto
  have "get_all_possible_rhasets fptr mptr s = Some (fst s2, Some (snd s2))"
    using s1(1) s2(1) by (auto simp: get_all_possible_rhasets_def bind_eq_Some_conv)
  then show "\<exists>s'. get_all_possible_rhasets fptr mptr s = Some s' \<and> snd s' \<noteq> None \<and>
      out_ok same_chars b h0 (ds @ crosses ''+-'' f m) s'"
    using s1(4) s2(2-4) by (auto simp: out_ok_def)
qed

section \<open>The loops over the parents\<close>

text \<open>A table entry and what it holds; \<open>parent\<close> is the ring the loops go round.\<close>

definition parent :: "ptr \<Rightarrow> marks \<Rightarrow> ring \<Rightarrow> (string \<times> string) list \<Rightarrow> bool" where
  "parent b h r L \<longleftrightarrow> L \<noteq> [] \<and> rcount r = of_nat (length L) \<and> length L < 2 ^ 32 \<and> holds 0 b h r L"

lemma parent_frame: "parent b h r L \<Longrightarrow> frame b h h' \<Longrightarrow> parent b h' r L"
  by (auto simp: parent_def intro: holds_frame)

lemma parent_ring:
  assumes "parent b h r L"
  obtains ps where "ring_at h r ps" and "set ps \<subseteq> {..<b}" and "map (val_at h) ps = ring_order L"
    and "ps \<noteq> []" and "length ps = length L" and "unat (rcount r) = length ps"
proof -
  obtain ps where ps: "ring_at h r ps" "set ps \<subseteq> {0..<b}" "map (val_at h) ps = ring_order L"
    using assms by (auto simp: parent_def holds_def)
  have len: "length ps = length L"
    using ps(3) by (metis length_map length_ring_order)
  moreover have "ps \<noteq> []" "unat (rcount r) = length ps" "set ps \<subseteq> {..<b}"
    using len ps(2) assms unat_of_nat_u32 [of "length L"] by (auto simp: parent_def)
  ultimately show ?thesis
    using that [OF ps(1)] ps(3) by simp
qed

lemma ring_walk:
  assumes "ring_at h r ps" and "i < length ps"
  shows "(ps @ [hd ps]) ! 0 = rhead r"
    and "\<exists>c. load h ((ps @ [hd ps]) ! i) = Some c \<and> cnext c = (ps @ [hd ps]) ! Suc i \<and>
           payload c = map (val_at h) ps ! i"
proof -
  have ne: "ps \<noteq> []" and s: "successively (linked h) (ps @ [hd ps])" and r: "rhead r = hd ps"
    using assms by (auto simp: ring_at_def split: if_splits)
  show "(ps @ [hd ps]) ! 0 = rhead r"
    using ne r by (simp add: nth_append hd_conv_nth)
  have "linked h ((ps @ [hd ps]) ! i) ((ps @ [hd ps]) ! Suc i)"
    using successively_nth [OF s, of i] assms(2) by simp
  then show "\<exists>c. load h ((ps @ [hd ps]) ! i) = Some c \<and> cnext c = (ps @ [hd ps]) ! Suc i \<and>
           payload c = map (val_at h) ps ! i"
    using linked_load assms(2) by (fastforce simp: nth_append)
qed

definition row :: "char list \<Rightarrow> string \<times> string \<Rightarrow> (string \<times> string) list \<Rightarrow> (string \<times> string) list" where
  "row letters f ms = concat (map (crosses letters f) ms)"

lemma length_row: "length (row letters f ms) \<le> 8 * length ms"
proof (induction ms)
  case (Cons m ms)
  then show ?case
    using length_crosses [of letters f m] by (simp add: row_def)
qed (simp add: row_def)

lemma row_snoc: "row letters f (ms @ [m]) = row letters f ms @ crosses letters f m"
  by (simp add: row_def)

lemma inner_loop_pairs:
  assumes P: "pairs_as pairing eq letters" and M: "parent b h0 mother dm" and f: "at b h0 fptr f"
    and ok: "out_ok eq b h0 ds s" and rm: "length ds + 8 * length dm + 1 \<le> room h0"
    and len: "length ds + 8 * length dm + 1 < 2 ^ 32"
  shows "\<exists>s'. inner_loop pairing mother fptr (rhead mother, s) = Some (rhead mother, s') \<and> snd s' \<noteq> None \<and>
     out_ok eq b h0 (ds @ row letters f (ring_order dm)) s'"
proof -
  obtain ps where ps: "ring_at h0 mother ps" "set ps \<subseteq> {..<b}" "map (val_at h0) ps = ring_order dm"
      "ps \<noteq> []" "length ps = length dm" "unat (rcount mother) = length ps"
    using parent_ring [OF M] by metis
  let ?zs = "ps @ [hd ps]"
  let ?I = "\<lambda>i s. out_ok eq b h0 (ds @ row letters f (take i (ring_order dm))) s \<and> (0 < i \<longrightarrow> snd s \<noteq> None)"
  have "\<exists>s'. count_loop fst cnext (\<lambda>mptr st. pairing fptr mptr st) (length ps) (?zs ! 0) s =
      Some (?zs ! length ps, s') \<and> ?I (length ps) s'"
  proof (rule count_loop_rule)
    fix i s assume i: "i < length ps" and I: "?I i s"
    obtain c where c: "load h0 (?zs ! i) = Some c" "cnext c = ?zs ! Suc i" "payload c = ring_order dm ! i"
      using ring_walk(2) [OF ps(1) i] ps(3) by auto
    have lt: "?zs ! i < b"
      using i ps(2) by (auto simp: nth_append dest: nth_mem)
    then have m: "at b h0 (?zs ! i) (ring_order dm ! i)"
      using c by (auto simp: at_def)
    have l: "length (row letters f (take i (ring_order dm))) + 8 \<le> 8 * length dm"
      using length_row [of letters f "take i (ring_order dm)"] i ps(5) by simp
    then have "\<exists>s'. pairing fptr (?zs ! i) s = Some s' \<and> snd s' \<noteq> None \<and>
        out_ok eq b h0 ((ds @ row letters f (take i (ring_order dm))) @ crosses letters f (ring_order dm ! i)) s'"
      by (intro pairs_asD [OF P _ f m]) (use I rm len in auto)
    then show "\<exists>s'. pairing fptr (?zs ! i) s = Some s' \<and> ?I (Suc i) s' \<and>
        (\<exists>c. load (fst s') (?zs ! i) = Some c \<and> cnext c = ?zs ! Suc i)"
      using c lt i ps(5) by (fastforce simp: take_Suc_conv_app_nth row_snoc out_ok_def frame_load)
  qed (use ok in \<open>auto simp: row_def\<close>)
  moreover have "?zs ! length ps = rhead mother" "?zs ! 0 = rhead mother"
    using ring_walk(1) [OF ps(1), of 0] ps(1,4) by (auto simp: ring_at_def nth_append)
  ultimately show ?thesis
    using ps by (auto simp: inner_loop_def)
qed

definition grid ::
    "char list \<Rightarrow> (string \<times> string) list \<Rightarrow> (string \<times> string) list \<Rightarrow> (string \<times> string) list" where
  "grid letters fs ms = concat (map (\<lambda>f. row letters f ms) fs)"

lemma length_grid: "length (grid letters fs ms) \<le> 8 * length fs * length ms"
proof (induction fs)
  case (Cons f fs)
  then show ?case
    using length_row [of letters f ms] by (simp add: grid_def algebra_simps)
qed (simp add: grid_def)

lemma pair_loops_pairs:
  assumes P: "pairs_as pairing eq letters" and F: "parent b h0 father df" and M: "parent b h0 mother dm"
    and h0: "heap_ok h0" "b \<le> brk h0"
    and rm: "8 * length df * length dm + 1 \<le> room h0" and len: "8 * length df * length dm + 1 < 2 ^ 32"
  shows "\<exists>h r. pair_loops pairing father mother h0 = Some (h, Some r) \<and> frame b h0 h \<and>
     uholds b h r (fold (insert_new eq) (grid letters (ring_order df) (ring_order dm)) []) \<and>
     room h + length (grid letters (ring_order df) (ring_order dm)) + 1 = room h0"
proof -
  obtain ps where ps: "ring_at h0 father ps" "set ps \<subseteq> {..<b}" "map (val_at h0) ps = ring_order df"
      "ps \<noteq> []" "length ps = length df" "unat (rcount father) = length ps"
    using parent_ring [OF F] by metis
  let ?zs = "ps @ [hd ps]"
  let ?fs = "ring_order df" and ?ms = "ring_order dm"
  let ?I = "\<lambda>i s. fst s = rhead mother \<and> out_ok eq b h0 (grid letters (take i ?fs) ?ms) (snd s) \<and>
      (0 < i \<longrightarrow> snd (snd s) \<noteq> None)"
  have "\<exists>s'. count_loop (\<lambda>s. fst (snd s)) cnext (\<lambda>fptr s. inner_loop pairing mother fptr s) (length ps)
      (?zs ! 0) (rhead mother, h0, None) = Some (?zs ! length ps, s') \<and> ?I (length ps) s'"
  proof (rule count_loop_rule)
    fix i s assume i: "i < length ps" and I: "?I i s"
    obtain c where c: "load h0 (?zs ! i) = Some c" "cnext c = ?zs ! Suc i" "payload c = ?fs ! i"
      using ring_walk(2) [OF ps(1) i] ps(3) by auto
    have lt: "?zs ! i < b"
      using i ps(2) by (auto simp: nth_append dest: nth_mem)
    then have f: "at b h0 (?zs ! i) (?fs ! i)"
      using c by (auto simp: at_def)
    have "length (grid letters (take i ?fs) ?ms) \<le> 8 * i * length dm"
      using length_grid [of letters "take i ?fs" ?ms] i ps(5) by simp
    moreover have "8 * i * length dm + 8 * length dm \<le> 8 * length df * length dm"
      using mult_le_mono1 [of "Suc i" "length df" "8 * length dm"] i ps(5) by (simp add: algebra_simps)
    ultimately have l: "length (grid letters (take i ?fs) ?ms) + 8 * length dm \<le> 8 * length df * length dm"
      by linarith
    have "\<exists>s'. inner_loop pairing mother (?zs ! i) (rhead mother, snd s) = Some (rhead mother, s') \<and>
        snd s' \<noteq> None \<and> out_ok eq b h0 (grid letters (take i ?fs) ?ms @ row letters (?fs ! i) ?ms) s'"
      by (rule inner_loop_pairs [OF P M f]) (use I l rm len in auto)
    moreover have "(rhead mother, snd s) = s"
      using I by (metis prod.collapse)
    ultimately show "\<exists>s'. inner_loop pairing mother (?zs ! i) s = Some s' \<and> ?I (Suc i) s' \<and>
        (\<exists>c. load (fst (snd s')) (?zs ! i) = Some c \<and> cnext c = ?zs ! Suc i)"
      using c lt i ps(5) by (fastforce simp: take_Suc_conv_app_nth grid_def out_ok_def frame_load)
  qed (use h0 in \<open>auto simp: grid_def out_ok_def\<close>)
  moreover have "?zs ! 0 = rhead father"
    using ring_walk(1) [OF ps(1), of 0] ps(4) by auto
  ultimately show ?thesis
    using ps by (auto simp: pair_loops_def out_ok_def)
qed

section \<open>Table lookups\<close>

type_synonym spec = "(string \<times> (string \<times> string) list) list"

definition entry_ok :: "ptr \<Rightarrow> marks \<Rightarrow> ring option \<Rightarrow> string \<times> (string \<times> string) list \<Rightarrow> bool" where
  "entry_ok b h e sp \<longleftrightarrow> (\<exists>r. e = Some r \<and> rname r = Some (fst sp) \<and> parent b h r (snd sp))"

definition table_ok :: "ptr \<Rightarrow> marks \<Rightarrow> table \<Rightarrow> spec \<Rightarrow> bool" where
  "table_ok b h t specs \<longleftrightarrow> list_all2 (entry_ok b h) t specs"

lemma table_ok_frame: "table_ok b h t specs \<Longrightarrow> frame b h h' \<Longrightarrow> table_ok b h' t specs"
  unfolding table_ok_def by (erule list_all2_mono) (auto simp: entry_ok_def intro: parent_frame)

lemma table_ok_nth:
  assumes "table_ok b h t specs" and "i < length specs"
  obtains r where "aget t (int i) = Some (Some r)" and "rname r = Some (fst (specs ! i))"
    and "parent b h r (snd (specs ! i))"
proof -
  have "entry_ok b h (t ! i) (specs ! i)" and "i < length t"
    using assms by (auto simp: table_ok_def list_all2_conv_all_nth)
  then show ?thesis
    using that by (auto simp: entry_ok_def)
qed

lemma find_name_spec:
  assumes "table_ok b h t specs" and "i \<le> length specs"
  shows "find_name (length specs) t nm i = Some (i + length (takeWhile (\<lambda>e. fst e \<noteq> nm) (drop i specs)))"
  using assms
proof (induction "length specs - i" arbitrary: i)
  case 0
  then show ?case
    by (simp add: find_name.simps)
next
  case (Suc n)
  then have i: "i < length specs"
    by simp
  obtain r where "aget t (int i) = Some (Some r)" "rname r = Some (fst (specs ! i))"
    using table_ok_nth [OF Suc.prems(1) i] by metis
  moreover have "drop i specs = specs ! i # drop (Suc i) specs"
    using i by (simp add: Cons_nth_drop_Suc)
  moreover have "find_name (length specs) t nm (Suc i) =
      Some (Suc i + length (takeWhile (\<lambda>e. fst e \<noteq> nm) (drop (Suc i) specs)))"
    using Suc by (intro Suc.hyps(1)) auto
  ultimately show ?case
    using i by (subst find_name.simps) simp
qed

lemma find_name_found:
  assumes "table_ok b h t specs" and "(nm, L) \<in> set specs" and "distinct (map fst specs)"
  obtains i r where "find_name (length specs) t nm 0 = Some i" and "aget t (int i) = Some (Some r)"
    and "parent b h r L"
proof -
  let ?i = "length (takeWhile (\<lambda>e. fst e \<noteq> nm) specs)"
  have i: "?i < length specs"
    using assms(2) by (metis (mono_tags, lifting) fst_conv length_takeWhile_le order.strict_iff_order
        takeWhile_eq_take take_all_iff takeWhile_eq_all_conv order_refl)
  have "fst (specs ! ?i) = nm"
    using nth_length_takeWhile [OF i] by simp
  then have "specs ! ?i = (nm, L)"
    using assms(2,3) i by (metis eq_key_imp_eq_value nth_mem prod.collapse)
  moreover obtain r where "aget t (int ?i) = Some (Some r)" "parent b h r (snd (specs ! ?i))"
    using table_ok_nth [OF assms(1) i(1)] by metis
  ultimately show ?thesis
    using that find_name_spec [OF assms(1), of 0 nm] by simp
qed

definition name_of :: "spec \<Rightarrow> string \<times> string \<Rightarrow> string option" where
  "name_of specs d = map_option fst (find (\<lambda>e. \<exists>x \<in> set (snd e). same_chars x d) specs)"

lemma find_set_spec:
  assumes "table_ok b h t specs" and "load h q = Some c" and "i \<le> length specs"
  shows "find_set (length specs) t h q i = Some (name_of (drop i specs) (payload c))"
  using assms
proof (induction "length specs - i" arbitrary: i)
  case 0
  then show ?case
    by (simp add: find_set.simps name_of_def)
next
  case (Suc n)
  then have i: "i < length specs"
    by simp
  obtain r where r: "aget t (int i) = Some (Some r)" "rname r = Some (fst (specs ! i))"
      "parent b h r (snd (specs ! i))"
    using table_ok_nth [OF Suc.prems(1) i] by metis
  obtain ps where ps: "ring_at h r ps" "map (val_at h) ps = ring_order (snd (specs ! i))"
      "ps \<noteq> []" "unat (rcount r) = length ps"
    using parent_ring [OF r(3)] by metis
  have "val_at h ` set ps = set (snd (specs ! i))"
    using ps(2) by (metis list.set_map set_ring_order)
  then have "ring_find same_chars h (unat (rcount r)) (rhead r) q =
      Some (\<exists>x \<in> set (snd (specs ! i)). same_chars x (payload c))"
    using ring_find_ring [OF ps(1,3) Suc.prems(2), of same_chars] ps(4) by simp
  moreover have "drop i specs = specs ! i # drop (Suc i) specs"
    using i by (simp add: Cons_nth_drop_Suc)
  moreover have "find_set (length specs) t h q (Suc i) = Some (name_of (drop (Suc i) specs) (payload c))"
    using Suc by (intro Suc.hyps(1)) auto
  ultimately show ?case
    using i r by (subst find_set.simps) (simp add: name_of_def)
qed

section \<open>Names and the printed line\<close>

definition names :: "spec \<Rightarrow> (string \<times> string) list \<Rightarrow> string list" where
  "names specs L = map (take 9) (List.map_filter (name_of specs) (ring_order L))"

lemma name_loop_names:
  assumes U: "uholds b h r L" and "L \<noteq> []" and "length L < 10"
    and lookup: "\<And>p c. load h p = Some c \<Longrightarrow> lookup p = Some (name_of specs (payload c))"
  shows "name_loop lookup h r = Some (names specs L @ replicate (10 - length (names specs L)) '''')"
proof -
  have P: "parent (brk h) h r L"
    using U assms(2) holds_widen [of b "brk h" h r L 0 "brk h"] by (auto simp: uholds_def parent_def)
  obtain ps where ps: "ring_at h r ps" "map (val_at h) ps = ring_order L" "ps \<noteq> []"
      "length ps = length L" "unat (rcount r) = length ps"
    using parent_ring [OF P] by metis
  let ?zs = "ps @ [hd ps]"
  let ?ns = "\<lambda>i. map (take 9) (List.map_filter (name_of specs) (take i (ring_order L)))"
  let ?I = "\<lambda>i s. s = (?ns i @ replicate (10 - length (?ns i)) '''', length (?ns i))"
  have "\<exists>s'. count_loop (\<lambda>_. h) cnext (\<lambda>p s. put_name (lookup p) s) (length ps) (?zs ! 0)
      (replicate 10 '''', 0) = Some (?zs ! length ps, s') \<and> ?I (length ps) s'"
  proof (rule count_loop_rule)
    fix i s assume i: "i < length ps" and I: "?I i s"
    obtain c where c: "load h (?zs ! i) = Some c" "cnext c = ?zs ! Suc i" "payload c = ring_order L ! i"
      using ring_walk(2) [OF ps(1) i] ps(2) by auto
    have "length (?ns i) \<le> length (take i (ring_order L))"
      by (simp only: map_filter_def length_map length_filter_le)
    then have k: "length (?ns i) < 10"
      using i ps(4) assms(3) by simp
    then obtain n where n: "10 - length (?ns i) = Suc n"
      by (metis Suc_diff_Suc diff_diff_left zero_less_diff)
    have S: "?ns (Suc i) = ?ns i @ (case name_of specs (payload c) of None \<Rightarrow> [] | Some x \<Rightarrow> [take 9 x])"
      using i ps(4) c(3) by (auto simp: take_Suc_conv_app_nth map_filter_def split: option.split)
    have "put_name (lookup (?zs ! i)) s = Some (?ns (Suc i) @ replicate (10 - length (?ns (Suc i))) '''',
        length (?ns (Suc i)))"
      unfolding S using I lookup [OF c(1)] k n
      by (auto simp: put_name_def aset_def list_update_append split: option.split)
    then show "\<exists>s'. put_name (lookup (?zs ! i)) s = Some s' \<and> ?I (Suc i) s' \<and>
        (\<exists>c. load h (?zs ! i) = Some c \<and> cnext c = ?zs ! Suc i)"
      using c by blast
  qed (auto simp: map_filter_def)
  moreover have "?zs ! 0 = rhead r"
    using ring_walk(1) [OF ps(1), of 0] ps(3) by auto
  ultimately show ?thesis
    using ps by (auto simp: name_loop_def names_def)
qed

text \<open>A zero-terminated array of names, and what the final loops add.\<close>

definition name_array :: "string list \<Rightarrow> string list \<Rightarrow> bool" where
  "name_array xs ns \<longleftrightarrow> (\<exists>k. xs = ns @ replicate (Suc k) '''') \<and> (\<forall>e \<in> set ns. c0 e \<noteq> CHR 0x00)"

lemma name_array_aget:
  assumes "name_array xs ns"
  shows "i < length ns \<Longrightarrow> aget xs (int i) = Some (ns ! i) \<and> c0 (ns ! i) \<noteq> CHR 0x00"
    and "aget xs (int (length ns)) = Some ''''"
  using assms by (auto simp: name_array_def aget_def nth_append)

definition rh_adds :: "string list \<Rightarrow> string \<Rightarrow> string \<Rightarrow> (string \<times> string) list" where
  "rh_adds rns sign nm = concat (map (\<lambda>e. if e = sign then [(nm, sign)] else []) rns)"

definition bg_adds :: "string list \<Rightarrow> string list \<Rightarrow> string \<Rightarrow> (string \<times> string) list" where
  "bg_adds bns rns nm =
     concat (map (\<lambda>e. if e = nm then rh_adds rns ''+'' nm @ rh_adds rns ''-'' nm else []) bns)"

definition final_adds :: "spec \<Rightarrow> string list \<Rightarrow> string list \<Rightarrow> (string \<times> string) list" where
  "final_adds specs bns rns = concat (map (\<lambda>e. bg_adds bns rns (fst e)) specs)"

lemma rh_scan_adds:
  assumes "name_array rl rns" and "j \<le> length rns"
  shows "bm.adds b h0 (rh_scan rl sign nm j) (rh_adds (drop j rns) sign nm)"
  using assms(2)
proof (induction "length rns - j" arbitrary: j)
  case 0
  then show ?case
    using name_array_aget(2) [OF assms(1)]
    by (intro bm.addsI) (simp add: rh_adds_def rh_scan.simps c0_def)
next
  case (Suc n)
  then have j: "j < length rns" and IH: "bm.adds b h0 (rh_scan rl sign nm (Suc j)) (rh_adds (drop (Suc j) rns) sign nm)"
    by auto
  have d: "drop j rns = rns ! j # drop (Suc j) rns"
    using j by (simp add: Cons_nth_drop_Suc)
  note a = name_array_aget(1) [OF assms(1) j]
  show ?case
  proof (cases "rns ! j = sign")
    case True
    have "bm.adds b h0 (rh_scan rl sign nm j) ([(nm, sign)] @ rh_adds (drop (Suc j) rns) sign nm)"
      by (rule bm.adds_cong [OF bm.adds_bind [OF bm.adds_one IH]])
        (use a True in \<open>simp add: rh_scan.simps [of _ _ _ j]\<close>)
    then show ?thesis
      using d True by (simp add: rh_adds_def)
  next
    case False
    have "bm.adds b h0 (rh_scan rl sign nm j) (rh_adds (drop (Suc j) rns) sign nm)"
      by (rule bm.adds_cong [OF IH]) (use a False in \<open>simp add: rh_scan.simps [of _ _ _ j]\<close>)
    then show ?thesis
      using d False by (simp add: rh_adds_def)
  qed
qed

lemma bg_scan_adds:
  assumes "name_array bl bns" and R: "name_array rl rns" and "i \<le> length bns"
  shows "bm.adds b h0 (bg_scan bl rl nm i) (bg_adds (drop i bns) rns nm)"
  using assms(3)
proof (induction "length bns - i" arbitrary: i)
  case 0
  then show ?case
    using name_array_aget(2) [OF assms(1)]
    by (intro bm.addsI) (simp add: bg_adds_def bg_scan.simps c0_def)
next
  case (Suc n)
  then have i: "i < length bns" and IH: "bm.adds b h0 (bg_scan bl rl nm (Suc i)) (bg_adds (drop (Suc i) bns) rns nm)"
    by auto
  have d: "drop i bns = bns ! i # drop (Suc i) bns"
    using i by (simp add: Cons_nth_drop_Suc)
  note a = name_array_aget(1) [OF assms(1) i]
  show ?case
  proof (cases "bns ! i = nm")
    case True
    have scan: "bm.adds b h0 (rh_scan rl sign nm 0) (rh_adds rns sign nm)" for sign
      using rh_scan_adds [OF R, of 0] by simp
    have "bm.adds b h0 (bg_scan bl rl nm i)
        (rh_adds rns ''+'' nm @ rh_adds rns ''-'' nm @ bg_adds (drop (Suc i) bns) rns nm)"
      by (rule bm.adds_cong [OF bm.adds_bind [OF scan bm.adds_bind [OF scan IH]]])
        (use a True in \<open>simp add: bg_scan.simps [of _ _ _ i]\<close>)
    then show ?thesis
      using d True by (simp add: bg_adds_def)
  next
    case False
    have "bm.adds b h0 (bg_scan bl rl nm i) (bg_adds (drop (Suc i) bns) rns nm)"
      by (rule bm.adds_cong [OF IH]) (use a False in \<open>simp add: bg_scan.simps [of _ _ _ i]\<close>)
    then show ?thesis
      using d False by (simp add: bg_adds_def)
  qed
qed

lemma final_loop_adds:
  assumes "table_ok b h1 t specs" and "length specs = BLOOD_GROUP_TABLE_LEN"
    and B: "name_array bl bns" and R: "name_array rl rns" and "i \<le> length specs"
  shows "bm.adds c h0 (final_loop t bl rl i) (final_adds (drop i specs) bns rns)"
  using assms(5)
proof (induction "length specs - i" arbitrary: i)
  case 0
  then show ?case
    by (intro bm.addsI) (simp add: final_adds_def final_loop.simps assms(2) [symmetric])
next
  case (Suc n)
  then have i: "i < length specs" and IH: "bm.adds c h0 (final_loop t bl rl (Suc i)) (final_adds (drop (Suc i) specs) bns rns)"
    by auto
  have d: "drop i specs = specs ! i # drop (Suc i) specs"
    using i by (simp add: Cons_nth_drop_Suc)
  obtain r where r: "aget t (int i) = Some (Some r)" "rname r = Some (fst (specs ! i))"
    using table_ok_nth [OF assms(1) i] by metis
  have scan: "bm.adds c h0 (bg_scan bl rl nm 0) (bg_adds bns rns nm)" for nm
    using bg_scan_adds [OF B R, of 0] by simp
  have "bm.adds c h0 (final_loop t bl rl i)
      (bg_adds bns rns (fst (specs ! i)) @ final_adds (drop (Suc i) specs) bns rns)"
    by (rule bm.adds_cong [OF bm.adds_bind [OF scan IH]])
      (use r i assms(2) in \<open>simp add: final_loop.simps [of _ _ _ i]\<close>)
  then show ?case
    using d by (simp add: final_adds_def)
qed

text \<open>Printing follows \<^verbatim>\<open>prev\<close> and so shows the insertion order.\<close>

definition line_of :: "(string \<times> string) list \<Rightarrow> string" where
  "line_of L = concat (map (\<lambda>d. fst d @ snd d @ '' '') L) @ [CHR 0x0A]"

lemma rev_ring_order: "L \<noteq> [] \<Longrightarrow> rev (ring_order L @ [hd L]) = L @ [hd L]"
  by (cases L) auto

lemma print_loop_line:
  assumes U: "uholds b h r L" and ne: "L \<noteq> []"
  shows "print_loop h r = Some (line_of L)"
proof -
  have P: "parent (brk h) h r L"
    using U ne holds_widen [of b "brk h" h r L 0 "brk h"] by (auto simp: uholds_def parent_def)
  obtain ps where ps: "ring_at h r ps" "map (val_at h) ps = ring_order L" "ps \<noteq> []"
      "length ps = length L" "unat (rcount r) = length ps"
    using parent_ring [OF P] by metis
  let ?zs = "rev (ps @ [hd ps])"
  have succ: "successively (\<lambda>a c. linked h c a) ?zs" and hd: "rhead r = hd ps"
    using ps(1,3) by (auto simp: ring_at_def successively_rev simp del: rev_append)
  have vals: "map (val_at h) ?zs = L @ [hd L]"
    using ps(2,3) rev_ring_order [OF ne] by (cases L; cases ps) (auto simp flip: rev_map)
  let ?I = "\<lambda>i out. out = concat (map (\<lambda>d. fst d @ snd d @ '' '') (take i L))"
  have "\<exists>out. count_loop (\<lambda>_. h) cprev (print_set h) (length ps) (?zs ! 0) [] =
      Some (?zs ! length ps, out) \<and> ?I (length ps) out"
  proof (rule count_loop_rule)
    fix i out assume i: "i < length ps" and I: "?I i out"
    have "linked h (?zs ! Suc i) (?zs ! i)"
      using successively_nth [OF succ, of i] i by simp
    then obtain c where c: "load h (?zs ! i) = Some c" "cprev c = ?zs ! Suc i" "payload c = val_at h (?zs ! i)"
      using linked_load_prev by blast
    have "val_at h (?zs ! i) = map (val_at h) ?zs ! i"
      using i by (subst nth_map) auto
    also have "\<dots> = L ! i"
      unfolding vals using i ps(4) by (simp add: nth_append)
    finally have "payload c = L ! i"
      using c(3) by simp
    then show "\<exists>out'. print_set h (?zs ! i) out = Some out' \<and> ?I (Suc i) out' \<and>
        (\<exists>c. load h (?zs ! i) = Some c \<and> cprev c = ?zs ! Suc i)"
      using I c(1,2) i ps(4) by (simp add: print_set_def take_Suc_conv_app_nth)
  qed auto
  moreover have "?zs ! 0 = rhead r"
    using hd by (simp add: nth_Cons)
  ultimately show ?thesis
    using ps(4,5) by (auto simp: print_loop_def line_of_def)
qed

section \<open>Building the tables\<close>

text \<open>Plain insertion, whichever of the two functions the pointer names.\<close>

definition plain_adder :: "(marks \<Rightarrow> ring \<Rightarrow> string \<times> string \<Rightarrow> (marks \<times> ring) option) \<Rightarrow> bool" where
  "plain_adder add \<longleftrightarrow>
     (\<forall>h r d. radd r = Some AddPlain \<longrightarrow> add h r d = (let (p, h1) = new_cell d h in ring_add h1 r p))"

lemma plain_adder_bg: "plain_adder bg_add"
  by (simp add: plain_adder_def bg_add_def new_blood_marker_set_def add_bloodgroup_marker_set_def)

lemma plain_adder_rha: "plain_adder rha_add"
  by (simp add: plain_adder_def rha_add_def new_rh_allele_set_def add_rh_allele_set_def)

lemma add_all_plain:
  assumes "plain_adder add" and "pholds b h r L" and "length ds \<le> room h"
  shows "\<exists>h' r'. add_all add ds (h, r) = Some (h', r') \<and> pholds b h' r' (L @ ds) \<and> frame b h h' \<and>
     room h' = room h - length ds \<and> rcount r' = rcount r \<and> rname r' = rname r"
  using assms(2,3)
proof (induction ds arbitrary: h r L)
  case (Cons d ds)
  have "0 < room h"
    using Cons.prems(2) by simp
  then obtain h1 h2 r2 where a: "new_cell d h = (brk h, h1)" "ring_add h1 r (brk h) = Some (h2, r2)"
      "pholds b h2 r2 (L @ [d])" "frame b h h2" "room h2 = room h - 1" "rcount r2 = rcount r" "rname r2 = rname r"
    using ring_add_new [OF Cons.prems(1)] by metis
  have "add h r d = Some (h2, r2)"
    using assms(1) [unfolded plain_adder_def, rule_format, of r h d] Cons.prems(1) a(1,2)
    by (simp add: pholds_def)
  moreover obtain h3 r3 where "add_all add ds (h2, r2) = Some (h3, r3)" "pholds b h3 r3 ((L @ [d]) @ ds)"
      "frame b h2 h3" "room h3 = room h2 - length ds" "rcount r3 = rcount r2" "rname r3 = rname r2"
    using Cons.IH [OF a(3)] a(5) Cons.prems(2) by force
  ultimately show ?case
    using a frame_trans by auto
qed auto

text \<open>What a table builder establishes on a heap.\<close>

definition grown :: "marks \<Rightarrow> nat \<Rightarrow> marks \<Rightarrow> bool" where
  "grown h k h' \<longleftrightarrow> heap_ok h' \<and> frame (brk h) h h' \<and> brk h \<le> brk h' \<and> room h' + k = room h"

lemma grown_trans: "grown h j h1 \<Longrightarrow> grown h1 k h2 \<Longrightarrow> grown h (j + k) h2"
  by (auto simp: grown_def frame_def)

lemma entry_ok_grown:
  assumes "entry_ok (brk h) h e sp" and "grown h k h'"
  shows "entry_ok (brk h') h' e sp"
proof -
  obtain r where r: "e = Some r" "rname r = Some (fst sp)" "parent (brk h) h r (snd sp)"
    using assms(1) by (auto simp: entry_ok_def)
  then have "parent (brk h) h' r (snd sp)"
    using parent_frame assms(2) by (auto simp: grown_def)
  then have "parent (brk h') h' r (snd sp)"
    using assms(2) by (auto simp: parent_def grown_def elim: holds_widen)
  then show ?thesis
    using r by (simp add: entry_ok_def)
qed

lemma build_entry:
  assumes P: "plain_adder add" and h: "heap_ok h" and rm: "length ds < room h"
    and "ds \<noteq> []" and "length ds < 2 ^ 32" and r0: "calloc_ring h = (Some r0, h1)"
  shows "\<exists>r h'. add_all add ds (h1, r0\<lparr>radd := Some AddPlain, rname := Some nm\<rparr>) = Some (h', r) \<and>
     grown h (Suc (length ds)) h' \<and>
     entry_ok (brk h') h' (Some (r\<lparr>rcount := rcount r + of_nat (length ds)\<rparr>)) (nm, ds)"
proof -
  let ?r = "r0\<lparr>radd := Some AddPlain, rname := Some nm\<rparr>"
  have h1: "h1 = h\<lparr>room := room h - 1\<rparr>" "rlist r0 = NULL" "rcount r0 = 0"
    using r0 rm by (auto simp: calloc_ring_def)
  have "pholds (brk h) h1 ?r []"
    using h h1 by (auto simp: pholds_def holds_def ring_at_def heap_ok_def)
  then obtain h' r where a: "add_all add ds (h1, ?r) = Some (h', r)" "pholds (brk h) h' r ds"
      "frame (brk h) h1 h'" "room h' = room h1 - length ds" "rcount r = 0" "rname r = Some nm"
    using add_all_plain [OF P, of "brk h" h1 ?r "[]" ds] h1 rm by force
  have "holds 0 (brk h') h' r ds"
    using a(2) by (auto simp: pholds_def elim: holds_widen)
  then have "holds 0 (brk h') h' (r\<lparr>rcount := rcount r + of_nat (length ds)\<rparr>) ds"
    by (simp add: holds_def ring_at_rcount)
  then have "entry_ok (brk h') h' (Some (r\<lparr>rcount := rcount r + of_nat (length ds)\<rparr>)) (nm, ds)"
    using a(5,6) assms(4,5) by (auto simp: entry_ok_def parent_def)
  moreover have "grown h (Suc (length ds)) h'"
    using a(2-4) h1(1) rm by (auto simp: grown_def pholds_def frame_def)
  ultimately show ?thesis
    using a(1) by blast
qed

lemma build_bg_entry:
  assumes "heap_ok h" and "length ds < room h" and "ds \<noteq> []" and "length ds \<le> 3"
    and "k = of_nat (length ds)" and "n = Suc (length ds)"
  shows "\<exists>e h'. build_bg nm ds k h = Some (e, h') \<and> grown h n h' \<and> entry_ok (brk h') h' e (nm, ds)"
proof -
  obtain r0 h1 where "calloc_ring h = (Some r0, h1)"
    using assms(2) by (auto simp: calloc_ring_def)
  then show ?thesis
    using build_entry [OF plain_adder_bg assms(1-3), of r0 h1 nm] assms(4-6)
    by (auto simp: build_bg_def bloodgroup_init_def)
qed

lemma build_rh_entry:
  assumes "heap_ok h" and "length ds < room h" and "ds \<noteq> []" and "length ds \<le> 3"
    and "k = of_nat (length ds)" and "n = Suc (length ds)"
  shows "\<exists>e h'. build_rh nm ds k h = Some (e, h') \<and> grown h n h' \<and> entry_ok (brk h') h' e (nm, ds)"
proof -
  obtain r0 h1 where "calloc_ring h = (Some r0, h1)"
    using assms(2) by (auto simp: calloc_ring_def)
  then show ?thesis
    using build_entry [OF plain_adder_rha assms(1-3), of r0 h1 nm] assms(4-6)
    by (auto simp: build_rh_def rrh_factor_init_def)
qed

text \<open>The contents the two tables are meant to have.\<close>

definition bg_spec :: spec where
  "bg_spec = [(''A'', [(''A'', ''A''), (''A'', ''O'')]), (''AB'', [(''A'', ''B'')]),
     (''B'', [(''B'', ''B''), (''B'', ''O'')]), (''O'', [(''O'', ''O'')])]"

definition rh_spec :: spec where
  "rh_spec = [(''+'', [(''+'', ''+''), (''+'', ''-''), (''-'', ''+'')]), (''-'', [(''-'', ''-'')])]"

lemma build_blood_group_table_ok:
  assumes h: "heap_ok h" and rm: "10 \<le> room h"
  shows "\<exists>t h'. build_blood_group_table h = Some (t, h') \<and> grown h 10 h' \<and> table_ok (brk h') h' t bg_spec"
proof -
  obtain a h1 where a: "build_bg ''A'' [(''A'', ''A''), (''A'', ''O'')] 2 h = Some (a, h1)" "grown h 3 h1"
      "entry_ok (brk h1) h1 a (''A'', [(''A'', ''A''), (''A'', ''O'')])"
    using build_bg_entry [OF h, of "[(''A'', ''A''), (''A'', ''O'')]" 2 3 "''A''"] rm by auto
  have h1: "heap_ok h1" "room h1 + 3 = room h"
    using a(2) by (auto simp: grown_def)
  obtain ab h2 where ab: "build_bg ''AB'' [(''A'', ''B'')] 1 h1 = Some (ab, h2)" "grown h1 2 h2"
      "entry_ok (brk h2) h2 ab (''AB'', [(''A'', ''B'')])"
    using build_bg_entry [OF h1(1), of "[(''A'', ''B'')]" 1 2 "''AB''"] rm h1(2) by auto
  have h2: "heap_ok h2" "room h2 + 2 = room h1"
    using ab(2) by (auto simp: grown_def)
  obtain b h3 where b: "build_bg ''B'' [(''B'', ''B''), (''B'', ''O'')] 2 h2 = Some (b, h3)" "grown h2 3 h3"
      "entry_ok (brk h3) h3 b (''B'', [(''B'', ''B''), (''B'', ''O'')])"
    using build_bg_entry [OF h2(1), of "[(''B'', ''B''), (''B'', ''O'')]" 2 3 "''B''"] rm h1(2) h2(2) by auto
  have h3: "heap_ok h3" "room h3 + 3 = room h2"
    using b(2) by (auto simp: grown_def)
  obtain z h4 where z: "build_bg ''O'' [(''O'', ''O'')] 1 h3 = Some (z, h4)" "grown h3 2 h4"
      "entry_ok (brk h4) h4 z (''O'', [(''O'', ''O'')])"
    using build_bg_entry [OF h3(1), of "[(''O'', ''O'')]" 1 2 "''O''"] rm h1(2) h2(2) h3(2) by auto
  have g34: "grown h2 5 h4" and g24: "grown h1 7 h4" and g14: "grown h 10 h4"
    using grown_trans [OF b(2) z(2)] grown_trans [OF ab(2) grown_trans [OF b(2) z(2)]]
      grown_trans [OF a(2) grown_trans [OF ab(2) grown_trans [OF b(2) z(2)]]] by simp_all
  have "table_ok (brk h4) h4 [a, ab, b, z] bg_spec"
    using entry_ok_grown [OF a(3) g24] entry_ok_grown [OF ab(3) g34] entry_ok_grown [OF b(3) z(2)] z(3)
    by (simp add: table_ok_def bg_spec_def)
  then show ?thesis
    using a(1) ab(1) b(1) z(1) g14 by (simp add: build_blood_group_table_def)
qed

lemma build_rh_factor_table_ok:
  assumes h: "heap_ok h" and rm: "6 \<le> room h"
  shows "\<exists>t h'. build_rh_factor_table h = Some (t, h') \<and> grown h 6 h' \<and> table_ok (brk h') h' t rh_spec"
proof -
  let ?p = "[(''+'', ''+''), (''+'', ''-''), (''-'', ''+'')]"
  obtain p h1 where p: "build_rh ''+'' ?p 3 h = Some (p, h1)" "grown h 4 h1" "entry_ok (brk h1) h1 p (''+'', ?p)"
    using build_rh_entry [OF h, of ?p 3 4 "''+''"] rm by auto
  have h1: "heap_ok h1" "room h1 + 4 = room h"
    using p(2) by (auto simp: grown_def)
  obtain m h2 where m: "build_rh ''-'' [(''-'', ''-'')] 1 h1 = Some (m, h2)" "grown h1 2 h2"
      "entry_ok (brk h2) h2 m (''-'', [(''-'', ''-'')])"
    using build_rh_entry [OF h1(1), of "[(''-'', ''-'')]" 1 2 "''-''"] rm h1(2) by auto
  have "table_ok (brk h2) h2 [p, m] rh_spec"
    using entry_ok_grown [OF p(3) m(2)] m(3) by (simp add: table_ok_def rh_spec_def)
  then show ?thesis
    using p(1) m(1) grown_trans [OF p(2) m(2)] by (simp add: build_rh_factor_table_def)
qed

section \<open>What the child query prints\<close>

definition child_marks :: "(string \<times> string) list \<Rightarrow> (string \<times> string) list \<Rightarrow> (string \<times> string) list" where
  "child_marks df dm = fold (insert_new same_strings) (grid ''ABO'' (ring_order df) (ring_order dm)) []"

definition child_alleles :: "(string \<times> string) list \<Rightarrow> (string \<times> string) list \<Rightarrow> (string \<times> string) list" where
  "child_alleles df dm = fold (insert_new same_chars) (grid ''+-'' (ring_order df) (ring_order dm)) []"

definition child_groups :: "string list \<Rightarrow> string list \<Rightarrow> (string \<times> string) list" where
  "child_groups bns rns = fold (insert_new same_strings) (final_adds bg_spec bns rns) []"

text \<open>The rule of inheritance, with no reference to the program: A and B dominate O, + dominates -.\<close>

definition abo :: "char \<Rightarrow> char \<Rightarrow> string" where
  "abo x y = (if CHR ''A'' \<in> {x, y} then (if CHR ''B'' \<in> {x, y} then ''AB'' else ''A'')
     else if CHR ''B'' \<in> {x, y} then ''B'' else ''O'')"

definition rhd :: "char \<Rightarrow> char \<Rightarrow> string" where
  "rhd x y = (if CHR ''+'' \<in> {x, y} then ''+'' else ''-'')"

definition genotypes :: "(char \<Rightarrow> char \<Rightarrow> string) \<Rightarrow> char list \<Rightarrow> string \<Rightarrow> (char \<times> char) list" where
  "genotypes ph letters g = filter (\<lambda>(x, y). ph x y = g) (List.product letters letters)"

definition can_inherit :: "(char \<Rightarrow> char \<Rightarrow> string) \<Rightarrow> char list \<Rightarrow> string \<Rightarrow> string \<Rightarrow> string \<Rightarrow> bool" where
  "can_inherit ph letters f m g \<longleftrightarrow>
     (\<exists>(a, b) \<in> set (genotypes ph letters f). \<exists>(c, d) \<in> set (genotypes ph letters m).
        \<exists>x \<in> {a, b}. \<exists>y \<in> {c, d}. ph x y = g)"

definition inheritable :: "string \<Rightarrow> string \<Rightarrow> string \<Rightarrow> string \<Rightarrow> (string \<times> string) list" where
  "inheritable f m fr mr =
     List.product (filter (can_inherit abo ''ABO'' f m) [''A'', ''AB'', ''B'', ''O''])
       (filter (can_inherit rhd ''+-'' fr mr) [''+'', ''-''])"

text \<open>
  Finitely many cases: the lists stay inside the fixed-size arrays, the name arrays are terminated,
  and the names found are those of the inheritance rule.
\<close>

definition marks_fine :: "string \<times> (string \<times> string) list \<Rightarrow> string \<times> (string \<times> string) list \<Rightarrow> bool" where
  "marks_fine f m \<longleftrightarrow>
     (let B = child_marks (snd f) (snd m); ns = names bg_spec B
      in B \<noteq> [] \<and> length B < 10 \<and> list_all (\<lambda>e. c0 e \<noteq> CHR 0x00) ns \<and> length ns \<le> 6 \<and>
         filter (\<lambda>g. g \<in> set ns) (map fst bg_spec) \<noteq> [] \<and>
         filter (\<lambda>g. g \<in> set ns) (map fst bg_spec) =
         filter (can_inherit abo ''ABO'' (fst f) (fst m)) [''A'', ''AB'', ''B'', ''O''])"

definition alleles_fine :: "string \<times> (string \<times> string) list \<Rightarrow> string \<times> (string \<times> string) list \<Rightarrow> bool" where
  "alleles_fine f m \<longleftrightarrow>
     (let B = child_alleles (snd f) (snd m); ns = names rh_spec B
      in B \<noteq> [] \<and> length B < 10 \<and> list_all (\<lambda>e. c0 e \<noteq> CHR 0x00) ns \<and> length ns \<le> 4 \<and>
         filter (\<lambda>g. g \<in> set ns) [''+'', ''-''] \<noteq> [] \<and>
         filter (\<lambda>g. g \<in> set ns) [''+'', ''-''] =
         filter (can_inherit rhd ''+-'' (fst f) (fst m)) [''+'', ''-''])"

lemma bg_spec_marks_fine: "list_all (\<lambda>f. list_all (marks_fine f) bg_spec) bg_spec"
  by code_simp

lemma rh_spec_alleles_fine: "list_all (\<lambda>f. list_all (alleles_fine f) rh_spec) rh_spec"
  by code_simp

lemma marks_fineD:
  assumes "marks_fine f m"
  shows "child_marks (snd f) (snd m) \<noteq> []" and "length (child_marks (snd f) (snd m)) < 10"
    and "list_all (\<lambda>e. c0 e \<noteq> CHR 0x00) (names bg_spec (child_marks (snd f) (snd m)))"
    and "length (names bg_spec (child_marks (snd f) (snd m))) \<le> 6"
    and "filter (\<lambda>g. g \<in> set (names bg_spec (child_marks (snd f) (snd m)))) (map fst bg_spec) \<noteq> []"
    and "filter (\<lambda>g. g \<in> set (names bg_spec (child_marks (snd f) (snd m)))) (map fst bg_spec) =
      filter (can_inherit abo ''ABO'' (fst f) (fst m)) [''A'', ''AB'', ''B'', ''O'']"
  using assms unfolding marks_fine_def Let_def by blast+

lemma alleles_fineD:
  assumes "alleles_fine f m"
  shows "child_alleles (snd f) (snd m) \<noteq> []" and "length (child_alleles (snd f) (snd m)) < 10"
    and "list_all (\<lambda>e. c0 e \<noteq> CHR 0x00) (names rh_spec (child_alleles (snd f) (snd m)))"
    and "length (names rh_spec (child_alleles (snd f) (snd m))) \<le> 4"
    and "filter (\<lambda>g. g \<in> set (names rh_spec (child_alleles (snd f) (snd m)))) [''+'', ''-''] \<noteq> []"
    and "filter (\<lambda>g. g \<in> set (names rh_spec (child_alleles (snd f) (snd m)))) [''+'', ''-''] =
      filter (can_inherit rhd ''+-'' (fst f) (fst m)) [''+'', ''-'']"
  using assms unfolding alleles_fine_def Let_def by blast+

lemma insert_new_known: "\<forall>x \<in> set ds. x \<in> set L \<Longrightarrow> fold (insert_new same_strings) ds L = L"
  by (induction ds arbitrary: L) (auto simp: insert_new_def same_strings_def)

lemma fold_rh_adds:
  "fold (insert_new same_strings) (rh_adds rns sign nm) L =
     (if sign \<in> set rns \<and> (nm, sign) \<notin> set L then L @ [(nm, sign)] else L)"
  by (induction rns arbitrary: L) (auto simp: rh_adds_def insert_new_def same_strings_def)

definition signed :: "string list \<Rightarrow> string \<Rightarrow> (string \<times> string) list" where
  "signed rns nm = map (Pair nm) (filter (\<lambda>s. s \<in> set rns) [''+'', ''-''])"

lemma fold_bg_adds_known:
  assumes "set (signed rns nm) \<subseteq> set L"
  shows "fold (insert_new same_strings) (bg_adds bns rns nm) L = L"
  by (rule insert_new_known) (use assms in \<open>auto simp: bg_adds_def rh_adds_def signed_def split: if_splits\<close>)

lemma fold_bg_adds:
  assumes "nm \<notin> fst ` set L"
  shows "fold (insert_new same_strings) (bg_adds bns rns nm) L =
     (if nm \<in> set bns then L @ signed rns nm else L)"
proof (induction bns)
  case (Cons e bns)
  have n: "(nm, x) \<notin> set L" for x
    using assms by force
  show ?case
  proof (cases "e = nm")
    case True
    have "fold (insert_new same_strings) (rh_adds rns ''+'' nm @ rh_adds rns ''-'' nm) L = L @ signed rns nm"
      using n by (simp add: fold_rh_adds signed_def)
    moreover have "bg_adds (e # bns) rns nm = (rh_adds rns ''+'' nm @ rh_adds rns ''-'' nm) @ bg_adds bns rns nm"
      using True by (simp add: bg_adds_def)
    ultimately show ?thesis
      using True fold_bg_adds_known [of rns nm "L @ signed rns nm" bns]
      by (simp only: fold_append o_apply) simp
  next
    case False
    then show ?thesis
      using Cons by (simp add: bg_adds_def)
  qed
qed (simp add: bg_adds_def)

lemma fold_final_adds:
  assumes "distinct (map fst specs)" and "fst ` set L \<inter> fst ` set specs = {}"
  shows "fold (insert_new same_strings) (final_adds specs bns rns) L =
     L @ concat (map (signed rns) (filter (\<lambda>g. g \<in> set bns) (map fst specs)))"
  using assms
proof (induction specs arbitrary: L)
  case (Cons e specs)
  let ?L = "if fst e \<in> set bns then L @ signed rns (fst e) else L"
  have "fold (insert_new same_strings) (final_adds (e # specs) bns rns) L =
      fold (insert_new same_strings) (final_adds specs bns rns) ?L"
    using fold_bg_adds [of "fst e" L bns rns] Cons.prems(2) by (simp add: final_adds_def)
  also have "\<dots> = ?L @ concat (map (signed rns) (filter (\<lambda>g. g \<in> set bns) (map fst specs)))"
    using Cons.prems by (intro Cons.IH) (auto simp: signed_def)
  finally show ?case
    by simp
qed (simp add: final_adds_def)

lemma length_rh_adds: "length (rh_adds rns sign nm) \<le> length rns"
  by (induction rns) (auto simp: rh_adds_def)

lemma length_bg_adds: "length (bg_adds bns rns nm) \<le> 2 * length rns * length bns"
proof (induction bns)
  case (Cons e bns)
  then show ?case
    using length_rh_adds [of rns "''+''" nm] length_rh_adds [of rns "''-''" nm] by (simp add: bg_adds_def)
qed (simp add: bg_adds_def)

lemma length_final_adds:
  assumes "length bns \<le> 6" and "length rns \<le> 4"
  shows "length (final_adds bg_spec bns rns) \<le> 192"
proof -
  have "2 * length rns * length bns \<le> 2 * 4 * 6"
    using assms by (intro mult_le_mono) auto
  then have "length (bg_adds bns rns nm) \<le> 48" for nm
    using length_bg_adds [of bns rns nm] by linarith
  from this [of "''A''"] this [of "''AB''"] this [of "''B''"] this [of "''O''"] show ?thesis
    by (simp add: final_adds_def bg_spec_def)
qed

lemma concat_signed: "concat (map (signed rns) gs) = List.product gs (filter (\<lambda>s. s \<in> set rns) [''+'', ''-''])"
  by (induction gs) (auto simp: signed_def)

lemma child_groups_inheritable:
  assumes "marks_fine f m" and "alleles_fine fr mr"
  shows "child_groups (names bg_spec (child_marks (snd f) (snd m)))
     (names rh_spec (child_alleles (snd fr) (snd mr))) = inheritable (fst f) (fst m) (fst fr) (fst mr)"
proof -
  have "distinct (map fst bg_spec)"
    by (simp add: bg_spec_def)
  then show ?thesis
    using fold_final_adds [of bg_spec "[]"] marks_fineD(6) [OF assms(1)] alleles_fineD(6) [OF assms(2)]
    by (simp only: child_groups_def inheritable_def concat_signed) simp
qed

lemma inheritable_nonempty:
  assumes "marks_fine f m" and "alleles_fine fr mr"
  shows "inheritable (fst f) (fst m) (fst fr) (fst mr) \<noteq> []"
proof -
  have P: "List.product xs ys \<noteq> []" if "xs \<noteq> []" "ys \<noteq> []" for xs ys :: "string list"
    using that by (cases xs; cases ys) auto
  show ?thesis
    unfolding inheritable_def by (rule P) (metis marks_fineD(5,6) assms(1), metis alleles_fineD(5,6) assms(2))
qed

lemma names_array:
  assumes "length L < 10" and "list_all (\<lambda>e. c0 e \<noteq> CHR 0x00) (names specs L)"
  shows "name_array (names specs L @ replicate (10 - length (names specs L)) '''') (names specs L)"
proof -
  have "length (names specs L) \<le> length (ring_order L)"
    unfolding names_def by (simp only: map_filter_def length_map length_filter_le)
  then have "10 - length (names specs L) = Suc (9 - length (names specs L))"
    using assms(1) by simp
  then show ?thesis
    using assms(2) by (auto simp: name_array_def list_all_iff)
qed

lemma bg_spec_facts: "length bg_spec = BLOOD_GROUP_TABLE_LEN" "distinct (map fst bg_spec)"
  by (simp_all add: bg_spec_def BLOOD_GROUP_TABLE_LEN_def)

lemma bg_spec_lookup:
  assumes "table_ok b h t bg_spec" and "(nm, L) \<in> set bg_spec"
  shows "\<exists>r. get_blood_group_from_table t nm = Some (Some r) \<and> parent b h r L"
proof -
  obtain i r where "find_name (length bg_spec) t nm 0 = Some i" "aget t (int i) = Some (Some r)" "parent b h r L"
    by (rule find_name_found [OF assms bg_spec_facts(2)])
  then show ?thesis
    by (simp add: get_blood_group_from_table_def bg_spec_facts(1))
qed

lemma rh_spec_facts: "length rh_spec = RRH_FACTOR_TABLE_LEN" "distinct (map fst rh_spec)"
  by (simp_all add: rh_spec_def RRH_FACTOR_TABLE_LEN_def)

lemma rh_spec_lookup:
  assumes "table_ok b h t rh_spec" and "(nm, L) \<in> set rh_spec"
  shows "\<exists>r. get_rrhfactor_from_table t nm = Some (Some r) \<and> parent b h r L"
proof -
  obtain i r where "find_name (length rh_spec) t nm 0 = Some i" "aget t (int i) = Some (Some r)" "parent b h r L"
    by (rule find_name_found [OF assms rh_spec_facts(2)])
  then show ?thesis
    by (simp add: get_rrhfactor_from_table_def rh_spec_facts(1))
qed

text \<open>The two halves of the query: the names of the groups, and those of the Rh factors.\<close>

lemma marks_phase:
  assumes T: "table_ok b h0 t bg_spec" and F: "parent b h0 father (snd f)" and M: "parent b h0 mother (snd m)"
    and fm: "f \<in> set bg_spec" "m \<in> set bg_spec"
    and h0: "heap_ok h0" "b \<le> brk h0" "33 \<le> room h0"
  shows "\<exists>h r. pair_loops get_all_possible_bmsets father mother h0 = Some (h, Some r) \<and>
     frame b h0 h \<and> heap_ok h \<and> b \<le> brk h \<and> room h0 \<le> room h + 33 \<and>
     (\<exists>bl. name_loop (get_blood_group_name_from_table t h) h r = Some bl \<and>
           name_array bl (names bg_spec (child_marks (snd f) (snd m))))"
proof -
  let ?B = "child_marks (snd f) (snd m)"
  have fine: "marks_fine f m"
    using bg_spec_marks_fine fm by (auto simp: list_all_iff)
  have "length (snd f) \<le> 2" "length (snd m) \<le> 2"
    using fm by (auto simp: bg_spec_def)
  then have le: "8 * length (snd f) * length (snd m) \<le> 8 * 2 * 2"
    by (intro mult_le_mono) auto
  then obtain h r where hr: "pair_loops get_all_possible_bmsets father mother h0 = Some (h, Some r)"
      "frame b h0 h" "uholds b h r ?B"
      "room h + length (grid ''ABO'' (ring_order (snd f)) (ring_order (snd m))) + 1 = room h0"
    using pair_loops_pairs [OF get_all_possible_bmsets_pairs F M h0(1,2)] h0(3) by (auto simp: child_marks_def)
  have "room h0 \<le> room h + 33"
    using hr(4) le length_grid [of "''ABO''" "ring_order (snd f)" "ring_order (snd m)"] by simp
  moreover have "get_blood_group_name_from_table t h p = Some (name_of bg_spec (payload c))"
    if "load h p = Some c" for p c
    using find_set_spec [OF table_ok_frame [OF T hr(2)] that, of 0]
    by (simp add: get_blood_group_name_from_table_def bg_spec_facts(1))
  then have "name_loop (get_blood_group_name_from_table t h) h r =
      Some (names bg_spec ?B @ replicate (10 - length (names bg_spec ?B)) '''')"
    by (intro name_loop_names [OF hr(3) marks_fineD(1,2) [OF fine]]) auto
  moreover have "name_array (names bg_spec ?B @ replicate (10 - length (names bg_spec ?B)) '''') (names bg_spec ?B)"
    by (rule names_array [OF marks_fineD(2,3) [OF fine]])
  ultimately show ?thesis
    using hr(1-3) by (auto simp: uholds_def)
qed

lemma alleles_phase:
  assumes T: "table_ok b h0 t rh_spec" and F: "parent b h0 father (snd f)" and M: "parent b h0 mother (snd m)"
    and fm: "f \<in> set rh_spec" "m \<in> set rh_spec"
    and h0: "heap_ok h0" "b \<le> brk h0" "73 \<le> room h0"
  shows "\<exists>h r. pair_loops get_all_possible_rhasets father mother h0 = Some (h, Some r) \<and>
     frame b h0 h \<and> heap_ok h \<and> b \<le> brk h \<and> room h0 \<le> room h + 73 \<and>
     (\<exists>rl. name_loop (get_rrh_factor_name_from_table t h) h r = Some rl \<and>
           name_array rl (names rh_spec (child_alleles (snd f) (snd m))))"
proof -
  let ?B = "child_alleles (snd f) (snd m)"
  have fine: "alleles_fine f m"
    using rh_spec_alleles_fine fm by (auto simp: list_all_iff)
  have "length (snd f) \<le> 3" "length (snd m) \<le> 3"
    using fm by (auto simp: rh_spec_def)
  then have le: "8 * length (snd f) * length (snd m) \<le> 8 * 3 * 3"
    by (intro mult_le_mono) auto
  then obtain h r where hr: "pair_loops get_all_possible_rhasets father mother h0 = Some (h, Some r)"
      "frame b h0 h" "uholds b h r ?B"
      "room h + length (grid ''+-'' (ring_order (snd f)) (ring_order (snd m))) + 1 = room h0"
    using pair_loops_pairs [OF get_all_possible_rhasets_pairs F M h0(1,2)] h0(3) by (auto simp: child_alleles_def)
  have "room h0 \<le> room h + 73"
    using hr(4) le length_grid [of "''+-''" "ring_order (snd f)" "ring_order (snd m)"] by simp
  moreover have "get_rrh_factor_name_from_table t h p = Some (name_of rh_spec (payload c))"
    if "load h p = Some c" for p c
    using find_set_spec [OF table_ok_frame [OF T hr(2)] that, of 0]
    by (simp add: get_rrh_factor_name_from_table_def rh_spec_facts(1))
  then have "name_loop (get_rrh_factor_name_from_table t h) h r =
      Some (names rh_spec ?B @ replicate (10 - length (names rh_spec ?B)) '''')"
    by (intro name_loop_names [OF hr(3) alleles_fineD(1,2) [OF fine]]) auto
  moreover have "name_array (names rh_spec ?B @ replicate (10 - length (names rh_spec ?B)) '''') (names rh_spec ?B)"
    by (rule names_array [OF alleles_fineD(2,3) [OF fine]])
  ultimately show ?thesis
    using hr(1-3) by (auto simp: uholds_def)
qed

lemma final_phase:
  assumes T: "table_ok b h0 t bg_spec" and B: "name_array bl bns" and R: "name_array rl rns"
    and len: "length bns \<le> 6" "length rns \<le> 4"
    and h: "heap_ok h" "193 \<le> room h" and ne: "child_groups bns rns \<noteq> []"
  shows "\<exists>s s'. unique_out h None = Some s \<and> final_loop t bl rl 0 s = Some s' \<and>
     print_loop (fst s') (snd s') = Some (line_of (child_groups bns rns))"
proof -
  have "out_ok same_strings (brk h) h [] (h, None)"
    using h by (simp add: out_ok_def)
  moreover have "0 < room h"
    using h(2) by simp
  ultimately obtain s where s: "unique_out h None = Some s" "frame (brk h) h (fst s)"
      "uholds (brk h) (fst s) (snd s) []" "room (fst s) + 1 = room h"
    using unique_out_ok [of same_strings "brk h" h "[]" "(h, None)"] by (metis add.right_neutral fold_simps(1)
        fst_conv list.size(3) snd_conv)
  have adds: "bm.adds (brk h) h (final_loop t bl rl 0) (final_adds bg_spec bns rns)"
    using final_loop_adds [OF T bg_spec_facts(1) B R, of 0] by simp
  have l: "length (final_adds bg_spec bns rns) \<le> 192"
    by (rule length_final_adds [OF len])
  then have "length (final_adds bg_spec bns rns) \<le> room (fst s)"
      "length ([] :: (string \<times> string) list) + length (final_adds bg_spec bns rns) < 2 ^ 32"
    using s(4) h(2) by auto
  then obtain s' where s': "final_loop t bl rl 0 s = Some s'"
      "uholds (brk h) (fst s') (snd s') (child_groups bns rns)"
    using bm.adds_run [OF adds s(3,2)] unfolding child_groups_def by blast
  then show ?thesis
    using s(1) print_loop_line [OF s'(2) ne] by blast
qed

lemma child_blood_group_print_groups:
  assumes T: "table_ok b h bt bg_spec" and TR: "table_ok b h rt rh_spec"
    and h: "heap_ok h" "b \<le> brk h" "300 \<le> room h"
    and fm: "f \<in> set bg_spec" "m \<in> set bg_spec" "fr \<in> set rh_spec" "mr \<in> set rh_spec"
    and args: "aget args 0 = Some a0" "aget args 1 = Some a1" "blood_group a0 = fst f" "blood_group a1 = fst m"
      "rh_factor a0 = fst fr" "rh_factor a1 = fst mr"
  shows "\<exists>h'. child_blood_group_print args bt rt h =
     Some (h', line_of (inheritable (fst f) (fst m) (fst fr) (fst mr)))"
proof -
  have fine: "marks_fine f m" "alleles_fine fr mr"
    using bg_spec_marks_fine rh_spec_alleles_fine fm by (auto simp: list_all_iff)
  obtain F M where FM: "get_blood_group_from_table bt (fst f) = Some (Some F)" "parent b h F (snd f)"
      "get_blood_group_from_table bt (fst m) = Some (Some M)" "parent b h M (snd m)"
    using bg_spec_lookup [OF T] fm(1,2) by (metis prod.collapse)
  obtain FR MR where FMR: "get_rrhfactor_from_table rt (fst fr) = Some (Some FR)" "parent b h FR (snd fr)"
      "get_rrhfactor_from_table rt (fst mr) = Some (Some MR)" "parent b h MR (snd mr)"
    using rh_spec_lookup [OF TR] fm(3,4) by (metis prod.collapse)
  have "33 \<le> room h"
    using h(3) by simp
  from marks_phase [OF T FM(2,4) fm(1,2) h(1,2) this]
  obtain h1 r1 bl where p1: "pair_loops get_all_possible_bmsets F M h = Some (h1, Some r1)" "frame b h h1"
      "heap_ok h1" "b \<le> brk h1" "room h \<le> room h1 + 33"
      "name_loop (get_blood_group_name_from_table bt h1) h1 r1 = Some bl"
      "name_array bl (names bg_spec (child_marks (snd f) (snd m)))"
    by blast
  have "73 \<le> room h1"
    using h(3) p1(5) by simp
  from alleles_phase [OF table_ok_frame [OF TR p1(2)] parent_frame [OF FMR(2) p1(2)] parent_frame [OF FMR(4) p1(2)]
      fm(3,4) p1(3,4) this]
  obtain h2 r2 rl where p2: "pair_loops get_all_possible_rhasets FR MR h1 = Some (h2, Some r2)" "frame b h1 h2"
      "heap_ok h2" "room h1 \<le> room h2 + 73"
      "name_loop (get_rrh_factor_name_from_table rt h2) h2 r2 = Some rl"
      "name_array rl (names rh_spec (child_alleles (snd fr) (snd mr)))"
    by blast
  have rm: "193 \<le> room h2"
    using h(3) p1(5) p2(4) by simp
  have "child_groups (names bg_spec (child_marks (snd f) (snd m)))
      (names rh_spec (child_alleles (snd fr) (snd mr))) \<noteq> []"
    using inheritable_nonempty [OF fine] child_groups_inheritable [OF fine] by simp
  from final_phase [OF T p1(7) p2(6) marks_fineD(4) [OF fine(1)] alleles_fineD(4) [OF fine(2)] p2(3) rm this]
  obtain s s' where p3: "unique_out h2 None = Some s" "final_loop bt bl rl 0 s = Some s'"
      "print_loop (fst s') (snd s') = Some (line_of (inheritable (fst f) (fst m) (fst fr) (fst mr)))"
    using child_groups_inheritable [OF fine] by auto
  show ?thesis
    using args FM(1,3) FMR(1,3) p1(1,6) p2(1,5) p3 by (simp add: child_blood_group_print_def)
qed

section \<open>Properties\<close>

lemma tables_built:
  assumes "16 \<le> n"
  obtains bt rt h1 h2 where "build_blood_group_table (empty_heap n) = Some (bt, h1)"
    and "build_rh_factor_table h1 = Some (rt, h2)" and "heap_ok h2" and "room h2 + 16 = n"
    and "table_ok (brk h2) h2 bt bg_spec" and "table_ok (brk h2) h2 rt rh_spec"
proof -
  have "10 \<le> room (empty_heap n :: marks)"
    using assms by (simp add: empty_heap_def)
  from build_blood_group_table_ok [OF heap_ok_empty this]
  obtain bt h1 where b: "build_blood_group_table (empty_heap n) = Some (bt, h1)"
      "grown (empty_heap n) 10 h1" "table_ok (brk h1) h1 bt bg_spec"
    by blast
  have h1: "heap_ok h1" "room h1 + 10 = n"
    using b(2) by (auto simp: grown_def empty_heap_def)
  then obtain rt h2 where r: "build_rh_factor_table h1 = Some (rt, h2)" "grown h1 6 h2"
      "table_ok (brk h2) h2 rt rh_spec"
    using build_rh_factor_table_ok [OF h1(1)] assms by force
  have "table_ok (brk h2) h2 bt bg_spec"
    using b(3) entry_ok_grown [OF _ r(2)] unfolding table_ok_def by (blast intro: list_all2_mono)
  then show ?thesis
    using that b(1) r h1(2) by (auto simp: grown_def)
qed

lemma spec_members:
  "g \<in> {''A'', ''AB'', ''B'', ''O''} \<Longrightarrow> \<exists>e \<in> set bg_spec. fst e = g"
  "s \<in> {''+'', ''-''} \<Longrightarrow> \<exists>e \<in> set rh_spec. fst e = s"
  by (auto simp: bg_spec_def rh_spec_def)

text \<open>C1. The child query of the blood group program is correct for every pair of parents: after the
  two tables have been built on an empty heap with at least 320 allocations left, the query runs
  through without a dereference of a null or dangling pointer or an access outside the
  fixed-size name arrays, and prints exactly the group and Rh combinations that the rule of
  inheritance allows, each once, in the order A, AB, B, O with + before -.\<close>

theorem child_prints_inheritable:
  assumes "320 \<le> n"
    and "f \<in> {''A'', ''AB'', ''B'', ''O''}" and "m \<in> {''A'', ''AB'', ''B'', ''O''}"
    and "fr \<in> {''+'', ''-''}" and "mr \<in> {''+'', ''-''}"
  shows "\<exists>h'. do {
      (bt, h1) \<leftarrow> build_blood_group_table (empty_heap n);
      (rt, h2) \<leftarrow> build_rh_factor_table h1;
      child_blood_group_print
        [\<lparr>blood_group = f, rh_factor = fr, output_req = o1\<rparr>,
         \<lparr>blood_group = m, rh_factor = mr, output_req = o2\<rparr>, a3] bt rt h2
    } = Some (h', line_of (inheritable f m fr mr))"
proof -
  have "16 \<le> n"
    using assms(1) by simp
  then obtain bt rt h1 h2 where b: "build_blood_group_table (empty_heap n) = Some (bt, h1)"
      "build_rh_factor_table h1 = Some (rt, h2)" "heap_ok h2" "room h2 + 16 = n"
      "table_ok (brk h2) h2 bt bg_spec" "table_ok (brk h2) h2 rt rh_spec"
    by (rule tables_built)
  obtain ef em efr emr where e: "ef \<in> set bg_spec" "fst ef = f" "em \<in> set bg_spec" "fst em = m"
      "efr \<in> set rh_spec" "fst efr = fr" "emr \<in> set rh_spec" "fst emr = mr"
    using spec_members assms(2-5) by meson
  have "300 \<le> room h2"
    using b(4) assms(1) by simp
  from child_blood_group_print_groups [OF b(5,6,3) order_refl this e(1,3,5,7)] show ?thesis
    using b(1,2) e(2,4,6,8) by simp
qed

theorem child_prints_inheritable_witness:
  "\<exists>h'. do {
      (bt, h1) \<leftarrow> build_blood_group_table (empty_heap 320);
      (rt, h2) \<leftarrow> build_rh_factor_table h1;
      child_blood_group_print
        [\<lparr>blood_group = ''A'', rh_factor = ''+'', output_req = 0\<rparr>,
         \<lparr>blood_group = ''O'', rh_factor = ''-'', output_req = 0\<rparr>,
         \<lparr>blood_group = '''', rh_factor = '''', output_req = 1\<rparr>] bt rt h2
    } = Some (h', ''A+ A- O+ O- '' @ [CHR 0x0A])"
proof -
  have "line_of (inheritable ''A'' ''O'' ''+'' ''-'') = ''A+ A- O+ O- '' @ [CHR 0x0A]"
    by code_simp
  then show ?thesis
    using child_prints_inheritable [of 320 "''A''" "''O''" "''+''" "''-''" 0 0
        "\<lparr>blood_group = '''', rh_factor = '''', output_req = 1\<rparr>"] by simp
qed

text \<open>Reading a query line with two known parents of the groups A, AB and B and a question mark for
  the child stores exactly the two groups, the two Rh factors and the request, whatever an earlier
  line left in the three input records.\<close>

theorem child_line_parsed:
  assumes "f \<in> {''A'', ''AB'', ''B''}" and "m \<in> {''A'', ''AB'', ''B''}"
    and "fr \<in> {''+'', ''-''}" and "mr \<in> {''+'', ''-''}"
  shows "process_each_input_line [a0, a1, a2] (f @ fr @ '' '' @ m @ mr @ '' ?'') =
     Some [a0\<lparr>blood_group := f, rh_factor := fr\<rparr>, a1\<lparr>blood_group := m, rh_factor := mr\<rparr>,
           a2\<lparr>output_req := 1\<rparr>]"
  using assms by (auto simp: process_each_input_line_def line_switch_def upd_arg_def c0_def
      aget_def aset_def)

theorem child_line_parsed_witness:
  "process_each_input_line input_args ''AB+ B- ?'' =
     Some [\<lparr>blood_group = ''AB'', rh_factor = ''+'', output_req = 0\<rparr>,
           \<lparr>blood_group = ''B'', rh_factor = ''-'', output_req = 0\<rparr>,
           \<lparr>blood_group = '''', rh_factor = '''', output_req = 1\<rparr>]"
proof -
  let ?a = "\<lparr>blood_group = '''', rh_factor = '''', output_req = 0\<rparr>"
  have "input_args = [?a, ?a, ?a]"
    by (simp add: input_args_def numeral_3_eq_3)
  then show ?thesis
    using child_line_parsed [of "''AB''" "''B''" "''+''" "''-''" ?a ?a ?a] by simp
qed

text \<open>The line reader has no case for the letter O: the first query line with a father of group O
  leaves the father's group empty, and the child query then reads the entry behind the end of the
  blood group table, which is undefined behaviour.\<close>

theorem group_O_undefined:
  assumes "16 \<le> n" and "m \<in> {''A'', ''AB'', ''B'', ''O''}" and "fr \<in> {''+'', ''-''}" and "mr \<in> {''+'', ''-''}"
  shows "do {
      (bt, h1) \<leftarrow> build_blood_group_table (empty_heap n);
      (rt, h2) \<leftarrow> build_rh_factor_table h1;
      args \<leftarrow> process_each_input_line input_args (''O'' @ fr @ '' '' @ m @ mr @ '' ?'');
      child_blood_group_print args bt rt h2
    } = None"
proof -
  obtain bt rt h1 h2 where b: "build_blood_group_table (empty_heap n) = Some (bt, h1)"
      "build_rh_factor_table h1 = Some (rt, h2)" "table_ok (brk h2) h2 bt bg_spec"
    by (rule tables_built [OF assms(1)])
  have "\<exists>a1 a2. process_each_input_line input_args (''O'' @ fr @ '' '' @ m @ mr @ '' ?'') =
      Some [\<lparr>blood_group = '''', rh_factor = fr, output_req = 0\<rparr>, a1, a2]"
    using assms(2-4)
    by (auto simp: process_each_input_line_def line_switch_def upd_arg_def input_args_def
        numeral_3_eq_3 c0_def aget_def aset_def)
  moreover have "find_name BLOOD_GROUP_TABLE_LEN bt '''' 0 = Some (length bg_spec)"
    using find_name_spec [OF b(3), of 0 "''''"] by (simp add: bg_spec_facts(1) [symmetric]) (simp add: bg_spec_def)
  moreover have "length bt = length bg_spec"
    using b(3) by (auto simp: table_ok_def list_all2_lengthD)
  ultimately show ?thesis
    using b(1,2) by (auto simp: child_blood_group_print_def get_blood_group_from_table_def aget_def)
qed

theorem group_O_undefined_witness:
  "do {
      (bt, h1) \<leftarrow> build_blood_group_table (empty_heap 1000);
      (rt, h2) \<leftarrow> build_rh_factor_table h1;
      args \<leftarrow> process_each_input_line input_args ''O+ A- ?'';
      child_blood_group_print args bt rt h2
    } = None"
  using group_O_undefined [of 1000 "''A''" "''+''" "''-''"] by simp

end
