(* ===== verification/Sock_Conv.thy ===== *)
theory Sock_Conv
  imports Prelude
begin

text \<open>
  The data path of \<^verbatim>\<open>tcpipi/sock\<close>: the newline conversions of \<^verbatim>\<open>crlf.c\<close>, the full write of
  \<^verbatim>\<open>writen.c\<close>, the fill pattern of \<^verbatim>\<open>sourcesink.c\<close>.  A run that ends the program through
  \<^verbatim>\<open>err_sys\<close>, \<^verbatim>\<open>err_quit\<close> or \<^verbatim>\<open>usage\<close> is an \<open>Inl\<close> value with the reason, and so are undefined
  behaviour and a system call that does not return.
  Buffers are lists of characters with checked indices; \<^verbatim>\<open>int\<close> lengths are integers.
\<close>

datatype fault = Err_sys string | Err_quit string | Usage string | Undefined | Blocked

type_synonym 'a run = "fault + 'a"

definition bindr :: "'a run \<Rightarrow> ('a \<Rightarrow> 'b run) \<Rightarrow> 'b run" where
  "bindr x f = (case x of Inl e \<Rightarrow> Inl e | Inr a \<Rightarrow> f a)"

definition of_opt :: "'a option \<Rightarrow> 'a run" where
  "of_opt x = (case x of None \<Rightarrow> Inl Undefined | Some a \<Rightarrow> Inr a)"

lemma bindr_simps [simp]: "bindr (Inr a) f = f a" "bindr (Inl e) f = Inl e"
  by (simp_all add: bindr_def)

lemma of_opt_simps [simp]: "of_opt (Some a) = Inr a" "of_opt None = Inl Undefined"
  by (simp_all add: of_opt_def)

lemma bindr_eq_Inr: "bindr x f = Inr b \<longleftrightarrow> (\<exists>a. x = Inr a \<and> f a = Inr b)"
  by (cases x) auto

abbreviation LF :: char where "LF \<equiv> CHR 0x0A"
abbreviation CR :: char where "CR \<equiv> CHR 0x0D"

section \<open>Newline conversion\<close>

text \<open>
  The loops over \<open>lenin\<close> characters, with \<open>s\<close> and \<open>d\<close> the offsets of \<^verbatim>\<open>src\<close> and \<^verbatim>\<open>dst\<close> and \<open>lenout\<close> the
  running length.
\<close>

primrec crlf_add_loop ::
    "nat \<Rightarrow> int \<Rightarrow> string \<Rightarrow> int \<Rightarrow> string \<Rightarrow> int \<Rightarrow> int \<Rightarrow> (int \<times> string) run" where
  "crlf_add_loop 0 dstsize src s dst d lenout = Inr (lenout, dst)"
| "crlf_add_loop (Suc n) dstsize src s dst d lenout =
     bindr (of_opt (aget src s)) (\<lambda>c.
       if c = LF then
         (if lenout + 1 \<ge> dstsize then Inl (Err_quit ''crlf_add: destination not big enough'')
          else bindr (of_opt (aset dst d CR)) (\<lambda>dst.
               bindr (of_opt (aset dst (d + 1) c)) (\<lambda>dst.
               crlf_add_loop n dstsize src (s + 1) dst (d + 2) (lenout + 1))))
       else bindr (of_opt (aset dst d c)) (\<lambda>dst.
            crlf_add_loop n dstsize src (s + 1) dst (d + 1) lenout))"

definition crlf_add :: "string \<Rightarrow> int \<Rightarrow> string \<Rightarrow> int \<Rightarrow> (int \<times> string) run" where
  "crlf_add dst dstsize src lenin =
     (if lenin > dstsize then Inl (Err_quit ''crlf_add: destination not big enough'')
      else crlf_add_loop (nat lenin) dstsize src 0 dst 0 lenin)"

primrec crlf_strip_loop ::
    "nat \<Rightarrow> int \<Rightarrow> string \<Rightarrow> int \<Rightarrow> string \<Rightarrow> int \<Rightarrow> int \<Rightarrow> (int \<times> string) run" where
  "crlf_strip_loop 0 dstsize src s dst d lenout = Inr (lenout, dst)"
| "crlf_strip_loop (Suc n) dstsize src s dst d lenout =
     bindr (of_opt (aget src s)) (\<lambda>c.
       if c \<noteq> CR then
         (if lenout + 1 \<ge> dstsize then Inl (Err_quit ''crlf_strip: destination not big enough'')
          else bindr (of_opt (aset dst d c)) (\<lambda>dst.
               crlf_strip_loop n dstsize src (s + 1) dst (d + 1) (lenout + 1)))
       else crlf_strip_loop n dstsize src (s + 1) dst d lenout)"

definition crlf_strip :: "string \<Rightarrow> int \<Rightarrow> string \<Rightarrow> int \<Rightarrow> (int \<times> string) run" where
  "crlf_strip dst dstsize src lenin = crlf_strip_loop (nat lenin) dstsize src 0 dst 0 0"

lemma aset_length: "aset xs i v = Some ys \<Longrightarrow> length ys = length xs"
  by (auto simp: aset_def split: if_splits)

lemma of_opt_Inr [simp]: "of_opt x = Inr a \<longleftrightarrow> x = Some a"
  by (cases x) auto

lemma crlf_add_loop_length:
  "crlf_add_loop n dstsize src s dst d lenout = Inr (m, dst') \<Longrightarrow> length dst' = length dst"
  by (induction n arbitrary: s dst d lenout) (auto simp: bindr_eq_Inr dest!: aset_length split: if_splits)

lemma crlf_strip_loop_length:
  "crlf_strip_loop n dstsize src s dst d lenout = Inr (m, dst') \<Longrightarrow> length dst' = length dst"
  by (induction n arbitrary: s dst d lenout) (auto simp: bindr_eq_Inr dest!: aset_length split: if_splits)

lemma crlf_length:
  "crlf_add dst n src lenin = Inr (m, dst') \<Longrightarrow> length dst' = length dst"
  "crlf_strip dst n src lenin = Inr (m, dst') \<Longrightarrow> length dst' = length dst"
  by (auto simp: crlf_add_def crlf_strip_def crlf_add_loop_length crlf_strip_loop_length split: if_splits)

text \<open>What they are meant to compute.\<close>

definition with_cr :: "string \<Rightarrow> string" where
  "with_cr s = concat (map (\<lambda>c. if c = LF then [CR, LF] else [c]) s)"

definition without_cr :: "string \<Rightarrow> string" where
  "without_cr s = filter (\<lambda>c. c \<noteq> CR) s"

lemma with_cr_simps [simp]: "with_cr [] = []" "with_cr (c # s) = (if c = LF then [CR, LF] else [c]) @ with_cr s"
  by (simp_all add: with_cr_def)

lemma length_with_cr: "length (with_cr s) = length s + count_list s LF"
  by (induction s) auto

lemma without_with_cr: "CR \<notin> set s \<Longrightarrow> without_cr (with_cr s) = s"
  by (induction s) (auto simp: without_cr_def)

text \<open>\<open>overlay d xs dst\<close>: \<open>dst\<close> with \<open>xs\<close> written from offset \<open>d\<close> on.\<close>

definition overlay :: "nat \<Rightarrow> 'a list \<Rightarrow> 'a list \<Rightarrow> 'a list" where
  "overlay d xs dst = take d dst @ xs @ drop (d + length xs) dst"

lemma overlay_Nil [simp]: "overlay d [] dst = dst"
  by (simp add: overlay_def)

lemma overlay_Cons:
  assumes "d < length dst"
  shows "overlay (Suc d) xs (dst[d := x]) = overlay d (x # xs) dst"
  using assms by (simp add: overlay_def take_Suc_conv_app_nth)

lemma crlf_add_loop_run:
  assumes "d + length (with_cr (drop s src)) \<le> length dst" and "int (length dst) = dstsize"
    and "s \<le> length src" and "n = length src - s"
    and "lenout = int (d + n)"
    and "LF \<in> set (drop s src) \<longrightarrow> d + length (with_cr (drop s src)) < length dst"
  shows "crlf_add_loop n dstsize src (int s) dst (int d) lenout =
     Inr (int (d + length (with_cr (drop s src))), overlay d (with_cr (drop s src)) dst)"
  using assms
proof (induction n arbitrary: s dst d lenout)
  case (Suc n)
  then have s: "s < length src" and ds: "drop s src = src ! s # drop (Suc s) src"
    by (auto simp: Cons_nth_drop_Suc)
  show ?case
  proof (cases "src ! s = LF")
    case True
    let ?dst = "dst[d := CR, Suc d := LF]"
    have len: "d + 2 + length (with_cr (drop (Suc s) src)) < length dst"
      using Suc.prems(6) ds True by simp
    have "crlf_add_loop n dstsize src (int (Suc s)) ?dst (int (d + 2)) (lenout + 1) =
        Inr (int (d + 2 + length (with_cr (drop (Suc s) src))), overlay (d + 2) (with_cr (drop (Suc s) src)) ?dst)"
      using Suc.prems len by (intro Suc.IH) auto
    moreover have "overlay (d + 2) (with_cr (drop (Suc s) src)) ?dst = overlay d (with_cr (drop s src)) dst"
      using len ds True overlay_Cons [of "Suc d" "dst[d := CR]" _ LF] overlay_Cons [of d dst _ CR] by simp
    moreover have "lenout + 1 < dstsize"
      using Suc.prems(2,4,5) len s length_with_cr [of "drop (Suc s) src"] by simp
    ultimately show ?thesis
      using s True len ds by (simp add: aget_def aset_def algebra_simps nat_add_distrib)
  next
    case False
    let ?dst = "dst[d := src ! s]"
    have len: "d + 1 + length (with_cr (drop (Suc s) src)) \<le> length dst"
      using Suc.prems(1) ds False by simp
    have "crlf_add_loop n dstsize src (int (Suc s)) ?dst (int (Suc d)) lenout =
        Inr (int (Suc d + length (with_cr (drop (Suc s) src))), overlay (Suc d) (with_cr (drop (Suc s) src)) ?dst)"
      using Suc.prems len ds False by (intro Suc.IH) auto
    moreover have "overlay (Suc d) (with_cr (drop (Suc s) src)) ?dst = overlay d (with_cr (drop s src)) dst"
      using len ds False overlay_Cons [of d dst _ "src ! s"] by simp
    ultimately show ?thesis
      using s False len ds by (simp add: aget_def aset_def algebra_simps)
  qed
qed simp

lemma crlf_add_loop_quit:
  assumes "dstsize \<le> int (d + length (with_cr (drop s src)))" and "int (length dst) = dstsize"
    and "s \<le> length src" and "n = length src - s" and "lenout = int (d + n)" and "lenout \<le> dstsize"
    and "LF \<in> set (drop s src)"
  shows "crlf_add_loop n dstsize src (int s) dst (int d) lenout =
     Inl (Err_quit ''crlf_add: destination not big enough'')"
  using assms
proof (induction n arbitrary: s dst d lenout)
  case (Suc n)
  then have s: "s < length src" and ds: "drop s src = src ! s # drop (Suc s) src"
    by (auto simp: Cons_nth_drop_Suc)
  have room: "d + Suc n \<le> length dst"
    using Suc.prems(2,5,6) by simp
  show ?case
  proof (cases "src ! s = LF")
    case True
    show ?thesis
    proof (cases "lenout + 1 \<ge> dstsize")
      case small: False
      let ?dst = "dst[d := CR, Suc d := LF]"
      have "LF \<in> set (drop (Suc s) src)"
      proof (rule ccontr)
        assume "LF \<notin> set (drop (Suc s) src)"
        then have "length (with_cr (drop (Suc s) src)) = n"
          using Suc.prems(3,4) by (simp add: length_with_cr)
        then show False
          using Suc.prems(1,5) small ds True by simp
      qed
      then have "crlf_add_loop n dstsize src (int (Suc s)) ?dst (int (d + 2)) (lenout + 1) =
          Inl (Err_quit ''crlf_add: destination not big enough'')"
        using Suc.prems small ds True by (intro Suc.IH) auto
      then show ?thesis
        using s True small room Suc.prems(2,5) by (simp add: aget_def aset_def algebra_simps nat_add_distrib)
    qed (use s True in \<open>simp add: aget_def\<close>)
  next
    case False
    have "crlf_add_loop n dstsize src (int (Suc s)) (dst[d := src ! s]) (int (Suc d)) lenout =
        Inl (Err_quit ''crlf_add: destination not big enough'')"
      using Suc.prems ds False by (intro Suc.IH) auto
    then show ?thesis
      using s False room by (simp add: aget_def aset_def algebra_simps)
  qed
qed simp

lemma crlf_strip_loop_run:
  assumes "int (length dst) = dstsize" and "s \<le> length src" and "n = length src - s"
  shows "crlf_strip_loop n dstsize src (int s) dst (int d) (int d) =
     (if without_cr (drop s src) = [] \<or> d + length (without_cr (drop s src)) < length dst
      then Inr (int (d + length (without_cr (drop s src))), overlay d (without_cr (drop s src)) dst)
      else Inl (Err_quit ''crlf_strip: destination not big enough''))"
  using assms
proof (induction n arbitrary: s dst d)
  case (Suc n)
  then have s: "s < length src" and ds: "drop s src = src ! s # drop (Suc s) src"
    by (auto simp: Cons_nth_drop_Suc)
  note IH = Suc.IH [OF _ _ , of _ "Suc s"]
  show ?case
  proof (cases "src ! s = CR")
    case True
    then have "without_cr (drop s src) = without_cr (drop (Suc s) src)"
      using ds by (simp add: without_cr_def)
    moreover have "crlf_strip_loop (Suc n) dstsize src (int s) dst (int d) (int d) =
        crlf_strip_loop n dstsize src (int (Suc s)) dst (int d) (int d)"
      using s True by (simp add: aget_def algebra_simps)
    moreover have "Suc s \<le> length src" "n = length src - Suc s"
      using s Suc.prems(3) by auto
    ultimately show ?thesis
      using IH [of dst d] Suc.prems(1) by simp
  next
    case False
    then have w: "without_cr (drop s src) = src ! s # without_cr (drop (Suc s) src)"
      using ds by (simp add: without_cr_def)
    show ?thesis
    proof (cases "Suc d < length dst")
      case True
      then have "crlf_strip_loop (Suc n) dstsize src (int s) dst (int d) (int d) =
          crlf_strip_loop n dstsize src (int (Suc s)) (dst[d := src ! s]) (int (Suc d)) (int (Suc d))"
        using s False Suc.prems(1) by (simp add: aget_def aset_def algebra_simps)
      moreover have "Suc s \<le> length src" "n = length src - Suc s"
        using s Suc.prems(3) by auto
      then have "crlf_strip_loop n dstsize src (int (Suc s)) (dst[d := src ! s]) (int (Suc d)) (int (Suc d)) =
          (if without_cr (drop (Suc s) src) = [] \<or> Suc d + length (without_cr (drop (Suc s) src)) < length dst
           then Inr (int (Suc d + length (without_cr (drop (Suc s) src))),
             overlay d (src ! s # without_cr (drop (Suc s) src)) dst)
           else Inl (Err_quit ''crlf_strip: destination not big enough''))"
        using IH [of "dst[d := src ! s]" "Suc d"] Suc.prems(1) True
          overlay_Cons [of d dst "without_cr (drop (Suc s) src)" "src ! s"] by simp
      ultimately show ?thesis
        using True w by (simp only:) auto
    next
      case small: False
      then show ?thesis
        using s False w Suc.prems(1) by (simp add: aget_def)
    qed
  qed
qed (auto simp: without_cr_def)

lemma crlf_add_eq:
  "crlf_add dst (int (length dst)) src (int (length src)) =
     (if length src \<le> length dst \<and> (LF \<in> set src \<longrightarrow> length (with_cr src) < length dst)
      then Inr (int (length (with_cr src)), with_cr src @ drop (length (with_cr src)) dst)
      else Inl (Err_quit ''crlf_add: destination not big enough''))"
proof -
  have eq: "LF \<notin> set src \<Longrightarrow> length (with_cr src) = length src"
    by (simp add: length_with_cr)
  consider "length dst < length src"
    | "length src \<le> length dst" "LF \<in> set src \<longrightarrow> length (with_cr src) < length dst"
    | "length src \<le> length dst" "LF \<in> set src" "length dst \<le> length (with_cr src)"
    by linarith
  then show ?thesis
  proof cases
    case 2
    then have "length (with_cr src) \<le> length dst"
      using eq by (cases "LF \<in> set src") auto
    then show ?thesis
      using 2 crlf_add_loop_run [of 0 0 src dst "int (length dst)" "length src" "int (length src)"]
      by (simp add: crlf_add_def overlay_def)
  next
    case 3
    then show ?thesis
      using crlf_add_loop_quit [of "int (length dst)" 0 0 src dst "length src" "int (length src)"]
      by (simp add: crlf_add_def)
  qed (simp add: crlf_add_def)
qed

lemma crlf_strip_eq:
  "crlf_strip dst (int (length dst)) src (int (length src)) =
     (if without_cr src = [] \<or> length (without_cr src) < length dst
      then Inr (int (length (without_cr src)), without_cr src @ drop (length (without_cr src)) dst)
      else Inl (Err_quit ''crlf_strip: destination not big enough''))"
  using crlf_strip_loop_run [of dst "int (length dst)" 0 src "length src" 0]
  by (simp add: crlf_strip_def overlay_def)

text \<open>C26. Converting newlines for the network never touches memory outside the destination: with the
  true size of the buffer the routine either stores the converted text at its start, leaves the
  rest of the buffer as it was and returns the converted length, or refuses because the text is
  longer than the buffer or, having newlines, does not leave a byte of the buffer unused.\<close>

theorem crlf_add_correct:
  "crlf_add dst (int (length dst)) src (int (length src)) =
     (if length src \<le> length dst \<and> (LF \<in> set src \<longrightarrow> length (with_cr src) < length dst)
      then Inr (int (length (with_cr src)), with_cr src @ drop (length (with_cr src)) dst)
      else Inl (Err_quit ''crlf_add: destination not big enough''))"
  by (rule crlf_add_eq)

theorem crlf_add_correct_witness:
  "crlf_add ''....'' 4 [CHR ''a'', LF] 2 = Inr (3, [CHR ''a'', CR, LF, CHR ''.''])"
  using crlf_add_correct [of "''....''" "[CHR ''a'', LF]"] by simp

text \<open>Removing carriage returns never touches memory outside the destination: with the true size of
  the buffer the routine stores exactly the other characters at its start and returns their
  number, or refuses when they do not leave a byte of the buffer unused.\<close>

theorem crlf_strip_correct:
  "crlf_strip dst (int (length dst)) src (int (length src)) =
     (if without_cr src = [] \<or> length (without_cr src) < length dst
      then Inr (int (length (without_cr src)), without_cr src @ drop (length (without_cr src)) dst)
      else Inl (Err_quit ''crlf_strip: destination not big enough''))"
  by (rule crlf_strip_eq)

text \<open>Text without carriage returns survives the conversion for the network and back, when both
  buffers have a byte to spare.\<close>

theorem crlf_round_trip:
  assumes "CR \<notin> set src" and "length (with_cr src) < length dst" and "length src < length dst2"
  shows "\<exists>dst' dst2'. crlf_add dst (int (length dst)) src (int (length src)) =
           Inr (int (length (with_cr src)), dst') \<and>
         crlf_strip dst2 (int (length dst2)) (take (length (with_cr src)) dst') (int (length (with_cr src))) =
           Inr (int (length src), dst2') \<and> take (length src) dst2' = src"
proof -
  have "length src \<le> length dst"
    using assms(2) by (simp add: length_with_cr)
  then have add: "crlf_add dst (int (length dst)) src (int (length src)) =
      Inr (int (length (with_cr src)), with_cr src @ drop (length (with_cr src)) dst)"
    using crlf_add_eq [of dst src] assms(2) by simp
  have "crlf_strip dst2 (int (length dst2)) (with_cr src) (int (length (with_cr src))) =
      Inr (int (length src), src @ drop (length src) dst2)"
    using crlf_strip_eq [of dst2 "with_cr src"] assms(3) without_with_cr [OF assms(1)] by simp
  then show ?thesis
    using add by simp
qed

theorem crlf_round_trip_witness:
  "\<exists>dst' dst2'. crlf_add (replicate 8 CR) 8 [CHR ''a'', LF, CHR ''b''] 3 = Inr (4, dst') \<and>
     crlf_strip (replicate 4 LF) 4 (take 4 dst') 4 = Inr (3, dst2') \<and> take 3 dst2' = [CHR ''a'', LF, CHR ''b'']"
  using crlf_round_trip [of "[CHR ''a'', LF, CHR ''b'']" "replicate 8 CR" "replicate 4 LF"]
  by (simp add: numeral_eq_Suc)

section \<open>Writing all of a buffer\<close>

text \<open>
  \<^verbatim>\<open>writen\<close> against a kernel whose \<^verbatim>\<open>write\<close> gives the results of a list, one per call; \<open>None\<close> when the
  routine would call it once more.  \<^verbatim>\<open>nwritten\<close> and \<^verbatim>\<open>nleft\<close> are of type \<^verbatim>\<open>size_t\<close>, modelled at 64
  bits; the pointer is the offset into the buffer.  The log has the offset and length of each call.
\<close>

fun writen_loop :: "int list \<Rightarrow> u64 \<Rightarrow> u64 \<Rightarrow> u64 \<Rightarrow> (u64 \<times> u64) list \<Rightarrow> (int \<times> (u64 \<times> u64) list) option" where
  "writen_loop rs n nleft off calls =
     (if nleft = 0 then Some (sint n, calls)
      else case rs of [] \<Rightarrow> None
        | r # rs' \<Rightarrow>
            (let nwritten = word_of_int r :: u64; calls' = calls @ [(off, nleft)]
             in if nwritten \<le> 0 then Some (sint nwritten, calls')
                else writen_loop rs' n (nleft - nwritten) (off + nwritten) calls'))"

definition writen :: "int list \<Rightarrow> u64 \<Rightarrow> (int \<times> (u64 \<times> u64) list) option" where
  "writen rs n = writen_loop rs n n 0 []"

declare writen_loop.simps [simp del]

text \<open>A kernel that accepts between one byte and all of what it is given.\<close>

primrec accepted :: "int list \<Rightarrow> int \<Rightarrow> bool" where
  "accepted [] left \<longleftrightarrow> left = 0"
| "accepted (r # rs) left \<longleftrightarrow> 0 < r \<and> r \<le> left \<and> accepted rs (left - r)"

text \<open>The bytes of the buffer it took, from the calls and its results.\<close>

definition taken :: "'a list \<Rightarrow> (u64 \<times> u64) list \<Rightarrow> int list \<Rightarrow> 'a list" where
  "taken buf calls rs = concat (map2 (\<lambda>c r. take (nat r) (drop (unat (fst c)) buf)) calls rs)"

lemma writen_loop_accepted:
  assumes "accepted rs (uint nleft)" and "int (length buf) = uint off + uint nleft" and "length buf < 2 ^ 64"
  shows "\<exists>calls'. writen_loop rs n nleft off calls = Some (sint n, calls @ calls') \<and>
     taken buf calls' rs = drop (unat off) buf"
  using assms
proof (induction rs arbitrary: nleft off calls)
  case Nil
  then have "nleft = 0"
    by (simp add: uint_0_iff)
  moreover have "int (length buf) = int (unat off)"
    using Nil.prems(2) unfolding \<open>nleft = 0\<close> uint_nat by (simp only: unat_0 of_nat_0 add_0_right)
  then have "length buf = unat off"
    by (simp only: of_nat_eq_iff)
  ultimately show ?case
    by (simp add: writen_loop.simps taken_def)
next
  case (Cons r rs)
  let ?r = "word_of_int r :: u64"
  have r: "0 < r" "r \<le> uint nleft"
    using Cons.prems(1) by auto
  moreover have "uint nleft < 2 ^ 64"
    using uint_lt2p [of nleft] by simp
  ultimately have ur: "uint ?r = r"
    by (intro word_of_int_inverse) (auto simp: word_of_int_inverse)
  have nz: "nleft \<noteq> 0" "\<not> ?r \<le> 0"
    using r ur by auto
  have left: "uint (nleft - ?r) = uint nleft - r"
    using ur r uint_sub_lem [of ?r nleft] by simp
  have "uint off + uint nleft < 2 ^ 64"
    using Cons.prems(2,3) by (simp flip: of_nat_less_iff [where ?'a = int])
  then have off: "uint (off + ?r) = uint off + r"
    using ur r uint_add_lem [of off ?r] by simp
  have "accepted rs (uint (nleft - ?r))" "int (length buf) = uint (off + ?r) + uint (nleft - ?r)"
    using Cons.prems left off by auto
  then obtain calls' where c: "writen_loop rs n (nleft - ?r) (off + ?r) (calls @ [(off, nleft)]) =
        Some (sint n, (calls @ [(off, nleft)]) @ calls')" "taken buf calls' rs = drop (unat (off + ?r)) buf"
    using Cons.IH [of "nleft - ?r" "off + ?r"] Cons.prems(3) by blast
  have "unat (off + ?r) = unat off + nat r"
    unfolding unat_eq_nat_uint off using r by (intro nat_add_distrib) auto
  then have "taken buf ((off, nleft) # calls') (r # rs) = drop (unat off) buf"
    using c(2) by (simp add: taken_def) (metis append_take_drop_id drop_drop add.commute)
  moreover have "writen_loop (r # rs) n nleft off calls = Some (sint n, calls @ (off, nleft) # calls')"
    using nz c(1) by (subst writen_loop.simps) (simp add: Let_def)
  ultimately show ?case
    by blast
qed

lemma unat_of_nat_small: "n < 2 ^ 64 \<Longrightarrow> unat (of_nat n :: u64) = n"
  by (simp add: unat_of_nat take_bit_nat_eq_self)

lemma writen_run:
  assumes "length buf < 2 ^ 63" and "accepted rs (int (length buf))"
  shows "\<exists>calls. writen rs (of_nat (length buf)) = Some (int (length buf), calls) \<and> taken buf calls rs = buf"
proof -
  let ?n = "of_nat (length buf) :: u64"
  have "unat ?n = length buf"
    by (rule unat_of_nat_small) (use assms(1) in simp)
  then have u: "uint ?n = int (length buf)"
    by (simp add: uint_nat)
  have "- (2 ^ 63) \<le> int (length buf)" "int (length buf) < 2 ^ 63"
    using assms(1) by auto
  then have s: "sint ?n = int (length buf)"
    unfolding sint_uint u by (intro signed_take_bit_int_eq_self) auto
  have "accepted rs (uint ?n)" "int (length buf) = uint (0 :: u64) + uint ?n" "length buf < 2 ^ 64"
    using u assms by simp_all
  from writen_loop_accepted [OF this, of ?n "[]"] show ?thesis
    unfolding writen_def s by simp
qed

text \<open>C27. When the kernel accepts at least one byte of each call, however few, \<^verbatim>\<open>writen\<close> ends, hands over
  every byte of the buffer exactly once and in order, and returns the length.\<close>

theorem writen_writes_all:
  assumes "length buf < 2 ^ 63" and "accepted rs (int (length buf))"
  shows "\<exists>calls. writen rs (of_nat (length buf)) = Some (int (length buf), calls) \<and> taken buf calls rs = buf"
  by (rule writen_run [OF assms])

theorem writen_writes_all_witness:
  "\<exists>calls. writen [2, 1, 2] 5 = Some (5, calls) \<and> taken ''hello'' calls [2, 1, 2] = ''hello''"
  using writen_writes_all [of "''hello''" "[2, 1, 2]"] by simp

text \<open>\<^verbatim>\<open>nwritten\<close> is unsigned, so the error return -1 of \<^verbatim>\<open>write\<close> is not recognised: \<^verbatim>\<open>writen\<close> then tries
  one byte more from one byte before, and as long as the error persists it neither returns nor
  reports it.
\<close>

theorem writen_ignores_errors:
  assumes "0 < n" and "uint n + int k < 2 ^ 64"
  shows "writen (replicate k (-1)) n = None \<and>
     writen_loop (-1 # rs) n n 0 [] = writen_loop rs n (n + 1) (-1) [(0, n)]"
proof (rule conjI)
  have "writen_loop (replicate k (-1)) n nleft off calls = None"
    if "0 < nleft" "uint nleft + int k < 2 ^ 64" for nleft off calls
    using that
  proof (induction k arbitrary: nleft off calls)
    case 0
    then show ?case
      by (auto simp: writen_loop.simps)
  next
    case (Suc k)
    have "uint (nleft + 1) = uint nleft + 1"
      using Suc.prems(2) uint_add_lem [of nleft 1] by simp
    then have "writen_loop (replicate k (-1)) n (nleft + 1) (off - 1) (calls @ [(off, nleft)]) = None"
      using Suc.prems by (intro Suc.IH) (auto simp: word_less_def)
    then show ?case
      using Suc.prems(1) by (subst writen_loop.simps) (auto simp: Let_def)
  qed
  then show "writen (replicate k (-1)) n = None"
    using assms by (simp add: writen_def)
  show "writen_loop (-1 # rs) n n 0 [] = writen_loop rs n (n + 1) (-1) [(0, n)]"
    using assms(1) by (subst writen_loop.simps) (auto simp: Let_def)
qed

theorem writen_ignores_errors_witness:
  "writen (replicate 1000 (-1)) 5 = None"
  using writen_ignores_errors [of 5 1000 "[]"] by simp

section \<open>The fill pattern\<close>

text \<open>\<^verbatim>\<open>isprint\<close> of the C locale, and the loop of \<^verbatim>\<open>pattern\<close>, over the bits of the \<^verbatim>\<open>char\<close> counter.\<close>

unbundle bit_operations_syntax

definition isprint :: "u8 \<Rightarrow> bool" where
  "isprint b \<longleftrightarrow> 0x20 \<le> b \<and> b \<le> 0x7E"

lemma low7: "unat (c AND 0x7F :: u8) = unat c mod 128"
proof -
  have "(0x7F :: u8) = mask 7"
    by (simp add: mask_eq_exp_minus_1)
  then show ?thesis
    by (simp only: unsigned_take_bit_eq flip: take_bit_eq_mask) (simp add: take_bit_eq_mod)
qed

lemma low7_Suc: "unat ((c + 1) AND 0x7F :: u8) = Suc (unat (c AND 0x7F)) mod 128"
proof -
  have "unat (c + 1) mod 128 = Suc (unat c) mod 128"
    by (simp add: unat_word_ariths mod_mod_cancel)
  then show ?thesis
    by (simp add: low7 mod_Suc_eq)
qed

lemma isprint_low7: "isprint (c AND 0x7F) \<longleftrightarrow> 32 \<le> unat (c AND 0x7F) \<and> unat (c AND 0x7F) \<le> 126"
  by (simp add: isprint_def word_le_nat_alt)

function skip_nonprint :: "u8 \<Rightarrow> u8" where
  "skip_nonprint c = (if isprint (c AND 0x7F) then c else skip_nonprint (c + 1))"
  by auto
termination
proof (relation "measure (\<lambda>c. if unat (c AND 0x7F :: u8) < 32 then 32 - unat (c AND 0x7F) else
      if unat (c AND 0x7F) = 127 then 33 else 0)")
  fix c :: u8
  assume "\<not> isprint (c AND 0x7F)"
  moreover have "unat (c AND 0x7F) < 128"
    by (simp add: low7)
  ultimately have "unat (c AND 0x7F) < 32 \<or> unat (c AND 0x7F) = 127"
    by (auto simp: isprint_low7)
  then show "(c + 1, c) \<in> measure (\<lambda>c. if unat (c AND 0x7F :: u8) < 32 then 32 - unat (c AND 0x7F) else
      if unat (c AND 0x7F) = 127 then 33 else 0)"
    by (auto simp: low7_Suc)
qed simp

declare skip_nonprint.simps [simp del]

primrec pattern_loop :: "nat \<Rightarrow> u8 \<Rightarrow> string \<Rightarrow> int \<Rightarrow> string option" where
  "pattern_loop 0 c buf i = Some buf"
| "pattern_loop (Suc n) c buf i =
     (let c' = skip_nonprint c in do {
        buf' \<leftarrow> aset buf i (char_of (unat (c' AND 0x7F)));
        pattern_loop n (c' + 1) buf' (i + 1)
      })"

definition pattern :: "string \<Rightarrow> int \<Rightarrow> string option" where
  "pattern ptr len = pattern_loop (nat len) 0 ptr 0"

text \<open>The printable characters in order, over and over.\<close>

definition printable :: "nat \<Rightarrow> char" where
  "printable i = char_of (32 + i mod 95)"

text \<open>The counter before the character number \<open>i\<close>: already on it, or on one of those to be skipped.\<close>

lemma skip_nonprint_next:
  assumes "unat (c AND 0x7F) = 32 + k \<or> (k = 0 \<and> (unat (c AND 0x7F) < 32 \<or> unat (c AND 0x7F) = 127))"
    and "k < 95"
  shows "unat (skip_nonprint c AND 0x7F) = 32 + k"
  using assms
proof (induction c rule: skip_nonprint.induct)
  case (1 c)
  show ?case
  proof (cases "isprint (c AND 0x7F)")
    case True
    then show ?thesis
      using 1(2,3) by (subst skip_nonprint.simps) (auto simp: isprint_low7)
  next
    case False
    then have "k = 0" "unat (c AND 0x7F) < 32 \<or> unat (c AND 0x7F) = 127"
      using 1(2,3) by (auto simp: isprint_low7)
    then have "unat ((c + 1) AND 0x7F) = 32 + k \<or> k = 0 \<and> unat ((c + 1) AND 0x7F) < 32"
      by (auto simp: low7_Suc)
    then show ?thesis
      using 1(1) [OF False] 1(3) False by (subst skip_nonprint.simps) auto
  qed
qed

lemma pattern_loop_run:
  assumes "unat (c AND 0x7F) = 32 + i mod 95 \<or>
      (i mod 95 = 0 \<and> (unat (c AND 0x7F) < 32 \<or> unat (c AND 0x7F) = 127))"
    and "i + n \<le> length buf"
  shows "pattern_loop n c buf (int i) = Some (take i buf @ map printable [i..<i + n] @ drop (i + n) buf)"
  using assms
proof (induction n arbitrary: c i buf)
  case (Suc n)
  let ?c = "skip_nonprint c"
  have c: "unat (?c AND 0x7F) = 32 + i mod 95"
    by (rule skip_nonprint_next) (use Suc.prems(1) in auto)
  have p: "(char_of (unat (?c AND 0x7F)) :: char) = printable i"
    using c by (simp add: printable_def)
  have "unat ((?c + 1) AND 0x7F) = 32 + Suc i mod 95 \<or>
      (Suc i mod 95 = 0 \<and> (unat ((?c + 1) AND 0x7F) < 32 \<or> unat ((?c + 1) AND 0x7F) = 127))"
    using c by (simp add: low7_Suc mod_Suc)
  then have "pattern_loop n (?c + 1) (buf[i := printable i]) (int (Suc i)) =
      Some (take (Suc i) (buf[i := printable i]) @ map printable [Suc i..<Suc i + n] @ drop (Suc i + n) (buf[i := printable i]))"
    using Suc.prems(2) by (intro Suc.IH) auto
  moreover have "take (Suc i) (buf[i := printable i]) = take i buf @ [printable i]"
    using Suc.prems(2) by (simp add: take_Suc_conv_app_nth)
  moreover have "[i..<i + Suc n] = i # [Suc i..<Suc i + n]"
    by (simp only: upt_conv_Cons) simp
  ultimately show ?case
    using Suc.prems(2) p by (simp add: Let_def aset_def algebra_simps del: upt_Suc)
qed simp

lemma pattern_run:
  assumes "0 \<le> len" and "len \<le> int (length buf)"
  shows "pattern buf len = Some (map printable [0..<nat len] @ drop (nat len) buf)"
  using pattern_loop_run [of 0 0 "nat len" buf] assms by (simp add: pattern_def nat_le_iff)

text \<open>The fill routine stays inside the buffer and ends: it stores at position \<open>i\<close> the printable
  character number \<open>i mod 95\<close>, counted from the blank, and leaves the rest of the buffer alone.\<close>

theorem pattern_fills:
  assumes "0 \<le> len" and "len \<le> int (length buf)"
  shows "\<exists>buf'. pattern buf len = Some buf' \<and> length buf' = length buf \<and>
     (\<forall>i < length buf. buf' ! i = (if int i < len then char_of (32 + i mod 95) else buf ! i))"
  using pattern_run [OF assms] assms by (auto simp: nth_append printable_def)

theorem pattern_fills_witness:
  "\<exists>buf'. pattern (replicate 3 LF) 2 = Some buf' \<and> length buf' = 3 \<and>
     (\<forall>i < 3. buf' ! i = (if int i < 2 then char_of (32 + i mod 95) else LF))"
proof -
  obtain buf' where "pattern (replicate 3 LF) 2 = Some buf'" "length buf' = 3"
      "\<forall>i < 3. buf' ! i = (if int i < 2 then char_of (32 + i mod 95) else replicate 3 LF ! i)"
    using pattern_fills [of 2 "replicate 3 LF"] by auto
  then show ?thesis
    by (intro exI [of _ buf']) (auto simp: nth_replicate)
qed

end
