(* ===== verification/C_Input.thy ===== *)
theory C_Input
  imports Prelude
begin

text \<open>
  Input of the contest programs: \<^verbatim>\<open>fgets\<close> on a stream given as the characters still to be read, and
  the conversion \<^verbatim>\<open>%d\<close> of \<^verbatim>\<open>scanf\<close> and \<^verbatim>\<open>sscanf\<close>.  Decimal notation is specified as well, so that a
  program can be described on the texts it is meant for.
\<close>

section \<open>Lines\<close>

text \<open>\<^verbatim>\<open>fgets\<close> with room for \<open>k\<close> characters: up to the first newline, which is kept.\<close>

fun fgets_line :: "nat \<Rightarrow> string \<Rightarrow> string \<times> string" where
  "fgets_line 0 cs = ([], cs)"
| "fgets_line k [] = ([], [])"
| "fgets_line (Suc k) (c # cs) =
     (if c = CHR 0x0A then ([c], cs) else (let (l, r) = fgets_line k cs in (c # l, r)))"

lemma fgets_rest: "length (snd (fgets_line k cs)) \<le> length cs"
  by (induction k cs rule: fgets_line.induct) (auto split: prod.splits)

lemma fgets_shorter: "(l, r) = fgets_line (numeral k) (c # cs) \<Longrightarrow> length r < Suc (length cs)"
  using fgets_rest [of "pred_numeral k" cs] by (auto simp: numeral_eq_Suc split: if_splits prod.splits)

lemma fgets_numeral:
  "fgets_line (numeral k) (c # cs) =
     (if c = CHR 0x0A then ([c], cs) else (let (l, r) = fgets_line (pred_numeral k) cs in (c # l, r)))"
  by (simp add: numeral_eq_Suc)

lemma fgets_whole_line:
  "CHR 0x0A \<notin> set l \<Longrightarrow> length l < k \<Longrightarrow> fgets_line k (l @ CHR 0x0A # cs) = (l @ [CHR 0x0A], cs)"
proof (induction l arbitrary: k)
  case Nil
  then show ?case by (cases k) auto
next
  case (Cons c l)
  then show ?case by (cases k) auto
qed

section \<open>Numbers\<close>

definition is_space :: "char \<Rightarrow> bool" where
  "is_space c = (c \<in> {CHR '' '', CHR 0x09, CHR 0x0A, CHR 0x0B, CHR 0x0C, CHR 0x0D})"

definition is_digit :: "char \<Rightarrow> bool" where
  "is_digit c = (of_char c \<ge> (48::nat) \<and> of_char c \<le> (57::nat))"

definition digits_value :: "string \<Rightarrow> nat" where
  "digits_value ds = foldl (\<lambda>v c. 10 * v + (of_char c - 48)) 0 ds"

definition after_sign :: "string \<Rightarrow> string" where
  "after_sign cs = (if cs \<noteq> [] \<and> hd cs \<in> {CHR ''-'', CHR ''+''} then tl cs else cs)"

text \<open>
  One conversion \<^verbatim>\<open>%d\<close>: the number, if there is one, and the characters left.  A number that \<^verbatim>\<open>int\<close>
  cannot represent is undefined behaviour.
\<close>

definition scan_int :: "string \<Rightarrow> (int option \<times> string) option" where
  "scan_int s =
     (let cs = dropWhile is_space s; rest = after_sign cs; ds = takeWhile is_digit rest;
          v = (if cs \<noteq> [] \<and> hd cs = CHR ''-'' then - int (digits_value ds) else int (digits_value ds))
      in if ds = [] then Some (None, rest)
         else if - (2 ^ 31) \<le> v \<and> v < 2 ^ 31 then Some (Some v, dropWhile is_digit rest) else None)"

section \<open>Decimal notation\<close>

definition digit :: "nat \<Rightarrow> char" where
  "digit d = char_of (48 + d)"

fun show_nat :: "nat \<Rightarrow> string" where
  "show_nat n = (if n < 10 then [digit n] else show_nat (n div 10) @ [digit (n mod 10)])"

declare show_nat.simps [simp del]

lemma of_char_digit: "d < 10 \<Longrightarrow> of_char (digit d) = (48 + d :: nat)"
  by (simp add: digit_def)

lemma is_digit_digit: "d < 10 \<Longrightarrow> is_digit (digit d)"
  by (simp add: is_digit_def of_char_digit)

lemma show_nat_digits: "\<forall>c \<in> set (show_nat n). is_digit c"
  by (induction n rule: show_nat.induct) (subst show_nat.simps, auto simp: is_digit_digit)

lemma show_nat_nonempty: "show_nat n \<noteq> []"
  by (subst show_nat.simps) simp

lemma digits_value_snoc: "digits_value (ds @ [c]) = 10 * digits_value ds + (of_char c - 48)"
  by (simp add: digits_value_def)

lemma digits_value_show: "digits_value (show_nat n) = n"
proof (induction n rule: show_nat.induct)
  case (1 n)
  show ?case
  proof (cases "n < 10")
    case True
    then show ?thesis by (subst show_nat.simps) (simp add: digits_value_def of_char_digit)
  next
    case False
    then show ?thesis using 1 by (subst show_nat.simps) (simp add: digits_value_snoc of_char_digit)
  qed
qed

lemma length_show_nat: "n < 10 ^ Suc k \<Longrightarrow> length (show_nat n) \<le> Suc k"
proof (induction k arbitrary: n)
  case (Suc k)
  have "n div 10 < 10 ^ Suc k" using Suc.prems by (simp add: div_less_iff_less_mult)
  from Suc.IH [OF this] show ?case by (subst show_nat.simps) simp
qed (simp add: show_nat.simps)

lemma digit_not_space: "is_digit c \<Longrightarrow> \<not> is_space c"
  by (auto simp: is_digit_def is_space_def)

lemma digit_not_sign: "is_digit c \<Longrightarrow> c \<notin> {CHR ''-'', CHR ''+''}"
  by (auto simp: is_digit_def)

lemma scan_int_show:
  assumes "n < 2 ^ 31" "rest = [] \<or> \<not> is_digit (hd rest)" "\<forall>c \<in> set sp. is_space c"
  shows "scan_int (sp @ show_nat n @ rest) = Some (Some (int n), rest)"
proof -
  have hd: "is_digit (hd (show_nat n))" using show_nat_digits [of n] show_nat_nonempty [of n] by (metis list.set_sel(1))
  have "dropWhile is_space (sp @ show_nat n @ rest) = show_nat n @ rest"
    using assms(3) hd show_nat_nonempty [of n] digit_not_space [OF hd]
    by (cases "show_nat n") (auto simp: dropWhile_append2)
  moreover have "after_sign (show_nat n @ rest) = show_nat n @ rest"
    using digit_not_sign [OF hd] show_nat_nonempty [of n] by (auto simp: after_sign_def)
  moreover have "takeWhile is_digit (show_nat n @ rest) = show_nat n" "dropWhile is_digit (show_nat n @ rest) = rest"
    using show_nat_digits [of n] assms(2) by (cases rest; auto simp: takeWhile_append2 dropWhile_append2)+
  moreover have "hd (show_nat n @ rest) \<noteq> CHR ''-''" using digit_not_sign [OF hd] show_nat_nonempty [of n] by simp
  ultimately show ?thesis using assms(1) show_nat_nonempty [of n] by (simp add: scan_int_def Let_def digits_value_show)
qed

lemma scan_int_blank: "\<forall>c \<in> set sp. is_space c \<Longrightarrow> scan_int sp = Some (None, [])"
proof -
  assume "\<forall>c \<in> set sp. is_space c"
  then have "dropWhile is_space sp = []" by simp
  then show ?thesis by (simp add: scan_int_def after_sign_def Let_def del: dropWhile_eq_Nil_conv)
qed

end
