(* ===== verification/Sock_Options.thy ===== *)
theory Sock_Options
  imports Sock_Conv C_Input
begin

text \<open>
  The command line of \<^verbatim>\<open>tcpipi/sock/main.c\<close>: its global variables as a record, the \<^verbatim>\<open>switch\<close> over the
  options that \<^verbatim>\<open>getopt\<close> delivers, the checks for combinations that make no sense, and the
  operands.  \<^verbatim>\<open>getopt\<close> itself belongs to the C library: its deliveries, option letters with their
  arguments and then the operands that are left, are the input of the model.
\<close>

record config =
  bindport :: int
  broadcast :: bool
  cbreak :: bool
  client :: bool
  crlf :: bool
  debug :: bool
  dofork :: bool
  foreignip :: string
  foreignport :: int
  halfclose :: bool
  keepalive :: bool
  linger :: int
  listenq :: int
  nodelay :: bool
  nbuf :: int
  pauseclose :: int
  pauseinit :: int
  pauselisten :: int
  pauserw :: int
  reuseaddr :: bool
  readlen :: int
  writelen :: int
  recvdstaddr :: bool
  rcvbuflen :: int
  sndbuflen :: int
  server :: bool
  sourcesink :: bool
  udp :: bool
  urgwrite :: int
  verbose :: bool

definition globals :: config where
  "globals = \<lparr>bindport = 0, broadcast = False, cbreak = False, client = True, crlf = False, debug = False,
     dofork = False, foreignip = '''', foreignport = 0, halfclose = False, keepalive = False,
     linger = -1, listenq = 5, nodelay = False, nbuf = 1024, pauseclose = 0, pauseinit = 0,
     pauselisten = 0, pauserw = 0, reuseaddr = False, readlen = 1024, writelen = 1024,
     recvdstaddr = False, rcvbuflen = 0, sndbuflen = 0, server = False, sourcesink = False,
     udp = False, urgwrite = 0, verbose = False\<rparr>"

section \<open>The C library's number and string routines\<close>

fun digits_val :: "int \<Rightarrow> string \<Rightarrow> int" where
  "digits_val acc [] = acc"
| "digits_val acc (c # cs) = (if is_digit c then digits_val (10 * acc + (of_char c - 48)) cs else acc)"

definition decimal :: "string \<Rightarrow> int" where
  "decimal s =
     (case dropWhile is_space s of
        [] \<Rightarrow> 0
      | c # cs \<Rightarrow> if c = CHR ''-'' then - digits_val 0 cs else if c = CHR ''+'' then digits_val 0 cs
                  else digits_val 0 (c # cs))"

text \<open>A value that the type of the result cannot hold is undefined behaviour of \<^verbatim>\<open>atoi\<close> and \<^verbatim>\<open>atol\<close>.\<close>

definition atoi :: "string \<Rightarrow> int run" where
  "atoi s = (let v = decimal s in if - (2 ^ 31) \<le> v \<and> v < 2 ^ 31 then Inr v else Inl Undefined)"

definition atol :: "string \<Rightarrow> int run" where
  "atol s = (let v = decimal s in if - (2 ^ 63) \<le> v \<and> v < 2 ^ 63 then Inr v else Inl Undefined)"

text \<open>Conversion of a \<^verbatim>\<open>long\<close> to an \<^verbatim>\<open>int\<close>.\<close>

definition to_int32 :: "int \<Rightarrow> int" where
  "to_int32 v = sint (word_of_int v :: u32)"

text \<open>Splitting at the last period, as \<^verbatim>\<open>strrchr\<close> finds it.\<close>

fun split_last :: "char \<Rightarrow> string \<Rightarrow> (string \<times> string) option" where
  "split_last d [] = None"
| "split_last d (c # cs) =
     (case split_last d cs of Some (a, b) \<Rightarrow> Some (c # a, b)
      | None \<Rightarrow> if c = d then Some ([], cs) else None)"

section \<open>Options\<close>

definition num_opt :: "string \<Rightarrow> (int \<Rightarrow> config) \<Rightarrow> config run" where
  "num_opt arg f = bindr (atoi arg) (\<lambda>v. Inr (f v))"

text \<open>The address buffer of \<^verbatim>\<open>-f\<close> has 32 bytes, and \<^verbatim>\<open>strcpy\<close> does not check.\<close>

definition foreign_opt :: "string \<Rightarrow> config \<Rightarrow> config run" where
  "foreign_opt arg g =
     (case split_last (CHR ''.'') arg of
        None \<Rightarrow> Inl (Usage ''invalid -f option'')
      | Some (ip, p) \<Rightarrow> bindr (atoi p) (\<lambda>v.
          if length ip < 32 then Inr (g\<lparr>foreignport := v, foreignip := ip\<rparr>) else Inl Undefined))"

definition option_switch :: "char \<Rightarrow> string \<Rightarrow> config \<Rightarrow> config run" where
  "option_switch c optarg g =
     (if c = CHR ''b'' then num_opt optarg (\<lambda>v. g\<lparr>bindport := v\<rparr>)
      else if c = CHR ''c'' then Inr (g\<lparr>crlf := True\<rparr>)
      else if c = CHR ''f'' then foreign_opt optarg g
      else if c = CHR ''h'' then Inr (g\<lparr>halfclose := True\<rparr>)
      else if c = CHR ''i'' then Inr (g\<lparr>sourcesink := True\<rparr>)
      else if c = CHR ''n'' then bindr (atol optarg) (\<lambda>v. Inr (g\<lparr>nbuf := to_int32 v\<rparr>))
      else if c = CHR ''p'' then num_opt optarg (\<lambda>v. g\<lparr>pauserw := v\<rparr>)
      else if c = CHR ''q'' then num_opt optarg (\<lambda>v. g\<lparr>listenq := v\<rparr>)
      else if c = CHR ''r'' then num_opt optarg (\<lambda>v. g\<lparr>readlen := v\<rparr>)
      else if c = CHR ''s'' then Inr (g\<lparr>server := True, client := False\<rparr>)
      else if c = CHR ''u'' then Inr (g\<lparr>udp := True\<rparr>)
      else if c = CHR ''v'' then Inr (g\<lparr>verbose := True\<rparr>)
      else if c = CHR ''w'' then num_opt optarg (\<lambda>v. g\<lparr>writelen := v\<rparr>)
      else if c = CHR ''A'' then Inr (g\<lparr>reuseaddr := True\<rparr>)
      else if c = CHR ''B'' then Inr (g\<lparr>broadcast := True\<rparr>)
      else if c = CHR ''C'' then Inr (g\<lparr>cbreak := True\<rparr>)
      else if c = CHR ''D'' then Inr (g\<lparr>debug := True\<rparr>)
      else if c = CHR ''E'' then Inr (g\<lparr>recvdstaddr := True\<rparr>)
      else if c = CHR ''F'' then Inr (g\<lparr>dofork := True\<rparr>)
      else if c = CHR ''K'' then Inr (g\<lparr>keepalive := True\<rparr>)
      else if c = CHR ''L'' then bindr (atol optarg) (\<lambda>v. Inr (g\<lparr>linger := v\<rparr>))
      else if c = CHR ''N'' then Inr (g\<lparr>nodelay := True\<rparr>)
      else if c = CHR ''O'' then num_opt optarg (\<lambda>v. g\<lparr>pauselisten := v\<rparr>)
      else if c = CHR ''P'' then num_opt optarg (\<lambda>v. g\<lparr>pauseinit := v\<rparr>)
      else if c = CHR ''Q'' then num_opt optarg (\<lambda>v. g\<lparr>pauseclose := v\<rparr>)
      else if c = CHR ''R'' then num_opt optarg (\<lambda>v. g\<lparr>rcvbuflen := v\<rparr>)
      else if c = CHR ''S'' then num_opt optarg (\<lambda>v. g\<lparr>sndbuflen := v\<rparr>)
      else if c = CHR ''U'' then num_opt optarg (\<lambda>v. g\<lparr>urgwrite := v\<rparr>)
      else if c = CHR ''?'' then Inl (Usage ''unrecognized option'')
      else Inr g)"

primrec option_loop :: "(char \<times> string) list \<Rightarrow> config \<Rightarrow> config run" where
  "option_loop [] g = Inr g"
| "option_loop (x # xs) g = bindr (option_switch (fst x) (snd x) g) (option_loop xs)"

definition check_options :: "config \<Rightarrow> config run" where
  "check_options g =
     (if udp g \<and> halfclose g then Inl (Usage ''can't specify -h and -u'')
      else if udp g \<and> debug g then Inl (Usage ''can't specify -D and -u'')
      else if udp g \<and> linger g \<ge> 0 then Inl (Usage ''can't specify -L and -u'')
      else if udp g \<and> nodelay g then Inl (Usage ''can't specify -N and -u'')
      else if \<not> udp g \<and> broadcast g then Inl (Usage ''can't specify -B with TCP'')
      else if \<not> udp g \<and> foreignip g \<noteq> '''' then Inl (Usage ''can't specify -f with TCP'')
      else Inr g)"

text \<open>The operands: host and port; the host may be missing for a server.\<close>

definition operands :: "config \<Rightarrow> string list \<Rightarrow> (string option \<times> string) run" where
  "operands g rest =
     (if client g then
        (case rest of [h, p] \<Rightarrow> Inr (Some h, p)
         | _ \<Rightarrow> Inl (Usage ''missing <hostname> and/or <port>''))
      else
        (case rest of [h, p] \<Rightarrow> Inr (Some h, p)
         | [p] \<Rightarrow> Inr (None, p)
         | _ \<Rightarrow> Inl (Usage ''missing <port>'')))"

definition main_options :: "int \<Rightarrow> (char \<times> string) list \<Rightarrow> string list \<Rightarrow> (config \<times> string option \<times> string) run" where
  "main_options argc opts rest =
     (if argc < 2 then Inl (Usage '''')
      else bindr (option_loop opts globals) (\<lambda>g.
           bindr (check_options g) (\<lambda>g.
           bindr (operands g rest) (\<lambda>hp. Inr (g, hp)))))"

section \<open>Properties\<close>

text \<open>What a delivery does to the fields the rest of the program branches on.\<close>

lemma num_opt_Inr: "num_opt arg f = Inr g' \<Longrightarrow> \<exists>v. atoi arg = Inr v \<and> g' = f v"
  by (auto simp: num_opt_def bindr_eq_Inr)

lemma foreign_opt_Inr:
  "foreign_opt arg g = Inr g' \<Longrightarrow> \<exists>v ip. length ip < 32 \<and> g' = g\<lparr>foreignport := v, foreignip := ip\<rparr>"
  unfolding foreign_opt_def by (auto simp: bindr_eq_Inr split: option.splits if_splits) blast

lemma option_switch_flags:
  assumes "option_switch c arg g = Inr g'"
  shows "server g' = (server g \<or> c = CHR ''s'')" and "(\<not> client g') = (\<not> client g \<or> c = CHR ''s'')"
    and "udp g' = (udp g \<or> c = CHR ''u'')" and "sourcesink g' = (sourcesink g \<or> c = CHR ''i'')"
    and "crlf g' = (crlf g \<or> c = CHR ''c'')" and "halfclose g' = (halfclose g \<or> c = CHR ''h'')"
    and "verbose g' = (verbose g \<or> c = CHR ''v'')" and "reuseaddr g' = (reuseaddr g \<or> c = CHR ''A'')"
    and "broadcast g' = (broadcast g \<or> c = CHR ''B'')" and "cbreak g' = (cbreak g \<or> c = CHR ''C'')"
    and "debug g' = (debug g \<or> c = CHR ''D'')" and "recvdstaddr g' = (recvdstaddr g \<or> c = CHR ''E'')"
    and "dofork g' = (dofork g \<or> c = CHR ''F'')" and "keepalive g' = (keepalive g \<or> c = CHR ''K'')"
    and "nodelay g' = (nodelay g \<or> c = CHR ''N'')"
  using assms unfolding option_switch_def
  by (auto dest!: num_opt_Inr foreign_opt_Inr simp: bindr_eq_Inr split: if_splits)

lemma option_switch_numbers:
  assumes "option_switch c arg g = Inr g'"
  shows "readlen g' = (if c = CHR ''r'' then decimal arg else readlen g)"
    and "writelen g' = (if c = CHR ''w'' then decimal arg else writelen g)"
    and "bindport g' = (if c = CHR ''b'' then decimal arg else bindport g)"
    and "pauserw g' = (if c = CHR ''p'' then decimal arg else pauserw g)"
    and "listenq g' = (if c = CHR ''q'' then decimal arg else listenq g)"
    and "linger g' = (if c = CHR ''L'' then decimal arg else linger g)"
    and "nbuf g' = (if c = CHR ''n'' then to_int32 (decimal arg) else nbuf g)"
    and "pauselisten g' = (if c = CHR ''O'' then decimal arg else pauselisten g)"
    and "pauseinit g' = (if c = CHR ''P'' then decimal arg else pauseinit g)"
    and "pauseclose g' = (if c = CHR ''Q'' then decimal arg else pauseclose g)"
    and "rcvbuflen g' = (if c = CHR ''R'' then decimal arg else rcvbuflen g)"
    and "sndbuflen g' = (if c = CHR ''S'' then decimal arg else sndbuflen g)"
    and "urgwrite g' = (if c = CHR ''U'' then decimal arg else urgwrite g)"
  using assms unfolding option_switch_def
  by (auto dest!: num_opt_Inr foreign_opt_Inr simp: bindr_eq_Inr atoi_def atol_def Let_def split: if_splits)

definition foreign_parts :: "string \<Rightarrow> string \<times> string" where
  "foreign_parts arg = (case split_last (CHR ''.'') arg of None \<Rightarrow> ([], []) | Some x \<Rightarrow> x)"

lemma option_switch_foreign:
  assumes "option_switch c arg g = Inr g'"
  shows "foreignip g' = (if c = CHR ''f'' then fst (foreign_parts arg) else foreignip g)"
    and "foreignport g' = (if c = CHR ''f'' then decimal (snd (foreign_parts arg)) else foreignport g)"
  using assms unfolding option_switch_def
  by (auto dest!: num_opt_Inr simp: bindr_eq_Inr foreign_opt_def foreign_parts_def atoi_def Let_def split: if_splits option.splits)

lemma option_loop_flag:
  assumes sw: "\<And>c arg g g'. option_switch c arg g = Inr g' \<Longrightarrow> fld g' = (fld g \<or> c = d)"
    and "option_loop opts g = Inr g'"
  shows "fld g' = (fld g \<or> d \<in> fst ` set opts)"
  using assms(2)
proof (induction opts arbitrary: g)
  case (Cons x xs)
  then obtain g1 where g1: "option_switch (fst x) (snd x) g = Inr g1" "option_loop xs g1 = Inr g'"
    by (auto simp: bindr_eq_Inr)
  show ?case
    using Cons.IH [OF g1(2)] sw [OF g1(1)] by auto
qed simp

lemma option_loop_readlen:
  "option_loop opts g = Inr g' \<Longrightarrow> readlen g < 2 ^ 31 \<Longrightarrow> readlen g' < 2 ^ 31"
proof (induction opts arbitrary: g)
  case (Cons x xs)
  then obtain g1 where g1: "option_switch (fst x) (snd x) g = Inr g1" "option_loop xs g1 = Inr g'"
    by (auto simp: bindr_eq_Inr)
  have "readlen g1 < 2 ^ 31"
    using g1(1) Cons.prems(2) unfolding option_switch_def
    by (auto dest!: num_opt_Inr foreign_opt_Inr simp: bindr_eq_Inr atoi_def Let_def split: if_splits)
  then show ?case
    using Cons.IH [OF g1(2)] by simp
qed simp

text \<open>The argument of the last delivery of a letter.\<close>

definition last_arg :: "char \<Rightarrow> (char \<times> string) list \<Rightarrow> string option" where
  "last_arg c opts = (case filter (\<lambda>x. fst x = c) opts of [] \<Rightarrow> None | xs \<Rightarrow> Some (snd (last xs)))"

lemma last_arg_Cons:
  "last_arg c (x # xs) = (case last_arg c xs of None \<Rightarrow> if fst x = c then Some (snd x) else None | Some a \<Rightarrow> Some a)"
  by (auto simp: last_arg_def split: list.splits)

lemma option_loop_val:
  assumes sw: "\<And>c arg g g'. option_switch c arg g = Inr g' \<Longrightarrow> fld g' = (if c = d then f arg else fld g)"
    and "option_loop opts g = Inr g'"
  shows "fld g' = (case last_arg d opts of None \<Rightarrow> fld g | Some a \<Rightarrow> f a)"
  using assms(2)
proof (induction opts arbitrary: g)
  case (Cons x xs)
  then obtain g1 where g1: "option_switch (fst x) (snd x) g = Inr g1" "option_loop xs g1 = Inr g'"
    by (auto simp: bindr_eq_Inr)
  show ?case
    using Cons.IH [OF g1(2)] sw [OF g1(1)] by (auto simp: last_arg_Cons split: option.splits)
qed (simp add: last_arg_def)

text \<open>The configuration a list of deliveries stands for.\<close>

definition given :: "(char \<times> string) list \<Rightarrow> char \<Rightarrow> bool" where
  "given opts c = (c \<in> fst ` set opts)"

definition given_number :: "(char \<times> string) list \<Rightarrow> char \<Rightarrow> int \<Rightarrow> int" where
  "given_number opts c d = (case last_arg c opts of None \<Rightarrow> d | Some a \<Rightarrow> decimal a)"

definition config_of :: "(char \<times> string) list \<Rightarrow> config" where
  "config_of opts = \<lparr>bindport = given_number opts CHR ''b'' 0, broadcast = given opts CHR ''B'', cbreak = given opts CHR ''C'',
     client = (\<not> given opts CHR ''s''), crlf = given opts CHR ''c'', debug = given opts CHR ''D'', dofork = given opts CHR ''F'',
     foreignip = (case last_arg CHR ''f'' opts of None \<Rightarrow> [] | Some a \<Rightarrow> fst (foreign_parts a)),
     foreignport = (case last_arg CHR ''f'' opts of None \<Rightarrow> 0 | Some a \<Rightarrow> decimal (snd (foreign_parts a))),
     halfclose = given opts CHR ''h'', keepalive = given opts CHR ''K'', linger = given_number opts CHR ''L'' (- 1),
     listenq = given_number opts CHR ''q'' 5, nodelay = given opts CHR ''N'',
     nbuf = (case last_arg CHR ''n'' opts of None \<Rightarrow> 1024 | Some a \<Rightarrow> to_int32 (decimal a)),
     pauseclose = given_number opts CHR ''Q'' 0, pauseinit = given_number opts CHR ''P'' 0,
     pauselisten = given_number opts CHR ''O'' 0, pauserw = given_number opts CHR ''p'' 0, reuseaddr = given opts CHR ''A'',
     readlen = given_number opts CHR ''r'' 1024, writelen = given_number opts CHR ''w'' 1024, recvdstaddr = given opts CHR ''E'',
     rcvbuflen = given_number opts CHR ''R'' 0, sndbuflen = given_number opts CHR ''S'' 0, server = given opts CHR ''s'',
     sourcesink = given opts CHR ''i'', udp = given opts CHR ''u'', urgwrite = given_number opts CHR ''U'' 0,
     verbose = given opts CHR ''v''\<rparr>"

lemma option_loop_config:
  assumes l: "option_loop opts globals = Inr g"
  shows "g = config_of opts"
proof -
  note flag = option_loop_flag [OF _ l] and val = option_loop_val [OF _ l]
  have "server g = given opts CHR ''s''" "(\<not> client g) = given opts CHR ''s''" "udp g = given opts CHR ''u''"
    "sourcesink g = given opts CHR ''i''" "crlf g = given opts CHR ''c''" "halfclose g = given opts CHR ''h''"
    "verbose g = given opts CHR ''v''" "reuseaddr g = given opts CHR ''A''" "broadcast g = given opts CHR ''B''"
    "cbreak g = given opts CHR ''C''" "debug g = given opts CHR ''D''" "recvdstaddr g = given opts CHR ''E''"
    "dofork g = given opts CHR ''F''" "keepalive g = given opts CHR ''K''" "nodelay g = given opts CHR ''N''"
    using flag [of server, OF option_switch_flags(1)] flag [of "\<lambda>g. \<not> client g", OF option_switch_flags(2)]
      flag [of udp, OF option_switch_flags(3)] flag [of sourcesink, OF option_switch_flags(4)]
      flag [of crlf, OF option_switch_flags(5)] flag [of halfclose, OF option_switch_flags(6)]
      flag [of verbose, OF option_switch_flags(7)] flag [of reuseaddr, OF option_switch_flags(8)]
      flag [of broadcast, OF option_switch_flags(9)] flag [of cbreak, OF option_switch_flags(10)]
      flag [of debug, OF option_switch_flags(11)] flag [of recvdstaddr, OF option_switch_flags(12)]
      flag [of dofork, OF option_switch_flags(13)] flag [of keepalive, OF option_switch_flags(14)]
      flag [of nodelay, OF option_switch_flags(15)]
    by (simp_all add: given_def globals_def)
  moreover have "readlen g = given_number opts CHR ''r'' 1024" "writelen g = given_number opts CHR ''w'' 1024"
    "bindport g = given_number opts CHR ''b'' 0" "pauserw g = given_number opts CHR ''p'' 0" "listenq g = given_number opts CHR ''q'' 5"
    "linger g = given_number opts CHR ''L'' (- 1)" "pauselisten g = given_number opts CHR ''O'' 0"
    "pauseinit g = given_number opts CHR ''P'' 0" "pauseclose g = given_number opts CHR ''Q'' 0"
    "rcvbuflen g = given_number opts CHR ''R'' 0" "sndbuflen g = given_number opts CHR ''S'' 0" "urgwrite g = given_number opts CHR ''U'' 0"
    using val [where fld = readlen and f = decimal, OF option_switch_numbers(1)] val [where fld = writelen and f = decimal, OF option_switch_numbers(2)]
      val [where fld = bindport and f = decimal, OF option_switch_numbers(3)] val [where fld = pauserw and f = decimal, OF option_switch_numbers(4)]
      val [where fld = listenq and f = decimal, OF option_switch_numbers(5)] val [where fld = linger and f = decimal, OF option_switch_numbers(6)]
      val [where fld = pauselisten and f = decimal, OF option_switch_numbers(8)] val [where fld = pauseinit and f = decimal, OF option_switch_numbers(9)]
      val [where fld = pauseclose and f = decimal, OF option_switch_numbers(10)] val [where fld = rcvbuflen and f = decimal, OF option_switch_numbers(11)]
      val [where fld = sndbuflen and f = decimal, OF option_switch_numbers(12)] val [where fld = urgwrite and f = decimal, OF option_switch_numbers(13)]
    by (simp_all add: given_number_def globals_def cong: option.case_cong)
  moreover have "nbuf g = (case last_arg CHR ''n'' opts of None \<Rightarrow> 1024 | Some a \<Rightarrow> to_int32 (decimal a))"
    "foreignip g = (case last_arg CHR ''f'' opts of None \<Rightarrow> [] | Some a \<Rightarrow> fst (foreign_parts a))"
    "foreignport g = (case last_arg CHR ''f'' opts of None \<Rightarrow> 0 | Some a \<Rightarrow> decimal (snd (foreign_parts a)))"
    using val [where fld = nbuf and f = "\<lambda>a. to_int32 (decimal a)", OF option_switch_numbers(7)] val [where fld = foreignip and f = "\<lambda>a. fst (foreign_parts a)", OF option_switch_foreign(1)]
      val [where fld = foreignport and f = "\<lambda>a. decimal (snd (foreign_parts a))", OF option_switch_foreign(2)] by (simp_all add: globals_def cong: option.case_cong)
  ultimately show ?thesis by (intro config.equality) (auto simp: config_of_def)
qed

lemma check_options_Inr:
  "check_options g = Inr g' \<longleftrightarrow> g' = g \<and> \<not> (udp g \<and> (halfclose g \<or> debug g \<or> 0 \<le> linger g \<or> nodelay g)) \<and>
     (udp g \<or> (\<not> broadcast g \<and> foreignip g = ''''))"
  by (auto simp: check_options_def split: if_splits)

lemma main_options_readlen: "main_options argc opts rest = Inr (g, hp) \<Longrightarrow> readlen g < 2 ^ 31"
  using option_loop_readlen [of opts globals g]
  by (auto simp: main_options_def bindr_eq_Inr check_options_Inr globals_def split: if_splits)

lemma main_options_host:
  assumes "main_options argc opts rest = Inr (g, host, port)" and "client g"
  shows "\<exists>h. host = Some h"
  using assms by (auto simp: main_options_def bindr_eq_Inr check_options_Inr operands_def split: if_splits list.splits)

text \<open>C28. A command line that gets through to opening the socket gives a configuration that the letters
  determine in all thirty variables: a flag is on exactly when its letter was given, a number is the one of
  the last delivery of its letter or the default, \<open>-s\<close> alone decides between server and client, and the
  foreign address is split at its last period.  It is consistent: no TCP-only option is combined
  with UDP nor a UDP-only one with TCP, and the operands are host and port, the host being optional
  only for a server.\<close>

theorem main_options_consistent:
  assumes "main_options argc opts rest = Inr (g, h, p)"
  shows "g = config_of opts \<and>
     \<not> (udp g \<and> (halfclose g \<or> debug g \<or> 0 \<le> linger g \<or> nodelay g)) \<and>
     (udp g \<or> \<not> broadcast g \<and> foreignip g = []) \<and>
     (case h of Some host \<Rightarrow> rest = [host, p] | None \<Rightarrow> server g \<and> rest = [p])"
proof -
  have l: "option_loop opts globals = Inr g" and c: "check_options g = Inr g" and "operands g rest = Inr (h, p)"
    using assms by (auto simp: main_options_def bindr_eq_Inr check_options_Inr split: if_splits)
  then have "(case h of Some host \<Rightarrow> rest = [host, p] | None \<Rightarrow> \<not> client g \<and> rest = [p])"
    by (auto simp: operands_def split: if_splits list.splits)
  moreover have "client g = (\<not> server g)" using option_loop_config [OF l] by (simp add: config_of_def)
  ultimately show ?thesis
    using option_loop_config [OF l] c by (auto simp: check_options_Inr split: option.splits)
qed

theorem main_options_consistent_witness:
  "\<exists>g. main_options 6 [(CHR ''u'', []), (CHR ''r'', ''512''), (CHR ''s'', [])] [''7777''] = Inr (g, None, ''7777'') \<and>
     g = config_of [(CHR ''u'', []), (CHR ''r'', ''512''), (CHR ''s'', [])] \<and> server g \<and> \<not> client g \<and> udp g \<and>
     readlen g = 512 \<and> writelen g = 1024 \<and> \<not> nodelay g"
proof -
  let ?o = "[(CHR ''u'', []), (CHR ''r'', ''512''), (CHR ''s'', [])]"
  let ?g = "globals\<lparr>udp := True, readlen := 512, server := True, client := False\<rparr>"
  have "decimal ''512'' = 512"
    by code_simp
  then have "main_options 6 ?o [''7777''] = Inr (?g, None, ''7777'')"
    by (simp add: main_options_def option_switch_def num_opt_def atoi_def check_options_def operands_def globals_def)
  moreover from main_options_consistent [OF this] have "?g = config_of ?o" by blast
  moreover have "server ?g \<and> \<not> client ?g \<and> udp ?g \<and> readlen ?g = 512 \<and> writelen ?g = 1024 \<and> \<not> nodelay ?g"
    by (simp add: globals_def)
  ultimately show ?thesis by blast
qed

lemma split_last_append: "d \<notin> set b \<Longrightarrow> split_last d (a @ d # b) = Some (a, b)"
proof -
  assume d: "d \<notin> set b"
  have "split_last d b = None"
    using d by (induction b) auto
  then show ?thesis
    by (induction a) auto
qed

text \<open>The address of \<open>-f\<close> is copied into a buffer of 32 bytes without a check: an address part of 32
  or more characters is undefined behaviour, any shorter one is stored whole.\<close>

theorem foreign_address_overflow:
  assumes "CHR ''.'' \<notin> set p" and "atoi p = Inr v"
  shows "option_switch CHR ''f'' (ip @ CHR ''.'' # p) g =
     (if length ip < 32 then Inr (g\<lparr>foreignport := v, foreignip := ip\<rparr>) else Inl Undefined)"
  using assms split_last_append [OF assms(1), of ip] by (simp add: option_switch_def foreign_opt_def)

theorem foreign_address_overflow_witness:
  "option_switch CHR ''f'' (replicate 40 CHR ''1'' @ CHR ''.'' # ''53'') globals = Inl Undefined"
proof -
  have "atoi ''53'' = Inr 53"
    by code_simp
  then show ?thesis
    using foreign_address_overflow [of "''53''" 53 "replicate 40 CHR ''1''" globals] by simp
qed

end
