(* ===== verification/Sock_Error.thy ===== *)
theory Sock_Error
  imports Sock_Options
begin

text \<open>
  The diagnostics of \<^verbatim>\<open>tcpipi/sock\<close>: \<^verbatim>\<open>error.c\<close>, \<^verbatim>\<open>strerror.c\<close> and \<^verbatim>\<open>usage\<close> of \<^verbatim>\<open>main.c\<close>.  The
  message is formatted into a buffer of \<^verbatim>\<open>MAXLINE\<close> bytes without a check, and the description of an
  error number is looked up in \<^verbatim>\<open>sys_errlist\<close>, a table of the C library that is a parameter here, with
  \<^verbatim>\<open>sys_nerr\<close> as its length.  The result is the text that is printed; \<^const>\<open>None\<close> is undefined behaviour.
  The other theories carry an exit with a message as a fault with the formatted text of its
  \<^verbatim>\<open>fmt\<close> and arguments; \<open>report\<close> says what printing it comes to.
\<close>

section \<open>Formatting\<close>

text \<open>A number as \<^verbatim>\<open>%d\<close> prints it.\<close>

definition show_int32 :: "int \<Rightarrow> string" where
  "show_int32 v = (let v = to_int32 v in if v < 0 then CHR ''-'' # show_nat (nat (- v)) else show_nat (nat v))"

definition MAXLINE :: nat where
  "MAXLINE = 4096"

text \<open>The test in \<^verbatim>\<open>strerror\<close> lets \<open>error = sys_nerr\<close> through, one past the end of the table.\<close>

definition strerror :: "string list \<Rightarrow> int \<Rightarrow> string option" where
  "strerror sys_errlist err =
     (if 0 \<le> err \<and> err \<le> int (length sys_errlist) then aget sys_errlist err
      else (let mesg = ''Unknown error ('' @ show_int32 err @ '')''
            in if length mesg < 30 then Some mesg else None))"

text \<open>Text and its final zero have to fit the buffer.\<close>

definition in_line :: "string \<Rightarrow> string option" where
  "in_line buf = (if length buf < MAXLINE then Some buf else None)"

definition err_doit :: "string list \<Rightarrow> int option \<Rightarrow> string \<Rightarrow> string option" where
  "err_doit sys_errlist errnoflag text = do {
     buf \<leftarrow> in_line text;
     buf \<leftarrow> (case errnoflag of None \<Rightarrow> Some buf
              | Some errno_save \<Rightarrow> do { mesg \<leftarrow> strerror sys_errlist errno_save; in_line (buf @ '': '' @ mesg) });
     in_line (buf @ [LF])
   }"

text \<open>\<^verbatim>\<open>err_sys\<close> and \<^verbatim>\<open>err_ret\<close> print the error number, \<^verbatim>\<open>err_quit\<close> and \<^verbatim>\<open>err_msg\<close> do not.\<close>

definition err_sys :: "string list \<Rightarrow> int \<Rightarrow> string \<Rightarrow> string option" where
  "err_sys sys_errlist errno text = err_doit sys_errlist (Some errno) text"

definition err_quit :: "string list \<Rightarrow> string \<Rightarrow> string option" where
  "err_quit sys_errlist text = err_doit sys_errlist None text"

definition err_msg :: "string list \<Rightarrow> string \<Rightarrow> string option" where
  "err_msg sys_errlist text = err_doit sys_errlist None text"

section \<open>usage\<close>

definition usage_lines :: "string list" where
  "usage_lines =
    [''usage: sock [ options ] <host> <port>              (for client; default)'',
     ''       sock [ options ] -s [ <IPaddr> ] <port>     (for server)'',
     ''       sock [ options ] -i <host> <port>           (for \"source\" client)'',
     ''       sock [ options ] -i -s [ <IPaddr> ] <port>  (for \"sink\" server)'',
     ''options: -b n'' @ [CHR 0x09] @ ''bind n as client's local port number'',
     ''         -c    convert newline to CR/LF & vice versa'',
     ''         -f a.b.c.d.p  foreign IP address = a.b.c.d, foreign port# = p'',
     ''         -h    issue TCP half close on standard input EOF'',
     ''         -i    \"source\" data to socket, \"sink\" data from socket (w/-s)'',
     ''         -n n  #buffers to write for \"source\" client (default 1024)'',
     ''         -p n  #seconds to pause before each read or write (source/sink)'',
     ''         -q n  size of listen queue for TCP server (default 5)'',
     ''         -r n  #bytes per read() for \"sink\" server (default 1024)'',
     ''         -s    operate as server instead of client'',
     ''         -u    use UDP instead of TCP'',
     ''         -v    verbose'',
     ''         -w n  #bytes per write() for \"source\" client (default 1024)'',
     ''         -A    SO_REUSEADDR option'',
     ''         -B    SO_BROADCAST option'',
     ''         -C    set terminal to cbreak mode'',
     ''         -D    SO_DEBUG option'',
     ''         -E    IP_RECVDSTADDR option'',
     ''         -F    fork after connection accepted (TCP concurrent server)'',
     ''         -K    SO_KEEPALIVE option'',
     ''         -L n  SO_LINGER option, n = linger time'',
     ''         -N    TCP_NODELAY option'',
     ''         -O n  #seconds to pause after listen, but before first accept'',
     ''         -P n  #seconds to pause before first read or write (source/sink)'',
     ''         -Q n  #seconds to pause after receiving FIN, but before close'',
     ''         -R n  SO_RCVBUF option'',
     ''         -S n  SO_SNDBUF option'',
     ''         -U n  enter urgent mode after write number n (source only)'']"

definition usage_text :: string where
  "usage_text = concat (map (\<lambda>l. l @ [LF]) (butlast usage_lines)) @ last usage_lines"

definition usage :: "string list \<Rightarrow> string \<Rightarrow> string option" where
  "usage sys_errlist msg = do {
     t1 \<leftarrow> err_msg sys_errlist usage_text;
     if msg \<noteq> [] then do { t2 \<leftarrow> err_quit sys_errlist msg; Some (t1 @ t2) } else Some t1
   }"

section \<open>Exits with a message\<close>

text \<open>The text on standard error that ends a run; \<open>errno\<close> is the number that the failing call left.\<close>

fun diagnostics :: "string list \<Rightarrow> int \<Rightarrow> fault \<Rightarrow> string option" where
  "diagnostics sys_errlist errno (Err_sys m) = err_sys sys_errlist errno m"
| "diagnostics sys_errlist errno (Err_quit m) = err_quit sys_errlist m"
| "diagnostics sys_errlist errno (Usage m) = usage sys_errlist m"
| "diagnostics sys_errlist errno f = Some []"

definition report :: "string list \<Rightarrow> int \<Rightarrow> 'a run \<Rightarrow> 'a run" where
  "report sys_errlist errno x =
     (case x of Inr a \<Rightarrow> Inr a
      | Inl f \<Rightarrow> (case diagnostics sys_errlist errno f of None \<Rightarrow> Inl Undefined | Some t \<Rightarrow> Inl f))"

section \<open>When the message fits\<close>

lemma to_int32_range: "- (2 ^ 31) \<le> to_int32 v \<and> to_int32 v < 2 ^ 31"
proof -
  have "sint (word_of_int v :: u32) \<in> {- (2 ^ (32 - 1))..2 ^ (32 - 1) - 1}"
    using sint_range_size [of "word_of_int v :: u32"] by (auto simp: word_size)
  then show ?thesis by (auto simp: to_int32_def)
qed

lemma show_int32_length: "length (show_int32 v) \<le> 11"
proof -
  have len: "length (show_nat n) \<le> 10" if "n \<le> 2 ^ 31" for n
    using length_show_nat [of n 9] that by simp
  have "nat (to_int32 v) \<le> 2 ^ 31" "nat (- to_int32 v) \<le> 2 ^ 31"
    using to_int32_range [of v] by auto
  from len [OF this(1)] len [OF this(2)] show ?thesis
    by (auto simp: show_int32_def Let_def)
qed

lemma usage_text_length: "length usage_text \<le> 4000"
  by code_simp

text \<open>Runs without undefined behaviour; runs whose messages have at most \<open>n\<close> characters.\<close>

definition no_ub :: "'a run \<Rightarrow> bool" where
  "no_ub x \<longleftrightarrow> x \<noteq> Inl Undefined"

fun brief_fault :: "nat \<Rightarrow> fault \<Rightarrow> bool" where
  "brief_fault n (Err_sys m) \<longleftrightarrow> length m \<le> n"
| "brief_fault n (Err_quit m) \<longleftrightarrow> length m \<le> n"
| "brief_fault n (Usage m) \<longleftrightarrow> length m \<le> n"
| "brief_fault n Undefined \<longleftrightarrow> False"
| "brief_fault n Blocked \<longleftrightarrow> True"

definition brief :: "nat \<Rightarrow> 'a run \<Rightarrow> bool" where
  "brief n x \<longleftrightarrow> (case x of Inl f \<Rightarrow> brief_fault n f | Inr a \<Rightarrow> True)"

lemma brief_simps [simp]: "brief n (Inr a)" "brief n (Inl f) = brief_fault n f"
  by (simp_all add: brief_def)

lemma brief_bindr: "brief n x \<Longrightarrow> (\<And>a. x = Inr a \<Longrightarrow> brief n (f a)) \<Longrightarrow> brief n (bindr x f)"
  by (cases x) auto

text \<open>A table of descriptions with fewer than 80 characters, and an error number that is not the one behind it.\<close>

definition errors_known :: "string list \<Rightarrow> int \<Rightarrow> bool" where
  "errors_known sys_errlist errno \<longleftrightarrow>
     list_all (\<lambda>s. length s < 80) sys_errlist \<and> errno \<noteq> int (length sys_errlist)"

lemma strerror_known:
  assumes "errors_known sys_errlist errno"
  obtains mesg where "strerror sys_errlist errno = Some mesg" "length mesg < 80"
proof (cases "0 \<le> errno \<and> errno \<le> int (length sys_errlist)")
  case True
  then have i: "0 \<le> errno" "nat errno < length sys_errlist" using assms by (auto simp: errors_known_def)
  then have "strerror sys_errlist errno = Some (sys_errlist ! nat errno)" using True by (simp add: strerror_def aget_def)
  moreover have "length (sys_errlist ! nat errno) < 80" using assms i(2) by (auto simp: errors_known_def list_all_length)
  ultimately show ?thesis by (rule that)
next
  case False
  have "length (show_int32 errno) \<le> 11" by (rule show_int32_length)
  then show ?thesis using False
    by (intro that [of "''Unknown error ('' @ show_int32 errno @ '')''"]) (auto simp: strerror_def Let_def)
qed

lemma err_doit_plain: "length text \<le> 4000 \<Longrightarrow> err_doit sys_errlist None text = Some (text @ [LF])"
  by (simp add: err_doit_def in_line_def MAXLINE_def)

lemma err_doit_number:
  assumes "length text \<le> 4000" "errors_known sys_errlist errno"
  shows "err_doit sys_errlist (Some errno) text \<noteq> None"
proof -
  obtain mesg where "strerror sys_errlist errno = Some mesg" "length mesg < 80" by (rule strerror_known [OF assms(2)])
  then show ?thesis using assms(1) by (simp add: err_doit_def in_line_def MAXLINE_def)
qed

lemma diagnostics_brief:
  assumes "brief_fault 4000 f" "errors_known sys_errlist errno"
  shows "diagnostics sys_errlist errno f \<noteq> None"
  using assms err_doit_number [OF _ assms(2)] usage_text_length
  by (cases f) (auto simp: err_sys_def err_quit_def err_msg_def usage_def err_doit_plain)

lemma report_brief:
  assumes "brief 4000 x" "errors_known sys_errlist errno"
  shows "report sys_errlist errno x = x" and "no_ub x"
proof -
  show "report sys_errlist errno x = x"
  proof (cases x)
    case (Inl f)
    then have "diagnostics sys_errlist errno f \<noteq> None" using diagnostics_brief [OF _ assms(2)] assms(1) by simp
    then show ?thesis using Inl by (auto simp: report_def)
  qed (simp add: report_def)
  show "no_ub x" using assms(1) by (auto simp: no_ub_def)
qed

section \<open>When it does not\<close>

text \<open>A message of \<^verbatim>\<open>MAXLINE - 1\<close> or more characters is written beyond the buffer: there is no room for
  the newline.\<close>

lemma long_message_overflows:
  assumes "MAXLINE \<le> length text + 1"
  shows "err_quit sys_errlist text = None" and "err_sys sys_errlist errno text = None"
  using assms by (auto simp: err_quit_def err_sys_def err_doit_def in_line_def MAXLINE_def Option.bind_eq_None_conv
      split: if_splits Option.bind_splits)

lemma errno_behind_table: "strerror sys_errlist (int (length sys_errlist)) = None"
  by (simp add: strerror_def aget_def)

end
