(* ===== verification/Sock_Setup.thy ===== *)
theory Sock_Setup
  imports Sock_Error
begin

text \<open>
  Opening the socket of \<^verbatim>\<open>tcpipi/sock\<close>: buffers and buffer sizes (\<^verbatim>\<open>buffers.c\<close>), socket options
  (\<^verbatim>\<open>sockopts.c\<close>), the client's and the server's side (\<^verbatim>\<open>cliopen.c\<close>, \<^verbatim>\<open>servopen.c\<close>).
  The system calls, the resolver and the allocator are a record of functions over an abstract kernel
  state, a parameter of every definition; a call that fails gives \<^term>\<open>None\<close>.  Addresses and
  ports are kept as the numbers they denote, so that the byte-order macros are identities; the text on
  stderr that \<^verbatim>\<open>-v\<close> asks for is not recorded.
\<close>

section \<open>The kernel interface\<close>

datatype sockopt =
    SO_DEBUG | SO_BROADCAST | SO_KEEPALIVE | SO_REUSEADDR | SO_RCVBUF | SO_SNDBUF | SO_LINGER
  | TCP_NODELAY | TCP_MAXSEG | IP_RECVDSTADDR

datatype optval = IntVal int | LingerVal int int

record sockaddr = sin_addr :: u32  sin_port :: u16

text \<open>
  \<open>k_fork\<close> gives the process id, with 0 in the child; \<open>k_sleep\<close> and \<open>k_sync\<close> stand for
  \<^verbatim>\<open>sleep\<close> and for the signal handshake of \<^verbatim>\<open>tellwait.c\<close>.
\<close>

record 'k kernel =
  k_malloc :: "int \<Rightarrow> 'k \<Rightarrow> string option \<times> 'k"
  k_setsockopt :: "int \<Rightarrow> sockopt \<Rightarrow> optval \<Rightarrow> 'k \<Rightarrow> 'k option"
  k_getsockopt :: "int \<Rightarrow> sockopt \<Rightarrow> 'k \<Rightarrow> optval option"
  k_has_recvdstaddr :: bool
  k_getservbyname :: "string \<Rightarrow> string \<Rightarrow> 'k \<Rightarrow> u16 option"
  k_inet_addr :: "string \<Rightarrow> u32"
  k_gethostbyname :: "string \<Rightarrow> 'k \<Rightarrow> u32 option"
  k_socket :: "bool \<Rightarrow> 'k \<Rightarrow> (int \<times> 'k) option"
  k_bind :: "int \<Rightarrow> sockaddr \<Rightarrow> 'k \<Rightarrow> 'k option"
  k_connect :: "int \<Rightarrow> sockaddr \<Rightarrow> 'k \<Rightarrow> 'k option"
  k_listen :: "int \<Rightarrow> int \<Rightarrow> 'k \<Rightarrow> 'k"
  k_accept :: "int \<Rightarrow> 'k \<Rightarrow> (int \<times> 'k) option"
  k_getsockname :: "int \<Rightarrow> 'k \<Rightarrow> sockaddr option"
  k_fork :: "'k \<Rightarrow> (int \<times> 'k) option"
  k_close :: "int \<Rightarrow> 'k \<Rightarrow> 'k option"
  k_sleep :: "int \<Rightarrow> 'k \<Rightarrow> 'k"
  k_sync :: "string \<Rightarrow> 'k \<Rightarrow> 'k"

text \<open>The program's state: the kernel and the two malloc'ed buffers.\<close>

record 'k prog =
  kst :: 'k
  rbuf :: "string option"
  wbuf :: "string option"

definition or_sys :: "string \<Rightarrow> 'a option \<Rightarrow> 'a run" where
  "or_sys msg x = (case x of None \<Rightarrow> Inl (Err_sys msg) | Some a \<Rightarrow> Inr a)"

definition or_quit :: "string \<Rightarrow> 'a option \<Rightarrow> 'a run" where
  "or_quit msg x = (case x of None \<Rightarrow> Inl (Err_quit msg) | Some a \<Rightarrow> Inr a)"

lemma or_sys_Inr [simp]: "or_sys msg x = Inr a \<longleftrightarrow> x = Some a"
  by (simp add: or_sys_def split: option.splits)

lemma or_quit_Inr [simp]: "or_quit msg x = Inr a \<longleftrightarrow> x = Some a"
  by (simp add: or_quit_def split: option.splits)

definition whenr :: "bool \<Rightarrow> ('s \<Rightarrow> 's run) \<Rightarrow> 's \<Rightarrow> 's run" where
  "whenr b f s = (if b then f s else Inr s)"

text \<open>\<^verbatim>\<open>getsockopt\<close> into an \<^verbatim>\<open>int\<close>, and into a \<^verbatim>\<open>struct linger\<close>.\<close>

definition get_int :: "'k kernel \<Rightarrow> int \<Rightarrow> sockopt \<Rightarrow> 'k \<Rightarrow> int option" where
  "get_int K fd opt k = (case k_getsockopt K fd opt k of Some (IntVal v) \<Rightarrow> Some v | _ \<Rightarrow> None)"

definition get_linger :: "'k kernel \<Rightarrow> int \<Rightarrow> 'k \<Rightarrow> (int \<times> int) option" where
  "get_linger K fd k = (case k_getsockopt K fd SO_LINGER k of Some (LingerVal a b) \<Rightarrow> Some (a, b) | _ \<Rightarrow> None)"

section \<open>buffers.c\<close>

definition alloc_rbuf :: "'k kernel \<Rightarrow> config \<Rightarrow> 'k prog \<Rightarrow> 'k prog run" where
  "alloc_rbuf K g s =
     (if rbuf s = None then
        (case k_malloc K (readlen g) (kst s) of
           (None, _) \<Rightarrow> Inl (Err_sys ''malloc error for read buffer'')
         | (Some b, k) \<Rightarrow> Inr (s\<lparr>kst := k, rbuf := Some b\<rparr>))
      else Inr s)"

definition alloc_wbuf :: "'k kernel \<Rightarrow> config \<Rightarrow> 'k prog \<Rightarrow> 'k prog run" where
  "alloc_wbuf K g s =
     (if wbuf s = None then
        (case k_malloc K (writelen g) (kst s) of
           (None, _) \<Rightarrow> Inl (Err_sys ''malloc error for write buffer'')
         | (Some b, k) \<Rightarrow> Inr (s\<lparr>kst := k, wbuf := Some b\<rparr>))
      else Inr s)"

definition set_bufsize :: "'k kernel \<Rightarrow> int \<Rightarrow> sockopt \<Rightarrow> string \<Rightarrow> string \<Rightarrow> int \<Rightarrow> 'k prog \<Rightarrow> 'k prog run" where
  "set_bufsize K fd opt nm var len s =
     bindr (or_sys (nm @ '' setsockopt error'') (k_setsockopt K fd opt (IntVal len) (kst s))) (\<lambda>k.
     bindr (or_sys (nm @ '' getsockopt error'') (get_int K fd opt k)) (\<lambda>n.
     if n \<noteq> len
     then Inl (Err_quit (var @ '' = '' @ show_int32 len @ '', '' @ nm @ '' = '' @ show_int32 n)) else Inr (s\<lparr>kst := k\<rparr>)))"

definition buffers :: "'k kernel \<Rightarrow> config \<Rightarrow> int \<Rightarrow> 'k prog \<Rightarrow> 'k prog run" where
  "buffers K g fd s =
     bindr (alloc_rbuf K g s) (\<lambda>s.
     bindr (alloc_wbuf K g s) (\<lambda>s.
     bindr (whenr (rcvbuflen g \<noteq> 0) (set_bufsize K fd SO_RCVBUF ''SO_RCVBUF'' ''rcvbuflen'' (rcvbuflen g)) s) (\<lambda>s.
     whenr (sndbuflen g \<noteq> 0) (set_bufsize K fd SO_SNDBUF ''SO_SNDBUF'' ''sndbuflen'' (sndbuflen g)) s)))"

section \<open>sockopts.c\<close>

text \<open>The block that sets a flag to one, reads it back and gives up when it is zero.\<close>

definition set_flag :: "'k kernel \<Rightarrow> int \<Rightarrow> sockopt \<Rightarrow> string \<Rightarrow> 'k prog \<Rightarrow> 'k prog run" where
  "set_flag K fd opt nm s =
     bindr (or_sys (nm @ '' setsockopt error'') (k_setsockopt K fd opt (IntVal 1) (kst s))) (\<lambda>k.
     bindr (or_sys (nm @ '' getsockopt error'') (get_int K fd opt k)) (\<lambda>option.
     if option = 0 then Inl (Err_quit (nm @ '' not set (0)'')) else Inr (s\<lparr>kst := k\<rparr>)))"

definition show_mss :: "'k kernel \<Rightarrow> int \<Rightarrow> 'k prog \<Rightarrow> 'k prog run" where
  "show_mss K fd s = bindr (or_sys ''TCP_MAXSEG getsockopt error'' (get_int K fd TCP_MAXSEG (kst s))) (\<lambda>_. Inr s)"

text \<open>\<^verbatim>\<open>l_linger\<close> is an \<^verbatim>\<open>int\<close>; the value read back is compared with the \<^verbatim>\<open>long\<close>.\<close>

definition set_linger :: "'k kernel \<Rightarrow> config \<Rightarrow> int \<Rightarrow> 'k prog \<Rightarrow> 'k prog run" where
  "set_linger K g fd s =
     bindr (or_sys ''SO_LINGER setsockopt error''
        (k_setsockopt K fd SO_LINGER (LingerVal 1 (to_int32 (linger g))) (kst s))) (\<lambda>k.
     bindr (or_sys ''SO_LINGER getsockopt error'' (get_linger K fd k)) (\<lambda>(onoff, l).
     if onoff = 0 \<or> l \<noteq> linger g 
     then Inl (Err_quit (''SO_LINGER not set ('' @ show_int32 onoff @ '', '' @ show_int32 l @ '')'')) else Inr (s\<lparr>kst := k\<rparr>)))"

definition sockopts :: "'k kernel \<Rightarrow> config \<Rightarrow> int \<Rightarrow> bool \<Rightarrow> 'k prog \<Rightarrow> 'k prog run" where
  "sockopts K g fd doall s =
     bindr (whenr (debug g) (set_flag K fd SO_DEBUG ''SO_DEBUG'') s) (\<lambda>s.
     bindr (whenr (broadcast g \<and> doall) (set_flag K fd SO_BROADCAST ''SO_BROADCAST'') s) (\<lambda>s.
     bindr (whenr (keepalive g \<and> doall \<and> \<not> udp g) (set_flag K fd SO_KEEPALIVE ''SO_KEEPALIVE'') s) (\<lambda>s.
     bindr (whenr (nodelay g \<and> doall \<and> \<not> udp g) (set_flag K fd TCP_NODELAY ''TCP_NODELAY'') s) (\<lambda>s.
     bindr (whenr (doall \<and> verbose g \<and> \<not> udp g) (show_mss K fd) s) (\<lambda>s.
     bindr (whenr (linger g \<ge> 0 \<and> doall \<and> \<not> udp g) (set_linger K g fd) s) (\<lambda>s.
     whenr (recvdstaddr g \<and> udp g \<and> k_has_recvdstaddr K) (set_flag K fd IP_RECVDSTADDR ''IP_RECVDSTADDR'') s))))))"

section \<open>cliopen.c\<close>

definition INADDR_NONE :: u32 where "INADDR_NONE = 0xffffffff"

definition protocol :: "config \<Rightarrow> string" where
  "protocol g = (if udp g then ''udp'' else ''tcp'')"

definition cli_port :: "'k kernel \<Rightarrow> config \<Rightarrow> string \<Rightarrow> 'k \<Rightarrow> u16 run" where
  "cli_port K g port k = bindr (atoi port) (\<lambda>i.
     if i = 0 then or_quit (''getservbyname() error for: '' @ port @ ''/'' @ protocol g) (k_getservbyname K port (protocol g) k)
     else Inr (word_of_int i))"

definition cli_addr :: "'k kernel \<Rightarrow> string \<Rightarrow> 'k \<Rightarrow> u32 run" where
  "cli_addr K host k =
     (let inaddr = k_inet_addr K host
      in if inaddr \<noteq> INADDR_NONE then Inr inaddr
         else or_quit (''gethostbyname() error for: '' @ host) (k_gethostbyname K host k))"

definition set_reuseaddr :: "'k kernel \<Rightarrow> int \<Rightarrow> 'k prog \<Rightarrow> 'k prog run" where
  "set_reuseaddr K fd s =
     bindr (or_sys ''setsockopt of SO_REUSEADDR error'' (k_setsockopt K fd SO_REUSEADDR (IntVal 1) (kst s)))
       (\<lambda>k. Inr (s\<lparr>kst := k\<rparr>))"

definition do_bind :: "'k kernel \<Rightarrow> string \<Rightarrow> int \<Rightarrow> sockaddr \<Rightarrow> 'k prog \<Rightarrow> 'k prog run" where
  "do_bind K msg fd a s = bindr (or_sys msg (k_bind K fd a (kst s))) (\<lambda>k. Inr (s\<lparr>kst := k\<rparr>))"

definition do_connect :: "'k kernel \<Rightarrow> int \<Rightarrow> sockaddr \<Rightarrow> 'k prog \<Rightarrow> 'k prog run" where
  "do_connect K fd a s = bindr (or_sys ''connect() error'' (k_connect K fd a (kst s))) (\<lambda>k. Inr (s\<lparr>kst := k\<rparr>))"

definition do_getsockname :: "'k kernel \<Rightarrow> int \<Rightarrow> 'k prog \<Rightarrow> 'k prog run" where
  "do_getsockname K fd s = bindr (or_sys ''getsockname() error'' (k_getsockname K fd (kst s))) (\<lambda>_. Inr s)"

definition cliopen :: "'k kernel \<Rightarrow> config \<Rightarrow> string \<Rightarrow> string \<Rightarrow> 'k prog \<Rightarrow> (int \<times> 'k prog) run" where
  "cliopen K g host port s =
     bindr (cli_port K g port (kst s)) (\<lambda>p.
     bindr (cli_addr K host (kst s)) (\<lambda>a.
     bindr (or_sys ''socket() error'' (k_socket K (udp g) (kst s))) (\<lambda>(fd, k).
     bindr (whenr (reuseaddr g) (set_reuseaddr K fd) (s\<lparr>kst := k\<rparr>)) (\<lambda>s.
     bindr (whenr (bindport g \<noteq> 0 \<or> udp g)
        (do_bind K ''bind() error'' fd \<lparr>sin_addr = 0, sin_port = word_of_int (bindport g)\<rparr>) s) (\<lambda>s.
     bindr (buffers K g fd s) (\<lambda>s.
     bindr (sockopts K g fd False s) (\<lambda>s.
     bindr (do_connect K fd \<lparr>sin_addr = a, sin_port = p\<rparr> s) (\<lambda>s.
     bindr (whenr (verbose g) (do_getsockname K fd) s) (\<lambda>s.
     bindr (sockopts K g fd True s) (\<lambda>s. Inr (fd, s)))))))))))"

section \<open>servopen.c\<close>

definition serv_addr :: "'k kernel \<Rightarrow> string option \<Rightarrow> u32 run" where
  "serv_addr K host =
     (case host of None \<Rightarrow> Inr 0
      | Some h \<Rightarrow> (let inaddr = k_inet_addr K h
                   in if inaddr = INADDR_NONE then Inl (Err_quit (''invalid host name for server: '' @ h)) else Inr inaddr))"

text \<open>\<^verbatim>\<open>err_ret\<close> returns, so an unknown service name ends in a dereference of a null pointer.\<close>

definition serv_port :: "'k kernel \<Rightarrow> config \<Rightarrow> string \<Rightarrow> 'k \<Rightarrow> u16 run" where
  "serv_port K g port k = bindr (atoi port) (\<lambda>i.
     if i = 0 then of_opt (k_getservbyname K port (protocol g) k) else Inr (word_of_int i))"

definition pause_if :: "'k kernel \<Rightarrow> int \<Rightarrow> 'k prog \<Rightarrow> 'k prog" where
  "pause_if K n s = (if n \<noteq> 0 then s\<lparr>kst := k_sleep K n (kst s)\<rparr> else s)"

text \<open>
  The accept loop.  The parent of a forking server goes round for ever; \<open>fuel\<close> bounds the number of
  connections looked at, and \<^term>\<open>Inr None\<close> says that they all went to children.
\<close>

definition serve_connection :: "'k kernel \<Rightarrow> config \<Rightarrow> int \<Rightarrow> 'k prog \<Rightarrow> (int \<times> 'k prog) run" where
  "serve_connection K g newfd s =
     bindr (whenr (verbose g) (do_getsockname K newfd) s) (\<lambda>s.
     bindr (buffers K g newfd s) (\<lambda>s.
     bindr (sockopts K g newfd True s) (\<lambda>s.
     Inr (newfd, if dofork g then s\<lparr>kst := k_sync K ''TELL_PARENT'' (kst s)\<rparr> else s))))"

text \<open>The return values of these calls of \<^verbatim>\<open>close\<close> are not looked at.\<close>

definition close_unchecked :: "'k kernel \<Rightarrow> int \<Rightarrow> 'k \<Rightarrow> 'k" where
  "close_unchecked K fd k = (case k_close K fd k of None \<Rightarrow> k | Some k' \<Rightarrow> k')"

primrec accept_loop :: "nat \<Rightarrow> 'k kernel \<Rightarrow> config \<Rightarrow> int \<Rightarrow> 'k prog \<Rightarrow> ((int \<times> 'k prog) option) run" where
  "accept_loop 0 K g fd s = Inr None"
| "accept_loop (Suc n) K g fd s =
     bindr (or_sys ''accept() error'' (k_accept K fd (kst s))) (\<lambda>(newfd, k).
     if dofork g then
       bindr (or_sys ''fork error'' (k_fork K k)) (\<lambda>(pid, k).
       if pid > 0 then
         accept_loop n K g fd (s\<lparr>kst := k_sync K ''WAIT_CHILD'' (close_unchecked K newfd k)\<rparr>)
       else
         bindr (serve_connection K g newfd (s\<lparr>kst := close_unchecked K fd k\<rparr>)) (\<lambda>r. Inr (Some r)))
     else bindr (serve_connection K g newfd (s\<lparr>kst := k\<rparr>)) (\<lambda>r. Inr (Some r)))"

definition start_listening :: "'k kernel \<Rightarrow> config \<Rightarrow> int \<Rightarrow> 'k prog \<Rightarrow> 'k prog" where
  "start_listening K g fd s =
     (let s1 = pause_if K (pauselisten g) (s\<lparr>kst := k_listen K fd (listenq g) (kst s)\<rparr>)
      in if dofork g then s1\<lparr>kst := k_sync K ''TELL_WAIT'' (kst s1)\<rparr> else s1)"

definition udp_server :: "'k kernel \<Rightarrow> config \<Rightarrow> int \<Rightarrow> 'k prog \<Rightarrow> (int \<times> 'k prog) run" where
  "udp_server K g fd s =
     bindr (buffers K g fd s) (\<lambda>s.
     bindr (whenr (foreignip g \<noteq> '''')
        (do_connect K fd \<lparr>sin_addr = k_inet_addr K (foreignip g), sin_port = word_of_int (foreignport g)\<rparr>) s) (\<lambda>s.
     bindr (sockopts K g fd True s) (\<lambda>s. Inr (fd, s))))"

definition servopen ::
    "nat \<Rightarrow> 'k kernel \<Rightarrow> config \<Rightarrow> string option \<Rightarrow> string \<Rightarrow> 'k prog \<Rightarrow> ((int \<times> 'k prog) option) run" where
  "servopen fuel K g host port s =
     bindr (serv_addr K host) (\<lambda>a.
     bindr (serv_port K g port (kst s)) (\<lambda>p.
     bindr (or_sys ''socket() error'' (k_socket K (udp g) (kst s))) (\<lambda>(fd, k).
     bindr (whenr (reuseaddr g) (set_reuseaddr K fd) (s\<lparr>kst := k\<rparr>)) (\<lambda>s.
     bindr (do_bind K ''can't bind local address'' fd \<lparr>sin_addr = a, sin_port = p\<rparr> s) (\<lambda>s.
     if udp g then bindr (udp_server K g fd s) (\<lambda>r. Inr (Some r))
     else
       bindr (buffers K g fd s) (\<lambda>s.
       bindr (sockopts K g fd False s) (\<lambda>s.
       accept_loop fuel K g fd (start_listening K g fd s))))))))"

section \<open>What the set-up establishes\<close>

text \<open>
  What the theorems assume of the kernel: setting an option of a socket leaves its other options as they
  were; \<^verbatim>\<open>SO_REUSEADDR\<close> set to one reads back as nonzero (the program does not look); \<^verbatim>\<open>bind\<close> and
  \<^verbatim>\<open>connect\<close> leave the options that are not negotiated with the peer or adjusted by the system, that is all but
  the two buffer sizes and the segment size; the signal handshake leaves all options; and an allocation that
  succeeds has the size asked for and touches no socket.
\<close>

definition options_independent :: "'k kernel \<Rightarrow> bool" where
  "options_independent K \<longleftrightarrow>
     (\<forall>fd opt v k k' opt'. k_setsockopt K fd opt v k = Some k' \<and> opt' \<noteq> opt \<longrightarrow>
        k_getsockopt K fd opt' k' = k_getsockopt K fd opt' k)"

definition reuse_reads_back :: "'k kernel \<Rightarrow> bool" where
  "reuse_reads_back K \<longleftrightarrow>
     (\<forall>fd k k'. k_setsockopt K fd SO_REUSEADDR (IntVal 1) k = Some k' \<longrightarrow>
        (\<exists>v. get_int K fd SO_REUSEADDR k' = Some v \<and> v \<noteq> 0))"

definition adjusted :: "sockopt set" where
  "adjusted = {SO_RCVBUF, SO_SNDBUF, TCP_MAXSEG}"

definition names_keep_options :: "'k kernel \<Rightarrow> bool" where
  "names_keep_options K \<longleftrightarrow>
     (\<forall>fd a k k' opt. (k_connect K fd a k = Some k' \<or> k_bind K fd a k = Some k') \<and> opt \<notin> adjusted \<longrightarrow>
        k_getsockopt K fd opt k' = k_getsockopt K fd opt k)"

definition malloc_sized :: "'k kernel \<Rightarrow> bool" where
  "malloc_sized K \<longleftrightarrow> (\<forall>n k b k'. k_malloc K n k = (Some b, k') \<longrightarrow> int (length b) = n)"

definition malloc_keeps_options :: "'k kernel \<Rightarrow> bool" where
  "malloc_keeps_options K \<longleftrightarrow>
     (\<forall>n k b k' fd opt. k_malloc K n k = (Some b, k') \<longrightarrow> k_getsockopt K fd opt k' = k_getsockopt K fd opt k)"

definition sync_keeps_options :: "'k kernel \<Rightarrow> bool" where
  "sync_keeps_options K \<longleftrightarrow>
     (\<forall>m k fd opt. k_getsockopt K fd opt (k_sync K m k) = k_getsockopt K fd opt k)"

definition kernel_laws :: "'k kernel \<Rightarrow> bool" where
  "kernel_laws K \<longleftrightarrow> options_independent K \<and> reuse_reads_back K \<and> names_keep_options K \<and>
     malloc_sized K \<and> malloc_keeps_options K \<and> sync_keeps_options K"

text \<open>One step of the set-up: at most the options in a set change, and the buffers stay.\<close>

definition same_bufs :: "'k prog \<Rightarrow> 'k prog \<Rightarrow> bool" where
  "same_bufs s s' \<longleftrightarrow> rbuf s' = rbuf s \<and> wbuf s' = wbuf s"

definition keeps :: "'k kernel \<Rightarrow> int \<Rightarrow> sockopt set \<Rightarrow> 'k prog \<Rightarrow> 'k prog \<Rightarrow> bool" where
  "keeps K fd S s s' \<longleftrightarrow> (\<forall>opt. opt \<notin> S \<longrightarrow> k_getsockopt K fd opt (kst s') = k_getsockopt K fd opt (kst s))"

definition only_opt :: "'k kernel \<Rightarrow> int \<Rightarrow> sockopt set \<Rightarrow> 'k prog \<Rightarrow> 'k prog \<Rightarrow> bool" where
  "only_opt K fd S s s' \<longleftrightarrow> rbuf s' = rbuf s \<and> wbuf s' = wbuf s \<and>
     (\<forall>opt. opt \<notin> S \<longrightarrow> k_getsockopt K fd opt (kst s') = k_getsockopt K fd opt (kst s))"

lemma only_opt_keeps: "only_opt K fd S s s' \<Longrightarrow> keeps K fd S s s'"
  by (simp add: only_opt_def keeps_def)

lemma keeps_trans: "keeps K fd S s1 s2 \<Longrightarrow> keeps K fd T s2 s3 \<Longrightarrow> keeps K fd (S \<union> T) s1 s3"
  by (simp add: keeps_def)

lemma only_opt_refl [simp]: "only_opt K fd S s s"
  by (simp add: only_opt_def)

lemma only_opt_trans: "only_opt K fd S s1 s2 \<Longrightarrow> only_opt K fd T s2 s3 \<Longrightarrow> only_opt K fd (S \<union> T) s1 s3"
  by (simp add: only_opt_def)

lemma only_opt_get_int: "only_opt K fd S s s' \<Longrightarrow> opt \<notin> S \<Longrightarrow> get_int K fd opt (kst s') = get_int K fd opt (kst s)"
  by (simp add: only_opt_def get_int_def)

lemma only_opt_get_linger: "only_opt K fd S s s' \<Longrightarrow> SO_LINGER \<notin> S \<Longrightarrow> get_linger K fd (kst s') = get_linger K fd (kst s)"
  by (simp add: only_opt_def get_linger_def)

lemma when_set_flag:
  assumes "options_independent K" and "whenr b (set_flag K fd opt nm) s = Inr s'"
  shows "only_opt K fd {opt} s s'" and "b \<Longrightarrow> \<exists>v. get_int K fd opt (kst s') = Some v \<and> v \<noteq> 0"
  using assms by (auto simp: whenr_def set_flag_def bindr_eq_Inr only_opt_def options_independent_def
      split: if_splits)

lemma when_set_bufsize:
  assumes "options_independent K" and "whenr b (set_bufsize K fd opt nm var len) s = Inr s'"
  shows "only_opt K fd {opt} s s'" and "b \<Longrightarrow> get_int K fd opt (kst s') = Some len"
  using assms by (auto simp: whenr_def set_bufsize_def bindr_eq_Inr only_opt_def options_independent_def
      split: if_splits)

lemma when_set_linger:
  assumes "options_independent K" and "whenr b (set_linger K g fd) s = Inr s'"
  shows "only_opt K fd {SO_LINGER} s s'"
    and "b \<Longrightarrow> \<exists>onoff. get_linger K fd (kst s') = Some (onoff, linger g) \<and> onoff \<noteq> 0"
  using assms by (auto simp: whenr_def set_linger_def bindr_eq_Inr only_opt_def options_independent_def
      split: if_splits)

lemma when_show_mss: "whenr b (show_mss K fd) s = Inr s' \<Longrightarrow> s' = s"
  by (auto simp: whenr_def show_mss_def bindr_eq_Inr split: if_splits)

text \<open>The options a configuration asks for, as they read back from the socket.\<close>

definition options_set :: "'k kernel \<Rightarrow> config \<Rightarrow> int \<Rightarrow> 'k \<Rightarrow> bool" where
  "options_set K g fd k \<longleftrightarrow>
     (debug g \<longrightarrow> (\<exists>v. get_int K fd SO_DEBUG k = Some v \<and> v \<noteq> 0)) \<and>
     (broadcast g \<longrightarrow> (\<exists>v. get_int K fd SO_BROADCAST k = Some v \<and> v \<noteq> 0)) \<and>
     (keepalive g \<and> \<not> udp g \<longrightarrow> (\<exists>v. get_int K fd SO_KEEPALIVE k = Some v \<and> v \<noteq> 0)) \<and>
     (nodelay g \<and> \<not> udp g \<longrightarrow> (\<exists>v. get_int K fd TCP_NODELAY k = Some v \<and> v \<noteq> 0)) \<and>
     (linger g \<ge> 0 \<and> \<not> udp g \<longrightarrow> (\<exists>v. get_linger K fd k = Some (v, linger g) \<and> v \<noteq> 0)) \<and>
     (recvdstaddr g \<and> udp g \<and> k_has_recvdstaddr K \<longrightarrow> (\<exists>v. get_int K fd IP_RECVDSTADDR k = Some v \<and> v \<noteq> 0))"

definition sockopts_touched :: "sockopt set" where
  "sockopts_touched = {SO_DEBUG, SO_BROADCAST, SO_KEEPALIVE, TCP_NODELAY, SO_LINGER, IP_RECVDSTADDR}"

lemma sockopts_steps:
  assumes K: "options_independent K" and "sockopts K g fd doall s = Inr s'"
  obtains s1 s2 s3 s4 s5 where
    "only_opt K fd {SO_DEBUG} s s1" "debug g \<longrightarrow> (\<exists>v. get_int K fd SO_DEBUG (kst s1) = Some v \<and> v \<noteq> 0)"
    "only_opt K fd {SO_BROADCAST} s1 s2"
    "broadcast g \<and> doall \<longrightarrow> (\<exists>v. get_int K fd SO_BROADCAST (kst s2) = Some v \<and> v \<noteq> 0)"
    "only_opt K fd {SO_KEEPALIVE} s2 s3"
    "keepalive g \<and> doall \<and> \<not> udp g \<longrightarrow> (\<exists>v. get_int K fd SO_KEEPALIVE (kst s3) = Some v \<and> v \<noteq> 0)"
    "only_opt K fd {TCP_NODELAY} s3 s4"
    "nodelay g \<and> doall \<and> \<not> udp g \<longrightarrow> (\<exists>v. get_int K fd TCP_NODELAY (kst s4) = Some v \<and> v \<noteq> 0)"
    "only_opt K fd {SO_LINGER} s4 s5"
    "linger g \<ge> 0 \<and> doall \<and> \<not> udp g \<longrightarrow> (\<exists>v. get_linger K fd (kst s5) = Some (v, linger g) \<and> v \<noteq> 0)"
    "only_opt K fd {IP_RECVDSTADDR} s5 s'"
    "recvdstaddr g \<and> udp g \<and> k_has_recvdstaddr K \<longrightarrow>
       (\<exists>v. get_int K fd IP_RECVDSTADDR (kst s') = Some v \<and> v \<noteq> 0)"
proof -
  obtain s1 s2 s3 s4 s5 where
      "whenr (debug g) (set_flag K fd SO_DEBUG ''SO_DEBUG'') s = Inr s1"
      "whenr (broadcast g \<and> doall) (set_flag K fd SO_BROADCAST ''SO_BROADCAST'') s1 = Inr s2"
      "whenr (keepalive g \<and> doall \<and> \<not> udp g) (set_flag K fd SO_KEEPALIVE ''SO_KEEPALIVE'') s2 = Inr s3"
      "whenr (nodelay g \<and> doall \<and> \<not> udp g) (set_flag K fd TCP_NODELAY ''TCP_NODELAY'') s3 = Inr s4"
      "whenr (linger g \<ge> 0 \<and> doall \<and> \<not> udp g) (set_linger K g fd) s4 = Inr s5"
      "whenr (recvdstaddr g \<and> udp g \<and> k_has_recvdstaddr K) (set_flag K fd IP_RECVDSTADDR ''IP_RECVDSTADDR'') s5 = Inr s'"
    using assms(2) unfolding sockopts_def bindr_eq_Inr by (metis when_show_mss)
  note steps = this
  show ?thesis
    by (rule that [OF when_set_flag(1) [OF K steps(1)] _ when_set_flag(1) [OF K steps(2)] _
          when_set_flag(1) [OF K steps(3)] _ when_set_flag(1) [OF K steps(4)] _
          when_set_linger(1) [OF K steps(5)] _ when_set_flag(1) [OF K steps(6)]])
      (use when_set_flag(2) [OF K steps(1)] when_set_flag(2) [OF K steps(2)] when_set_flag(2) [OF K steps(3)]
        when_set_flag(2) [OF K steps(4)] when_set_linger(2) [OF K steps(5)] when_set_flag(2) [OF K steps(6)] in blast)+
qed

lemma sockopts_Inr:
  assumes K: "options_independent K" and "sockopts K g fd doall s = Inr s'"
  shows "only_opt K fd sockopts_touched s s'" and "doall \<Longrightarrow> options_set K g fd (kst s')"
proof -
  obtain s1 s2 s3 s4 s5 where st:
    "only_opt K fd {SO_DEBUG} s s1" "debug g \<longrightarrow> (\<exists>v. get_int K fd SO_DEBUG (kst s1) = Some v \<and> v \<noteq> 0)"
    "only_opt K fd {SO_BROADCAST} s1 s2"
    "broadcast g \<and> doall \<longrightarrow> (\<exists>v. get_int K fd SO_BROADCAST (kst s2) = Some v \<and> v \<noteq> 0)"
    "only_opt K fd {SO_KEEPALIVE} s2 s3"
    "keepalive g \<and> doall \<and> \<not> udp g \<longrightarrow> (\<exists>v. get_int K fd SO_KEEPALIVE (kst s3) = Some v \<and> v \<noteq> 0)"
    "only_opt K fd {TCP_NODELAY} s3 s4"
    "nodelay g \<and> doall \<and> \<not> udp g \<longrightarrow> (\<exists>v. get_int K fd TCP_NODELAY (kst s4) = Some v \<and> v \<noteq> 0)"
    "only_opt K fd {SO_LINGER} s4 s5"
    "linger g \<ge> 0 \<and> doall \<and> \<not> udp g \<longrightarrow> (\<exists>v. get_linger K fd (kst s5) = Some (v, linger g) \<and> v \<noteq> 0)"
    "only_opt K fd {IP_RECVDSTADDR} s5 s'"
    "recvdstaddr g \<and> udp g \<and> k_has_recvdstaddr K \<longrightarrow>
       (\<exists>v. get_int K fd IP_RECVDSTADDR (kst s') = Some v \<and> v \<noteq> 0)"
    by (rule sockopts_steps [OF assms])
  show "only_opt K fd sockopts_touched s s'"
    using st(1,3,5,7,9,11) by (simp add: only_opt_def sockopts_touched_def)
  assume "doall"
  then show "options_set K g fd (kst s')"
    using st by (simp add: options_set_def only_opt_def get_int_def get_linger_def)
qed

definition bufs_ok :: "config \<Rightarrow> 'k prog \<Rightarrow> bool" where
  "bufs_ok g s \<longleftrightarrow> (\<forall>b. rbuf s = Some b \<longrightarrow> int (length b) = readlen g) \<and>
     (\<forall>b. wbuf s = Some b \<longrightarrow> int (length b) = writelen g)"

definition bufs_ready :: "config \<Rightarrow> 'k prog \<Rightarrow> bool" where
  "bufs_ready g s \<longleftrightarrow> bufs_ok g s \<and> rbuf s \<noteq> None \<and> wbuf s \<noteq> None"

definition bufsizes_set :: "'k kernel \<Rightarrow> config \<Rightarrow> int \<Rightarrow> 'k \<Rightarrow> bool" where
  "bufsizes_set K g fd k \<longleftrightarrow>
     (rcvbuflen g \<noteq> 0 \<longrightarrow> get_int K fd SO_RCVBUF k = Some (rcvbuflen g)) \<and>
     (sndbuflen g \<noteq> 0 \<longrightarrow> get_int K fd SO_SNDBUF k = Some (sndbuflen g))"

text \<open>\<^verbatim>\<open>SO_REUSEADDR\<close>, when asked for.\<close>

definition reuse_set :: "'k kernel \<Rightarrow> config \<Rightarrow> int \<Rightarrow> 'k \<Rightarrow> bool" where
  "reuse_set K g fd k \<longleftrightarrow> (reuseaddr g \<longrightarrow> (\<exists>v. get_int K fd SO_REUSEADDR k = Some v \<and> v \<noteq> 0))"

text \<open>The state of the kernel in which a socket made in state \<open>k\<close> is bound.\<close>

definition before_bind :: "'k kernel \<Rightarrow> config \<Rightarrow> 'k \<Rightarrow> int \<Rightarrow> 'k \<Rightarrow> bool" where
  "before_bind K g k fd k1 \<longleftrightarrow>
     (\<exists>k0. k_socket K (udp g) k = Some (fd, k0) \<and>
        (if reuseaddr g then k_setsockopt K fd SO_REUSEADDR (IntVal 1) k0 = Some k1 else k1 = k0)) \<and>
     reuse_set K g fd k1"

lemma before_bind_run:
  assumes "reuse_reads_back K" "k_socket K (udp g) (kst s) = Some (fd, k0)"
    and "whenr (reuseaddr g) (set_reuseaddr K fd) (s\<lparr>kst := k0\<rparr>) = Inr s1"
  shows "before_bind K g (kst s) fd (kst s1)"
  using assms by (auto simp: before_bind_def reuse_set_def reuse_reads_back_def whenr_def set_reuseaddr_def bindr_eq_Inr
      split: if_splits)

lemma keeps_get_int: "keeps K fd S s s' \<Longrightarrow> opt \<notin> S \<Longrightarrow> get_int K fd opt (kst s') = get_int K fd opt (kst s)"
  by (simp add: keeps_def get_int_def)

lemma keeps_reuse:
  "keeps K fd S s s' \<Longrightarrow> SO_REUSEADDR \<notin> S \<Longrightarrow> reuse_set K g fd (kst s) \<Longrightarrow> reuse_set K g fd (kst s')"
  by (simp add: reuse_set_def keeps_get_int)

lemma keeps_bufsizes:
  "keeps K fd S s s' \<Longrightarrow> S \<inter> {SO_RCVBUF, SO_SNDBUF} = {} \<Longrightarrow> bufsizes_set K g fd (kst s) \<Longrightarrow> bufsizes_set K g fd (kst s')"
  unfolding bufsizes_set_def using keeps_get_int [of K fd S s s'] by fastforce

lemma set_reuseaddr_sets:
  "reuse_reads_back K \<Longrightarrow> whenr (reuseaddr g) (set_reuseaddr K fd) s = Inr s' \<Longrightarrow> reuse_set K g fd (kst s')"
  by (auto simp: whenr_def set_reuseaddr_def bindr_eq_Inr reuse_set_def reuse_reads_back_def split: if_splits)

text \<open>What the steps do with the buffers, on any kernel.\<close>

lemma same_bufs_refl [simp]: "same_bufs s s" "same_bufs s (s'\<lparr>kst := k\<rparr>) = same_bufs s s'" "same_bufs (s\<lparr>kst := k\<rparr>) s' = same_bufs s s'"
  by (simp_all add: same_bufs_def)

lemma same_bufs_trans: "same_bufs a b \<Longrightarrow> same_bufs b c \<Longrightarrow> same_bufs a c"
  by (simp add: same_bufs_def)

lemma same_bufs_ok: "same_bufs s s' \<Longrightarrow> bufs_ok g s' = bufs_ok g s" "same_bufs s s' \<Longrightarrow> bufs_ready g s' = bufs_ready g s"
  by (simp_all add: same_bufs_def bufs_ok_def bufs_ready_def)

lemma bufs_ok_kst [simp]: "bufs_ok g (s\<lparr>kst := k\<rparr>) = bufs_ok g s" "bufs_ready g (s\<lparr>kst := k\<rparr>) = bufs_ready g s"
  by (simp_all add: bufs_ok_def bufs_ready_def)

lemma when_getsockname: "whenr b (do_getsockname K fd) s = Inr s' \<Longrightarrow> s' = s"
  by (auto simp: whenr_def do_getsockname_def bindr_eq_Inr split: if_splits)

lemma same_bufs_steps:
  "whenr b (set_flag K fd opt nm) s = Inr s' \<Longrightarrow> same_bufs s s'"
  "whenr b (set_bufsize K fd opt nm var len) s = Inr s' \<Longrightarrow> same_bufs s s'"
  "whenr b (set_linger K g fd) s = Inr s' \<Longrightarrow> same_bufs s s'"
  "whenr b (show_mss K fd) s = Inr s' \<Longrightarrow> same_bufs s s'"
  "whenr b (set_reuseaddr K fd) s = Inr s' \<Longrightarrow> same_bufs s s'"
  "whenr b (do_bind K msg fd a) s = Inr s' \<Longrightarrow> same_bufs s s'"
  "whenr b (do_connect K fd a) s = Inr s' \<Longrightarrow> same_bufs s s'"
  "do_bind K msg fd a s = Inr s' \<Longrightarrow> same_bufs s s'"
  "do_connect K fd a s = Inr s' \<Longrightarrow> same_bufs s s'"
  by (auto simp: whenr_def set_flag_def set_bufsize_def set_linger_def show_mss_def set_reuseaddr_def do_bind_def
      do_connect_def bindr_eq_Inr split: if_splits)

lemma sockopts_bufs:
  assumes "sockopts K g fd d s = Inr s'"
  shows "same_bufs s s'"
proof -
  obtain s1 s2 s3 s4 s5 s6 where st: "whenr (debug g) (set_flag K fd SO_DEBUG ''SO_DEBUG'') s = Inr s1"
      "whenr (broadcast g \<and> d) (set_flag K fd SO_BROADCAST ''SO_BROADCAST'') s1 = Inr s2"
      "whenr (keepalive g \<and> d \<and> \<not> udp g) (set_flag K fd SO_KEEPALIVE ''SO_KEEPALIVE'') s2 = Inr s3"
      "whenr (nodelay g \<and> d \<and> \<not> udp g) (set_flag K fd TCP_NODELAY ''TCP_NODELAY'') s3 = Inr s4"
      "whenr (d \<and> verbose g \<and> \<not> udp g) (show_mss K fd) s4 = Inr s5"
      "whenr (linger g \<ge> 0 \<and> d \<and> \<not> udp g) (set_linger K g fd) s5 = Inr s6"
      "whenr (recvdstaddr g \<and> udp g \<and> k_has_recvdstaddr K) (set_flag K fd IP_RECVDSTADDR ''IP_RECVDSTADDR'') s6 = Inr s'"
    using assms unfolding sockopts_def bindr_eq_Inr by blast
  have "same_bufs s s4"
    using same_bufs_steps(1) [OF st(1)] same_bufs_steps(1) [OF st(2)] same_bufs_steps(1) [OF st(3)] same_bufs_steps(1) [OF st(4)]
    by (simp add: same_bufs_def)
  then show ?thesis
    using same_bufs_steps(4) [OF st(5)] same_bufs_steps(3) [OF st(6)] same_bufs_steps(1) [OF st(7)] by (simp add: same_bufs_def)
qed

lemma malloc_sizedD: "malloc_sized K \<Longrightarrow> k_malloc K n k = (Some b, k') \<Longrightarrow> int (length b) = n"
  by (auto simp: malloc_sized_def)

lemma alloc_bufs:
  assumes "malloc_sized K" and "bufs_ok g s" and "alloc_rbuf K g s = Inr s1" and "alloc_wbuf K g s1 = Inr s2"
  shows "bufs_ready g s2"
  using assms(2-) by (auto simp: alloc_rbuf_def alloc_wbuf_def bufs_ready_def bufs_ok_def
      dest: malloc_sizedD [OF assms(1)] split: if_splits prod.splits option.splits)

lemma alloc_keeps:
  assumes "malloc_keeps_options K"
  shows "alloc_rbuf K g s = Inr s1 \<Longrightarrow> keeps K fd {} s s1" and "alloc_wbuf K g s = Inr s1 \<Longrightarrow> keeps K fd {} s s1"
  using assms by (auto simp: alloc_rbuf_def alloc_wbuf_def keeps_def malloc_keeps_options_def
      split: if_splits prod.splits option.splits)

lemma buffers_ready:
  assumes "malloc_sized K" and "buffers K g fd s = Inr s'" and "bufs_ok g s"
  shows "bufs_ready g s'"
proof -
  obtain s1 s2 s3 where st: "alloc_rbuf K g s = Inr s1" "alloc_wbuf K g s1 = Inr s2"
      "whenr (rcvbuflen g \<noteq> 0) (set_bufsize K fd SO_RCVBUF ''SO_RCVBUF'' ''rcvbuflen'' (rcvbuflen g)) s2 = Inr s3"
      "whenr (sndbuflen g \<noteq> 0) (set_bufsize K fd SO_SNDBUF ''SO_SNDBUF'' ''sndbuflen'' (sndbuflen g)) s3 = Inr s'"
    using assms(2) unfolding buffers_def bindr_eq_Inr by blast
  show ?thesis
    using alloc_bufs [OF assms(1,3) st(1,2)] same_bufs_steps(2) [OF st(3)] same_bufs_steps(2) [OF st(4)]
    by (simp add: same_bufs_ok(2))
qed

lemma buffers_sets:
  assumes "options_independent K" "malloc_keeps_options K" and "buffers K g fd s = Inr s'"
  shows "bufsizes_set K g fd (kst s')" and "keeps K fd {SO_RCVBUF, SO_SNDBUF} s s'"
proof -
  obtain s1 s2 s3 where st: "alloc_rbuf K g s = Inr s1" "alloc_wbuf K g s1 = Inr s2"
      "whenr (rcvbuflen g \<noteq> 0) (set_bufsize K fd SO_RCVBUF ''SO_RCVBUF'' ''rcvbuflen'' (rcvbuflen g)) s2 = Inr s3"
      "whenr (sndbuflen g \<noteq> 0) (set_bufsize K fd SO_SNDBUF ''SO_SNDBUF'' ''sndbuflen'' (sndbuflen g)) s3 = Inr s'"
    using assms(3) unfolding buffers_def bindr_eq_Inr by blast
  note r = when_set_bufsize [OF assms(1) st(3)] and w = when_set_bufsize [OF assms(1) st(4)]
  show "bufsizes_set K g fd (kst s')"
    using r(2) w by (simp add: bufsizes_set_def only_opt_get_int)
  show "keeps K fd {SO_RCVBUF, SO_SNDBUF} s s'"
    using alloc_keeps [OF assms(2)] st(1,2) r(1) w(1) unfolding keeps_def only_opt_def by simp
qed

lemma names_keepD:
  "names_keep_options K \<Longrightarrow> k_connect K fd a k = Some k' \<Longrightarrow> opt \<notin> adjusted \<Longrightarrow> k_getsockopt K fd opt k' = k_getsockopt K fd opt k"
  "names_keep_options K \<Longrightarrow> k_bind K fd a k = Some k' \<Longrightarrow> opt \<notin> adjusted \<Longrightarrow> k_getsockopt K fd opt k' = k_getsockopt K fd opt k"
  unfolding names_keep_options_def by blast+

lemma names_keep:
  assumes "names_keep_options K"
  shows "do_connect K fd a s = Inr s' \<Longrightarrow> keeps K fd adjusted s s'"
    and "do_bind K msg fd a s = Inr s' \<Longrightarrow> keeps K fd adjusted s s'"
    and "whenr b (do_bind K msg fd a) s = Inr s' \<Longrightarrow> keeps K fd adjusted s s'"
  by (auto simp: do_connect_def do_bind_def whenr_def bindr_eq_Inr keeps_def names_keepD [OF assms] split: if_splits)

lemma cliopen_ready:
  assumes "malloc_sized K" and "bufs_ok g s" and "cliopen K g host port s = Inr (fd, s')"
  shows "bufs_ready g s'"
proof -
  obtain a p k s1 s2 s3 s4 s5 s6 where st: "whenr (reuseaddr g) (set_reuseaddr K fd) (s\<lparr>kst := k\<rparr>) = Inr s1"
      "whenr (bindport g \<noteq> 0 \<or> udp g)
        (do_bind K ''bind() error'' fd \<lparr>sin_addr = 0, sin_port = word_of_int (bindport g)\<rparr>) s1 = Inr s2"
      "buffers K g fd s2 = Inr s3" "sockopts K g fd False s3 = Inr s4"
      "do_connect K fd \<lparr>sin_addr = a, sin_port = p\<rparr> s4 = Inr s5"
      "whenr (verbose g) (do_getsockname K fd) s5 = Inr s6" "sockopts K g fd True s6 = Inr s'"
    using assms(3) unfolding cliopen_def bindr_eq_Inr by (auto simp: bindr_eq_Inr split: prod.splits)
  have "bufs_ok g s2"
    using same_bufs_ok(1) [OF same_bufs_steps(5) [OF st(1)]] same_bufs_ok(1) [OF same_bufs_steps(6) [OF st(2)]] assms(2) by simp
  then have "bufs_ready g s3"
    by (rule buffers_ready [OF assms(1) st(3)])
  then show ?thesis
    using same_bufs_ok(2) [OF sockopts_bufs [OF st(4)]] same_bufs_ok(2) [OF same_bufs_steps(9) [OF st(5)]]
      when_getsockname [OF st(6)] same_bufs_ok(2) [OF sockopts_bufs [OF st(7)]] by simp
qed

lemma touched_disjoint:
  "SO_REUSEADDR \<notin> sockopts_touched" "sockopts_touched \<inter> {SO_RCVBUF, SO_SNDBUF} = {}" "SO_REUSEADDR \<notin> adjusted"
  by (auto simp: sockopts_touched_def adjusted_def)

text \<open>C23. A client that gets its socket open has, on any kernel with the laws above, read and write
  buffers of exactly the lengths the data path uses, and every option of the command line reads back from
  the socket as requested, \<^verbatim>\<open>SO_REUSEADDR\<close> included.  It is connected to the address and port that
  the operands resolve to, by a call of \<^verbatim>\<open>connect\<close> made with the requested socket buffer sizes in force, and where
  a local port was asked for or with UDP, it was bound to it right after its creation and with
  \<^verbatim>\<open>SO_REUSEADDR\<close> already in force.\<close>

theorem cliopen_opened:
  assumes "kernel_laws K" and "bufs_ok g s" and "cliopen K g host port s = Inr (fd, s')"
  shows "bufs_ready g s' \<and> options_set K g fd (kst s') \<and> reuse_set K g fd (kst s') \<and>
    (\<exists>a p k1 k2. cli_addr K host (kst s) = Inr a \<and> cli_port K g port (kst s) = Inr p \<and>
       k_connect K fd \<lparr>sin_addr = a, sin_port = p\<rparr> k1 = Some k2 \<and> bufsizes_set K g fd k1) \<and>
    (bindport g \<noteq> 0 \<or> udp g \<longrightarrow>
      (\<exists>k1 k2. k_bind K fd \<lparr>sin_addr = 0, sin_port = word_of_int (bindport g)\<rparr> k1 = Some k2 \<and> before_bind K g (kst s) fd k1))"
proof -
  have K: "options_independent K" "reuse_reads_back K" "names_keep_options K" "malloc_sized K" "malloc_keeps_options K"
    using assms(1) by (auto simp: kernel_laws_def)
  obtain a p k s1 s2 s3 s4 s5 s6 where st: "whenr (reuseaddr g) (set_reuseaddr K fd) (s\<lparr>kst := k\<rparr>) = Inr s1"
      "whenr (bindport g \<noteq> 0 \<or> udp g)
        (do_bind K ''bind() error'' fd \<lparr>sin_addr = 0, sin_port = word_of_int (bindport g)\<rparr>) s1 = Inr s2"
      "buffers K g fd s2 = Inr s3" "sockopts K g fd False s3 = Inr s4"
      "do_connect K fd \<lparr>sin_addr = a, sin_port = p\<rparr> s4 = Inr s5"
      "whenr (verbose g) (do_getsockname K fd) s5 = Inr s6" "sockopts K g fd True s6 = Inr s'"
    and ap: "cli_addr K host (kst s) = Inr a" "cli_port K g port (kst s) = Inr p" "k_socket K (udp g) (kst s) = Some (fd, k)"
    using assms(3) unfolding cliopen_def bindr_eq_Inr by (auto simp: bindr_eq_Inr split: prod.splits)
  note r1 = set_reuseaddr_sets [OF K(2) st(1)]
  note r2 = keeps_reuse [OF names_keep(3) [OF K(3) st(2)] touched_disjoint(3) r1]
  note b3 = buffers_sets [OF K(1,5) st(3)]
  note r3 = keeps_reuse [OF b3(2) _ r2]
  note so4 = sockopts_Inr [OF K(1) st(4)] and so7 = sockopts_Inr [OF K(1) st(7)]
  note r4 = keeps_reuse [OF only_opt_keeps [OF so4(1)] touched_disjoint(1)]
  note r5 = keeps_reuse [OF names_keep(1) [OF K(3) st(5)] touched_disjoint(3)]
  note r7 = keeps_reuse [OF only_opt_keeps [OF so7(1)] touched_disjoint(1)]
  have "reuse_set K g fd (kst s')"
    using r7 r5 r4 r3 when_getsockname [OF st(6)] by simp
  moreover have "bufsizes_set K g fd (kst s4)"
    by (rule keeps_bufsizes [OF only_opt_keeps [OF so4(1)] touched_disjoint(2) b3(1)])
  moreover have "\<exists>k2. k_connect K fd \<lparr>sin_addr = a, sin_port = p\<rparr> (kst s4) = Some k2"
    using st(5) by (auto simp: do_connect_def bindr_eq_Inr)
  moreover have "bindport g \<noteq> 0 \<or> udp g \<Longrightarrow>
      \<exists>k2. k_bind K fd \<lparr>sin_addr = 0, sin_port = word_of_int (bindport g)\<rparr> (kst s1) = Some k2"
    using st(2) by (auto simp: whenr_def do_bind_def bindr_eq_Inr)
  ultimately show ?thesis
    using cliopen_ready [OF K(4) assms(2,3)] so7(2) before_bind_run [OF K(2) ap(3) st(1)] ap by blast
qed

text \<open>A kernel for concrete runs: options are stored and read back, every call succeeds, the only
  service known is echo and fork always makes this process the child.\<close>

definition plain_kernel :: "(int \<times> sockopt \<Rightarrow> optval option) kernel" where
  "plain_kernel = \<lparr>
     k_malloc = (\<lambda>n k. if 0 \<le> n then (Some (replicate (nat n) CHR 0x00), k) else (None, k)),
     k_setsockopt = (\<lambda>fd opt v k. Some (k((fd, opt) := Some v))),
     k_getsockopt = (\<lambda>fd opt k. k (fd, opt)),
     k_has_recvdstaddr = True,
     k_getservbyname = (\<lambda>nm proto k. if nm = ''echo'' then Some 7 else None),
     k_inet_addr = (\<lambda>h. if h = ''127.0.0.1'' then 0x7F000001 else INADDR_NONE),
     k_gethostbyname = (\<lambda>h k. None),
     k_socket = (\<lambda>u k. Some (3, k)),
     k_bind = (\<lambda>fd a k. Some k),
     k_connect = (\<lambda>fd a k. Some k),
     k_listen = (\<lambda>fd n k. k),
     k_accept = (\<lambda>fd k. Some (4, k)),
     k_getsockname = (\<lambda>fd k. Some \<lparr>sin_addr = 0x7F000001, sin_port = 1024\<rparr>),
     k_fork = (\<lambda>k. Some (0, k)),
     k_close = (\<lambda>fd k. Some k),
     k_sleep = (\<lambda>n k. k),
     k_sync = (\<lambda>m k. k)\<rparr>"

lemma plain_kernel_laws: "kernel_laws plain_kernel"
  by (auto simp: kernel_laws_def options_independent_def reuse_reads_back_def names_keep_options_def malloc_sized_def
      malloc_keeps_options_def sync_keeps_options_def get_int_def plain_kernel_def split: if_splits)

definition start :: "(int \<times> sockopt \<Rightarrow> optval option) prog" where
  "start = \<lparr>kst = (\<lambda>_. None), rbuf = None, wbuf = None\<rparr>"

lemma bufs_ok_start: "bufs_ok g start"
  by (simp add: bufs_ok_def start_def)

lemmas open_defs = cli_port_def cli_addr_def serv_addr_def serv_port_def atoi_def decimal_def is_space_def is_digit_def
  whenr_def or_sys_def or_quit_def buffers_def alloc_rbuf_def alloc_wbuf_def sockopts_def set_flag_def
  set_linger_def show_mss_def do_connect_def do_bind_def set_reuseaddr_def do_getsockname_def get_int_def
  INADDR_NONE_def

theorem cliopen_opened_witness:
  "\<exists>s. cliopen plain_kernel (globals\<lparr>nodelay := True, reuseaddr := True\<rparr>) ''127.0.0.1'' ''echo'' start = Inr (3, s) \<and>
     (\<exists>v. get_int plain_kernel 3 TCP_NODELAY (kst s) = Some v \<and> v \<noteq> 0) \<and>
     (\<exists>v. get_int plain_kernel 3 SO_REUSEADDR (kst s) = Some v \<and> v \<noteq> 0)"
proof -
  let ?g = "globals\<lparr>nodelay := True, reuseaddr := True\<rparr>"
  obtain s where s: "cliopen plain_kernel ?g ''127.0.0.1'' ''echo'' start = Inr (3, s)"
    by (simp add: cliopen_def open_defs plain_kernel_def globals_def start_def)
  show ?thesis
    using s cliopen_opened [OF plain_kernel_laws bufs_ok_start s]
    by (auto simp: options_set_def reuse_set_def globals_def)
qed

text \<open>The server's side: what it makes of the sockets it serves.\<close>

lemma serve_connection_opened:
  assumes K: "kernel_laws K" and "bufs_ok g s" and "serve_connection K g fd s = Inr (fd', s')"
  shows "bufs_ready g s' \<and> options_set K g fd' (kst s') \<and> bufsizes_set K g fd' (kst s')"
proof -
  have K': "options_independent K" "malloc_sized K" "malloc_keeps_options K" "sync_keeps_options K"
    using K by (auto simp: kernel_laws_def)
  obtain s1 s2 s3 where st: "whenr (verbose g) (do_getsockname K fd) s = Inr s1" "buffers K g fd s1 = Inr s2"
      "sockopts K g fd True s2 = Inr s3" and r: "fd' = fd"
      "s' = (if dofork g then s3\<lparr>kst := k_sync K ''TELL_PARENT'' (kst s3)\<rparr> else s3)"
    using assms(3) unfolding serve_connection_def bindr_eq_Inr by auto
  have "bufs_ready g s2"
    using buffers_ready [OF K'(2) st(2)] when_getsockname [OF st(1)] assms(2) by simp
  then have "bufs_ready g s3"
    using same_bufs_ok(2) [OF sockopts_bufs [OF st(3)]] by simp
  moreover have "options_set K g fd (kst s3)"
    using sockopts_Inr(2) [OF K'(1) st(3)] by simp
  moreover have "bufsizes_set K g fd (kst s3)"
    using keeps_bufsizes [OF only_opt_keeps [OF sockopts_Inr(1) [OF K'(1) st(3)]] touched_disjoint(2)]
      buffers_sets(1) [OF K'(1,3) st(2)] by blast
  ultimately show ?thesis
    using r K'(4) by (auto simp: options_set_def bufsizes_set_def get_int_def get_linger_def sync_keeps_options_def)
qed

lemma accept_loop_opened:
  assumes K: "kernel_laws K" and "bufs_ok g s" and "accept_loop n K g fd s = Inr (Some (fd', s'))"
  shows "bufs_ready g s' \<and> options_set K g fd' (kst s') \<and> bufsizes_set K g fd' (kst s')"
  using assms(2,3)
proof (induction n arbitrary: s)
  case (Suc n)
  have serve: "bufs_ready g s' \<and> options_set K g fd' (kst s') \<and> bufsizes_set K g fd' (kst s')"
    if "serve_connection K g a (s\<lparr>kst := k\<rparr>) = Inr (fd', s')" for a k
    using serve_connection_opened [OF K _ that] Suc.prems(1) by simp
  have again: "bufs_ready g s' \<and> options_set K g fd' (kst s') \<and> bufsizes_set K g fd' (kst s')"
    if "accept_loop n K g fd (s\<lparr>kst := k\<rparr>) = Inr (Some (fd', s'))" for k
    using Suc.IH [OF _ that] Suc.prems(1) by simp
  show ?case
    using Suc.prems(2) serve again by (auto simp: bindr_eq_Inr split: if_splits)
qed simp

text \<open>A datagram socket whose peer was given is connected to it with its buffer sizes in force.\<close>

definition connected_peer :: "'k kernel \<Rightarrow> config \<Rightarrow> int \<Rightarrow> bool" where
  "connected_peer K g fd \<longleftrightarrow>
     (\<exists>k1 k2. k_connect K fd \<lparr>sin_addr = k_inet_addr K (foreignip g), sin_port = word_of_int (foreignport g)\<rparr> k1 = Some k2 \<and>
        bufsizes_set K g fd k1)"

lemma udp_server_opened:
  assumes K: "kernel_laws K" and "bufs_ok g s" and "reuse_set K g fd (kst s)" and "udp_server K g fd s = Inr (fd', s')"
  shows "fd' = fd \<and> bufs_ready g s' \<and> options_set K g fd (kst s') \<and> reuse_set K g fd (kst s') \<and>
    (if foreignip g = '''' then bufsizes_set K g fd (kst s') else connected_peer K g fd)"
proof -
  have K': "options_independent K" "malloc_sized K" "malloc_keeps_options K" "names_keep_options K"
    using K by (auto simp: kernel_laws_def)
  let ?a = "\<lparr>sin_addr = k_inet_addr K (foreignip g), sin_port = word_of_int (foreignport g)\<rparr>"
  obtain s1 s2 where st: "buffers K g fd s = Inr s1" "whenr (foreignip g \<noteq> '''') (do_connect K fd ?a) s1 = Inr s2"
      "sockopts K g fd True s2 = Inr s'" "fd' = fd"
    using assms(4) unfolding udp_server_def bindr_eq_Inr by auto
  note b = buffers_sets [OF K'(1,3) st(1)]
  note so = sockopts_Inr [OF K'(1) st(3)]
  have k2: "keeps K fd adjusted s1 s2" using st(2) names_keep(1) [OF K'(4)] by (auto simp: whenr_def keeps_def split: if_splits)
  have "reuse_set K g fd (kst s1)" by (rule keeps_reuse [OF b(2) _ assms(3)]) simp
  then have "reuse_set K g fd (kst s2)" by (rule keeps_reuse [OF k2 touched_disjoint(3)])
  then have "reuse_set K g fd (kst s')" by (rule keeps_reuse [OF only_opt_keeps [OF so(1)] touched_disjoint(1)])
  moreover have "bufsizes_set K g fd (kst s')" if "foreignip g = ''''"
    using that st(2) b(1) keeps_bufsizes [OF only_opt_keeps [OF so(1)] touched_disjoint(2)] by (simp add: whenr_def)
  moreover have "connected_peer K g fd" if "foreignip g \<noteq> ''''"
    using that st(2) b(1) by (auto simp: whenr_def do_connect_def bindr_eq_Inr connected_peer_def)
  moreover have "bufs_ready g s'"
    using buffers_ready [OF K'(2) st(1) assms(2)] same_bufs_ok(2) [OF same_bufs_steps(7) [OF st(2)]]
      same_bufs_ok(2) [OF sockopts_bufs [OF st(3)]] by simp
  ultimately show ?thesis using so(2) st(4) by simp
qed

lemma start_listening_bufs: "bufs_ok g (start_listening K g fd s) = bufs_ok g s"
  by (simp add: start_listening_def pause_if_def Let_def)

text \<open>C24. On any kernel with the laws above, a server first binds its own socket to the address and port
  that its operands resolve to, with \<^verbatim>\<open>SO_REUSEADDR\<close> in force if asked for.  Whatever socket it then ends up serving,
  the datagram socket itself or a connection it accepted, alone or in a child after any
  number of connections handed to other children, that socket is fully set up: the buffers have the
  configured lengths and every option of \<^verbatim>\<open>sockopts.c\<close> that was requested is in force.  So are the requested socket
  buffer sizes; for a datagram socket with a given peer they are in force when it is connected to that peer.\<close>

theorem servopen_opened:
  assumes "kernel_laws K" and "bufs_ok g s" and "servopen fuel K g host port s = Inr (Some (fd, s'))"
  shows "bufs_ready g s' \<and> options_set K g fd (kst s') \<and>
    (\<exists>fd0 a p k1 k2. serv_addr K host = Inr a \<and> serv_port K g port (kst s) = Inr p \<and>
       k_bind K fd0 \<lparr>sin_addr = a, sin_port = p\<rparr> k1 = Some k2 \<and> before_bind K g (kst s) fd0 k1 \<and>
       (udp g \<longrightarrow> fd = fd0 \<and> reuse_set K g fd (kst s'))) \<and>
    (if udp g \<and> foreignip g \<noteq> '''' then connected_peer K g fd else bufsizes_set K g fd (kst s'))"
proof -
  have K: "options_independent K" "reuse_reads_back K" "names_keep_options K" "malloc_sized K"
    using assms(1) by (auto simp: kernel_laws_def)
  obtain a p k fd0 s1 s2 where st: "whenr (reuseaddr g) (set_reuseaddr K fd0) (s\<lparr>kst := k\<rparr>) = Inr s1"
      "do_bind K ''can't bind local address'' fd0 \<lparr>sin_addr = a, sin_port = p\<rparr> s1 = Inr s2"
      "serv_addr K host = Inr a" "serv_port K g port (kst s) = Inr p" "k_socket K (udp g) (kst s) = Some (fd0, k)"
    and rest: "(if udp g then bindr (udp_server K g fd0 s2) (\<lambda>r. Inr (Some r))
     else bindr (buffers K g fd0 s2) (\<lambda>s. bindr (sockopts K g fd0 False s) (\<lambda>s.
       accept_loop fuel K g fd0 (start_listening K g fd0 s)))) = Inr (Some (fd, s'))"
    using assms(3) unfolding servopen_def bindr_eq_Inr by (auto simp: bindr_eq_Inr split: prod.splits)
  have ok: "bufs_ok g s2"
    using same_bufs_ok(1) [OF same_bufs_steps(5) [OF st(1)]] same_bufs_ok(1) [OF same_bufs_steps(8) [OF st(2)]] assms(2) by simp
  have r1: "reuse_set K g fd0 (kst s1)" by (rule set_reuseaddr_sets [OF K(2) st(1)])
  note bb = before_bind_run [OF K(2) st(5,1)]
  have r2: "reuse_set K g fd0 (kst s2)" by (rule keeps_reuse [OF names_keep(2) [OF K(3) st(2)] touched_disjoint(3) r1])
  obtain k2 where bind: "k_bind K fd0 \<lparr>sin_addr = a, sin_port = p\<rparr> (kst s1) = Some k2"
    using st(2) by (auto simp: do_bind_def bindr_eq_Inr)
  show ?thesis
  proof (cases "udp g")
    case True
    then have "udp_server K g fd0 s2 = Inr (fd, s')" using rest by (auto simp: bindr_eq_Inr)
    from udp_server_opened [OF assms(1) ok r2 this] True bind bb st(3,4) show ?thesis by (auto split: if_splits)
  next
    case False
    then obtain s3 s4 where s: "buffers K g fd0 s2 = Inr s3" "sockopts K g fd0 False s3 = Inr s4"
        "accept_loop fuel K g fd0 (start_listening K g fd0 s4) = Inr (Some (fd, s'))"
      using rest by (auto simp: bindr_eq_Inr)
    have "bufs_ok g s3"
      using buffers_ready [OF K(4) s(1) ok] by (simp add: bufs_ready_def)
    then have "bufs_ok g (start_listening K g fd0 s4)"
      using same_bufs_ok(1) [OF sockopts_bufs [OF s(2)]] by (simp add: start_listening_bufs)
    from accept_loop_opened [OF assms(1) this s(3)] False bind bb st(3,4) show ?thesis by auto
  qed
qed

theorem servopen_opened_witness:
  "\<exists>s. servopen 1 plain_kernel (globals\<lparr>server := True, client := False, dofork := True, keepalive := True\<rparr>)
       None ''echo'' start = Inr (Some (4, s)) \<and>
     (\<exists>v. get_int plain_kernel 4 SO_KEEPALIVE (kst s) = Some v \<and> v \<noteq> 0)"
proof -
  let ?g = "globals\<lparr>server := True, client := False, dofork := True, keepalive := True\<rparr>"
  obtain s where s: "servopen 1 plain_kernel ?g None ''echo'' start = Inr (Some (4, s))"
    by (simp add: servopen_def serve_connection_def start_listening_def pause_if_def close_unchecked_def open_defs plain_kernel_def
        globals_def start_def)
  show ?thesis
    using s servopen_opened [OF plain_kernel_laws bufs_ok_start s]
    by (auto simp: options_set_def globals_def)
qed

text \<open>An unknown service name ends a client with a message, but sends a server through a null
  pointer, since it reports the error with a routine that returns.\<close>

theorem unknown_service:
  assumes "atoi port = Inr 0" and "k_getservbyname K port (protocol g) (kst s) = None"
  shows "cliopen K g host port s = Inl (Err_quit (''getservbyname() error for: '' @ port @ ''/'' @ protocol g)) \<and>
     servopen fuel K g None port s = Inl Undefined"
  using assms by (simp add: cliopen_def servopen_def cli_port_def serv_port_def serv_addr_def or_quit_def)

theorem unknown_service_witness:
  "cliopen plain_kernel globals ''127.0.0.1'' ''nosuch'' start = Inl (Err_quit ''getservbyname() error for: nosuch/tcp'') \<and>
   servopen 5 plain_kernel globals None ''nosuch'' start = Inl Undefined"
proof -
  have "atoi ''nosuch'' = Inr 0"
    by code_simp
  then show ?thesis
    using unknown_service [of "''nosuch''" plain_kernel globals start "''127.0.0.1''" 5]
    by (simp add: plain_kernel_def protocol_def globals_def)
qed

end
