(* ===== verification/Sock_Loop.thy ===== *)
theory Sock_Loop
  imports Sock_Setup
begin

text \<open>
  The two modes of \<^verbatim>\<open>tcpipi/sock\<close> once the socket is open: copying between the terminal and the socket
  (\<^verbatim>\<open>loop.c\<close>), and the source and sink of \<^verbatim>\<open>sourcesink.c\<close>; then \<^verbatim>\<open>main\<close> as a whole.  What the
  kernel reports is the input: for the copying loop one record per return of \<^verbatim>\<open>select\<close>, with the
  data that is there and the results of the calls made in that round.  The text the
  datagram server prints with \<^verbatim>\<open>printf\<close> is kept apart from what goes to standard output by \<^verbatim>\<open>write\<close>.
\<close>

section \<open>loop.c\<close>

datatype rd = RdErr | RdData string

record round =
  r_select_ok :: bool
  r_stdin :: "rd option"
  r_shutdown_ok :: bool
  r_sockwrite :: int
  r_sock :: "rd option"
  r_from :: string
  r_trunc :: bool
  r_out :: "int list"

record loopst =
  l_rbuf :: string
  l_wbuf :: string
  stdineof :: bool
  sent :: string
  out :: string
  printed :: string

datatype flow = Next loopst | Continue loopst | Break loopst

text \<open>\<^verbatim>\<open>read(fd, rbuf, readlen)\<close> with \<open>d\<close> waiting: the bytes that are read and the buffer afterwards.\<close>

definition read_into :: "string \<Rightarrow> int \<Rightarrow> string \<Rightarrow> (string \<times> string) run" where
  "read_into buf len d =
     (let got = take (nat len) d
      in if length got \<le> length buf then Inr (got, overlay 0 got buf) else Inl Undefined)"

text \<open>\<^verbatim>\<open>write(sockfd, buf, n)\<close> and the test of its result.\<close>

definition sock_write :: "round \<Rightarrow> string \<Rightarrow> int \<Rightarrow> loopst \<Rightarrow> loopst run" where
  "sock_write r buf n s =
     (if r_sockwrite r \<noteq> n then Inl (Err_sys ''write error'')
      else Inr (s\<lparr>sent := sent s @ take (nat n) buf\<rparr>))"

text \<open>\<^verbatim>\<open>writen(STDOUT_FILENO, buf, n)\<close> and the test of its result; a call outside the \<open>n\<close> bytes is undefined.\<close>

definition calls_inside :: "int \<Rightarrow> (u64 \<times> u64) list \<Rightarrow> bool" where
  "calls_inside n calls \<longleftrightarrow> list_all (\<lambda>c. uint (fst c) + uint (snd c) \<le> n) calls"

definition stdout_write :: "round \<Rightarrow> string \<Rightarrow> int \<Rightarrow> loopst \<Rightarrow> loopst run" where
  "stdout_write r buf n s =
     (case writen (r_out r) (word_of_int n) of
        None \<Rightarrow> Inl Blocked
      | Some (ret, calls) \<Rightarrow>
          if \<not> calls_inside n calls then Inl Undefined
          else if ret \<noteq> n then Inl (Err_sys ''writen error to stdout'')
          else Inr (s\<lparr>out := out s @ taken (take (nat n) buf) calls (r_out r)\<rparr>))"

definition from_stdin :: "config \<Rightarrow> round \<Rightarrow> loopst \<Rightarrow> flow run" where
  "from_stdin g r s =
     (case (if stdineof s then None else r_stdin r) of
        None \<Rightarrow> Inr (Next s)
      | Some RdErr \<Rightarrow> Inl (Err_sys ''read error from stdin'')
      | Some (RdData d) \<Rightarrow>
          bindr (read_into (l_rbuf s) (readlen g) d) (\<lambda>(got, rb).
          let s = s\<lparr>l_rbuf := rb\<rparr> in
          if got = [] then
            (if halfclose g then
               (if r_shutdown_ok r then Inr (Continue (s\<lparr>stdineof := True\<rparr>))
                else Inl (Err_sys ''shutdown() error''))
             else Inr (Break s))
          else if crlf g then
            bindr (crlf_add (l_wbuf s) (writelen g) got (int (length got))) (\<lambda>(n, wb).
            bindr (sock_write r wb n (s\<lparr>l_wbuf := wb\<rparr>)) (\<lambda>s. Inr (Next s)))
          else bindr (sock_write r rb (int (length got)) s) (\<lambda>s. Inr (Next s))))"

definition to_stdout :: "config \<Rightarrow> round \<Rightarrow> string \<Rightarrow> loopst \<Rightarrow> flow run" where
  "to_stdout g r got s =
     (if crlf g then
        bindr (crlf_strip (l_wbuf s) (writelen g) got (int (length got))) (\<lambda>(n, wb).
        bindr (stdout_write r wb n (s\<lparr>l_wbuf := wb\<rparr>)) (\<lambda>s. Inr (Next s)))
      else bindr (stdout_write r (l_rbuf s) (int (length got)) s) (\<lambda>s. Inr (Next s)))"

text \<open>The datagram server prints where a datagram comes from and whether it was truncated.\<close>

definition datagram_text :: "config \<Rightarrow> round \<Rightarrow> string" where
  "datagram_text g r =
     (if verbose g then ''from '' @ r_from r @ '': '' else []) @
     (if r_trunc r then ''(datagram truncated)'' @ [LF] else [])"

definition from_socket :: "config \<Rightarrow> round \<Rightarrow> loopst \<Rightarrow> flow run" where
  "from_socket g r s =
     (case r_sock r of
        None \<Rightarrow> Inr (Next s)
      | Some RdErr \<Rightarrow> Inl (Err_sys (if udp g \<and> server g then ''datagram receive error'' else ''read error''))
      | Some (RdData d) \<Rightarrow>
          bindr (read_into (l_rbuf s) (readlen g) d) (\<lambda>(got, rb).
          let s = s\<lparr>l_rbuf := rb\<rparr> in
          if udp g \<and> server g then to_stdout g r got (s\<lparr>printed := printed s @ datagram_text g r\<rparr>)
          else if got = [] then Inr (Break s)
          else to_stdout g r got s))"

text \<open>One pass of the \<^verbatim>\<open>for\<close> loop, and the loop: \<open>True\<close> when it was left, \<open>False\<close> when the rounds are used up.\<close>

definition loop_round :: "config \<Rightarrow> round \<Rightarrow> loopst \<Rightarrow> flow run" where
  "loop_round g r s =
     (if \<not> r_select_ok r then Inl (Err_sys ''select error'')
      else bindr (from_stdin g r s) (\<lambda>f. case f of Next s \<Rightarrow> from_socket g r s | _ \<Rightarrow> Inr f))"

primrec loop_rounds :: "config \<Rightarrow> round list \<Rightarrow> loopst \<Rightarrow> (bool \<times> loopst) run" where
  "loop_rounds g [] s = Inr (False, s)"
| "loop_rounds g (r # rs) s =
     bindr (loop_round g r s) (\<lambda>f. case f of
        Next s \<Rightarrow> loop_rounds g rs s
      | Continue s \<Rightarrow> loop_rounds g rs s
      | Break s \<Rightarrow> Inr (True, s))"

text \<open>The whole routine: pauses, the loop, and the close of the socket when the loop was left.\<close>

definition loop :: "'k kernel \<Rightarrow> config \<Rightarrow> int \<Rightarrow> round list \<Rightarrow> 'k prog \<Rightarrow> (bool \<times> loopst \<times> 'k prog) run" where
  "loop K g sockfd rs p =
     (let p = pause_if K (pauseinit g) p in
      case (rbuf p, wbuf p) of
        (Some rb, Some wb) \<Rightarrow>
          bindr (loop_rounds g rs \<lparr>l_rbuf = rb, l_wbuf = wb, stdineof = False, sent = [], out = [], printed = []\<rparr>)
            (\<lambda>(ended, s).
             if ended then
               (let p = pause_if K (pauseclose g) p in
                bindr (or_sys ''close error'' (k_close K sockfd (kst p))) (\<lambda>k. Inr (True, s, p\<lparr>kst := k\<rparr>)))
             else Inr (False, s, p))
      | _ \<Rightarrow> Inl Undefined)"

section \<open>sourcesink.c\<close>

datatype sink_event = Urgent u8 | Wrote string

text \<open>
  The source's loop from number \<open>i\<close> on; \<open>res\<close> has the results of the calls of \<^verbatim>\<open>send\<close> and \<^verbatim>\<open>write\<close> in
  order.  The urgent byte is \<^verbatim>\<open>urgwrite\<close> cut to a \<^verbatim>\<open>char\<close>, and counting the \<^verbatim>\<open>int\<close> beyond its
  range is undefined.
\<close>

definition next_res :: "int list \<Rightarrow> (int \<times> int list) run" where
  "next_res res = (case res of [] \<Rightarrow> Inl Blocked | r # rs \<Rightarrow> Inr (r, rs))"

definition send_urgent :: "config \<Rightarrow> int \<Rightarrow> int list \<Rightarrow> sink_event list \<Rightarrow> (int list \<times> sink_event list) run" where
  "send_urgent g i res ev =
     (if urgwrite g = i then
        bindr (next_res res) (\<lambda>(n, res).
        if n \<noteq> 1
        then Inl (Err_sys (''send of MSG_OOB returned '' @ show_int32 n @ '', expected '' @ show_int32 (writelen g)))
        else Inr (res, ev @ [Urgent (word_of_int (urgwrite g))]))
      else Inr (res, ev))"

primrec source_loop ::
    "nat \<Rightarrow> 'k kernel \<Rightarrow> config \<Rightarrow> string \<Rightarrow> int \<Rightarrow> int list \<Rightarrow> sink_event list \<Rightarrow> 'k prog \<Rightarrow> (sink_event list \<times> 'k prog) run" where
  "source_loop 0 K g wb i res ev p = Inr (ev, p)"
| "source_loop (Suc m) K g wb i res ev p =
     bindr (send_urgent g i res ev) (\<lambda>(res, ev).
     bindr (next_res res) (\<lambda>(n, res).
     if n \<noteq> writelen g
     then Inl (Err_sys (''write returned '' @ show_int32 n @ '', expected '' @ show_int32 (writelen g)))
     else (let p = pause_if K (pauserw g) p in
       if i + 1 < 2 ^ 31 then source_loop m K g wb (i + 1) res (ev @ [Wrote (take (nat (writelen g)) wb)]) p
       else Inl Undefined)))"

text \<open>The sink's loop over the bytes that each \<^verbatim>\<open>read\<close> finds.\<close>

primrec sink_reads :: "'k kernel \<Rightarrow> config \<Rightarrow> string \<Rightarrow> rd list \<Rightarrow> nat \<Rightarrow> 'k prog \<Rightarrow> (nat \<times> 'k prog) run" where
  "sink_reads K g rb [] cnt p = Inl Blocked"
| "sink_reads K g rb (x # xs) cnt p =
     (case x of RdErr \<Rightarrow> Inl (Err_sys ''read error'')
      | RdData d \<Rightarrow>
          bindr (read_into rb (readlen g) d) (\<lambda>(got, rb).
          if got = [] then Inr (cnt, p)
          else if int (length got) \<noteq> readlen g
          then Inl (Err_quit (''read returned '' @ show_int32 (int (length got)) @ '', expected '' @ show_int32 (readlen g)))
          else sink_reads K g rb xs (cnt + length got) (pause_if K (pauserw g) p)))"

definition sink :: "'k kernel \<Rightarrow> config \<Rightarrow> int \<Rightarrow> int list \<Rightarrow> rd list \<Rightarrow> 'k prog \<Rightarrow> (sink_event list \<times> nat \<times> 'k prog) run" where
  "sink K g sockfd res reads p =
     bindr (if client g then
              bindr (of_opt (do { wb \<leftarrow> wbuf p; pattern wb (writelen g) })) (\<lambda>wb.
              let p = pause_if K (pauseinit g) (p\<lparr>wbuf := Some wb\<rparr>) in
              bindr (source_loop (nat (nbuf g)) K g wb 1 res [] p) (\<lambda>(ev, p). Inr (ev, 0, p)))
            else
              (let p = pause_if K (pauseinit g) p in
               bindr (of_opt (rbuf p)) (\<lambda>rb.
               bindr (sink_reads K g rb reads 0 p) (\<lambda>(n, p). Inr ([], n, p)))))
       (\<lambda>(ev, n, p).
        let p = pause_if K (pauseclose g) p in
        bindr (or_sys ''close error'' (k_close K sockfd (kst p))) (\<lambda>k. Inr (ev, n, p\<lparr>kst := k\<rparr>)))"

section \<open>main.c\<close>

text \<open>What a run of the program comes to: copied text, or source and sink events, or waiting.\<close>

datatype outcome = Copied bool loopst | Sunk "sink_event list" nat | Serving

definition open_socket ::
    "nat \<Rightarrow> 'k kernel \<Rightarrow> config \<Rightarrow> string option \<Rightarrow> string \<Rightarrow> 'k prog \<Rightarrow> ((int \<times> 'k prog) option) run" where
  "open_socket fuel K g host port p =
     (if client g then
        bindr (of_opt host) (\<lambda>h. bindr (cliopen K g h port p) (\<lambda>r. Inr (Some r)))
      else servopen fuel K g host port p)"

definition sock_main ::
    "nat \<Rightarrow> 'k kernel \<Rightarrow> 'k \<Rightarrow> int \<Rightarrow> (char \<times> string) list \<Rightarrow> string list \<Rightarrow> round list \<Rightarrow> int list \<Rightarrow> rd list \<Rightarrow>
     outcome run" where
  "sock_main fuel K k argc opts rest rounds res reads =
     bindr (main_options argc opts rest) (\<lambda>(g, host, port).
     bindr (open_socket fuel K g host port \<lparr>kst = k, rbuf = None, wbuf = None\<rparr>) (\<lambda>r.
     case r of None \<Rightarrow> Inr Serving
     | Some (fd, p) \<Rightarrow>
         if sourcesink g then bindr (sink K g fd res reads p) (\<lambda>(ev, n, _). Inr (Sunk ev n))
         else bindr (loop K g fd rounds p) (\<lambda>(ended, s, _). Inr (Copied ended s))))"

text \<open>The program with its diagnostics: a run that ends with a message prints it.\<close>

definition sock_program ::
    "string list \<Rightarrow> int \<Rightarrow> nat \<Rightarrow> 'k kernel \<Rightarrow> 'k \<Rightarrow> int \<Rightarrow> (char \<times> string) list \<Rightarrow> string list \<Rightarrow> round list \<Rightarrow>
     int list \<Rightarrow> rd list \<Rightarrow> outcome run" where
  "sock_program sys_errlist errno fuel K k argc opts rest rounds res reads =
     report sys_errlist errno (sock_main fuel K k argc opts rest rounds res reads)"

section \<open>The copying loop refines byte streams\<close>

text \<open>The specification: streams of bytes, no buffers.\<close>

record copyst =
  c_eof :: bool
  c_sent :: string
  c_out :: string
  c_printed :: string

definition enc :: "config \<Rightarrow> string \<Rightarrow> string" where
  "enc g d = (if crlf g then with_cr d else d)"

definition dec :: "config \<Rightarrow> string \<Rightarrow> string" where
  "dec g d = (if crlf g then without_cr d else d)"

definition data :: "config \<Rightarrow> rd option \<Rightarrow> string option" where
  "data g x = (case x of Some (RdData d) \<Rightarrow> Some (take (nat (readlen g)) d) | _ \<Rightarrow> None)"

definition copy_socket :: "config \<Rightarrow> round \<Rightarrow> copyst \<Rightarrow> bool \<times> copyst" where
  "copy_socket g r c =
     (case data g (r_sock r) of
        None \<Rightarrow> (False, c)
      | Some d \<Rightarrow>
          if udp g \<and> server g then
            (False, c\<lparr>c_out := c_out c @ dec g d, c_printed := c_printed c @ datagram_text g r\<rparr>)
          else if d = [] then (True, c)
          else (False, c\<lparr>c_out := c_out c @ dec g d\<rparr>))"

definition copy_round :: "config \<Rightarrow> round \<Rightarrow> copyst \<Rightarrow> bool \<times> copyst" where
  "copy_round g r c =
     (case (if c_eof c then None else data g (r_stdin r)) of
        None \<Rightarrow> copy_socket g r c
      | Some d \<Rightarrow>
          if d = [] then (if halfclose g then (False, c\<lparr>c_eof := True\<rparr>) else (True, c))
          else copy_socket g r (c\<lparr>c_sent := c_sent c @ enc g d\<rparr>))"

primrec copy_rounds :: "config \<Rightarrow> round list \<Rightarrow> copyst \<Rightarrow> bool \<times> copyst" where
  "copy_rounds g [] c = (False, c)"
| "copy_rounds g (r # rs) c = (let (stop, c') = copy_round g r c in if stop then (True, c') else copy_rounds g rs c')"

definition abs_copy :: "loopst \<Rightarrow> copyst" where
  "abs_copy s = \<lparr>c_eof = stdineof s, c_sent = sent s, c_out = out s, c_printed = printed s\<rparr>"

text \<open>A round in which no system call fails and every write is complete in the end.\<close>

definition good_round :: "config \<Rightarrow> round \<Rightarrow> bool" where
  "good_round g r \<longleftrightarrow> r_select_ok r \<and> r_shutdown_ok r \<and> r_stdin r \<noteq> Some RdErr \<and> r_sock r \<noteq> Some RdErr \<and>
     (\<forall>d. data g (r_stdin r) = Some d \<longrightarrow> r_sockwrite r = int (length (enc g d))) \<and>
     (\<forall>d. data g (r_sock r) = Some d \<longrightarrow> accepted (r_out r) (int (length (dec g d))))"

text \<open>The buffers as the set-up leaves them; with conversion, room for a read of newlines only.\<close>

definition buf_inv :: "config \<Rightarrow> loopst \<Rightarrow> bool" where
  "buf_inv g s \<longleftrightarrow> int (length (l_rbuf s)) = readlen g \<and> int (length (l_wbuf s)) = writelen g"

definition roomy :: "config \<Rightarrow> bool" where
  "roomy g \<longleftrightarrow> readlen g < 2 ^ 63 \<and> (crlf g \<longrightarrow> 2 * readlen g < writelen g)"

primrec sane :: "int list \<Rightarrow> int \<Rightarrow> bool" where
  "sane [] left \<longleftrightarrow> True"
| "sane (r # rs) left \<longleftrightarrow> 0 \<le> r \<and> r \<le> left \<and> (r = 0 \<or> sane rs (left - r))"

lemma accepted_sane: "accepted rs left \<Longrightarrow> sane rs left"
  by (induction rs arbitrary: left) auto

lemma writen_loop_inside:
  assumes "sane rs (uint nleft)" and "uint off + uint nleft = N" and "N < 2 ^ 64" and "calls_inside N calls"
    and "writen_loop rs n nleft off calls = Some (ret, calls')"
  shows "calls_inside N calls'"
  using assms
proof (induction rs arbitrary: nleft off calls)
  case Nil
  then show ?case
    by (auto simp: writen_loop.simps split: if_splits)
next
  case (Cons r rs)
  let ?r = "word_of_int r :: u64"
  have r: "0 \<le> r" "r \<le> uint nleft" "uint nleft < 2 ^ 64"
    using Cons.prems(1) uint_lt2p [of nleft] by auto
  then have ur: "uint ?r = r"
    by (intro word_of_int_inverse) auto
  have c': "calls_inside N (calls @ [(off, nleft)])"
    using Cons.prems(2,4) by (simp add: calls_inside_def)
  have res: "(if nleft = 0 then Some (sint n, calls)
      else if ?r \<le> 0 then Some (sint ?r, calls @ [(off, nleft)])
      else writen_loop rs n (nleft - ?r) (off + ?r) (calls @ [(off, nleft)])) = Some (ret, calls')"
    using Cons.prems(5) unfolding writen_loop.simps [of "r # rs"] by (simp only: Let_def list.case)
  consider "nleft = 0" | "nleft \<noteq> 0" "?r \<le> 0" | "nleft \<noteq> 0" "\<not> ?r \<le> 0"
    by blast
  then show ?case
  proof cases
    case 3
    then have "r \<noteq> 0"
      by auto
    have "uint (nleft - ?r) = uint nleft - r" "uint (off + ?r) = uint off + r"
      using ur r Cons.prems(2,3) uint_sub_lem [of ?r nleft] uint_add_lem [of off ?r] by auto
    then show ?thesis
      using Cons.IH [of "nleft - ?r" "off + ?r" "calls @ [(off, nleft)]"] Cons.prems(1-3) c' res 3 \<open>r \<noteq> 0\<close> by simp
  qed (use res Cons.prems(4) c' in auto)
qed

lemma writen_inside:
  assumes "sane rs n" and "0 \<le> n" and "n < 2 ^ 63" and "writen rs (word_of_int n) = Some (ret, calls)"
  shows "calls_inside n calls"
proof -
  have "uint (word_of_int n :: u64) = n"
    using assms(2,3) by (intro word_of_int_inverse) auto
  then show ?thesis
    using writen_loop_inside [of rs "word_of_int n" 0 n "[]"] assms by (simp add: writen_def calls_inside_def)
qed

lemma stdout_write_accepted:
  assumes "accepted (r_out r) (int n)" and "n \<le> length buf" and "n < 2 ^ 63"
  shows "stdout_write r buf (int n) s = Inr (s\<lparr>out := out s @ take n buf\<rparr>)"
proof -
  have l: "length (take n buf) = n"
    using assms(2) by simp
  have "length (take n buf) < 2 ^ 63" "accepted (r_out r) (int (length (take n buf)))"
    using assms(1,3) by (simp_all only: l)
  from writen_run [OF this] obtain calls where
    c: "writen (r_out r) (of_nat n) = Some (int n, calls)" "taken (take n buf) calls (r_out r) = take n buf"
    unfolding l by blast
  have w: "(of_nat n :: u64) = word_of_int (int n)"
    by simp
  have "int n < 2 ^ 63"
    using assms(3) by (metis of_nat_less_numeral_power_cancel_iff)
  then have "calls_inside (int n) calls"
    by (intro writen_inside [OF accepted_sane [OF assms(1)] _ _ c(1) [unfolded w]]) auto
  then show ?thesis
    using c unfolding stdout_write_def w by (simp only: option.case prod.case if_True not_not nat_int) simp
qed

lemma read_into_Inr:
  assumes "int (length buf) = len"
  shows "read_into buf len d = Inr (take (nat len) d, overlay 0 (take (nat len) d) buf)"
  using assms by (auto simp: read_into_def Let_def)

lemma length_overlay: "d + length xs \<le> length dst \<Longrightarrow> length (overlay d xs dst) = length dst"
  by (simp add: overlay_def)

lemma take_overlay: "take (length xs) (overlay 0 xs dst) = xs"
  by (simp add: overlay_def)

lemma with_cr_roomy:
  assumes "length d \<le> nat (readlen g)" and "roomy g" and "crlf g" and "0 \<le> readlen g"
  shows "int (length (with_cr d)) < writelen g" and "int (length d) \<le> writelen g"
proof -
  have "length (with_cr d) \<le> 2 * length d"
    using count_le_length [of d LF] by (simp add: length_with_cr)
  then show "int (length (with_cr d)) < writelen g" "int (length d) \<le> writelen g"
    using assms unfolding roomy_def by linarith+
qed

lemma from_stdin_refines:
  assumes I: "buf_inv g s" and R: "roomy g" and G: "good_round g r"
  shows "\<exists>f. from_stdin g r s = Inr f \<and>
     (case (if stdineof s then None else data g (r_stdin r)) of
        None \<Rightarrow> f = Next s
      | Some d \<Rightarrow>
          if d = [] then
            (\<exists>s'. f = (if halfclose g then Continue s' else Break s') \<and> buf_inv g s' \<and>
               abs_copy s' = (abs_copy s)\<lparr>c_eof := stdineof s \<or> halfclose g\<rparr>)
          else (\<exists>s'. f = Next s' \<and> buf_inv g s' \<and>
               abs_copy s' = (abs_copy s)\<lparr>c_sent := sent s @ enc g d\<rparr>))"
proof (cases "stdineof s \<or> r_stdin r = None")
  case True
  then show ?thesis
    by (auto simp: from_stdin_def data_def)
next
  case False
  then obtain d where d: "r_stdin r = Some (RdData d)" "\<not> stdineof s"
    using G by (auto simp: good_round_def) (metis rd.exhaust)
  let ?d = "take (nat (readlen g)) d"
  let ?rb = "overlay 0 ?d (l_rbuf s)"
  have D: "data g (r_stdin r) = Some ?d"
    using d by (simp add: data_def)
  have rb: "read_into (l_rbuf s) (readlen g) d = Inr (?d, ?rb)" "length ?rb = length (l_rbuf s)"
    using I read_into_Inr [of "l_rbuf s" "readlen g" d] length_overlay [of 0 ?d "l_rbuf s"] by (auto simp: buf_inv_def)
  have w: "r_sockwrite r = int (length (enc g ?d))"
    using G D by (simp add: good_round_def)
  have pos: "0 \<le> readlen g"
    using I by (auto simp: buf_inv_def)
  have tk: "take (length ?d) ?rb = ?d"
    by (rule take_overlay)
  show ?thesis
  proof (cases "?d = []")
    case True
    then show ?thesis
      using d rb I G D by (auto simp: from_stdin_def Let_def abs_copy_def buf_inv_def good_round_def)
  next
    case ne: False
    show ?thesis
    proof (cases "crlf g")
      case True
      let ?wb = "with_cr ?d @ drop (length (with_cr ?d)) (l_wbuf s)"
      have "crlf_add (l_wbuf s) (writelen g) ?d (int (length ?d)) = Inr (int (length (with_cr ?d)), ?wb)"
        using crlf_add_eq [of "l_wbuf s" ?d] with_cr_roomy [OF _ R True, of ?d] I pos by (simp add: buf_inv_def)
      moreover have "length ?wb = length (l_wbuf s)"
        using with_cr_roomy [OF _ R True, of ?d] I pos by (simp add: buf_inv_def)
      ultimately show ?thesis
        using d rb I w ne True D
        by (auto simp: from_stdin_def Let_def sock_write_def abs_copy_def buf_inv_def enc_def)
    next
      case False
      then have "sock_write r ?rb (int (length ?d)) (s\<lparr>l_rbuf := ?rb\<rparr>) = Inr (s\<lparr>l_rbuf := ?rb, sent := sent s @ ?d\<rparr>)"
        using w tk by (simp add: sock_write_def enc_def del: length_take)
      then have "from_stdin g r s = Inr (Next (s\<lparr>l_rbuf := ?rb, sent := sent s @ ?d\<rparr>))"
        using d rb(1) ne False by (simp add: from_stdin_def Let_def del: length_take)
      moreover have "buf_inv g (s\<lparr>l_rbuf := ?rb, sent := sent s @ ?d\<rparr>)"
        using rb(2) I by (simp add: buf_inv_def)
      ultimately show ?thesis
        using D d(2) ne False by (simp add: abs_copy_def enc_def)
    qed
  qed
qed

lemma to_stdout_refines:
  assumes I: "buf_inv g s" and R: "roomy g" and acc: "accepted (r_out r) (int (length (dec g d)))"
    and d: "length d \<le> nat (readlen g)" "take (length d) (l_rbuf s) = d"
  shows "\<exists>s'. to_stdout g r d s = Inr (Next s') \<and> buf_inv g s' \<and>
     abs_copy s' = (abs_copy s)\<lparr>c_out := out s @ dec g d\<rparr>"
proof -
  have pos: "0 \<le> readlen g"
    using I by (simp add: buf_inv_def)
  have "int (length (dec g d)) \<le> int (length d)"
    by (simp add: dec_def without_cr_def)
  then have small: "length (dec g d) < 2 ^ 63"
    using d(1) R pos unfolding roomy_def
    by (metis (no_types, lifting) of_nat_less_numeral_power_cancel_iff int_nat_eq order_le_less_trans of_nat_le_iff)
  show ?thesis
  proof (cases "crlf g")
    case True
    let ?n = "length (without_cr d)"
    let ?wb = "without_cr d @ drop ?n (l_wbuf s)"
    have n: "?n \<le> length d" "int (length d) < writelen g \<or> length d = 0"
      using with_cr_roomy [OF d(1) R True pos] length_with_cr [of d] by (auto simp: without_cr_def)
    then have "?n < length (l_wbuf s) \<or> ?n = 0"
      using I unfolding buf_inv_def by linarith
    then have fits: "without_cr d = [] \<or> ?n < length (l_wbuf s)"
      by auto
    have "crlf_strip (l_wbuf s) (writelen g) d (int (length d)) = Inr (int ?n, ?wb)"
      using crlf_strip_eq [of "l_wbuf s" d] fits I by (simp add: buf_inv_def)
    moreover have "stdout_write r ?wb (int ?n) (s\<lparr>l_wbuf := ?wb\<rparr>) =
        Inr (s\<lparr>l_wbuf := ?wb, out := out s @ without_cr d\<rparr>)"
      using stdout_write_accepted [of r ?n ?wb "s\<lparr>l_wbuf := ?wb\<rparr>"] acc small True by (simp add: dec_def)
    moreover have "length ?wb = length (l_wbuf s)"
      using fits by auto
    ultimately show ?thesis
      using True I by (simp add: to_stdout_def buf_inv_def abs_copy_def dec_def)
  next
    case False
    have "length d \<le> length (l_rbuf s)"
      using d(1) I unfolding buf_inv_def by linarith
    then have "stdout_write r (l_rbuf s) (int (length d)) s = Inr (s\<lparr>out := out s @ d\<rparr>)"
      using stdout_write_accepted [of r "length d" "l_rbuf s" s] acc small False d(2) by (simp add: dec_def)
    then show ?thesis
      using False I by (simp add: to_stdout_def buf_inv_def abs_copy_def dec_def)
  qed
qed

lemma from_socket_refines:
  assumes I: "buf_inv g s" and R: "roomy g" and G: "good_round g r"
  shows "\<exists>f s'. from_socket g r s = Inr f \<and> buf_inv g s' \<and>
     f = (if fst (copy_socket g r (abs_copy s)) then Break s' else Next s') \<and>
     abs_copy s' = snd (copy_socket g r (abs_copy s))"
proof (cases "r_sock r")
  case None
  then show ?thesis
    using I by (auto simp: from_socket_def copy_socket_def data_def)
next
  case (Some x)
  then obtain d where d: "r_sock r = Some (RdData d)"
    using G by (cases x) (auto simp: good_round_def)
  let ?d = "take (nat (readlen g)) d"
  let ?rb = "overlay 0 ?d (l_rbuf s)"
  have D: "data g (r_sock r) = Some ?d"
    using d by (simp add: data_def)
  have rb: "read_into (l_rbuf s) (readlen g) d = Inr (?d, ?rb)" "length ?rb = length (l_rbuf s)"
    using I read_into_Inr [of "l_rbuf s" "readlen g" d] length_overlay [of 0 ?d "l_rbuf s"] by (auto simp: buf_inv_def)
  have tk: "take (length ?d) ?rb = ?d"
    by (rule take_overlay)
  have acc: "accepted (r_out r) (int (length (dec g ?d)))"
    using G D by (simp add: good_round_def)
  have out: "\<exists>s'. to_stdout g r ?d (s\<lparr>l_rbuf := ?rb, printed := p\<rparr>) = Inr (Next s') \<and> buf_inv g s' \<and>
      abs_copy s' = (abs_copy s)\<lparr>c_printed := p, c_out := out s @ dec g ?d\<rparr>" for p
    using to_stdout_refines [of g "s\<lparr>l_rbuf := ?rb, printed := p\<rparr>" r ?d] I R acc rb(2) tk
    by (auto simp: buf_inv_def abs_copy_def)
  have same: "s\<lparr>l_rbuf := ?rb, printed := printed s\<rparr> = s\<lparr>l_rbuf := ?rb\<rparr>"
    by simp
  show ?thesis
  proof (cases "udp g \<and> server g")
    case True
    then show ?thesis
      using out [of "printed s @ datagram_text g r"] d rb(1) D
      by (auto simp: from_socket_def copy_socket_def abs_copy_def)
  next
    case False
    show ?thesis
    proof (cases "?d = []")
      case True
      then show ?thesis
        using d rb D False I by (auto simp: from_socket_def copy_socket_def abs_copy_def buf_inv_def Let_def)
    next
      case ne: False
      then show ?thesis
        using out [of "printed s", unfolded same] d rb(1) D False
        by (auto simp: from_socket_def copy_socket_def abs_copy_def)
    qed
  qed
qed

lemma loop_round_refines:
  assumes I: "buf_inv g s" and R: "roomy g" and G: "good_round g r"
  shows "\<exists>f s'. loop_round g r s = Inr f \<and> buf_inv g s' \<and> abs_copy s' = snd (copy_round g r (abs_copy s)) \<and>
     f \<in> (if fst (copy_round g r (abs_copy s)) then {Break s'} else {Next s', Continue s'})"
proof -
  let ?x = "if stdineof s then None else data g (r_stdin r)"
  have ok: "r_select_ok r"
    using G by (simp add: good_round_def)
  have eof: "c_eof (abs_copy s) = stdineof s"
    by (simp add: abs_copy_def)
  consider "?x = None" | "?x = Some []" | d where "?x = Some d" "d \<noteq> []"
    by (cases ?x) auto
  then show ?thesis
  proof cases
    case 1
    then have "from_stdin g r s = Inr (Next s)"
      using from_stdin_refines [OF I R G] by auto
    then show ?thesis
      using from_socket_refines [OF I R G] ok 1 eof by (auto simp: loop_round_def copy_round_def)
  next
    case 2
    then obtain s' where s': "from_stdin g r s = Inr (if halfclose g then Continue s' else Break s')" "buf_inv g s'"
        "abs_copy s' = (abs_copy s)\<lparr>c_eof := stdineof s \<or> halfclose g\<rparr>"
      using from_stdin_refines [OF I R G] by auto
    then show ?thesis
      using ok 2 eof by (cases "halfclose g") (auto simp: loop_round_def copy_round_def abs_copy_def)
  next
    case 3
    then obtain s' where s': "from_stdin g r s = Inr (Next s')" "buf_inv g s'"
        "abs_copy s' = (abs_copy s)\<lparr>c_sent := sent s @ enc g d\<rparr>"
      using from_stdin_refines [OF I R G] by auto
    have "c_sent (abs_copy s) = sent s"
      by (simp add: abs_copy_def)
    then show ?thesis
      using from_socket_refines [OF s'(2) R G] s'(1,3) ok 3 eof by (auto simp: loop_round_def copy_round_def)
  qed
qed

lemma loop_rounds_refines:
  assumes "buf_inv g s" and R: "roomy g" and "\<forall>r \<in> set rs. good_round g r"
  shows "\<exists>b s'. loop_rounds g rs s = Inr (b, s') \<and> (b, abs_copy s') = copy_rounds g rs (abs_copy s)"
  using assms(1,3)
proof (induction rs arbitrary: s)
  case (Cons r rs)
  have G: "good_round g r"
    using Cons.prems(2) by simp
  obtain f s' where f: "loop_round g r s = Inr f" "buf_inv g s'" "abs_copy s' = snd (copy_round g r (abs_copy s))"
      "f \<in> (if fst (copy_round g r (abs_copy s)) then {Break s'} else {Next s', Continue s'})"
    using loop_round_refines [OF Cons.prems(1) R G] by blast
  obtain b s2 where "loop_rounds g rs s' = Inr (b, s2)" "(b, abs_copy s2) = copy_rounds g rs (abs_copy s')"
    using Cons.IH [OF f(2)] Cons.prems(2) by auto
  then show ?case
    using f by (auto simp: case_prod_beta Let_def split: if_splits)
qed auto

definition copy_start :: copyst where
  "copy_start = \<lparr>c_eof = False, c_sent = [], c_out = [], c_printed = []\<rparr>"

lemma pause_if_bufs [simp]: "rbuf (pause_if K n p) = rbuf p" "wbuf (pause_if K n p) = wbuf p"
  by (simp_all add: pause_if_def)

lemma loop_copies:
  assumes "bufs_ready g p" and "roomy g" and "\<forall>r \<in> set rs. good_round g r"
    and "\<And>k. k_close K fd k \<noteq> None"
  shows "\<exists>ended s p'. loop K g fd rs p = Inr (ended, s, p') \<and> (ended, abs_copy s) = copy_rounds g rs copy_start"
proof -
  obtain rb wb where b: "rbuf p = Some rb" "wbuf p = Some wb" "int (length rb) = readlen g" "int (length wb) = writelen g"
    using assms(1) by (auto simp: bufs_ready_def bufs_ok_def)
  let ?s = "\<lparr>l_rbuf = rb, l_wbuf = wb, stdineof = False, sent = [], out = [], printed = []\<rparr>"
  have "buf_inv g ?s" "abs_copy ?s = copy_start"
    using b by (simp_all add: buf_inv_def abs_copy_def copy_start_def)
  then obtain e s where s: "loop_rounds g rs ?s = Inr (e, s)" "(e, abs_copy s) = copy_rounds g rs copy_start"
    using loop_rounds_refines [of g ?s rs] assms(2,3) by auto
  obtain k where "k_close K fd (kst (pause_if K (pauseclose g) (pause_if K (pauseinit g) p))) = Some k"
    using assms(4) by blast
  then show ?thesis
    using b(1,2) s by (cases e) (auto simp: loop_def Let_def or_sys_def)
qed


text \<open>A session for the witness: two lines typed, an answer, and the end of the connection.\<close>

definition quiet :: round where
  "quiet = \<lparr>r_select_ok = True, r_stdin = None, r_shutdown_ok = True, r_sockwrite = 0, r_sock = None,
     r_from = [], r_trunc = False, r_out = []\<rparr>"

definition session :: "round list" where
  "session = [quiet\<lparr>r_stdin := Some (RdData [CHR ''h'', LF]), r_sockwrite := 3\<rparr>,
     quiet\<lparr>r_stdin := Some (RdData [])\<rparr>,
     quiet\<lparr>r_sock := Some (RdData [CHR ''o'', CHR ''k'', CR, LF]), r_out := [1, 2]\<rparr>,
     quiet\<lparr>r_sock := Some (RdData [])\<rparr>]"


section \<open>Memory safety\<close>

text \<open>
  Every exit of the program has a message that fits the buffer of \<^verbatim>\<open>error.c\<close>; the rules follow the
  structure of the code.
\<close>

lemma brief_or [intro]: "length m \<le> n \<Longrightarrow> brief n (or_sys m x)" "length m \<le> n \<Longrightarrow> brief n (or_quit m x)"
  by (auto simp: or_sys_def or_quit_def split: option.splits)

lemma brief_whenr: "(b \<Longrightarrow> brief n (f s)) \<Longrightarrow> brief n (whenr b f s)"
  by (simp add: whenr_def)

lemmas brief_rules = brief_bindr brief_whenr brief_or

text \<open>Messages with two numbers in them.\<close>

lemma brief_counts: "length m \<le> 300 \<Longrightarrow> length m' \<le> 300 \<Longrightarrow> length m'' \<le> 300 \<Longrightarrow>
    length m + (length (show_int32 a) + (length m' + (length (show_int32 b) + length m''))) \<le> 4000"
  using show_int32_length [of a] show_int32_length [of b] by linarith

lemma brief_set_flag: "length nm \<le> 100 \<Longrightarrow> brief 4000 (set_flag K fd opt nm s)"
  by (auto simp: set_flag_def intro!: brief_rules)

lemma brief_set_bufsize: "length nm \<le> 100 \<Longrightarrow> length var \<le> 100 \<Longrightarrow> brief 4000 (set_bufsize K fd opt nm var n s)"
  using brief_counts [of "var @ '' = ''" "'', '' @ nm @ '' = ''" "''''" n]
  by (auto simp: set_bufsize_def intro!: brief_rules)

lemma brief_set_linger: "brief 4000 (set_linger K g fd s)"
  using brief_counts [of "''SO_LINGER not set (''" "'', ''" "'')''"]
  by (auto simp: set_linger_def intro!: brief_rules split: prod.splits)

lemma brief_small: "brief 4000 (show_mss K fd s)" "brief 4000 (set_reuseaddr K fd s)"
    "length m \<le> 4000 \<Longrightarrow> brief 4000 (do_bind K m fd a s)"
    "brief 4000 (do_connect K fd a s)" "brief 4000 (do_getsockname K fd s)"
  by (auto simp: show_mss_def set_reuseaddr_def do_bind_def do_connect_def do_getsockname_def intro!: brief_rules)

lemma brief_alloc: "brief 4000 (alloc_rbuf K g s)" "brief 4000 (alloc_wbuf K g s)"
  by (auto simp: alloc_rbuf_def alloc_wbuf_def split: prod.splits option.splits)

lemma brief_sockopts: "brief 4000 (sockopts K g fd d s)"
  unfolding sockopts_def by (intro brief_rules brief_set_flag brief_set_linger brief_small) simp_all

lemma brief_buffers: "brief 4000 (buffers K g fd s)"
  unfolding buffers_def by (intro brief_rules brief_set_bufsize brief_alloc) simp_all

lemma brief_atoi: "no_ub (atoi s) \<Longrightarrow> brief n (atoi s)"
  by (simp add: atoi_def no_ub_def Let_def split: if_splits)

lemma brief_cli:
  assumes "no_ub (atoi port)" and "length host \<le> 3900" and "length port \<le> 3900"
  shows "brief 4000 (cli_port K g port k)" and "brief 4000 (cli_addr K host k)"
  using assms by (auto simp: cli_port_def cli_addr_def protocol_def Let_def intro!: brief_rules brief_atoi)

lemma brief_cliopen:
  assumes "no_ub (atoi port)" and "length host \<le> 3900" and "length port \<le> 3900"
  shows "brief 4000 (cliopen K g host port s)"
  unfolding cliopen_def
  by (auto intro!: brief_rules brief_sockopts brief_buffers brief_small brief_cli [OF assms] split: prod.splits)

lemma brief_stdout_write:
  assumes "sane (r_out r) n" and "0 \<le> n" and "n < 2 ^ 63"
  shows "brief 4000 (stdout_write r buf n s)"
  using writen_inside [OF assms] by (auto simp: stdout_write_def split: option.splits)

text \<open>A round whose writes to standard output never fail and never claim more than they were given.\<close>

definition sane_round :: "config \<Rightarrow> round \<Rightarrow> bool" where
  "sane_round g r \<longleftrightarrow> (\<forall>d. data g (r_sock r) = Some d \<longrightarrow> sane (r_out r) (int (length (dec g d))))"

lemma brief_crlf:
  assumes "int (length wb) = n"
  shows "brief 4000 (crlf_add wb n d (int (length d)))" and "brief 4000 (crlf_strip wb n d (int (length d)))"
  using crlf_add_eq [of wb d] crlf_strip_eq [of wb d] assms by auto

lemma crlf_strip_count:
  assumes "crlf_strip wb n d (int (length d)) = Inr (m, wb')" and "int (length wb) = n"
  shows "m = int (length (without_cr d))"
  using crlf_strip_eq [of wb d] assms by (auto split: if_splits)

lemma read_into_inv:
  assumes "int (length buf) = n" and "read_into buf n d = Inr (got, rb)"
  shows "got = take (nat n) d" and "length rb = length buf"
  using assms by (auto simp: read_into_def Let_def overlay_def split: if_splits)

lemma brief_read_into: "int (length buf) = n \<Longrightarrow> brief 4000 (read_into buf n d)"
  by (simp add: read_into_Inr)

lemma from_stdin_safe:
  assumes I: "buf_inv g s"
  shows "brief 4000 (from_stdin g r s)" and "from_stdin g r s = Inr f \<Longrightarrow> \<exists>s'. f \<in> {Next s', Continue s', Break s'} \<and> buf_inv g s'"
proof -
  have b: "int (length (l_rbuf s)) = readlen g" "int (length (l_wbuf s)) = writelen g"
    using I by (auto simp: buf_inv_def)
  show "brief 4000 (from_stdin g r s)"
    unfolding from_stdin_def
    by (auto simp: Let_def sock_write_def intro!: brief_rules brief_read_into brief_crlf b
        split: option.splits rd.splits prod.splits)
  assume "from_stdin g r s = Inr f"
  then show "\<exists>s'. f \<in> {Next s', Continue s', Break s'} \<and> buf_inv g s'"
    unfolding from_stdin_def using I b
    by (auto simp: Let_def sock_write_def bindr_eq_Inr buf_inv_def read_into_Inr length_overlay dest!: crlf_length
        split: option.splits rd.splits prod.splits if_splits)
qed

lemma stdout_write_bufs: "stdout_write r buf n s = Inr s' \<Longrightarrow> l_rbuf s' = l_rbuf s \<and> l_wbuf s' = l_wbuf s"
  by (auto simp: stdout_write_def split: if_splits option.splits)

lemma to_stdout_safe:
  assumes I: "buf_inv g s" and w: "sane (r_out r) (int (length (dec g d)))" and small: "int (length d) < 2 ^ 63"
  shows "brief 4000 (to_stdout g r d s)" and "to_stdout g r d s = Inr f \<Longrightarrow> \<exists>s'. f = Next s' \<and> buf_inv g s'"
proof -
  have b: "int (length (l_rbuf s)) = readlen g" "int (length (l_wbuf s)) = writelen g"
    using I by (auto simp: buf_inv_def)
  have le: "int (length (without_cr d)) < 2 ^ 63"
    using small length_filter_le [of "\<lambda>c. c \<noteq> CR" d] unfolding without_cr_def by linarith
  have strip: "brief 4000 (stdout_write r wb m s')"
    if "crlf g" "crlf_strip (l_wbuf s) (writelen g) d (int (length d)) = Inr (m, wb)" for m wb s'
    using that crlf_strip_count [OF that(2) b(2)] brief_stdout_write [of r m wb s'] w le by (simp add: dec_def)
  show "brief 4000 (to_stdout g r d s)"
  proof (cases "crlf g")
    case True
    then show ?thesis
      unfolding to_stdout_def using brief_crlf(2) [OF b(2)]
      by (auto intro!: brief_bindr strip split: prod.splits)
  next
    case False
    then show ?thesis
      using brief_stdout_write [of r "int (length d)" "l_rbuf s" s] w small
      by (auto simp: to_stdout_def dec_def intro!: brief_bindr)
  qed
  assume "to_stdout g r d s = Inr f"
  then show "\<exists>s'. f = Next s' \<and> buf_inv g s'"
    using I crlf_length(2) [of "l_wbuf s"] by (auto simp: to_stdout_def bindr_eq_Inr buf_inv_def
        dest!: stdout_write_bufs split: if_splits)
qed

lemma from_socket_safe:
  assumes I: "buf_inv g s" and w: "sane_round g r" and small: "readlen g < 2 ^ 63"
  shows "brief 4000 (from_socket g r s)" and "from_socket g r s = Inr f \<Longrightarrow> \<exists>s'. f \<in> {Next s', Continue s', Break s'} \<and> buf_inv g s'"
proof -
  have b: "int (length (l_rbuf s)) = readlen g"
    using I by (auto simp: buf_inv_def)
  have *: "brief 4000 (from_socket g r s) \<and>
      (\<forall>f. from_socket g r s = Inr f \<longrightarrow> (\<exists>s'. f \<in> {Next s', Continue s', Break s'} \<and> buf_inv g s'))"
  proof (cases "data g (r_sock r)")
    case None
    then show ?thesis
      using I by (auto simp: from_socket_def data_def split: option.splits rd.splits)
  next
    case (Some d)
    then obtain d0 where d0: "r_sock r = Some (RdData d0)" "d = take (nat (readlen g)) d0"
      by (auto simp: data_def split: option.splits rd.splits)
    let ?rb = "overlay 0 d (l_rbuf s)"
    have rd: "read_into (l_rbuf s) (readlen g) d0 = Inr (d, ?rb)"
      using read_into_Inr [OF b] d0(2) by simp
    have len: "int (length d) < 2 ^ 63"
      using d0(2) small b by simp
    have sd: "sane (r_out r) (int (length (dec g d)))"
      using w Some by (simp add: sane_round_def)
    have I': "buf_inv g (s\<lparr>l_rbuf := ?rb, printed := q\<rparr>)" "buf_inv g (s\<lparr>l_rbuf := ?rb\<rparr>)" for q
      using I b d0(2) by (auto simp: buf_inv_def length_overlay)
    let ?s = "s\<lparr>l_rbuf := ?rb, printed := printed s @ datagram_text g r\<rparr>"
    have eq: "from_socket g r s = (if udp g \<and> server g then to_stdout g r d ?s
        else if d = [] then Inr (Break (s\<lparr>l_rbuf := ?rb\<rparr>)) else to_stdout g r d (s\<lparr>l_rbuf := ?rb\<rparr>))"
      using d0(1) rd by (simp add: from_socket_def Let_def)
    note a = to_stdout_safe [OF I'(1) sd len, of "printed s @ datagram_text g r"] and b = to_stdout_safe [OF I'(2) sd len]
    show ?thesis
      unfolding eq using a b I'(2) by (cases "udp g \<and> server g"; cases "d = []") (simp_all, blast+)
  qed
  show "brief 4000 (from_socket g r s)"
    using * by simp
  show "\<exists>s'. f \<in> {Next s', Continue s', Break s'} \<and> buf_inv g s'" if "from_socket g r s = Inr f"
    using * that by simp
qed

lemma loop_rounds_safe:
  assumes "buf_inv g s" and "\<forall>r \<in> set rs. sane_round g r" and small: "readlen g < 2 ^ 63"
  shows "brief 4000 (loop_rounds g rs s)"
  using assms(1,2)
proof (induction rs arbitrary: s)
  case (Cons r rs)
  have rnd: "brief 4000 (loop_round g r s) \<and>
      (\<forall>f. loop_round g r s = Inr f \<longrightarrow> (\<exists>s'. f \<in> {Next s', Continue s', Break s'} \<and> buf_inv g s'))"
  proof (cases "from_stdin g r s")
    case (Inl e)
    then show ?thesis
      using from_stdin_safe(1) [OF Cons.prems(1), of r] by (auto simp: loop_round_def brief_def)
  next
    case (Inr f)
    then obtain s' where s': "f \<in> {Next s', Continue s', Break s'}" "buf_inv g s'"
      using from_stdin_safe(2) [OF Cons.prems(1)] by blast
    have "sane_round g r"
      using Cons.prems(2) by simp
    then show ?thesis
      using Inr s' from_socket_safe [OF s'(2) _ small, of r] by (auto simp: loop_round_def)
  qed
  then show ?case
    using Cons.IH Cons.prems(2) by (auto intro!: brief_bindr split: flow.splits)
qed simp

lemma loop_safe:
  assumes "bufs_ready g p" and "readlen g < 2 ^ 63" and "\<forall>r \<in> set rounds. sane_round g r"
  shows "brief 4000 (loop K g fd rounds p)"
proof -
  obtain rb wb where b: "rbuf p = Some rb" "wbuf p = Some wb" "int (length rb) = readlen g" "int (length wb) = writelen g"
    using assms(1) by (auto simp: bufs_ready_def bufs_ok_def)
  let ?s = "\<lparr>l_rbuf = rb, l_wbuf = wb, stdineof = False, sent = [], out = [], printed = []\<rparr>"
  have "brief 4000 (loop_rounds g rounds ?s)"
    by (rule loop_rounds_safe) (use b assms(2,3) in \<open>auto simp: buf_inv_def\<close>)
  then show ?thesis
    using b(1,2) by (auto simp: loop_def Let_def intro!: brief_rules split: prod.splits)
qed

text \<open>The source: no exit but with a short message, as long as its counter stays in range.\<close>

lemma brief_next_res: "brief 4000 (next_res res)"
  by (simp add: next_res_def split: list.splits)

lemma brief_send_urgent: "brief 4000 (send_urgent g i res ev)"
  using brief_counts [of "''send of MSG_OOB returned ''" "'', expected ''" "''''"]
  by (auto simp: send_urgent_def intro!: brief_bindr brief_next_res split: prod.splits)

lemma source_loop_safe: "i + int m < 2 ^ 31 \<Longrightarrow> brief 4000 (source_loop m K g wb i res ev p)"
proof (induction m arbitrary: i res ev p)
  case (Suc m)
  have "brief 4000 (source_loop m K g wb (i + 1) res' ev' p')" for res' ev' p'
    by (rule Suc.IH) (use Suc.prems in simp)
  then show ?case
    using Suc.prems brief_counts [of "''write returned ''" "'', expected ''" "''''"]
    by (auto simp: Let_def intro!: brief_bindr brief_next_res brief_send_urgent split: prod.splits)
qed simp

lemma sink_safe:
  assumes "bufs_ready g p" and "client g" and "nbuf g < 2 ^ 31 - 1"
  shows "brief 4000 (sink K g fd res reads p)"
proof -
  obtain wb where b: "wbuf p = Some wb" "int (length wb) = writelen g"
    using assms(1) by (auto simp: bufs_ready_def bufs_ok_def)
  obtain wb' where "pattern wb (writelen g) = Some wb'"
    using pattern_run [of "writelen g" wb] b(2) by simp
  moreover have "brief 4000 (source_loop (nat (nbuf g)) K g w 1 res ev p')" for w ev p'
    by (rule source_loop_safe) (use assms(3) in auto)
  ultimately show ?thesis
    using b(1) assms(2) by (auto simp: sink_def Let_def intro!: brief_rules split: prod.splits)
qed



text \<open>With conversion on and buffers of equal length, which is the default, any full read from the
  socket without a carriage return in it ends the program: the check for the destination's size is off by one.\<close>

theorem full_read_with_conversion_quits:
  assumes "buf_inv g s" and "crlf g" and "writelen g = readlen g" and "0 < readlen g" and "\<not> (udp g \<and> server g)"
    and "r_select_ok r" and "r_stdin r = None" and "r_sock r = Some (RdData d)"
    and "readlen g \<le> int (length d)" and "CR \<notin> set d"
  shows "loop_round g r s = Inl (Err_quit ''crlf_strip: destination not big enough'')"
proof -
  let ?d = "take (nat (readlen g)) d"
  have b: "int (length (l_rbuf s)) = readlen g" "int (length (l_wbuf s)) = readlen g"
    using assms(1,3) by (auto simp: buf_inv_def)
  have "without_cr ?d = ?d"
    using assms(10) by (auto simp: without_cr_def filter_id_conv dest: in_set_takeD)
  moreover have len: "int (length ?d) = readlen g" "?d \<noteq> []"
    using assms(4,9) by auto
  ultimately have "crlf_strip (l_wbuf s) (writelen g) ?d (int (length ?d)) =
      Inl (Err_quit ''crlf_strip: destination not big enough'')"
    using crlf_strip_eq [of "l_wbuf s" ?d] b(2) assms(3) by (simp del: length_take)
  then have "to_stdout g r ?d (s\<lparr>l_rbuf := overlay 0 ?d (l_rbuf s)\<rparr>) =
      Inl (Err_quit ''crlf_strip: destination not big enough'')"
    using assms(2) by (simp add: to_stdout_def del: length_take)
  then show ?thesis
    using assms(5-8) read_into_Inr [OF b(1), of d] len(2)
    by (auto simp: loop_round_def from_stdin_def from_socket_def Let_def simp del: length_take)
qed

theorem full_read_with_conversion_quits_witness:
  "loop_round (globals\<lparr>crlf := True\<rparr>) (quiet\<lparr>r_sock := Some (RdData (replicate 1024 LF))\<rparr>)
     \<lparr>l_rbuf = replicate 1024 CR, l_wbuf = replicate 1024 CR, stdineof = False, sent = [], out = [], printed = []\<rparr> =
   Inl (Err_quit ''crlf_strip: destination not big enough'')"
  by (rule full_read_with_conversion_quits [where d = "replicate 1024 LF"])
    (simp_all add: globals_def quiet_def buf_inv_def)

section \<open>The source\<close>

text \<open>What a source with \<open>n\<close> buffers to go at number \<open>i\<close> sends on a connection that takes everything.\<close>

definition source_events :: "config \<Rightarrow> string \<Rightarrow> int \<Rightarrow> nat \<Rightarrow> sink_event list" where
  "source_events g wb i n = concat (map (\<lambda>j. (if urgwrite g = i + int j then [Urgent (word_of_int (urgwrite g))] else []) @
     [Wrote (take (nat (writelen g)) wb)]) [0..<n])"

definition full_results :: "config \<Rightarrow> int \<Rightarrow> nat \<Rightarrow> int list" where
  "full_results g i n = concat (map (\<lambda>j. (if urgwrite g = i + int j then [1] else []) @ [writelen g]) [0..<n])"

lemma upt_Suc_shift: "concat (map f [0..<Suc n]) = f 0 @ concat (map (\<lambda>j. f (Suc j)) [0..<n])"
  by (simp only: upt_conv_Cons [of 0 "Suc n", OF zero_less_Suc] map_Suc_upt [symmetric] list.map concat.simps map_map o_def)

lemma source_loop_events:
  "i + int n < 2 ^ 31 \<Longrightarrow> \<exists>p'. source_loop n K g wb i (full_results g i n) ev p = Inr (ev @ source_events g wb i n, p')"
proof (induction n arbitrary: i ev p)
  case (Suc n)
  have r: "full_results g i (Suc n) = (if urgwrite g = i then [1] else []) @ [writelen g] @ full_results g (i + 1) n"
    by (simp add: full_results_def upt_Suc_shift algebra_simps del: upt_Suc)
  have e: "source_events g wb i (Suc n) = (if urgwrite g = i then [Urgent (word_of_int (urgwrite g))] else []) @
      [Wrote (take (nat (writelen g)) wb)] @ source_events g wb (i + 1) n"
    by (simp add: source_events_def upt_Suc_shift algebra_simps del: upt_Suc)
  let ?ev = "ev @ (if urgwrite g = i then [Urgent (word_of_int (urgwrite g))] else []) @ [Wrote (take (nat (writelen g)) wb)]"
  obtain p' where "source_loop n K g wb (i + 1) (full_results g (i + 1) n) ?ev (pause_if K (pauserw g) p) =
      Inr (?ev @ source_events g wb (i + 1) n, p')"
    using Suc.IH [of "i + 1" ?ev "pause_if K (pauserw g) p"] Suc.prems by auto
  then show ?case
    using Suc.prems unfolding r e by (auto simp: send_urgent_def next_res_def)
qed (simp add: source_events_def)

text \<open>As a source, on a connection that takes every write whole and can be closed, the program sends exactly the
  configured number of buffers, each the printable pattern of the configured length, and one
  urgent byte right before the write it was asked for, if that number is reached.\<close>

theorem source_sends_pattern:
  assumes "client g" and "wbuf p = Some wb" and "int (length wb) = writelen g" and "nbuf g < 2 ^ 31 - 1"
    and "\<And>k. k_close K fd k \<noteq> None"
  shows "\<exists>p'. sink K g fd (full_results g 1 (nat (nbuf g))) reads p =
     Inr (source_events g (map (\<lambda>i. char_of (32 + i mod 95)) [0..<length wb]) 1 (nat (nbuf g)), 0, p')"
proof -
  let ?wb = "map printable [0..<length wb]"
  have pat: "pattern wb (writelen g) = Some ?wb"
    using pattern_run [of "int (length wb)" wb] by (simp flip: assms(3))
  obtain q where "source_loop (nat (nbuf g)) K g ?wb 1 (full_results g 1 (nat (nbuf g))) []
      (pause_if K (pauseinit g) (p\<lparr>wbuf := Some ?wb\<rparr>)) = Inr (source_events g ?wb 1 (nat (nbuf g)), q)"
    using source_loop_events [of 1 "nat (nbuf g)" K g ?wb "[]"] assms(4) by force
  moreover obtain k where "k_close K fd (kst (pause_if K (pauseclose g) q)) = Some k"
    using assms(5) by blast
  ultimately show ?thesis
    using pat assms(1,2) by (simp add: sink_def Let_def or_sys_def printable_def [abs_def])
qed

theorem source_sends_pattern_witness:
  "\<exists>p'. sink plain_kernel (globals\<lparr>nbuf := 2, writelen := 3, urgwrite := 2\<rparr>) 3 [3, 1, 3] []
       \<lparr>kst = (\<lambda>_. None), rbuf = None, wbuf = Some (replicate 3 LF)\<rparr> =
     Inr ([Wrote '' !\"'', Urgent 2, Wrote '' !\"''], 0, p')"
proof -
  let ?g = "globals\<lparr>nbuf := 2, writelen := 3, urgwrite := 2\<rparr>"
  let ?p = "\<lparr>kst = (\<lambda>_. None), rbuf = None, wbuf = Some (replicate 3 LF)\<rparr> :: (int \<times> sockopt \<Rightarrow> optval option) prog"
  have "full_results ?g 1 2 = [3, 1, 3]"
    by (simp add: full_results_def globals_def numeral_2_eq_2)
  moreover have "source_events ?g (map (\<lambda>i. char_of (32 + i mod 95 :: nat)) [0..<3]) 1 2 =
      [Wrote '' !\"'', Urgent 2, Wrote '' !\"'']"
    by code_simp
  ultimately show ?thesis
    using source_sends_pattern [of ?g ?p "replicate 3 LF" plain_kernel 3 "[]"]
    by (simp add: globals_def plain_kernel_def)
qed

end
