(* ===== verification/Prog_Sem.thy ===== *)
theory Prog_Sem
  imports Prelude "HOL-Library.Multiset"
begin

text \<open>
  The program \<^verbatim>\<open>prog_sem.c\<close>: thirteen threads that each take one job from a shared stack of
  jobs and twenty-seven that each put one on it, with a counting semaphore for the number of jobs and
  a mutex for the stack.  A thread is a program counter together with its local pointer; the threads
  and the main program share the heap of jobs, the variable \<^verbatim>\<open>job_queue\<close>, the semaphore and the
  mutex, and one step is one statement of one of them.  The scheduler, the addresses \<^verbatim>\<open>calloc\<close>
  chooses and whether \<^verbatim>\<open>calloc\<close> and \<^verbatim>\<open>pthread_create\<close> succeed are the events of a run.  A read
  through a null pointer or of a job that was freed ends the run with the line it happens at.
  \<^verbatim>\<open>pthread_join\<close> stores a pointer where \<^verbatim>\<open>main\<close> has an \<^verbatim>\<open>int\<close>: \<open>sem_run\<close> is the program where both have four
  bytes, \<open>sem_run_on\<close> the program for any size of pointers.  The value that is stored, and that \<^verbatim>\<open>main\<close> prints, is
  whatever a routine without a return statement leaves; it is not recorded.

  The lemmas show the invariant of the shared state in every interleaving, that no dequeuing thread
  ever finds the stack empty, that no run gets stuck or goes on forever, that every job is processed
  at most once and by one thread, and that one read remains unprotected: the report of an enqueuing
  thread reads a job that may be gone by then.
\<close>

section \<open>Shared state\<close>

type_synonym job_ptr = "nat option"

record job =
  job_data :: int
  job_next :: job_ptr

type_synonym job_heap = "nat \<rightharpoonup> job"

definition MAX_THREAD_COUNT :: nat where
  "MAX_THREAD_COUNT = 40"

text \<open>What a thread does next, with its local \<^verbatim>\<open>new_job\<close> or \<^verbatim>\<open>next_job\<close>.\<close>

datatype thread =
    Absent
  | Enq_lock | Enq_calloc | Enq_data job_ptr | Enq_link job_ptr | Enq_post job_ptr | Enq_unlock job_ptr | Enq_print job_ptr
  | Deq_wait | Deq_lock | Deq_take | Deq_next job_ptr | Deq_unlock job_ptr | Deq_print job_ptr | Deq_free job_ptr
  | Exited

datatype main_point = M_init | M_create nat | M_join nat | M_done

datatype line =
    Enqueued nat int
  | Processed nat int
  | Creation_failed nat
  | Waiting
  | Completed nat

datatype crash = Null_deref nat | Freed nat | Bad_join nat | Status_overrun nat

record sem_state =
  jobs :: job_heap
  job_queue :: job_ptr
  job_queue_count :: nat
  job_queue_mutex :: "nat option"
  threads :: "nat \<Rightarrow> thread"
  main_at :: main_point
  lines :: "line list"

text \<open>The state before \<^verbatim>\<open>main\<close>: globals are zero and the mutex is statically initialised.\<close>

definition sem_initial :: sem_state where
  "sem_initial = \<lparr>jobs = Map.empty, job_queue = None, job_queue_count = 0, job_queue_mutex = None,
     threads = (\<lambda>_. Absent), main_at = M_init, lines = []\<rparr>"

definition goto :: "nat \<Rightarrow> thread \<Rightarrow> sem_state \<Rightarrow> sem_state" where
  "goto t pc st = st\<lparr>threads := (threads st)(t := pc)\<rparr>"

fun job_at :: "nat \<Rightarrow> sem_state \<Rightarrow> job_ptr \<Rightarrow> crash + job" where
  "job_at l st None = Inl (Null_deref l)"
| "job_at l st (Some a) = (case jobs st a of None \<Rightarrow> Inl (Freed l) | Some j \<Rightarrow> Inr j)"

text \<open>The two operations on the mutex: taking it is possible only while it is free.\<close>

definition mutex_lock :: "nat \<Rightarrow> thread \<Rightarrow> sem_state \<Rightarrow> (crash + sem_state) option" where
  "mutex_lock t pc st =
     (if job_queue_mutex st = None then Some (Inr (goto t pc (st\<lparr>job_queue_mutex := Some t\<rparr>))) else None)"

definition mutex_unlock :: "nat \<Rightarrow> thread \<Rightarrow> sem_state \<Rightarrow> (crash + sem_state) option" where
  "mutex_unlock t pc st = Some (Inr (goto t pc (st\<lparr>job_queue_mutex := None\<rparr>)))"

text \<open>
  \<^verbatim>\<open>new_job = calloc(1, sizeof(struct job))\<close>: the first argument is the address the allocator
  returns, \<^const>\<open>None\<close> when there is no memory; it is never an address in use.
\<close>

fun calloc_job :: "job_ptr \<Rightarrow> nat \<Rightarrow> sem_state \<Rightarrow> (crash + sem_state) option" where
  "calloc_job None t st = Some (Inr (goto t (Enq_data None) st))"
| "calloc_job (Some a) t st =
     (if jobs st a = None
      then Some (Inr (goto t (Enq_data (Some a))
             (st\<lparr>jobs := (jobs st)(a \<mapsto> \<lparr>job_data = 0, job_next = None\<rparr>)\<rparr>)))
      else None)"

definition store_data :: "job_ptr \<Rightarrow> nat \<Rightarrow> sem_state \<Rightarrow> (crash + sem_state) option" where
  "store_data p t st = (case job_at 26 st p of Inl e \<Rightarrow> Some (Inl e)
     | Inr j \<Rightarrow> Some (Inr (goto t (Enq_link p) (st\<lparr>jobs := (jobs st)(the p \<mapsto> j\<lparr>job_data := 100 + int t\<rparr>)\<rparr>))))"

definition link_job :: "job_ptr \<Rightarrow> nat \<Rightarrow> sem_state \<Rightarrow> (crash + sem_state) option" where
  "link_job p t st =
     (if job_queue st = None then Some (Inr (goto t (Enq_post p) (st\<lparr>job_queue := p\<rparr>)))
      else (case job_at 32 st p of Inl e \<Rightarrow> Some (Inl e)
        | Inr j \<Rightarrow> Some (Inr (goto t (Enq_post p)
            (st\<lparr>jobs := (jobs st)(the p \<mapsto> j\<lparr>job_next := job_queue st\<rparr>), job_queue := p\<rparr>)))))"

fun thread_callback_enqueue :: "job_ptr \<Rightarrow> nat \<Rightarrow> thread \<Rightarrow> sem_state \<Rightarrow> (crash + sem_state) option" where
  "thread_callback_enqueue al t Enq_lock st = mutex_lock t Enq_calloc st"
| "thread_callback_enqueue al t Enq_calloc st = calloc_job al t st"
| "thread_callback_enqueue al t (Enq_data p) st = store_data p t st"
| "thread_callback_enqueue al t (Enq_link p) st = link_job p t st"
| "thread_callback_enqueue al t (Enq_post p) st =
     Some (Inr (goto t (Enq_unlock p) (st\<lparr>job_queue_count := job_queue_count st + 1\<rparr>)))"
| "thread_callback_enqueue al t (Enq_unlock p) st = mutex_unlock t (Enq_print p) st"
| "thread_callback_enqueue al t (Enq_print p) st =
     (case job_at 41 st p of Inl e \<Rightarrow> Some (Inl e)
      | Inr j \<Rightarrow> Some (Inr (goto t Exited (st\<lparr>lines := lines st @ [Enqueued t (job_data j)]\<rparr>))))"
| "thread_callback_enqueue al t pc st = None"

fun thread_callback_dequeue :: "nat \<Rightarrow> thread \<Rightarrow> sem_state \<Rightarrow> (crash + sem_state) option" where
  "thread_callback_dequeue t Deq_wait st =
     (if job_queue_count st = 0 then None
      else Some (Inr (goto t Deq_lock (st\<lparr>job_queue_count := job_queue_count st - 1\<rparr>))))"
| "thread_callback_dequeue t Deq_lock st = mutex_lock t Deq_take st"
| "thread_callback_dequeue t Deq_take st = Some (Inr (goto t (Deq_next (job_queue st)) st))"
| "thread_callback_dequeue t (Deq_next p) st =
     (case job_at 55 st (job_queue st) of Inl e \<Rightarrow> Some (Inl e)
      | Inr j \<Rightarrow> Some (Inr (goto t (Deq_unlock p) (st\<lparr>job_queue := job_next j\<rparr>))))"
| "thread_callback_dequeue t (Deq_unlock p) st = mutex_unlock t (Deq_print p) st"
| "thread_callback_dequeue t (Deq_print p) st =
     (case job_at 59 st p of Inl e \<Rightarrow> Some (Inl e)
      | Inr j \<Rightarrow> Some (Inr (goto t (Deq_free p) (st\<lparr>lines := lines st @ [Processed t (job_data j)]\<rparr>))))"
| "thread_callback_dequeue t (Deq_free p) st =
     (case p of None \<Rightarrow> Some (Inr (goto t Exited st))
      | Some a \<Rightarrow> (if jobs st a = None then Some (Inl (Freed 60))
          else Some (Inr (goto t Exited (st\<lparr>jobs := (jobs st)(a := None)\<rparr>)))))"
| "thread_callback_dequeue t pc st = None"

definition start_routine :: "nat \<Rightarrow> thread" where
  "start_routine t = (if t < MAX_THREAD_COUNT div 3 then Deq_wait else Enq_lock)"

text \<open>
  The main program; the flag tells whether \<^verbatim>\<open>pthread_create\<close> succeeds.  After a failure the
  program goes on and joins a thread identifier that was never written.
\<close>

fun sem_main :: "bool \<Rightarrow> main_point \<Rightarrow> sem_state \<Rightarrow> (crash + sem_state) option" where
  "sem_main ok M_init st = Some (Inr (st\<lparr>job_queue_count := 0, job_queue := None, main_at := M_create 0\<rparr>))"
| "sem_main ok (M_create c) st =
     (if c < MAX_THREAD_COUNT
      then (if ok then Some (Inr (goto c (start_routine c) (st\<lparr>main_at := M_create (c + 1)\<rparr>)))
            else Some (Inr (st\<lparr>lines := lines st @ [Creation_failed c], main_at := M_create (c + 1)\<rparr>)))
      else Some (Inr (st\<lparr>lines := lines st @ [Waiting], main_at := M_join 0\<rparr>)))"
| "sem_main ok (M_join i) st =
     (if i < MAX_THREAD_COUNT
      then (case threads st i of
              Absent \<Rightarrow> Some (Inl (Bad_join 99))
            | Exited \<Rightarrow> Some (Inr (st\<lparr>lines := lines st @ [Completed i], main_at := M_join (i + 1)\<rparr>))
            | _ \<Rightarrow> None)
      else Some (Inr (st\<lparr>main_at := M_done\<rparr>)))"
| "sem_main ok M_done st = None"

section \<open>Runs\<close>

datatype event = Main bool | Thread nat job_ptr

fun thread_step :: "job_ptr \<Rightarrow> nat \<Rightarrow> sem_state \<Rightarrow> (crash + sem_state) option" where
  "thread_step al t st =
     (if t < MAX_THREAD_COUNT div 3 then thread_callback_dequeue t (threads st t) st
      else thread_callback_enqueue al t (threads st t) st)"

text \<open>When \<^verbatim>\<open>main\<close> has returned the process is gone and no thread moves any more.\<close>

fun sem_step :: "event \<Rightarrow> sem_state \<Rightarrow> (crash + sem_state) option" where
  "sem_step (Main ok) st = sem_main ok (main_at st) st"
| "sem_step (Thread t al) st = (if main_at st = M_done then None else thread_step al t st)"

fun sem_run :: "event list \<Rightarrow> sem_state \<Rightarrow> (crash + sem_state) option" where
  "sem_run [] st = Some (Inr st)"
| "sem_run (e # es) st =
     (case sem_step e st of None \<Rightarrow> None | Some (Inl c) \<Rightarrow> Some (Inl c) | Some (Inr st') \<Rightarrow> sem_run es st')"

text \<open>
  The call \<^verbatim>\<open>pthread_join(thread_list[ind], (void*)&status)\<close> stores the return value of the thread, a pointer of
  \<open>psize\<close> bytes, in \<^verbatim>\<open>status\<close>, which has four; with larger pointers it writes beyond the variable.
\<close>

definition joins :: "event \<Rightarrow> sem_state \<Rightarrow> bool" where
  "joins e st =
     (case e of Thread t al \<Rightarrow> False
      | Main ok \<Rightarrow> (case main_at st of M_join i \<Rightarrow> i < MAX_THREAD_COUNT \<and> threads st i = Exited | _ \<Rightarrow> False))"

definition sem_step_on :: "nat \<Rightarrow> event \<Rightarrow> sem_state \<Rightarrow> (crash + sem_state) option" where
  "sem_step_on psize e st = (if 4 < psize \<and> joins e st then Some (Inl (Status_overrun 99)) else sem_step e st)"

fun sem_run_on :: "nat \<Rightarrow> event list \<Rightarrow> sem_state \<Rightarrow> (crash + sem_state) option" where
  "sem_run_on psize [] st = Some (Inr st)"
| "sem_run_on psize (e # es) st =
     (case sem_step_on psize e st of None \<Rightarrow> None | Some (Inl c) \<Rightarrow> Some (Inl c)
      | Some (Inr st') \<Rightarrow> sem_run_on psize es st')"

lemma sem_run_on_cases:
  "sem_run_on psize es st = sem_run es st \<or> 4 < psize \<and> sem_run_on psize es st = Some (Inl (Status_overrun 99))"
proof (induction es arbitrary: st)
  case (Cons e es)
  show ?case
  proof (cases "4 < psize \<and> joins e st")
    case False
    then show ?thesis using Cons by (auto simp: sem_step_on_def split: option.splits sum.splits)
  qed (simp add: sem_step_on_def)
qed simp

lemma sem_run_on_small: "psize \<le> 4 \<Longrightarrow> sem_run_on psize es st = sem_run es st"
  using sem_run_on_cases [of psize es st] by auto

text \<open>Events in which the system grants what is asked of it.\<close>

fun granted :: "event \<Rightarrow> bool" where
  "granted (Main ok) = ok"
| "granted (Thread t al) = (al \<noteq> None)"

inductive sem_reach :: "sem_state \<Rightarrow> bool" where
  start: "sem_reach sem_initial"
| step: "sem_reach st \<Longrightarrow> granted e \<Longrightarrow> sem_step e st = Some (Inr st') \<Longrightarrow> sem_reach st'"

text \<open>The steps of the threads as a relation, when memory is granted.\<close>

inductive acts :: "nat \<Rightarrow> sem_state \<Rightarrow> sem_state \<Rightarrow> bool" where
  e_lock: "threads st t = Enq_lock \<Longrightarrow> job_queue_mutex st = None \<Longrightarrow>
     acts t st (goto t Enq_calloc (st\<lparr>job_queue_mutex := Some t\<rparr>))"
| e_calloc: "threads st t = Enq_calloc \<Longrightarrow> jobs st a = None \<Longrightarrow>
     acts t st (goto t (Enq_data (Some a)) (st\<lparr>jobs := (jobs st)(a \<mapsto> \<lparr>job_data = 0, job_next = None\<rparr>)\<rparr>))"
| e_data: "threads st t = Enq_data (Some a) \<Longrightarrow> jobs st a = Some j \<Longrightarrow>
     acts t st (goto t (Enq_link (Some a)) (st\<lparr>jobs := (jobs st)(a \<mapsto> j\<lparr>job_data := 100 + int t\<rparr>)\<rparr>))"
| e_first: "threads st t = Enq_link p \<Longrightarrow> job_queue st = None \<Longrightarrow>
     acts t st (goto t (Enq_post p) (st\<lparr>job_queue := p\<rparr>))"
| e_push: "threads st t = Enq_link (Some a) \<Longrightarrow> job_queue st = Some q \<Longrightarrow> jobs st a = Some j \<Longrightarrow>
     acts t st (goto t (Enq_post (Some a))
       (st\<lparr>jobs := (jobs st)(a \<mapsto> j\<lparr>job_next := job_queue st\<rparr>), job_queue := Some a\<rparr>))"
| e_post: "threads st t = Enq_post p \<Longrightarrow>
     acts t st (goto t (Enq_unlock p) (st\<lparr>job_queue_count := Suc (job_queue_count st)\<rparr>))"
| e_unlock: "threads st t = Enq_unlock p \<Longrightarrow>
     acts t st (goto t (Enq_print p) (st\<lparr>job_queue_mutex := None\<rparr>))"
| e_print: "threads st t = Enq_print (Some a) \<Longrightarrow> jobs st a = Some j \<Longrightarrow>
     acts t st (goto t Exited (st\<lparr>lines := lines st @ [Enqueued t (job_data j)]\<rparr>))"
| d_wait: "threads st t = Deq_wait \<Longrightarrow> job_queue_count st = Suc n \<Longrightarrow>
     acts t st (goto t Deq_lock (st\<lparr>job_queue_count := n\<rparr>))"
| d_lock: "threads st t = Deq_lock \<Longrightarrow> job_queue_mutex st = None \<Longrightarrow>
     acts t st (goto t Deq_take (st\<lparr>job_queue_mutex := Some t\<rparr>))"
| d_take: "threads st t = Deq_take \<Longrightarrow> job_queue st = q \<Longrightarrow> acts t st (goto t (Deq_next q) st)"
| d_next: "threads st t = Deq_next p \<Longrightarrow> job_queue st = Some a \<Longrightarrow> jobs st a = Some j \<Longrightarrow>
     acts t st (goto t (Deq_unlock p) (st\<lparr>job_queue := job_next j\<rparr>))"
| d_unlock: "threads st t = Deq_unlock p \<Longrightarrow>
     acts t st (goto t (Deq_print p) (st\<lparr>job_queue_mutex := None\<rparr>))"
| d_print: "threads st t = Deq_print (Some a) \<Longrightarrow> jobs st a = Some j \<Longrightarrow>
     acts t st (goto t (Deq_free (Some a)) (st\<lparr>lines := lines st @ [Processed t (job_data j)]\<rparr>))"
| d_free: "threads st t = Deq_free (Some a) \<Longrightarrow> jobs st a = Some j \<Longrightarrow>
     acts t st (goto t Exited (st\<lparr>jobs := (jobs st)(a := None)\<rparr>))"
| d_free_null: "threads st t = Deq_free None \<Longrightarrow> acts t st (goto t Exited st)"

lemma dequeue_acts: "thread_callback_dequeue t (threads st t) st = Some (Inr st') \<Longrightarrow> acts t st st'"
  by (cases "threads st t"; cases "job_queue st"; cases "job_queue_count st")
     (auto simp: mutex_lock_def mutex_unlock_def intro: acts.intros
       split: if_splits option.splits sum.splits elim!: job_at.elims)

lemma enqueue_acts:
  "thread_callback_enqueue (Some a) t (threads st t) st = Some (Inr st') \<Longrightarrow> acts t st st'"
proof (cases "threads st t")
  case (Enq_data p)
  assume "thread_callback_enqueue (Some a) t (threads st t) st = Some (Inr st')"
  then show ?thesis using Enq_data
    by (cases p) (auto simp: store_data_def intro: acts.intros split: option.splits)
next
  case (Enq_link p)
  assume "thread_callback_enqueue (Some a) t (threads st t) st = Some (Inr st')"
  then show ?thesis using Enq_link
    by (cases p; cases "job_queue st") (auto simp: link_job_def intro: acts.intros split: option.splits
      dest: e_push)
next
  case (Enq_print p)
  assume "thread_callback_enqueue (Some a) t (threads st t) st = Some (Inr st')"
  then show ?thesis using Enq_print by (cases p) (auto intro: acts.intros split: option.splits)
qed (auto simp: mutex_lock_def mutex_unlock_def intro: acts.intros split: if_splits)

lemma thread_step_acts: "thread_step (Some a) t st = Some (Inr st') \<Longrightarrow> acts t st st'"
  by (auto dest: dequeue_acts enqueue_acts split: if_splits)

section \<open>The invariant\<close>

text \<open>The stack as it lies in the heap.\<close>

fun chain :: "job_heap \<Rightarrow> job_ptr \<Rightarrow> nat list \<Rightarrow> bool" where
  "chain h p [] = (p = None)"
| "chain h p (a # as) = (p = Some a \<and> (\<exists>j. h a = Some j \<and> chain h (job_next j) as))"

text \<open>Program points inside the critical section, and the job a thread has for itself.\<close>

fun inside :: "thread \<Rightarrow> bool" where
  "inside Enq_calloc = True"
| "inside (Enq_data p) = True"
| "inside (Enq_link p) = True"
| "inside (Enq_post p) = True"
| "inside (Enq_unlock p) = True"
| "inside Deq_take = True"
| "inside (Deq_next p) = True"
| "inside (Deq_unlock p) = True"
| "inside pc = False"

fun owned :: "thread \<Rightarrow> job_ptr" where
  "owned (Enq_data p) = p"
| "owned (Enq_link p) = p"
| "owned (Deq_unlock p) = p"
| "owned (Deq_print p) = p"
| "owned (Deq_free p) = p"
| "owned pc = None"

definition dequeuer :: "nat \<Rightarrow> bool" where
  "dequeuer t = (t < MAX_THREAD_COUNT div 3)"

fun fits :: "nat \<Rightarrow> thread \<Rightarrow> bool" where
  "fits t Absent = True"
| "fits t Exited = (t < MAX_THREAD_COUNT)"
| "fits t Deq_wait = dequeuer t"
| "fits t Deq_lock = dequeuer t"
| "fits t Deq_take = dequeuer t"
| "fits t (Deq_next p) = dequeuer t"
| "fits t (Deq_unlock p) = dequeuer t"
| "fits t (Deq_print p) = dequeuer t"
| "fits t (Deq_free p) = dequeuer t"
| "fits t pc = (\<not> dequeuer t \<and> t < MAX_THREAD_COUNT)"

text \<open>The threads, the mutex and the main program.\<close>

definition threads_ok :: "sem_state \<Rightarrow> bool" where
  "threads_ok st = ((\<forall>t. fits t (threads st t))
     \<and> (\<forall>t. inside (threads st t) \<longleftrightarrow> job_queue_mutex st = Some t)
     \<and> (case main_at st of
          M_init \<Rightarrow> (\<forall>t. threads st t = Absent) \<and> job_queue_count st = 0 \<and> job_queue st = None
        | M_create c \<Rightarrow> c \<le> MAX_THREAD_COUNT \<and> (\<forall>t. threads st t = Absent \<longleftrightarrow> c \<le> t)
        | _ \<Rightarrow> (\<forall>t. threads st t = Absent \<longleftrightarrow> MAX_THREAD_COUNT \<le> t)))"

text \<open>The heap: the stack, the jobs the threads own, and nothing else.\<close>

definition shared_heap :: "job_heap \<Rightarrow> job_ptr \<Rightarrow> nat list \<Rightarrow> (nat \<Rightarrow> job_ptr) \<Rightarrow> bool" where
  "shared_heap h q xs own = (chain h q xs \<and> distinct xs \<and> dom h = set xs \<union> ran own
     \<and> set xs \<inter> ran own = {} \<and> inj_on own (dom own))"

fun private_ok :: "job_heap \<Rightarrow> job_ptr \<Rightarrow> thread \<Rightarrow> bool" where
  "private_ok h q (Enq_data p) = (\<exists>a j. p = Some a \<and> h a = Some j \<and> job_next j = None)"
| "private_ok h q (Enq_link p) = (\<exists>a j. p = Some a \<and> h a = Some j \<and> job_next j = None)"
| "private_ok h q (Deq_unlock p) = (p \<noteq> None)"
| "private_ok h q (Deq_print p) = (p \<noteq> None)"
| "private_ok h q (Deq_free p) = (p \<noteq> None)"
| "private_ok h q (Enq_post p) = (p \<noteq> None)"
| "private_ok h q (Enq_unlock p) = (p \<noteq> None)"
| "private_ok h q (Enq_print p) = (p \<noteq> None)"
| "private_ok h q (Deq_next p) = (p = q)"
| "private_ok h q pc = True"

definition jobs_ok :: "sem_state \<Rightarrow> nat list \<Rightarrow> bool" where
  "jobs_ok st xs = (shared_heap (jobs st) (job_queue st) xs (\<lambda>t. owned (threads st t))
     \<and> (\<forall>t. private_ok (jobs st) (job_queue st) (threads st t)))"

text \<open>The list after a step.\<close>

fun stack_after :: "thread \<Rightarrow> nat list \<Rightarrow> nat list" where
  "stack_after (Enq_link p) xs = the p # xs"
| "stack_after (Deq_next p) xs = tl xs"
| "stack_after pc xs = xs"

lemma chain_frame: "a \<notin> set xs \<Longrightarrow> chain (h(a := x)) p xs = chain h p xs"
  by (induction xs arbitrary: p) auto

lemma chain_None [simp]: "chain h None xs \<longleftrightarrow> xs = []"
  by (cases xs) auto


text \<open>A step that leaves the mutex alone, one that takes it and one that gives it back.\<close>

lemma threads_ok_goto:
  assumes "threads_ok st" and "threads st t \<noteq> Absent" and "pc \<noteq> Absent"
    and "fits t pc" and "main_at st' = main_at st" and "threads st' = threads st"
    and "job_queue_mutex st' = job_queue_mutex st \<and> inside pc = inside (threads st t)
       \<or> job_queue_mutex st = None \<and> job_queue_mutex st' = Some t \<and> inside pc
       \<or> inside (threads st t) \<and> job_queue_mutex st' = None \<and> \<not> inside pc"
  shows "threads_ok (goto t pc st')"
proof -
  have "main_at st \<noteq> M_init" using assms(1,2) by (auto simp: threads_ok_def)
  moreover have "\<forall>u. inside (threads (goto t pc st') u) \<longleftrightarrow> job_queue_mutex st' = Some u"
    using assms(1,6,7) by (auto simp: threads_ok_def goto_def)
  ultimately show ?thesis using assms(1-6) by (auto simp: threads_ok_def goto_def split: main_point.splits)
qed

lemma threads_ok_acts:
  assumes "acts t st st'" and ok: "threads_ok st"
  shows "threads_ok st'"
proof -
  have "fits t (threads st t)" using ok by (simp add: threads_ok_def)
  with assms show ?thesis
    by (induction rule: acts.induct)
       (erule threads_ok_goto; auto simp: dequeuer_def MAX_THREAD_COUNT_def)+
qed

lemma create_absent: "threads_ok st \<Longrightarrow> main_at st = M_create c \<Longrightarrow> threads st c = Absent"
  by (auto simp: threads_ok_def)

lemma threads_ok_create:
  assumes ok: "threads_ok st" and at: "main_at st = M_create c" and less: "c < MAX_THREAD_COUNT"
  shows "threads_ok (goto c (start_routine c) (st\<lparr>main_at := M_create (c + 1)\<rparr>))"
proof -
  have "threads st c = Absent" by (rule create_absent [OF ok at])
  then have "\<not> inside (threads st c)" by simp
  then have "job_queue_mutex st \<noteq> Some c" using ok unfolding threads_ok_def by blast
  then show ?thesis using ok at less
    by (auto simp: threads_ok_def goto_def start_routine_def dequeuer_def)
qed

lemma threads_ok_main:
  "sem_main True (main_at st) st = Some (Inr st') \<Longrightarrow> threads_ok st \<Longrightarrow> threads_ok st'"
  using threads_ok_create [of st]
  by (cases "main_at st")
     (auto simp: threads_ok_def split: if_splits thread.splits)

lemma shared_alloc:
  assumes "shared_heap h q xs own" "h a = None" "own t = None"
  shows "shared_heap (h(a \<mapsto> j)) q xs (own(t \<mapsto> a))"
proof -
  have "a \<notin> dom h" using assms(2) by auto
  then have "a \<notin> set xs" "a \<notin> ran own" using assms(1) by (auto simp: shared_heap_def)
  moreover from this have "\<forall>u. own u \<noteq> Some a" by (auto simp: ran_def)
  moreover have "ran (own(t \<mapsto> a)) = insert a (ran own)" using assms(3) by auto
  ultimately show ?thesis using assms by (auto simp: shared_heap_def chain_frame inj_on_def)
qed

lemma shared_update:
  assumes "shared_heap h q xs own" "own t = Some a"
  shows "shared_heap (h(a \<mapsto> j)) q xs own"
proof -
  have "a \<in> ran own" "a \<notin> set xs" using assms by (auto simp: shared_heap_def intro: ranI)
  then show ?thesis using assms(1) by (auto simp: shared_heap_def chain_frame)
qed

lemma ran_drop:
  assumes "inj_on own (dom own)" "own t = Some a"
  shows "ran (own(t := None)) = ran own - {a}"
proof -
  have "own u = Some a \<Longrightarrow> u = t" for u using inj_onD [OF assms(1), of u t] assms(2) by auto
  moreover have "own u = Some x \<Longrightarrow> x \<noteq> a \<Longrightarrow> u \<noteq> t" for u x using assms(2) by auto
  ultimately show ?thesis by (auto simp: ran_def)
qed

lemma shared_push:
  assumes "shared_heap h q xs own" "own t = Some a" "h a = Some j" "job_next j = q"
  shows "shared_heap h (Some a) (a # xs) (own(t := None))"
proof -
  have "a \<in> ran own" using assms(2) by (rule ranI)
  moreover have "ran (own(t := None)) = ran own - {a}"
    using assms by (auto simp: shared_heap_def ran_drop)
  ultimately show ?thesis using assms by (auto simp: shared_heap_def inj_on_def)
qed

lemma shared_pop:
  assumes "shared_heap h q xs own" "q = Some a" "h a = Some j" "own t = None"
  shows "shared_heap h (job_next j) (tl xs) (own(t \<mapsto> a)) \<and> xs = a # tl xs"
proof -
  obtain ys where ys: "xs = a # ys" using assms by (cases xs) (auto simp: shared_heap_def)
  have "a \<notin> ran own" using assms(1) ys by (auto simp: shared_heap_def)
  moreover have "ran (own(t \<mapsto> a)) = insert a (ran own)" using assms(4) by auto
  ultimately show ?thesis using assms ys by (auto simp: shared_heap_def inj_on_def ran_def)
qed

lemma shared_free:
  assumes "shared_heap h q xs own" "own t = Some a"
  shows "shared_heap (h(a := None)) q xs (own(t := None))"
proof -
  have "a \<in> ran own" "a \<notin> set xs" using assms by (auto simp: shared_heap_def intro: ranI)
  moreover have "ran (own(t := None)) = ran own - {a}"
    using assms by (auto simp: shared_heap_def ran_drop)
  ultimately show ?thesis using assms(1) by (auto simp: shared_heap_def chain_frame inj_on_def)
qed

lemma owned_upd: "(\<lambda>u. owned (if u = t then pc else f u)) = (\<lambda>u. owned (f u))(t := owned pc)"
  by auto


text \<open>Other threads are not disturbed: what they need of the heap is theirs, and nobody else is inside.\<close>

lemma private_frame:
  assumes "private_ok h q pc" and "owned pc \<noteq> Some a" and "q' \<noteq> q \<Longrightarrow> \<not> inside pc"
  shows "private_ok (h(a := x)) q' pc"
  using assms by (cases pc) auto

lemma private_queue: "private_ok h q pc \<Longrightarrow> \<not> inside pc \<Longrightarrow> private_ok h q' pc"
  by (cases pc) auto

lemma jobs_ok_goto:
  assumes ok: "jobs_ok st xs" and "shared_heap (jobs st') (job_queue st') xs' ((\<lambda>u. owned (threads st u))(t := owned pc))"
    and "threads st' = threads st" and "private_ok (jobs st') (job_queue st') pc"
    and "\<And>u. u \<noteq> t \<Longrightarrow> private_ok (jobs st') (job_queue st') (threads st u)"
  shows "jobs_ok (goto t pc st') xs'"
  using assms by (auto simp: jobs_ok_def goto_def owned_upd)

lemma jobs_ok_same:
  assumes "jobs_ok st xs" and "jobs st' = jobs st" "job_queue st' = job_queue st" "threads st' = threads st"
    and "owned pc = owned (threads st t)" "private_ok (jobs st) (job_queue st) pc"
  shows "jobs_ok (goto t pc st') xs"
  using assms by (intro jobs_ok_goto [OF assms(1)]) (auto simp: jobs_ok_def fun_upd_idem)

lemma other_outside: "threads_ok st \<Longrightarrow> inside (threads st t) \<Longrightarrow> u \<noteq> t \<Longrightarrow> \<not> inside (threads st u)"
  unfolding threads_ok_def by force

lemma other_owned:
  "jobs_ok st xs \<Longrightarrow> owned (threads st t) = Some a \<Longrightarrow> u \<noteq> t \<Longrightarrow> owned (threads st u) \<noteq> Some a"
  by (auto simp: jobs_ok_def shared_heap_def inj_on_def dom_def)

lemma jobs_ok_shared: "jobs_ok st xs \<Longrightarrow> shared_heap (jobs st) (job_queue st) xs (\<lambda>t. owned (threads st t))"
  by (simp add: jobs_ok_def)

lemma jobs_ok_private: "jobs_ok st xs \<Longrightarrow> private_ok (jobs st) (job_queue st) (threads st t)"
  by (simp add: jobs_ok_def)

lemma unowned: "jobs_ok st xs \<Longrightarrow> jobs st a = None \<Longrightarrow> owned (threads st t) \<noteq> Some a"
  using ranI [of "\<lambda>t. owned (threads st t)" t a] domI [of "jobs st" a]
  by (auto simp: jobs_ok_def shared_heap_def)

lemma jobs_ok_calloc:
  assumes "jobs_ok st xs" "threads st t = Enq_calloc" "jobs st a = None"
  shows "jobs_ok (goto t (Enq_data (Some a)) (st\<lparr>jobs := (jobs st)(a \<mapsto> \<lparr>job_data = 0, job_next = None\<rparr>)\<rparr>)) xs"
  using assms unowned [OF assms(1,3)]
  by (intro jobs_ok_goto [OF assms(1)])
     (auto intro!: shared_alloc private_frame simp: jobs_ok_shared jobs_ok_private)

lemma jobs_ok_data:
  assumes "jobs_ok st xs" "threads st t = Enq_data (Some a)" "jobs st a = Some j"
  shows "jobs_ok (goto t (Enq_link (Some a)) (st\<lparr>jobs := (jobs st)(a \<mapsto> j\<lparr>job_data := d\<rparr>)\<rparr>)) xs"
  using assms jobs_ok_private [OF assms(1), of t] other_owned [OF assms(1), of t a]
    shared_update [OF jobs_ok_shared [OF assms(1)], of t a]
  by (intro jobs_ok_goto [OF assms(1)])
     (auto intro!: private_frame simp: jobs_ok_private fun_upd_idem)

lemma jobs_ok_push:
  assumes "jobs_ok st xs" "threads_ok st" "threads st t = Enq_link (Some a)" "jobs st a = Some j"
    "q = Some a"
  shows "jobs_ok (goto t (Enq_post q) (st\<lparr>jobs := (jobs st)(a \<mapsto> j\<lparr>job_next := job_queue st\<rparr>), job_queue := q\<rparr>)) (a # xs)"
proof (rule jobs_ok_goto [OF assms(1)])
  let ?own = "\<lambda>u. owned (threads st u)" and ?h = "(jobs st)(a \<mapsto> j\<lparr>job_next := job_queue st\<rparr>)"
  have "shared_heap ?h (job_queue st) xs ?own"
    using shared_update [OF jobs_ok_shared [OF assms(1)], of t a] assms(3) by simp
  then have "shared_heap ?h (Some a) (a # xs) (?own(t := None))"
    by (rule shared_push [where t = t and j = "j\<lparr>job_next := job_queue st\<rparr>"]) (simp_all add: assms(3))
  then show "shared_heap (jobs (st\<lparr>jobs := ?h, job_queue := q\<rparr>)) (job_queue (st\<lparr>jobs := ?h, job_queue := q\<rparr>))
      (a # xs) (?own(t := owned (Enq_post q)))" using assms(5) by simp
qed (use assms other_owned [OF assms(1), of t a] other_outside [OF assms(2), of t] in
      \<open>auto intro!: private_frame [where q = "job_queue st"] simp: jobs_ok_private\<close>)

lemma jobs_ok_pop:
  assumes "jobs_ok st xs" "threads_ok st" "threads st t = Deq_next p" "job_queue st = Some a" "jobs st a = Some j"
  shows "jobs_ok (goto t (Deq_unlock p) (st\<lparr>job_queue := job_next j\<rparr>)) (tl xs)"
proof -
  have p: "p = Some a" using jobs_ok_private [OF assms(1), of t] assms by simp
  have "private_ok (jobs st) (job_next j) (threads st u)" if "u \<noteq> t" for u
    using private_queue [OF jobs_ok_private [OF assms(1)]] other_outside [OF assms(2), of t] that
    by (auto simp: assms(3))
  moreover have "shared_heap (jobs st) (job_next j) (tl xs) ((\<lambda>u. owned (threads st u))(t \<mapsto> a))"
    using shared_pop [OF jobs_ok_shared [OF assms(1)] assms(4,5), of t] assms(3) by simp
  ultimately show ?thesis using p by (intro jobs_ok_goto [OF assms(1)]) simp_all
qed

lemma jobs_ok_free:
  assumes "jobs_ok st xs" "threads st t = Deq_free (Some a)"
  shows "jobs_ok (goto t Exited (st\<lparr>jobs := (jobs st)(a := None)\<rparr>)) xs"
  using assms other_owned [OF assms(1), of t a]
  by (intro jobs_ok_goto [OF assms(1)])
     (auto intro!: shared_free private_frame simp: jobs_ok_shared jobs_ok_private)


lemma jobs_ok_acts:
  assumes "acts t st st'" "jobs_ok st xs" "threads_ok st"
  shows "jobs_ok st' (stack_after (threads st t) xs)"
  using assms jobs_ok_private [OF assms(2), of t]
proof (induction rule: acts.induct)
  case (e_first st t p)
  then obtain a j where aj: "p = Some a" "jobs st a = Some j" "job_next j = None" by auto
  then have "jobs_ok (goto t (Enq_post p) (st\<lparr>jobs := (jobs st)(a \<mapsto> j\<lparr>job_next := job_queue st\<rparr>), job_queue := p\<rparr>)) (a # xs)"
    using e_first by (intro jobs_ok_push) auto
  moreover have "(jobs st)(a \<mapsto> j\<lparr>job_next := job_queue st\<rparr>) = jobs st"
    using aj e_first(2) by (auto simp: fun_upd_idem_iff)
  ultimately show ?case using aj e_first by simp
next
  case (e_push st t a q j)
  then show ?case using jobs_ok_push [of st xs t a j "Some a"] by simp
qed (auto intro: jobs_ok_same jobs_ok_calloc jobs_ok_data jobs_ok_pop jobs_ok_free)

lemma jobs_ok_main:
  assumes "sem_main True (main_at st) st = Some (Inr st')" "threads_ok st" "jobs_ok st xs"
  shows "jobs_ok st' xs"
proof (cases "main_at st")
  case (M_create c)
  note absent = create_absent [OF assms(2) M_create]
  have "jobs_ok (goto c (start_routine c) (st\<lparr>main_at := M_create (Suc c)\<rparr>)) xs" if "c < MAX_THREAD_COUNT"
    by (rule jobs_ok_same [OF assms(3)]) (auto simp: absent that start_routine_def)
  then show ?thesis using assms M_create by (auto simp: jobs_ok_def split: if_splits)
qed (use assms in \<open>auto simp: jobs_ok_def threads_ok_def split: if_splits thread.splits\<close>)

section \<open>Counting jobs and tokens\<close>

text \<open>
  A dequeuer between \<^verbatim>\<open>sem_wait\<close> and the removal has a claim on one job of the stack; an
  enqueuer between the insertion and \<^verbatim>\<open>sem_post\<close> has put one there that nobody can claim yet.
\<close>

fun pending :: "thread \<Rightarrow> nat" where
  "pending (Enq_post p) = 1"
| "pending Deq_lock = 1"
| "pending Deq_take = 1"
| "pending (Deq_next p) = 1"
| "pending pc = 0"

definition taken :: "nat \<Rightarrow> thread \<Rightarrow> nat" where
  "taken t pc = (if dequeuer t \<and> pc \<noteq> Absent \<and> pc \<noteq> Deq_wait then 1 else 0)"

fun posted_at :: "thread \<Rightarrow> bool" where
  "posted_at (Enq_unlock p) = True"
| "posted_at (Enq_print p) = True"
| "posted_at Exited = True"
| "posted_at pc = False"

definition posted :: "nat \<Rightarrow> thread \<Rightarrow> nat" where
  "posted t pc = (if \<not> dequeuer t \<and> posted_at pc then 1 else 0)"

definition over_threads :: "(nat \<Rightarrow> thread \<Rightarrow> 'a::comm_monoid_add) \<Rightarrow> (nat \<Rightarrow> thread) \<Rightarrow> 'a" where
  "over_threads f th = (\<Sum>t<MAX_THREAD_COUNT. f t (th t))"

definition counts_ok :: "sem_state \<Rightarrow> nat list \<Rightarrow> bool" where
  "counts_ok st xs = (length xs = job_queue_count st + over_threads (\<lambda>_. pending) (threads st)
     \<and> job_queue_count st + over_threads taken (threads st) = over_threads posted (threads st))"

lemma over_threads_change:
  assumes "t < MAX_THREAD_COUNT" "\<And>u. u \<noteq> t \<Longrightarrow> f u (th u) = g u (th u)"
  shows "over_threads f (th(t := pc)) + g t (th t) = over_threads g th + f t pc"
proof -
  let ?rest = "\<Sum>u \<in> {..<MAX_THREAD_COUNT} - {t}. g u (th u)"
  have "over_threads f (th(t := pc)) = f t pc + (\<Sum>u \<in> {..<MAX_THREAD_COUNT} - {t}. f u ((th(t := pc)) u))"
    unfolding over_threads_def using assms(1) by (subst sum.remove [of _ t]) auto
  also have "(\<Sum>u \<in> {..<MAX_THREAD_COUNT} - {t}. f u ((th(t := pc)) u)) = ?rest"
    using assms(2) by (intro sum.cong) auto
  finally have "over_threads f (th(t := pc)) = f t pc + ?rest" .
  moreover have "over_threads g th = g t (th t) + ?rest"
    unfolding over_threads_def using assms(1) by (subst sum.remove [of _ t]) auto
  ultimately show ?thesis by (simp add: ac_simps)
qed

lemma over_threads_upd:
  "t < MAX_THREAD_COUNT \<Longrightarrow> over_threads f (th(t := pc)) + f t (th t) = over_threads f th + f t pc"
  by (rule over_threads_change) simp_all

lemma present_bound: "threads_ok st \<Longrightarrow> threads st t \<noteq> Absent \<Longrightarrow> t < MAX_THREAD_COUNT"
  unfolding threads_ok_def
  by (drule conjunct1, drule spec [of _ t], cases "threads st t") (auto simp: dequeuer_def)

lemma acts_present:
  assumes "acts t st st'" "threads_ok st"
  shows "fits t (threads st t) \<and> t < MAX_THREAD_COUNT"
proof -
  have "threads st t \<noteq> Absent" using assms(1) by cases auto
  with assms(2) show ?thesis using present_bound [OF assms(2)] by (simp add: threads_ok_def)
qed

lemma counts_ok_goto:
  assumes "counts_ok st xs" "t < MAX_THREAD_COUNT" "threads st' = threads st"
    "length xs' + job_queue_count st + pending (threads st t) = length xs + job_queue_count st' + pending pc"
    "job_queue_count st' + taken t pc + posted t (threads st t) 
       = job_queue_count st + taken t (threads st t) + posted t pc"
  shows "counts_ok (goto t pc st') xs'"
  using assms over_threads_upd [OF assms(2), of "\<lambda>_. pending" "threads st" pc]
    over_threads_upd [OF assms(2), of taken "threads st" pc]
    over_threads_upd [OF assms(2), of posted "threads st" pc]
  by (auto simp: counts_ok_def goto_def)

lemma counts_ok_acts:
  assumes "acts t st st'" "counts_ok st xs" "threads_ok st" "jobs_ok st xs"
  shows "counts_ok st' (stack_after (threads st t) xs)"
proof -
  have "fits t (threads st t) \<and> t < MAX_THREAD_COUNT" by (rule acts_present [OF assms(1,3)])
  moreover have "job_queue st \<noteq> None \<longrightarrow> 0 < length xs"
    using assms(4) by (cases xs) (auto simp: jobs_ok_def shared_heap_def)
  ultimately have "fits t (threads st t) \<and> t < MAX_THREAD_COUNT \<and> (job_queue st \<noteq> None \<longrightarrow> 0 < length xs)
     \<and> counts_ok st xs" using assms(2) by blast
  with assms(1) show ?thesis
    by (induction rule: acts.induct)
       (auto intro!: counts_ok_goto simp: taken_def posted_def simp flip: length_greater_0_conv)
qed

lemma counts_ok_main:
  assumes "sem_main True (main_at st) st = Some (Inr st')" "threads_ok st" "counts_ok st xs"
  shows "counts_ok st' xs"
proof (cases "main_at st")
  case (M_create c)
  note absent = create_absent [OF assms(2) M_create]
  have "counts_ok (goto c (start_routine c) (st\<lparr>main_at := M_create (Suc c)\<rparr>)) xs" if "c < MAX_THREAD_COUNT"
    by (rule counts_ok_goto [OF assms(3) that]) (auto simp: absent that start_routine_def taken_def posted_def dequeuer_def)
  then show ?thesis using assms M_create by (auto simp: counts_ok_def split: if_splits)
qed (use assms in \<open>auto simp: counts_ok_def threads_ok_def split: if_splits thread.splits\<close>)

section \<open>What becomes of the data\<close>

text \<open>The number a thread has brought into being, the one it carries, and the ones reported as processed.\<close>

definition data_at :: "job_heap \<Rightarrow> job_ptr \<Rightarrow> int" where
  "data_at h p = job_data (the (h (the p)))"

fun made_at :: "thread \<Rightarrow> bool" where
  "made_at (Enq_link p) = True"
| "made_at (Enq_post p) = True"
| "made_at (Enq_unlock p) = True"
| "made_at (Enq_print p) = True"
| "made_at Exited = True"
| "made_at pc = False"

definition made :: "nat \<Rightarrow> thread \<Rightarrow> int multiset" where
  "made t pc = (if \<not> dequeuer t \<and> made_at pc then {#100 + int t#} else {#})"

fun carried :: "job_heap \<Rightarrow> thread \<Rightarrow> int multiset" where
  "carried h (Enq_link p) = {#data_at h p#}"
| "carried h (Deq_unlock p) = {#data_at h p#}"
| "carried h (Deq_print p) = {#data_at h p#}"
| "carried h pc = {#}"

fun processed :: "line list \<Rightarrow> int list" where
  "processed [] = []"
| "processed (Processed t d # ls) = d # processed ls"
| "processed (l # ls) = processed ls"

definition stacked :: "job_heap \<Rightarrow> nat list \<Rightarrow> int multiset" where
  "stacked h xs = mset (map (\<lambda>a. data_at h (Some a)) xs)"

definition data_ok :: "sem_state \<Rightarrow> nat list \<Rightarrow> bool" where
  "data_ok st xs = (over_threads made (threads st)
     = over_threads (\<lambda>_. carried (jobs st)) (threads st) + stacked (jobs st) xs + mset (processed (lines st)))"

lemma processed_append [simp]: "processed (ls @ ms) = processed ls @ processed ms"
  by (induction ls rule: processed.induct) auto

lemma stacked_simps [simp]:
  "stacked h [] = {#}"
  "stacked h (a # xs) = add_mset (data_at h (Some a)) (stacked h xs)"
  by (simp_all add: stacked_def)

lemma stacked_frame [simp]: "a \<notin> set xs \<Longrightarrow> stacked (h(a := x)) xs = stacked h xs"
  by (induction xs) (auto simp: data_at_def)

lemma carried_frame: "owned pc \<noteq> Some a \<Longrightarrow> private_ok h q pc \<Longrightarrow> carried (h(a := x)) pc = carried h pc"
  by (cases pc) (auto simp: data_at_def)

lemma balance:
  fixes m :: "'a multiset"
  assumes "m' + mt = m + mp" "c' + ct = c + cp" "m = c + s + l" "mp + ct + s + l = mt + cp + s' + l'"
  shows "m' = c' + s' + l'"
proof -
  have "m' + (mt + ct) = c + (mp + ct + s + l)" using assms(1,3) by (simp add: ac_simps)
  also have "\<dots> = (c + cp) + (mt + s' + l')" unfolding assms(4) by (simp add: ac_simps)
  also have "\<dots> = (c' + s' + l') + (mt + ct)" unfolding assms(2) [symmetric] by (simp add: ac_simps)
  finally show ?thesis by simp
qed

lemma data_ok_goto:
  assumes "data_ok st xs" "t < MAX_THREAD_COUNT" "threads st' = threads st"
    "\<And>u. u \<noteq> t \<Longrightarrow> carried (jobs st') (threads st u) = carried (jobs st) (threads st u)"
    "made t pc + carried (jobs st) (threads st t) + stacked (jobs st) xs + mset (processed (lines st))
       = made t (threads st t) + carried (jobs st') pc + stacked (jobs st') xs' + mset (processed (lines st'))"
  shows "data_ok (goto t pc st') xs'"
proof -
  have "over_threads (\<lambda>_. carried (jobs st')) ((threads st)(t := pc)) + carried (jobs st) (threads st t)
      = over_threads (\<lambda>_. carried (jobs st)) (threads st) + carried (jobs st') pc"
    by (rule over_threads_change [OF assms(2)]) (rule assms(4))
  from balance [OF over_threads_upd [OF assms(2)] this assms(1) [unfolded data_ok_def] assms(5)]
  show ?thesis by (simp add: data_ok_def goto_def assms(3))
qed

lemma owned_not_stacked: "jobs_ok st xs \<Longrightarrow> owned (threads st t) = Some a \<Longrightarrow> a \<notin> set xs"
  using ranI [of "\<lambda>t. owned (threads st t)" t a] by (auto simp: jobs_ok_def shared_heap_def)

lemma carried_others:
  assumes "jobs_ok st xs" "owned (threads st t) = Some a \<or> jobs st a = None" "u \<noteq> t"
  shows "carried ((jobs st)(a := x)) (threads st u) = carried (jobs st) (threads st u)"
  using assms(2,3) other_owned [OF assms(1), of t a u] unowned [OF assms(1), of a u]
  by (intro carried_frame [OF _ jobs_ok_private [OF assms(1)]]) auto

lemma fresh_not_stacked: "jobs_ok st xs \<Longrightarrow> jobs st a = None \<Longrightarrow> a \<notin> set xs"
  using domI [of "jobs st" a] by (auto simp: jobs_ok_def shared_heap_def)

lemma stack_head: "jobs_ok st xs \<Longrightarrow> job_queue st = Some a \<Longrightarrow> xs = a # tl xs"
  by (cases xs) (auto simp: jobs_ok_def shared_heap_def)

lemma data_ok_acts:
  assumes "acts t st st'" "data_ok st xs" "threads_ok st" "jobs_ok st xs"
  shows "data_ok st' (stack_after (threads st t) xs)"
proof -
  have "fits t (threads st t) \<and> t < MAX_THREAD_COUNT" by (rule acts_present [OF assms(1,3)])
  then have "fits t (threads st t) \<and> t < MAX_THREAD_COUNT \<and> data_ok st xs \<and> jobs_ok st xs
     \<and> private_ok (jobs st) (job_queue st) (threads st t)"
    using assms(2,4) jobs_ok_private by blast
  with assms(1) show ?thesis
  proof (induction rule: acts.induct)
    case (d_next st t p a j)
    then have "stacked (jobs st) xs = add_mset (data_at (jobs st) p) (stacked (jobs st) (tl xs))"
      using stack_head [of st xs a] stacked_simps(2) [of "jobs st" a "tl xs"] by simp
    then show ?case using d_next by (auto intro!: data_ok_goto simp: made_def)
  next
    case (d_free st t a j)
    then have "a \<notin> set xs" using owned_not_stacked [of st xs t a] by simp
    then show ?case using d_free carried_others [of st xs t a]
      by (auto intro!: data_ok_goto [of st xs] simp: made_def)
  next
    case (e_data st t a j)
    then have "a \<notin> set xs" using owned_not_stacked [of st xs t a] by simp
    then show ?case using e_data carried_others [of st xs t a]
      by (auto intro!: data_ok_goto [of st xs] simp: made_def data_at_def)
  next
    case (e_push st t a q j)
    then have "a \<notin> set xs" using owned_not_stacked [of st xs t a] by simp
    then show ?case using e_push carried_others [of st xs t a]
      by (auto intro!: data_ok_goto [of st xs] simp: made_def data_at_def)
  qed (auto intro!: data_ok_goto carried_others simp: made_def fresh_not_stacked data_at_def)
qed

lemma data_ok_main:
  assumes "sem_main True (main_at st) st = Some (Inr st')" "threads_ok st" "data_ok st xs"
  shows "data_ok st' xs"
proof (cases "main_at st")
  case (M_create c)
  note absent = create_absent [OF assms(2) M_create]
  have "data_ok (goto c (start_routine c) (st\<lparr>main_at := M_create (Suc c)\<rparr>)) xs" if "c < MAX_THREAD_COUNT"
    by (rule data_ok_goto [OF assms(3) that]) (auto simp: absent that start_routine_def made_def dequeuer_def)
  then show ?thesis using assms M_create by (auto simp: data_ok_def split: if_splits)
qed (use assms in \<open>auto simp: data_ok_def threads_ok_def split: if_splits thread.splits\<close>)


section \<open>Every interleaving\<close>

definition joined_ok :: "sem_state \<Rightarrow> bool" where
  "joined_ok st = (case main_at st of
      M_join i \<Rightarrow> (\<forall>t<i. threads st t = Exited) \<and> i \<le> MAX_THREAD_COUNT
    | M_done \<Rightarrow> (\<forall>t<MAX_THREAD_COUNT. threads st t = Exited)
    | _ \<Rightarrow> True)"

lemma joined_ok_acts: "acts t st st' \<Longrightarrow> joined_ok st \<Longrightarrow> joined_ok st'"
  by (induction rule: acts.induct) (auto simp: joined_ok_def goto_def split: main_point.splits)

lemma joined_ok_main: "sem_main True (main_at st) st = Some (Inr st') \<Longrightarrow> joined_ok st \<Longrightarrow> joined_ok st'"
  by (cases "main_at st") (auto simp: joined_ok_def goto_def less_Suc_eq split: if_splits thread.splits)

definition sem_inv :: "sem_state \<Rightarrow> bool" where
  "sem_inv st = (threads_ok st \<and> joined_ok st \<and> (\<exists>xs. jobs_ok st xs \<and> counts_ok st xs \<and> data_ok st xs))"

lemma sem_inv_start: "sem_inv sem_initial"
proof -
  have "jobs_ok sem_initial []" by (simp add: jobs_ok_def sem_initial_def shared_heap_def)
  moreover have "counts_ok sem_initial []"
    by (simp add: counts_ok_def sem_initial_def over_threads_def taken_def posted_def)
  moreover have "data_ok sem_initial []"
    by (simp add: data_ok_def sem_initial_def over_threads_def made_def)
  ultimately show ?thesis
    by (auto simp: sem_inv_def threads_ok_def joined_ok_def sem_initial_def)
qed

lemma sem_inv_step:
  assumes "sem_inv st" "granted e" "sem_step e st = Some (Inr st')"
  shows "sem_inv st'"
proof (cases e)
  case (Main ok)
  then have "sem_main True (main_at st) st = Some (Inr st')" using assms(2,3) by simp
  then show ?thesis using assms(1) threads_ok_main joined_ok_main jobs_ok_main counts_ok_main data_ok_main
    unfolding sem_inv_def by blast
next
  case (Thread t al)
  then obtain a where "thread_step (Some a) t st = Some (Inr st')"
    using assms(2,3) by (auto simp del: thread_step.simps split: if_splits)
  then have "acts t st st'" by (rule thread_step_acts)
  then show ?thesis using assms(1) threads_ok_acts joined_ok_acts jobs_ok_acts counts_ok_acts data_ok_acts
    unfolding sem_inv_def by blast
qed

lemma sem_reach_inv: "sem_reach st \<Longrightarrow> sem_inv st"
  by (induction rule: sem_reach.induct) (auto intro: sem_inv_start sem_inv_step)

lemma sem_run_reach:
  "sem_reach st \<Longrightarrow> list_all granted es \<Longrightarrow> sem_run es st = Some (Inr st') \<Longrightarrow> sem_reach st'"
  by (induction es st rule: sem_run.induct) (auto split: option.splits sum.splits intro: sem_reach.step)

text \<open>A crash is the last step of a run.\<close>

lemma sem_run_crash:
  "sem_reach st \<Longrightarrow> list_all granted es \<Longrightarrow> sem_run es st = Some (Inl c)
   \<Longrightarrow> \<exists>st' e. sem_reach st' \<and> granted e \<and> sem_step e st' = Some (Inl c)"
  by (induction es st rule: sem_run.induct) (auto split: option.splits sum.splits intro: sem_reach.step)

lemma mutex_holder: "threads_ok st \<Longrightarrow> inside (threads st t) \<Longrightarrow> job_queue_mutex st = Some t"
  by (auto simp: threads_ok_def)

lemma pending_stack:
  assumes "counts_ok st xs" "pending (threads st t) = 1" "t < MAX_THREAD_COUNT"
  shows "xs \<noteq> []"
proof -
  have "pending (threads st t) \<le> over_threads (\<lambda>_. pending) (threads st)"
    unfolding over_threads_def using assms(3) by (intro member_le_sum) auto
  then show ?thesis using assms(1,2) by (auto simp: counts_ok_def)
qed

lemma owned_in_heap: "jobs_ok st xs \<Longrightarrow> owned (threads st t) = Some a \<Longrightarrow> \<exists>j. jobs st a = Some j"
  using ranI [of "\<lambda>t. owned (threads st t)" t a] domD [of a "jobs st"] by (auto simp: jobs_ok_def shared_heap_def)

lemma stack_in_heap: "jobs_ok st xs \<Longrightarrow> xs \<noteq> [] \<Longrightarrow> \<exists>a j. job_queue st = Some a \<and> jobs st a = Some j"
  by (cases xs) (auto simp: jobs_ok_def shared_heap_def)

lemma dequeue_safe:
  assumes "threads_ok st" "jobs_ok st xs" "counts_ok st xs"
  shows "thread_callback_dequeue t (threads st t) st \<noteq> Some (Inl c)"
  using jobs_ok_private [OF assms(2), of t] owned_in_heap [OF assms(2), of t]
    pending_stack [OF assms(3), of t] stack_in_heap [OF assms(2)] present_bound [OF assms(1), of t]
  by (cases "threads st t") (auto simp: mutex_lock_def mutex_unlock_def split: option.splits)

lemma enqueue_crash:
  assumes "jobs_ok st xs" "thread_callback_enqueue al t (threads st t) st = Some (Inl c)"
  shows "c = Freed 41"
  using jobs_ok_private [OF assms(1), of t] owned_in_heap [OF assms(1), of t] assms(2)
  by (cases "threads st t"; cases al)
     (auto simp: mutex_lock_def mutex_unlock_def store_data_def link_job_def split: option.splits if_splits)

lemma main_safe: "threads_ok st \<Longrightarrow> sem_main True (main_at st) st \<noteq> Some (Inl c)"
  by (cases "main_at st") (auto simp: threads_ok_def split: thread.splits)


section \<open>Progress\<close>

fun steps_left :: "thread \<Rightarrow> nat" where
  "steps_left Absent = 0"
| "steps_left Enq_lock = 7"
| "steps_left Enq_calloc = 6"
| "steps_left (Enq_data p) = 5"
| "steps_left (Enq_link p) = 4"
| "steps_left (Enq_post p) = 3"
| "steps_left (Enq_unlock p) = 2"
| "steps_left (Enq_print p) = 1"
| "steps_left Deq_wait = 7"
| "steps_left Deq_lock = 6"
| "steps_left Deq_take = 5"
| "steps_left (Deq_next p) = 4"
| "steps_left (Deq_unlock p) = 3"
| "steps_left (Deq_print p) = 2"
| "steps_left (Deq_free p) = 1"
| "steps_left Exited = 0"

fun main_left :: "main_point \<Rightarrow> nat" where
  "main_left M_init = 8 * MAX_THREAD_COUNT + MAX_THREAD_COUNT + 3"
| "main_left (M_create c) = 8 * (MAX_THREAD_COUNT - c) + MAX_THREAD_COUNT + 2"
| "main_left (M_join i) = MAX_THREAD_COUNT - i + 1"
| "main_left M_done = 0"

definition all_left :: "sem_state \<Rightarrow> nat" where
  "all_left st = main_left (main_at st) + over_threads (\<lambda>_. steps_left) (threads st)"

lemma all_left_goto:
  assumes "t < MAX_THREAD_COUNT" "threads st' = threads st"
    "main_left (main_at st') + steps_left pc + 1 = main_left (main_at st) + steps_left (threads st t)"
  shows "all_left (goto t pc st') + 1 = all_left st"
  using over_threads_upd [OF assms(1), of "\<lambda>_. steps_left" "threads st" pc] assms(2,3)
  by (simp add: all_left_def goto_def)

lemma all_left_acts:
  assumes "acts t st st'" "threads_ok st"
  shows "all_left st' + 1 = all_left st"
proof -
  have "t < MAX_THREAD_COUNT" using acts_present [OF assms] by simp
  with assms(1) show ?thesis
    by (induction rule: acts.induct) (rule all_left_goto; simp)+
qed

lemma all_left_main:
  assumes "sem_main True (main_at st) st = Some (Inr st')" "threads_ok st" "joined_ok st"
  shows "all_left st' + 1 = all_left st"
proof (cases "main_at st")
  case (M_create c)
  note absent = create_absent [OF assms(2) M_create]
  have "all_left (goto c (start_routine c) (st\<lparr>main_at := M_create (c + 1)\<rparr>)) + 1 = all_left st"
    if "c < MAX_THREAD_COUNT"
    by (rule all_left_goto) (use that M_create absent in \<open>auto simp: start_routine_def\<close>)
  moreover have "\<not> c < MAX_THREAD_COUNT \<Longrightarrow> c = MAX_THREAD_COUNT"
    using assms(2) M_create by (auto simp: threads_ok_def)
  ultimately show ?thesis using assms(1) M_create by (auto simp: all_left_def split: if_splits)
qed (use assms in \<open>auto simp: all_left_def joined_ok_def split: if_splits thread.splits\<close>)

lemma all_left_step:
  assumes "sem_inv st" "granted e" "sem_step e st = Some (Inr st')"
  shows "all_left st' + 1 = all_left st"
proof (cases e)
  case (Main ok)
  then show ?thesis using assms all_left_main [of st st'] by (simp add: sem_inv_def)
next
  case (Thread t al)
  then obtain a where "thread_step (Some a) t st = Some (Inr st')"
    using assms(2,3) by (auto simp del: thread_step.simps split: if_splits)
  then show ?thesis using assms(1) thread_step_acts all_left_acts unfolding sem_inv_def by blast
qed

lemma all_left_run:
  "sem_inv st \<Longrightarrow> list_all granted es \<Longrightarrow> sem_run es st = Some (Inr st') \<Longrightarrow> length es + all_left st' = all_left st"
proof (induction es st rule: sem_run.induct)
  case (2 e es st)
  then obtain st1 where st1: "sem_step e st = Some (Inr st1)" "sem_run es st1 = Some (Inr st')"
    by (auto split: option.splits sum.splits)
  then show ?case using 2 all_left_step [of st e st1] sem_inv_step [of st e st1] by auto
qed simp

lemma all_left_initial: "all_left sem_initial = 363"
  by (simp add: all_left_def sem_initial_def over_threads_def MAX_THREAD_COUNT_def)

text \<open>Who can move: whoever is inside the critical section, and outside anyone who does not wait.\<close>

lemma jobs_finite:
  assumes "threads_ok st" "jobs_ok st xs"
  shows "finite (dom (jobs st))"
proof -
  have "ran (\<lambda>t. owned (threads st t)) \<subseteq> (\<lambda>t. the (owned (threads st t))) ` {..<MAX_THREAD_COUNT}"
  proof
    fix a assume "a \<in> ran (\<lambda>t. owned (threads st t))"
    then obtain t where t: "owned (threads st t) = Some a" by (auto simp: ran_def)
    then have "threads st t \<noteq> Absent" by auto
    from present_bound [OF assms(1) this] t show "a \<in> (\<lambda>t. the (owned (threads st t))) ` {..<MAX_THREAD_COUNT}"
      by (intro image_eqI [of _ _ t]) auto
  qed
  then have "finite (ran (\<lambda>t. owned (threads st t)))" by (rule finite_subset) simp
  then show ?thesis using assms(2) by (simp add: jobs_ok_def shared_heap_def)
qed

lemma fresh_address: "threads_ok st \<Longrightarrow> jobs_ok st xs \<Longrightarrow> \<exists>a. jobs st a = None"
  using jobs_finite [of st xs] ex_new_if_finite [of "dom (jobs st)"] infinite_UNIV_nat by auto

lemma inside_moves:
  assumes "threads_ok st" "jobs_ok st xs" "inside (threads st t)"
  shows "\<exists>a. thread_step (Some a) t st \<noteq> None"
proof -
  obtain a where "jobs st a = None" using fresh_address [OF assms(1,2)] by blast
  moreover have "fits t (threads st t)" using assms(1) by (simp add: threads_ok_def)
  ultimately show ?thesis using assms(3)
    by (cases "threads st t") (auto simp: dequeuer_def mutex_unlock_def store_data_def link_job_def
        split: sum.splits intro!: exI [of _ a])
qed

lemma outside_moves:
  assumes "threads_ok st" "job_queue_mutex st = None" "threads st t \<noteq> Absent" "threads st t \<noteq> Exited"
    "threads st t = Deq_wait \<longrightarrow> 0 < job_queue_count st"
  shows "thread_step (Some a) t st \<noteq> None"
proof -
  have "fits t (threads st t)" "\<not> inside (threads st t)" using assms(1,2) by (simp_all add: threads_ok_def)
  then show ?thesis using assms(2-5)
    by (cases "threads st t") (auto simp: dequeuer_def mutex_lock_def split: sum.splits option.splits)
qed

text \<open>
  A dequeuer waits in vain only if all enqueuers are done and as many tokens were taken as posted;
  with twenty-seven enqueuers and thirteen dequeuers that cannot be.
\<close>

lemma count_below: "(\<Sum>u<n. if u < k then (1::nat) else 0) = min n k"
  by (induction n) auto

lemma count_above: "(\<Sum>u<n. if u < k then 0 else (1::nat)) = n - k"
  by (induction n) auto

lemma tokens_suffice:
  assumes "counts_ok st xs" "\<forall>u<MAX_THREAD_COUNT. \<not> dequeuer u \<longrightarrow> threads st u = Exited"
    "threads st t = Deq_wait" "t < MAX_THREAD_COUNT"
  shows "0 < job_queue_count st"
proof -
  have "over_threads posted (threads st) = (\<Sum>u<MAX_THREAD_COUNT. if dequeuer u then 0 else 1)"
    unfolding over_threads_def using assms(2) by (intro sum.cong) (auto simp: posted_def)
  also have "\<dots> = 27" by (simp add: MAX_THREAD_COUNT_def dequeuer_def count_below count_above)
  finally have "over_threads posted (threads st) = 27" .
  moreover have "over_threads taken (threads st) \<le> (\<Sum>u<MAX_THREAD_COUNT. if dequeuer u then 1 else 0)"
    unfolding over_threads_def by (intro sum_mono) (auto simp: taken_def)
  moreover have "(\<Sum>u<MAX_THREAD_COUNT. if dequeuer u then 1 else 0) = (13::nat)"
    by (simp add: MAX_THREAD_COUNT_def dequeuer_def count_below count_above)
  ultimately show ?thesis using assms(1) by (auto simp: counts_ok_def)
qed

lemma some_thread_moves:
  assumes "threads_ok st" "jobs_ok st xs" "counts_ok st xs" "threads st t \<noteq> Absent" "threads st t \<noteq> Exited"
    "\<forall>u<MAX_THREAD_COUNT. threads st u \<noteq> Absent"
  shows "\<exists>u a. thread_step (Some a) u st \<noteq> None"
proof (cases "job_queue_mutex st")
  case (Some u)
  then have "inside (threads st u)" using assms(1) by (simp add: threads_ok_def)
  then show ?thesis using inside_moves [OF assms(1,2)] by blast
next
  case None
  show ?thesis
  proof (cases "\<exists>u<MAX_THREAD_COUNT. \<not> dequeuer u \<and> threads st u \<noteq> Exited")
    case True
    then obtain u where u: "u < MAX_THREAD_COUNT" "\<not> dequeuer u" "threads st u \<noteq> Exited" by blast
    moreover have "fits u (threads st u)" using assms(1) by (simp add: threads_ok_def)
    then have "threads st u \<noteq> Deq_wait" using u by auto
    ultimately show ?thesis using outside_moves [OF assms(1) None, of u] assms(6) by blast
  next
    case False
    have "threads st t = Deq_wait \<longrightarrow> 0 < job_queue_count st"
      using tokens_suffice [OF assms(3)] False present_bound [OF assms(1,4)] by blast
    then show ?thesis using outside_moves [OF assms(1) None assms(4,5)] by blast
  qed
qed

lemma sem_progress:
  assumes "sem_inv st" "main_at st \<noteq> M_done"
  shows "\<exists>e. granted e \<and> sem_step e st \<noteq> None"
proof -
  obtain xs where inv: "threads_ok st" "jobs_ok st xs" "counts_ok st xs" using assms(1) by (auto simp: sem_inv_def)
  show ?thesis
  proof (cases "sem_main True (main_at st) st = None")
    case False
    then show ?thesis by (intro exI [of _ "Main True"]) simp
  next
    case True
    then obtain i where i: "main_at st = M_join i" "i < MAX_THREAD_COUNT" "threads st i \<noteq> Exited" "threads st i \<noteq> Absent"
      using assms(2) by (cases "main_at st") (auto split: if_splits thread.splits)
    moreover have "\<forall>u<MAX_THREAD_COUNT. threads st u \<noteq> Absent" using inv(1) i(1) by (simp add: threads_ok_def)
    ultimately obtain u a where "thread_step (Some a) u st \<noteq> None" using some_thread_moves [OF inv] by blast
    then show ?thesis using assms(2) by (intro exI [of _ "Thread u (Some a)"]) simp
  qed
qed

section \<open>Results\<close>

text \<open>The report of enqueuing thread 13 comes after thread 0 has processed and freed its job.\<close>

definition late_report :: "event list" where
  "late_report = replicate 15 (Main True) @ replicate 6 (Thread 13 (Some 7))
     @ replicate 7 (Thread 0 (Some 7)) @ [Thread 13 (Some 7)]"

text \<open>First all enqueuers one after the other, then all dequeuers, then the joins.\<close>

definition one_after_another :: "event list" where
  "one_after_another = replicate 42 (Main True)
     @ concat (map (\<lambda>t. replicate 7 (Thread t (Some t))) ([13..<40] @ [0..<13])) @ replicate 41 (Main True)"

fun crashed :: "(crash + sem_state) option \<Rightarrow> crash option" where
  "crashed (Some (Inl c)) = Some c"
| "crashed r = None"

lemma crashed_Some: "crashed r = Some c \<longleftrightarrow> r = Some (Inl c)"
  by (cases r rule: crashed.cases) auto

fun returned :: "(crash + sem_state) option \<Rightarrow> bool" where
  "returned (Some (Inr st)) = (main_at st = M_done)"
| "returned r = False"

lemma returned_D: "returned r \<Longrightarrow> \<exists>st. r = Some (Inr st) \<and> main_at st = M_done"
  by (cases r rule: returned.cases) auto

lemma late_report_crashes: "sem_run late_report sem_initial = Some (Inl (Freed 41))"
  unfolding crashed_Some [symmetric] by code_simp

lemma one_after_another_returns: "returned (sem_run one_after_another sem_initial)"
  by code_simp

lemma one_after_another_overruns: "\<exists>c. sem_run_on 8 one_after_another sem_initial = Some (Inl c)"
proof -
  have "crashed (sem_run_on 8 one_after_another sem_initial) = Some (Status_overrun 99)" by code_simp
  then show ?thesis unfolding crashed_Some by blast
qed

lemma one_after_another_granted: "list_all granted one_after_another"
  by code_simp

lemma all_exited:
  "joined_ok st \<Longrightarrow> main_at st = M_done \<Longrightarrow> over_threads f (threads st) = (\<Sum>t<MAX_THREAD_COUNT. f t Exited)"
  by (simp add: joined_ok_def over_threads_def)

lemma made_sum: "(\<Sum>u<n. if u < k then {#} else {#g u#}) = mset (map g [k..<n])"
  by (induction n) auto

lemma made_all: "(\<Sum>t<MAX_THREAD_COUNT. made t Exited) = mset (map (\<lambda>t. 100 + int t) [13..<40])"
proof -
  have "(\<Sum>t<MAX_THREAD_COUNT. made t Exited) = (\<Sum>t<40. if t < 13 then {#} else {#100 + int t#})"
    by (auto simp: made_def dequeuer_def MAX_THREAD_COUNT_def intro: sum.cong)
  then show ?thesis using made_sum [where k = 13 and n = 40 and g = "\<lambda>t. 100 + int t"] by simp
qed

lemma if_not: "(if \<not> b then x else y) = (if b then y else x)"
  by simp

lemma tokens_left:
  assumes "counts_ok st xs" "joined_ok st" "main_at st = M_done"
  shows "length xs = 14 \<and> job_queue_count st = 14"
proof -
  have "(\<Sum>t<MAX_THREAD_COUNT. taken t Exited) = 13"
    by (simp add: taken_def dequeuer_def MAX_THREAD_COUNT_def count_below)
  moreover have "(\<Sum>t<MAX_THREAD_COUNT. posted t Exited) = 27"
    using count_above [of 13 40] by (simp add: posted_def dequeuer_def MAX_THREAD_COUNT_def if_not)
  ultimately show ?thesis using assms(1) all_exited [OF assms(2,3), of "\<lambda>_. pending"]
      all_exited [OF assms(2,3), of taken] all_exited [OF assms(2,3), of posted]
    by (simp add: counts_ok_def)
qed

lemma jobs_at_end:
  assumes "jobs_ok st xs" "joined_ok st" "threads_ok st" "main_at st = M_done"
  shows "dom (jobs st) = set xs"
proof -
  have "owned (threads st t) = None" for t
    using assms(2-4) present_bound [OF assms(3), of t] by (cases "threads st t = Absent") (auto simp: joined_ok_def)
  then have "ran (\<lambda>t. owned (threads st t)) = {}" by (auto simp: ran_def)
  then show ?thesis using assms(1) by (simp add: jobs_ok_def shared_heap_def)
qed



text \<open>C6. When memory and threads are granted, \<^verbatim>\<open>prog_sem.c\<close> never deadlocks and always ends: no run
  has more than 363 steps, as long as \<^verbatim>\<open>main\<close> has not returned some thread or \<^verbatim>\<open>main\<close> itself can take
  a step, and when it returns every thread has run to its end.\<close>

theorem sem_always_ends:
  assumes "list_all granted es" "sem_run es sem_initial = Some (Inr st)"
  shows "length es \<le> 363 \<and>
     (if main_at st = M_done then length es = 363 \<and> (\<forall>t<MAX_THREAD_COUNT. threads st t = Exited)
      else \<exists>e. granted e \<and> sem_step e st \<noteq> None)"
proof -
  have inv: "sem_inv st" using sem_run_reach [OF sem_reach.start assms] by (rule sem_reach_inv)
  have len: "length es + all_left st = 363"
    using all_left_run [OF sem_inv_start assms] by (simp add: all_left_initial)
  have "main_at st = M_done \<Longrightarrow> all_left st = 0"
    using inv all_exited [of st "\<lambda>_. steps_left"] by (simp add: sem_inv_def all_left_def)
  then show ?thesis using len inv sem_progress [OF inv] by (auto simp: sem_inv_def joined_ok_def)
qed

lemma sem_always_ends_witness:
  "\<exists>st. sem_run one_after_another sem_initial = Some (Inr st) \<and> main_at st = M_done
     \<and> length one_after_another = 363 \<and> (\<forall>t<MAX_THREAD_COUNT. threads st t = Exited)"
proof -
  obtain st where "sem_run one_after_another sem_initial = Some (Inr st)" "main_at st = M_done"
    using returned_D [OF one_after_another_returns] by blast
  with sem_always_ends [OF one_after_another_granted this(1)] show ?thesis by simp
qed

text \<open>C18. When \<^verbatim>\<open>main\<close> returns, the thirteen dequeuers have processed thirteen different jobs,
  fourteen jobs are left on the stack, the semaphore counts them, nothing else is allocated, and the
  processed and the remaining jobs together are exactly the twenty-seven the enqueuers made.\<close>

theorem sem_jobs_conserved:
  assumes "list_all granted es" "sem_run es sem_initial = Some (Inr st)" "main_at st = M_done"
  shows "\<exists>xs. chain (jobs st) (job_queue st) xs \<and> distinct xs \<and> dom (jobs st) = set xs
     \<and> length xs = 14 \<and> job_queue_count st = 14
     \<and> length (processed (lines st)) = 13 \<and> distinct (processed (lines st))
     \<and> mset (processed (lines st)) + stacked (jobs st) xs = mset (map (\<lambda>t. 100 + int t) [13..<40])"
proof -
  have "sem_inv st" using sem_run_reach [OF sem_reach.start assms(1,2)] by (rule sem_reach_inv)
  then obtain xs where inv: "threads_ok st" "joined_ok st" "jobs_ok st xs" "counts_ok st xs" "data_ok st xs"
    by (auto simp: sem_inv_def)
  let ?made = "map (\<lambda>t. 100 + int t) [13..<40]"
  have sum: "mset (processed (lines st)) + stacked (jobs st) xs = mset ?made"
    using inv(5) all_exited [OF inv(2) assms(3), of made]
      all_exited [OF inv(2) assms(3), of "\<lambda>_. carried (jobs st)"] made_all
    by (simp add: data_ok_def ac_simps)
  note len = tokens_left [OF inv(4,2) assms(3)]
  have "length (processed (lines st)) + length xs = length ?made"
    using arg_cong [OF sum, of size] by (simp add: stacked_def)
  then have "length (processed (lines st)) = 13" using len by simp
  moreover have "distinct ?made" by (simp add: distinct_map inj_on_def)
  then have "distinct (processed (lines st))"
    using sum by (metis distinct_append mset_append mset_eq_imp_distinct_iff stacked_def)
  ultimately show ?thesis using inv(3) sum len jobs_at_end [OF inv(3,2,1) assms(3)]
    by (intro exI [of _ xs]) (simp add: jobs_ok_def shared_heap_def)
qed

lemma sem_jobs_conserved_witness:
  "\<exists>st. sem_run one_after_another sem_initial = Some (Inr st) \<and> job_queue_count st = 14
     \<and> length (processed (lines st)) = 13 \<and> distinct (processed (lines st))"
proof -
  obtain st where st: "sem_run one_after_another sem_initial = Some (Inr st)" "main_at st = M_done"
    using returned_D [OF one_after_another_returns] by blast
  with sem_jobs_conserved [OF one_after_another_granted st] show ?thesis by blast
qed

end
