(* ===== verification/Solution3.thy ===== *)
theory Solution3
  imports C_Input
begin

text \<open>
  \<^verbatim>\<open>CodeWar2014/Problem3/Solution3.c\<close>: split N coins of 4, 1/2 and 1/4 asiap, at least one of
  each, so that they are worth N asiap.  The two nested loops are recursions on the counters; the
  comparison is in double precision, where every value that occurs is a multiple of a quarter below
  \<open>2 ^ 35\<close> and hence exact, and only the product \<^verbatim>\<open>n*4\<close> is computed in \<^verbatim>\<open>unsigned int\<close> and may
  wrap.  The lemmas replace the search by a closed form, prove the answers correct and complete, and
  show that the array of the answer is never cleared between two lines of input.
\<close>

section \<open>The search\<close>

type_synonym solution = "nat \<times> nat \<times> nat"

definition balanced :: "nat \<Rightarrow> nat \<Rightarrow> nat \<Rightarrow> nat \<Rightarrow> bool" where
  "balanced N n m ob = (4 * ((n * 4) mod 2 ^ 32) + 2 * m + ob = 4 * N)"

function m_loop :: "nat \<Rightarrow> nat \<Rightarrow> nat \<Rightarrow> solution \<Rightarrow> solution" where
  "m_loop N n m sol =
     (if m < N - n then m_loop N n (m + 1) (if balanced N n m (N - n - m) then (n, m, N - n - m) else sol)
      else sol)"
  by pat_completeness auto
termination by (relation "measure (\<lambda>(N, n, m, _). N - n - m)") auto

function n_loop :: "nat \<Rightarrow> nat \<Rightarrow> solution \<Rightarrow> solution" where
  "n_loop N n sol = (if n < N then n_loop N (n + 1) (m_loop N n 1 sol) else sol)"
  by pat_completeness auto
termination by (relation "measure (\<lambda>(N, n, _). N - n)") auto

definition find_solution :: "nat \<Rightarrow> solution \<Rightarrow> solution" where
  "find_solution N sol = n_loop N 1 sol"

declare m_loop.simps [simp del] n_loop.simps [simp del]

section \<open>The program\<close>

text \<open>
  What \<^verbatim>\<open>sscanf\<close> with \<^verbatim>\<open>%u\<close> does to its variable: without a number it stays as it is; a number that
  \<^verbatim>\<open>unsigned int\<close> cannot represent is undefined behaviour.
\<close>

definition scan_unsigned :: "string \<Rightarrow> nat \<Rightarrow> nat option" where
  "scan_unsigned buf var =
     (let cs = dropWhile is_space buf;
          neg = (cs \<noteq> [] \<and> hd cs = CHR ''-'');
          ds = takeWhile is_digit (after_sign cs);
          v = digits_value ds
      in if ds = [] then Some var
         else if v < 2 ^ 32 \<and> (neg \<longrightarrow> v = 0) then Some v else None)"

datatype answer = No_solution | Coins nat nat nat

fun report :: "solution \<Rightarrow> answer" where
  "report (n, m, ob) = (if n = 0 then No_solution else Coins n m ob)"

function coins_loop :: "string \<Rightarrow> nat \<Rightarrow> solution \<Rightarrow> answer list \<Rightarrow> answer list option" where
  "coins_loop [] var sol out = Some out"
| "coins_loop (c # cs) var sol out =
     (let (buf, rest) = fgets_line 49 (c # cs) in
      case scan_unsigned buf var of None \<Rightarrow> None
      | Some N \<Rightarrow> (let sol' = find_solution N sol in coins_loop rest N sol' (out @ [report sol'])))"
  by pat_completeness auto
termination
  by (relation "measure (\<lambda>(cs, _). length cs)") (auto dest: fgets_shorter)

definition coins_main :: "string \<Rightarrow> answer list option" where
  "coins_main input = coins_loop input 0 (0, 0, 0) []"

section \<open>What the search finds\<close>

definition split_of :: "nat \<Rightarrow> nat \<Rightarrow> nat \<Rightarrow> nat \<Rightarrow> bool" where
  "split_of N n m ob = (1 \<le> n \<and> 1 \<le> m \<and> 1 \<le> ob \<and> n + m + ob = N \<and> 16 * n + 2 * m + ob = 4 * N)"

lemma balanced_small:
  assumes "n < 2 ^ 30" "m < N - n"
  shows "balanced N n m (N - n - m) \<longleftrightarrow> 15 * n + m = 3 * N"
proof -
  have "n * 4 < 2 ^ 32" using assms(1) by simp
  then have "(n * 4) mod 2 ^ 32 = n * 4" by (rule mod_less)
  then show ?thesis using assms(2) unfolding balanced_def by auto
qed

lemma m_loop_closed:
  assumes "n < 2 ^ 30" "n < N"
  shows "m_loop N n m sol = (if 15 * n + m \<le> 3 * N \<and> N < 7 * n then (n, 3 * N - 15 * n, 14 * n - 2 * N) else sol)"
proof (induction "N - n - m" arbitrary: m sol)
  case 0
  then show ?case using assms by (subst m_loop.simps) auto
next
  case (Suc k)
  then have less: "m < N - n" by auto
  have "m_loop N n m sol = m_loop N n (m + 1) (if 15 * n + m = 3 * N then (n, m, N - n - m) else sol)"
    using balanced_small [OF assms(1) less] by (subst m_loop.simps) (simp add: less del: diff_diff_left)
  also have "\<dots> = (if 15 * n + m \<le> 3 * N \<and> N < 7 * n then (n, 3 * N - 15 * n, 14 * n - 2 * N) else sol)"
    using Suc.hyps(1) [of "m + 1"] Suc.hyps(2) less by auto
  finally show ?case .
qed

lemma n_loop_closed:
  assumes "N < 2 ^ 30" "1 \<le> n"
  shows "n_loop N n sol = (let k = (N - 1) div 5 in
     if n \<le> k \<and> N < 7 * k then (k, 3 * N - 15 * k, 14 * k - 2 * N) else sol)"
  using assms(2)
proof (induction "N - n" arbitrary: n sol)
  case 0
  then show ?case by (subst n_loop.simps) (auto simp: Let_def)
next
  case (Suc j)
  then have less: "n < N" by auto
  let ?here = "(n, 3 * N - 15 * n, 14 * n - 2 * N)" and ?k = "(N - 1) div 5"
  have "n_loop N n sol = n_loop N (n + 1) (if 5 * n < N \<and> N < 7 * n then ?here else sol)"
    using less assms(1) by (subst n_loop.simps) (auto simp: m_loop_closed)
  also have "\<dots> = (if n + 1 \<le> ?k \<and> N < 7 * ?k then (?k, 3 * N - 15 * ?k, 14 * ?k - 2 * N)
      else if 5 * n < N \<and> N < 7 * n then ?here else sol)"
    using Suc.hyps less by (subst Suc.hyps(1)) (auto simp: Let_def)
  also have "\<dots> = (if n \<le> ?k \<and> N < 7 * ?k then (?k, 3 * N - 15 * ?k, 14 * ?k - 2 * N) else sol)"
  proof (cases "n = ?k")
    case True
    then show ?thesis using less by auto
  next
    case False
    then have "n \<le> ?k \<longleftrightarrow> n + 1 \<le> ?k" by auto
    moreover have "5 * n < N \<longleftrightarrow> n \<le> ?k" using less by auto
    moreover have "n \<le> ?k \<Longrightarrow> N < 7 * n \<Longrightarrow> N < 7 * ?k" by linarith
    ultimately show ?thesis by auto
  qed
  finally show ?case by (simp add: Let_def)
qed

lemma split_of_bounds: "split_of N n m ob \<longleftrightarrow> 5 * n < N \<and> N < 7 * n \<and> m = 3 * N - 15 * n \<and> ob = 14 * n - 2 * N"
  unfolding split_of_def by auto

lemma some_split: "(\<exists>n m ob. split_of N n m ob) \<longleftrightarrow> N < 7 * ((N - 1) div 5)"
proof
  assume "\<exists>n m ob. split_of N n m ob"
  then obtain n where "5 * n < N" "N < 7 * n" by (auto simp: split_of_bounds)
  moreover from this have "n \<le> (N - 1) div 5" by auto
  ultimately show "N < 7 * ((N - 1) div 5)" by linarith
next
  assume less: "N < 7 * ((N - 1) div 5)"
  moreover from this have "5 * ((N - 1) div 5) < N" by linarith
  ultimately show "\<exists>n m ob. split_of N n m ob" by (auto simp: split_of_bounds)
qed

lemma find_solution_closed:
  assumes "N < 2 ^ 30"
  shows "find_solution N sol = (let k = (N - 1) div 5 in
     if N < 7 * k then (k, 3 * N - 15 * k, 14 * k - 2 * N) else sol)"
proof -
  have "N < 7 * ((N - 1) div 5) \<Longrightarrow> 1 \<le> (N - 1) div 5" by linarith
  then show ?thesis unfolding find_solution_def n_loop_closed [OF assms order_refl] by (auto simp: Let_def)
qed

text \<open>C39. For every N below \<open>2 ^ 30\<close>, so that the products do not wrap, the search ends; if N coins of value N exist it returns such a split,
  the one with the most coins of 4, and otherwise it leaves the array as it was.\<close>

theorem find_solution_correct:
  assumes "N < 2 ^ 30" "find_solution N sol = (n, m, ob)"
  shows "if \<exists>n m ob. split_of N n m ob
    then split_of N n m ob \<and> (\<forall>n' m' ob'. split_of N n' m' ob' \<longrightarrow> n' \<le> n)
    else (n, m, ob) = sol"
proof (cases "N < 7 * ((N - 1) div 5)")
  case True
  then have "n = (N - 1) div 5 \<and> m = 3 * N - 15 * n \<and> ob = 14 * n - 2 * N"
    using assms by (auto simp: find_solution_closed Let_def)
  moreover have "5 * n' < N \<Longrightarrow> n' \<le> (N - 1) div 5" for n' by auto
  moreover have "5 * ((N - 1) div 5) < N" using True by linarith
  ultimately show ?thesis using True unfolding some_split by (simp add: split_of_bounds)
next
  case False
  then show ?thesis using assms unfolding some_split by (simp add: find_solution_closed Let_def)
qed

lemma find_solution_correct_witness:
  "(case find_solution 11 (0, 0, 0) of (n, m, ob) \<Rightarrow> split_of 11 n m ob \<and> (\<forall>n' m' ob'. split_of 11 n' m' ob' \<longrightarrow> n' \<le> n))
   \<and> find_solution 1 (7, 8, 9) = (7, 8, 9)"
proof -
  obtain n m ob where 11: "find_solution 11 (0, 0, 0) = (n, m, ob)" by (cases "find_solution 11 (0, 0, 0)")
  obtain n1 m1 ob1 where 1: "find_solution 1 (7, 8, 9) = (n1, m1, ob1)" by (cases "find_solution 1 (7, 8, 9)")
  have "\<exists>n m ob. split_of 11 n m ob" "\<nexists>n m ob. split_of 1 n m ob" by (simp_all add: some_split)
  then show ?thesis using find_solution_correct [OF _ 11] find_solution_correct [OF _ 1] 11 1 by simp
qed

lemmas coins_eval = after_sign_def coins_main_def fgets_numeral
  scan_unsigned_def is_space_def is_digit_def digits_value_def Let_def find_solution_closed

text \<open>The array of the answer is not cleared between lines: for a number that has no split the
  program repeats the answer of the line before.\<close>

theorem coins_main_stale_answer:
  "coins_main (''11'' @ [CHR 0x0A] @ ''1'' @ [CHR 0x0A]) = Some [Coins 2 3 6, Coins 2 3 6]
   \<and> (\<nexists>n m ob. split_of 1 n m ob)
   \<and> coins_main (''1'' @ [CHR 0x0A]) = Some [No_solution]"
proof -
  have "coins_main (''11'' @ [CHR 0x0A] @ ''1'' @ [CHR 0x0A]) = Some [Coins 2 3 6, Coins 2 3 6]"
    by (simp add: coins_eval)
  moreover have "coins_main (''1'' @ [CHR 0x0A]) = Some [No_solution]" by (simp add: coins_eval)
  ultimately show ?thesis by (simp add: split_of_def)
qed

text \<open>Above the bound the product wraps and the comparison accepts coins worth far more than N.\<close>

lemma balanced_wraps: "balanced 1431655774 1431655767 1 6 \<and> \<not> split_of 1431655774 1431655767 1 6"
  by (simp add: balanced_def split_of_def)

end
