(* ===== verification/Dijks_List.thy ===== *)
theory Dijks_List
  imports Prelude
begin

text \<open>
  The list of candidates of \<^verbatim>\<open>CodeWar2013/elbonian.c\<close> (\<^verbatim>\<open>dijks_list_node_t\<close>): a circular doubly linked
  list with a head cell that carries the count.  Insertion looks for the key first and puts a new cell
  behind the head; removal unlinks the first cell whose node has the smallest label.  A key is a node
  pointer, which is the number of the node; the labels of the nodes are a parameter of the removal.

  The lemmas relate the cells to the list of keys they hold.  The locale at the end is the contract the
  search relies on, and it is interpreted on these operations.
\<close>

section \<open>Cells and operations\<close>

record elem =
  el_data :: "nat option"
  el_next :: ptr
  el_prev :: ptr
  el_head :: ptr
  el_count :: nat

type_synonym elems = "elem heap"

definition zero_elem :: elem where
  "zero_elem = \<lparr>el_data = None, el_next = NULL, el_prev = NULL, el_head = NULL, el_count = 0\<rparr>"

text \<open>The function pointers of the head are constant after this and are not part of the state.\<close>

definition init_dijks_list :: "elems \<Rightarrow> ptr \<Rightarrow> elems option" where
  "init_dijks_list h lst =
     store h lst (\<lambda>c. c\<lparr>el_count := 0, el_head := lst, el_next := lst, el_prev := lst\<rparr>)"

fun find_key :: "elems \<Rightarrow> ptr \<Rightarrow> nat \<Rightarrow> nat \<Rightarrow> bool option" where
  "find_key h p 0 key = Some False"
| "find_key h p (Suc n) key = do {
     c \<leftarrow> load h p;
     if el_data c = Some key then Some True else find_key h (el_next c) n key }"

definition insert_into_dijks_list :: "elems \<Rightarrow> ptr \<Rightarrow> nat \<Rightarrow> elems option" where
  "insert_into_dijks_list h head key = do {
     hd \<leftarrow> load h head;
     found \<leftarrow> find_key h (el_next hd) (el_count hd) key;
     if found then Some h
     else do {
       let (tmp, h) = calloc zero_elem h;
       h \<leftarrow> store h tmp (\<lambda>c. c\<lparr>el_data := Some key\<rparr>);
       hd \<leftarrow> load h head;
       let tmp_next = el_next hd;
       h \<leftarrow> store h head (\<lambda>c. c\<lparr>el_next := tmp\<rparr>);
       h \<leftarrow> store h tmp (\<lambda>c. c\<lparr>el_prev := head\<rparr>);
       h \<leftarrow> store h tmp (\<lambda>c. c\<lparr>el_next := tmp_next\<rparr>);
       h \<leftarrow> store h tmp_next (\<lambda>c. c\<lparr>el_prev := tmp\<rparr>);
       store h head (\<lambda>c. c\<lparr>el_count := el_count c + 1\<rparr>) } }"

fun min_loop :: "(nat \<Rightarrow> u32 option) \<Rightarrow> elems \<Rightarrow> ptr \<Rightarrow> nat \<Rightarrow> u32 \<Rightarrow> ptr \<Rightarrow> ptr option" where
  "min_loop lab h p 0 mn ret = Some ret"
| "min_loop lab h p (Suc n) mn ret = do {
     c \<leftarrow> load h p;
     k \<leftarrow> el_data c;
     l \<leftarrow> lab k;
     if sint l < sint mn then min_loop lab h (el_next c) n l p
     else min_loop lab h (el_next c) n mn ret }"

definition pop_from_dijks_list :: "(nat \<Rightarrow> u32 option) \<Rightarrow> elems \<Rightarrow> ptr \<Rightarrow> (ptr \<times> elems) option" where
  "pop_from_dijks_list lab h head = do {
     hd \<leftarrow> load h head;
     let p = el_next hd;
     c \<leftarrow> load h p;
     k \<leftarrow> el_data c;
     mn \<leftarrow> lab k;
     ret \<leftarrow> min_loop lab h p (el_count hd) mn p;
     r \<leftarrow> load h ret;
     h \<leftarrow> store h (el_prev r) (\<lambda>c. c\<lparr>el_next := el_next r\<rparr>);
     r \<leftarrow> load h ret;
     h \<leftarrow> store h (el_next r) (\<lambda>c. c\<lparr>el_prev := el_prev r\<rparr>);
     h \<leftarrow> store h ret (\<lambda>c. c\<lparr>el_next := NULL, el_prev := NULL\<rparr>);
     h \<leftarrow> store h head (\<lambda>c. c\<lparr>el_count := el_count c - 1\<rparr>);
     Some (ret, h) }"

section \<open>The links\<close>

definition nxs :: "elems \<Rightarrow> ptr \<rightharpoonup> ptr" where
  "nxs h = (\<lambda>p. map_option el_next (objs h p))"

definition pvs :: "elems \<Rightarrow> ptr \<rightharpoonup> ptr" where
  "pvs h = (\<lambda>p. map_option el_prev (objs h p))"

definition dts :: "elems \<Rightarrow> ptr \<rightharpoonup> nat option" where
  "dts h = (\<lambda>p. map_option el_data (objs h p))"

fun nexts :: "(ptr \<rightharpoonup> ptr) \<Rightarrow> ptr \<Rightarrow> ptr list \<Rightarrow> ptr \<Rightarrow> bool" where
  "nexts nx a [] b = (nx a = Some b)"
| "nexts nx a (x # xs) b = (nx a = Some x \<and> nexts nx x xs b)"

fun prevs :: "(ptr \<rightharpoonup> ptr) \<Rightarrow> ptr \<Rightarrow> ptr list \<Rightarrow> ptr \<Rightarrow> bool" where
  "prevs pv a [] b = (pv b = Some a)"
| "prevs pv a (x # xs) b = (pv x = Some a \<and> prevs pv x xs b)"

lemma proj_upd [simp]:
  "nxs (h\<lparr>objs := (objs h)(p \<mapsto> c)\<rparr>) = (nxs h)(p \<mapsto> el_next c)"
  "pvs (h\<lparr>objs := (objs h)(p \<mapsto> c)\<rparr>) = (pvs h)(p \<mapsto> el_prev c)"
  "dts (h\<lparr>objs := (objs h)(p \<mapsto> c)\<rparr>) = (dts h)(p \<mapsto> el_data c)"
  by (auto simp: nxs_def pvs_def dts_def)

lemma nexts_cong: "\<forall>x \<in> set (a # xs). nx' x = nx x \<Longrightarrow> nexts nx' a xs b = nexts nx a xs b"
  by (induction xs arbitrary: a) auto

lemma prevs_cong: "\<forall>x \<in> set (xs @ [b]). pv' x = pv x \<Longrightarrow> prevs pv' a xs b = prevs pv a xs b"
  by (induction xs arbitrary: a) auto

lemma nexts_first: "nexts nx a xs b \<Longrightarrow> nx a = Some (hd (xs @ [b]))"
  by (cases xs) auto

lemma nexts_redirect:
  "nexts nx a xs b \<Longrightarrow> nx' t = nx a \<Longrightarrow> \<forall>x \<in> set xs. nx' x = nx x \<Longrightarrow> nexts nx' t xs b"
  by (cases xs) (auto simp: nexts_cong [where nx' = nx' and nx = nx])

lemma prevs_redirect:
  "prevs pv a xs b \<Longrightarrow> pv' (hd (xs @ [b])) = Some t \<Longrightarrow> \<forall>x \<in> set (tl (xs @ [b])). pv' x = pv x
   \<Longrightarrow> prevs pv' t xs b"
  by (cases xs) (auto simp: prevs_cong [where pv' = pv' and pv = pv])

lemma nexts_append: "nexts nx a (ys @ r # zs) b \<longleftrightarrow> nexts nx a ys r \<and> nexts nx r zs b"
  by (induction ys arbitrary: a) auto

lemma prevs_append: "prevs pv a (ys @ r # zs) b \<longleftrightarrow> prevs pv a ys r \<and> prevs pv r zs b"
  by (induction ys arbitrary: a) auto

lemma prevs_last: "prevs pv a ys r \<Longrightarrow> pv r = Some (last (a # ys))"
  by (induction ys arbitrary: a) auto

lemma nexts_splice:
  "nexts nx a (ys @ r # zs) b \<Longrightarrow> distinct (a # ys @ r # zs)
   \<Longrightarrow> nexts (nx(last (a # ys) := nx r)) a (ys @ zs) b"
proof (induction ys arbitrary: a)
  case Nil
  then show ?case by (auto intro: nexts_redirect)
next
  case (Cons y ys)
  then show ?case by (auto split: if_splits)
qed

lemma prevs_join:
  "prevs pv a ys r \<Longrightarrow> prevs pv' (last (a # ys)) zs b \<Longrightarrow> \<forall>x \<in> set ys. pv' x = pv x \<Longrightarrow> prevs pv' a (ys @ zs) b"
proof (induction ys arbitrary: a)
  case (Cons y ys)
  have "prevs pv' y (ys @ zs) b" by (rule Cons.IH) (use Cons.prems in auto)
  then show ?case using Cons.prems by simp
qed simp

lemma prevs_splice:
  assumes "prevs pv a (ys @ r # zs) b" "distinct (ys @ r # zs @ [b])"
  shows "prevs (pv(hd (zs @ [b]) := pv r)) a (ys @ zs) b"
proof -
  let ?pv = "pv(hd (zs @ [b]) := pv r)"
  have seg: "prevs pv a ys r" "prevs pv r zs b" using assms(1) by (simp_all add: prevs_append)
  have "?pv (hd (zs @ [b])) = Some (last (a # ys))" using prevs_last [OF seg(1)] by simp
  moreover have "\<forall>x \<in> set (tl (zs @ [b])). ?pv x = pv x" using assms(2) by (cases zs) auto
  ultimately have z: "prevs ?pv (last (a # ys)) zs b" by (rule prevs_redirect [OF seg(2)])
  have "hd (zs @ [b]) \<notin> set ys" using assms(2) by (cases zs) auto
  then have "\<forall>x \<in> set ys. ?pv x = pv x" by auto
  with seg(1) z show ?thesis by (rule prevs_join)
qed

section \<open>What the cells hold\<close>

definition elist :: "ptr \<Rightarrow> elems \<Rightarrow> ptr list \<Rightarrow> bool" where
  "elist head h xs = (heap_ok h \<and> nexts (nxs h) head xs head \<and> prevs (pvs h) head xs head
     \<and> distinct (head # xs) \<and> (\<exists>c. objs h head = Some c \<and> el_data c = None \<and> el_count c = length xs))"

text \<open>The keys \<open>Q\<close> are in the list; \<open>E\<close> are cells that were taken out and not yet freed.\<close>

definition holds :: "ptr \<Rightarrow> elems \<Rightarrow> nat list \<Rightarrow> ptr set \<Rightarrow> bool" where
  "holds head h Q E = (\<exists>xs. elist head h xs \<and> map (dts h) xs = map (\<lambda>k. Some (Some k)) Q \<and> distinct Q
     \<and> E \<subseteq> dom (objs h) \<and> E \<inter> set (head # xs) = {})"

lemma load_objs: "heap_ok h \<Longrightarrow> load h p = objs h p"
  by (cases "objs h p") (auto simp: load_def dest: heap_okD)

lemma dts_Some: "dts h x = Some (Some k) \<longleftrightarrow> (\<exists>c. objs h x = Some c \<and> el_data c = Some k)"
  by (auto simp: dts_def)

lemma nxs_Some: "nxs h x = Some p \<longleftrightarrow> (\<exists>c. objs h x = Some c \<and> el_next c = p)"
  by (auto simp: nxs_def)

lemma pvs_Some: "pvs h x = Some p \<longleftrightarrow> (\<exists>c. objs h x = Some c \<and> el_prev c = p)"
  by (auto simp: pvs_def)

lemma find_key_run:
  assumes "heap_ok h" "nexts (nxs h) a xs b" "map (dts h) xs = map (\<lambda>k. Some (Some k)) Q"
  shows "find_key h (hd (xs @ [b])) (length xs) key = Some (key \<in> set Q)"
  using assms(2,3)
proof (induction xs arbitrary: a Q)
  case (Cons x xs)
  then obtain k Q' where Q: "Q = k # Q'" by (cases Q) auto
  obtain c where c: "objs h x = Some c" "el_data c = Some k" using Cons.prems Q by (auto simp: dts_Some)
  have next_c: "el_next c = hd (xs @ [b])" using Cons.prems(1) nexts_first [of "nxs h" x xs b] c by (simp add: nxs_Some)
  have "find_key h (el_next c) (length xs) key = Some (key \<in> set Q')"
    unfolding next_c by (rule Cons.IH) (use Cons.prems Q in auto)
  then show ?case using c Q by (simp add: load_objs [OF assms(1)])
qed simp

lemma min_loop_run:
  assumes "heap_ok h" "nexts (nxs h) a xs b" "map (dts h) xs = map (\<lambda>k. Some (Some k)) Q"
    "\<forall>k \<in> set Q. lab k = Some (L k)"
  shows "\<exists>r m. min_loop lab h (hd (xs @ [b])) (length xs) mn ret = Some r
     \<and> (r = ret \<and> m = mn \<or> (\<exists>i<length xs. r = xs ! i \<and> m = L (Q ! i)))
     \<and> sint m \<le> sint mn \<and> (\<forall>k \<in> set Q. sint m \<le> sint (L k))"
  using assms(2-4)
proof (induction xs arbitrary: a Q mn ret)
  case (Cons x xs)
  then obtain k Q' where Q: "Q = k # Q'" by (cases Q) auto
  obtain c where c: "objs h x = Some c" "el_data c = Some k" using Cons.prems Q by (auto simp: dts_Some)
  have next_c: "el_next c = hd (xs @ [b])" using Cons.prems(1) nexts_first [of "nxs h" x xs b] c by (simp add: nxs_Some)
  let ?less = "sint (L k) < sint mn"
  let ?mn = "if ?less then L k else mn" and ?ret = "if ?less then x else ret"
  obtain r m where r: "min_loop lab h (hd (xs @ [b])) (length xs) ?mn ?ret = Some r"
     "r = ?ret \<and> m = ?mn \<or> (\<exists>i<length xs. r = xs ! i \<and> m = L (Q' ! i))"
     "sint m \<le> sint ?mn" "\<forall>k \<in> set Q'. sint m \<le> sint (L k)"
    using Cons.IH [of x Q' ?mn ?ret] Cons.prems Q by auto
  have "min_loop lab h (hd ((x # xs) @ [b])) (length (x # xs)) mn ret = Some r"
    using r(1) c Q Cons.prems(3) next_c by (simp add: load_objs [OF assms(1)] if_distrib split: if_splits)
  moreover have "r = ret \<and> m = mn \<or> (\<exists>i<length (x # xs). r = (x # xs) ! i \<and> m = L (Q ! i))"
    using r(2) Q by (auto split: if_splits)
  moreover have "sint m \<le> sint mn \<and> sint m \<le> sint (L k)" using r(3) by (auto split: if_splits)
  ultimately show ?case using r(4) Q by auto
qed auto

lemma elist_head: "elist head h xs \<Longrightarrow> \<exists>c. load h head = Some c \<and> el_next c = hd (xs @ [head]) \<and> el_count c = length xs \<and> el_data c = None"
  using nexts_first [of "nxs h" head xs head] by (auto simp: elist_def load_objs nxs_Some)

text \<open>A cell that is put behind the head.\<close>

lemma elist_insert:
  assumes "elist head h xs" "heap_ok h'" "t \<notin> set (head # xs)"
    "nxs h' = (nxs h)(t \<mapsto> hd (xs @ [head]), head \<mapsto> t)"
    "pvs h' = (pvs h)(t \<mapsto> head, hd (xs @ [head]) \<mapsto> t)"
    "objs h' head = Some c" "el_data c = None" "el_count c = Suc (length xs)"
  shows "elist head h' (t # xs)"
proof -
  have e: "nexts (nxs h) head xs head" "prevs (pvs h) head xs head" "distinct (head # xs)"
    using assms(1) by (auto simp: elist_def)
  have "nexts (nxs h') t xs head"
    by (rule nexts_redirect [OF e(1)]) (use assms(3,4) e(3) nexts_first [OF e(1)] in auto)
  moreover have "prevs (pvs h') t xs head"
    by (rule prevs_redirect [OF e(2)]) (use assms(3,5) e(3) in \<open>cases xs; auto\<close>)+
  moreover have "nxs h' head = Some t" "pvs h' t = Some head"
    using assms(3-5) by (cases xs; auto)+
  ultimately show ?thesis using assms e(3) by (auto simp: elist_def)
qed

lemma nexts_dom: "nexts nx a xs b \<Longrightarrow> set (a # xs) \<subseteq> dom nx"
  by (induction xs arbitrary: a) auto

lemma dom_projs: "dom (nxs h) = dom (objs h)" "dom (pvs h) = dom (objs h)" "dom (dts h) = dom (objs h)"
  by (auto simp: nxs_def pvs_def dts_def)

lemma elist_dom: "elist head h xs \<Longrightarrow> set (head # xs) \<subseteq> dom (objs h)"
  using nexts_dom [of "nxs h" head xs head] by (simp add: elist_def dom_projs)

text \<open>One field of one cell is overwritten.\<close>

lemma store_run: "heap_ok h \<Longrightarrow> objs h p = Some c \<Longrightarrow> store h p f = Some (h\<lparr>objs := (objs h)(p \<mapsto> f c)\<rparr>)"
  by (simp add: store_def load_objs)

lemma insert_new_key:
  assumes l: "elist head h xs" and keys: "map (dts h) xs = map (\<lambda>k. Some (Some k)) Q"
    and new: "key \<notin> set Q" and room: "0 < room h"
  shows "\<exists>h'. insert_into_dijks_list h head key = Some h' \<and> elist head h' (brk h # xs)
     \<and> dts h' = (dts h)(brk h \<mapsto> Some key) \<and> room h' = room h - 1"
proof -
  let ?t = "brk h" and ?f = "hd (xs @ [head])"
  have ok: "heap_ok h" using l by (simp add: elist_def)
  obtain c where c: "load h head = Some c" "el_next c = ?f" "el_count c = length xs" "el_data c = None"
    using elist_head [OF l] by blast
  have found: "find_key h ?f (length xs) key = Some False"
    using find_key_run [OF ok, of head xs head Q key] l keys new by (simp add: elist_def)
  have t: "?t \<notin> set (head # xs)" using elist_dom [OF l] calloc_fresh [OF ok] by auto
  have "?f \<in> set (head # xs)" by (cases xs) auto
  then obtain d where d: "objs h ?f = Some d" using elist_dom [OF l] by auto
  have ne: "head \<noteq> ?t" "?f \<noteq> ?t" "0 < ?t" "0 < head" "0 < ?f" "objs h head = Some c"
    using t \<open>?f \<in> _\<close> ok c(1) d by (auto simp: heap_ok_def load_Some_iff dest: heap_okD)
  define c1 where "c1 = c\<lparr>el_next := ?t\<rparr>"
  define d1 where "d1 = (if ?f = head then c1 else d)\<lparr>el_prev := ?t\<rparr>"
  define c2 where "c2 = (if ?f = head then d1 else c1)\<lparr>el_count := el_count c + 1\<rparr>"
  define n where "n = \<lparr>el_data = Some key, el_next = ?f, el_prev = head, el_head = NULL, el_count = 0\<rparr>"
  define h' where "h' = h\<lparr>brk := Suc ?t, room := room h - 1, objs := (objs h)(?t \<mapsto> n, ?f \<mapsto> d1, head \<mapsto> c2)\<rparr>"
  have run: "insert_into_dijks_list h head key = Some h'"
    using ne room c found d
    by (simp add: insert_into_dijks_list_def calloc_def store_def load_def zero_elem_def
        h'_def n_def c1_def d1_def c2_def fun_upd_twist Let_def)
  have "heap_ok h'" using ok ne d unfolding h'_def heap_ok_def by (auto simp: less_Suc_eq)
  moreover have "nxs h' = (nxs h)(?t \<mapsto> ?f, head \<mapsto> ?t)"
    using ne d c by (auto simp: nxs_def h'_def n_def c1_def d1_def c2_def)
  moreover have "pvs h' = (pvs h)(?t \<mapsto> head, ?f \<mapsto> ?t)"
    using ne d c by (auto simp: pvs_def h'_def n_def c1_def d1_def c2_def)
  moreover have "objs h' head = Some c2" "el_data c2 = None" "el_count c2 = Suc (length xs)"
    using c(3,4) d ne by (auto simp: h'_def c1_def d1_def c2_def)
  ultimately have "elist head h' (?t # xs)" using elist_insert [OF l] t by blast
  moreover have "dts h' = (dts h)(?t \<mapsto> Some key)"
    using ne d c by (auto simp: dts_def h'_def n_def c1_def d1_def c2_def)
  ultimately show ?thesis using run by (simp add: h'_def)
qed

definition cts :: "elems \<Rightarrow> ptr \<rightharpoonup> nat" where
  "cts h = (\<lambda>p. map_option el_count (objs h p))"

lemma store_props:
  assumes "heap_ok h" "objs h p = Some c"
  shows "\<exists>h'. store h p f = Some h' \<and> heap_ok h' \<and> room h' = room h \<and> objs h' = (objs h)(p \<mapsto> f c)
     \<and> nxs h' = (nxs h)(p \<mapsto> el_next (f c)) \<and> pvs h' = (pvs h)(p \<mapsto> el_prev (f c))
     \<and> dts h' = (dts h)(p \<mapsto> el_data (f c)) \<and> cts h' = (cts h)(p \<mapsto> el_count (f c))"
  using assms by (auto simp: store_run cts_def)

lemma projs_idem:
  "objs h p = Some c \<Longrightarrow> (cts h)(p \<mapsto> el_count c) = cts h"
  "objs h p = Some c \<Longrightarrow> (nxs h)(p \<mapsto> el_next c) = nxs h"
  "objs h p = Some c \<Longrightarrow> (pvs h)(p \<mapsto> el_prev c) = pvs h"
  "objs h p = Some c \<Longrightarrow> (dts h)(p \<mapsto> el_data c) = dts h"
  by (auto simp: nxs_def pvs_def dts_def cts_def)

text \<open>A cell is taken out of its place.\<close>

lemma elist_unlink:
  assumes l: "elist head h (ys @ r # zs)" and ok: "heap_ok h'"
    and nx: "nxs h' = (nxs h)(last (head # ys) \<mapsto> hd (zs @ [head]), r \<mapsto> NULL)"
    and pv: "pvs h' = (pvs h)(hd (zs @ [head]) \<mapsto> last (head # ys), r \<mapsto> NULL)"
    and hd: "objs h' head = Some c" "el_data c = None" "el_count c = length (ys @ zs)"
  shows "elist head h' (ys @ zs)"
proof -
  have e: "nexts (nxs h) head (ys @ r # zs) head" "prevs (pvs h) head (ys @ r # zs) head" "distinct (head # ys @ r # zs)"
    using l by (auto simp: elist_def)
  have "nxs h r = Some (hd (zs @ [head]))" "pvs h r = Some (last (head # ys))"
    using e(1,2) by (auto simp: nexts_append prevs_append dest: nexts_first prevs_last)
  then have "nexts ((nxs h)(last (head # ys) \<mapsto> hd (zs @ [head]))) head (ys @ zs) head"
    "prevs ((pvs h)(hd (zs @ [head]) \<mapsto> last (head # ys))) head (ys @ zs) head"
    using nexts_splice [OF e(1,3)] prevs_splice [OF e(2)] e(3) by simp_all
  moreover have "\<forall>x \<in> set (head # ys @ zs). nxs h' x = ((nxs h)(last (head # ys) \<mapsto> hd (zs @ [head]))) x"
    "\<forall>x \<in> set ((ys @ zs) @ [head]). pvs h' x = ((pvs h)(hd (zs @ [head]) \<mapsto> last (head # ys))) x"
    using e(3) unfolding nx pv by auto
  ultimately have "nexts (nxs h') head (ys @ zs) head" "prevs (pvs h') head (ys @ zs) head"
    by (simp_all only: nexts_cong prevs_cong)
  then show ?thesis using ok hd e(3) by (simp add: elist_def)
qed

lemma pop_run:
  assumes l: "elist head h (ys @ r # zs)"
    and hd: "load h head = Some c" "load h (el_next c) = Some d" "el_data d = Some k" "lab k = Some mn"
    and ret: "min_loop lab h (el_next c) (el_count c) mn (el_next c) = Some r"
  shows "\<exists>h'. pop_from_dijks_list lab h head = Some (r, h') \<and> elist head h' (ys @ zs)
     \<and> dts h' = dts h \<and> room h' = room h"
proof -
  let ?p = "last (head # ys)" and ?q = "hd (zs @ [head])"
  have ok: "heap_ok h" and e: "nexts (nxs h) head (ys @ r # zs) head" "prevs (pvs h) head (ys @ r # zs) head" "distinct (head # ys @ r # zs)"
    using l by (auto simp: elist_def)
  have "nxs h r = Some ?q" "pvs h r = Some ?p"
    using e(1,2) by (auto simp: nexts_append prevs_append dest: nexts_first prevs_last)
  then obtain cr where cr: "objs h r = Some cr" "el_next cr = ?q" "el_prev cr = ?p"
    by (auto simp: nxs_Some pvs_Some)
  have in_list: "?p \<in> set (head # ys)" "?q \<in> set (zs @ [head])" by (cases ys rule: rev_cases; simp) (cases zs; simp)
  then have ne: "?p \<noteq> r" "?q \<noteq> r" "head \<noteq> r" using e(3) by auto
  obtain cp where cp: "objs h ?p = Some cp" using elist_dom [OF l] in_list(1) by auto
  obtain h1 where h1: "store h ?p (\<lambda>c. c\<lparr>el_next := ?q\<rparr>) = Some h1" "heap_ok h1" "room h1 = room h"
      "objs h1 = (objs h)(?p \<mapsto> cp\<lparr>el_next := ?q\<rparr>)" "nxs h1 = (nxs h)(?p \<mapsto> ?q)" "pvs h1 = pvs h" "dts h1 = dts h" "cts h1 = cts h"
    using store_props [OF ok cp, of "\<lambda>c. c\<lparr>el_next := ?q\<rparr>"] projs_idem [OF cp] by auto
  have "?q \<in> dom (objs h1)" using elist_dom [OF l] in_list(2) h1(4) by auto
  then obtain cq where cq: "objs h1 ?q = Some cq" by auto
  obtain h2 where h2: "store h1 ?q (\<lambda>c. c\<lparr>el_prev := ?p\<rparr>) = Some h2" "heap_ok h2" "room h2 = room h"
      "objs h2 = (objs h1)(?q \<mapsto> cq\<lparr>el_prev := ?p\<rparr>)" "nxs h2 = nxs h1" "pvs h2 = (pvs h)(?q \<mapsto> ?p)" "dts h2 = dts h" "cts h2 = cts h"
    using store_props [OF h1(2) cq, of "\<lambda>c. c\<lparr>el_prev := ?p\<rparr>"] projs_idem [OF cq] h1 by auto
  have r2: "objs h2 r = Some cr" using ne cr h1(4) h2(4) by auto
  obtain h3 where h3: "store h2 r (\<lambda>c. c\<lparr>el_next := NULL, el_prev := NULL\<rparr>) = Some h3" "heap_ok h3" "room h3 = room h"
      "objs h3 = (objs h2)(r \<mapsto> cr\<lparr>el_next := NULL, el_prev := NULL\<rparr>)" "nxs h3 = (nxs h)(?p \<mapsto> ?q, r \<mapsto> NULL)"
      "pvs h3 = (pvs h)(?q \<mapsto> ?p, r \<mapsto> NULL)" "dts h3 = dts h" "cts h3 = cts h"
    using store_props [OF h2(2) r2, of "\<lambda>c. c\<lparr>el_next := NULL, el_prev := NULL\<rparr>"] projs_idem(1,4) [OF r2] h1(5) h2 by auto
  have "objs h head = Some c" using hd(1) by (simp add: load_objs [OF ok])
  then obtain c3 where c3: "objs h3 head = Some c3" "el_data c3 = el_data c" "el_count c3 = el_count c"
    using fun_cong [OF h3(7), of head] fun_cong [OF h3(8), of head] by (auto simp: dts_def cts_def)
  obtain h4 where h4: "store h3 head (\<lambda>c. c\<lparr>el_count := el_count c - 1\<rparr>) = Some h4" "heap_ok h4" "room h4 = room h"
      "objs h4 = (objs h3)(head \<mapsto> c3\<lparr>el_count := el_count c3 - 1\<rparr>)" "nxs h4 = nxs h3" "pvs h4 = pvs h3" "dts h4 = dts h"
    using store_props [OF h3(2) c3(1), of "\<lambda>c. c\<lparr>el_count := el_count c - 1\<rparr>"] projs_idem [OF c3(1)] h3 by auto
  have "objs h1 r = Some cr" using ne(1) cr(1) h1(4) by auto
  then have "pop_from_dijks_list lab h head = Some (r, h4)"
    using hd ret cr h1(1) h2(1) h3(1) h4(1) load_objs [OF ok] load_objs [OF h1(2)]
    by (simp add: pop_from_dijks_list_def Let_def)
  moreover have "elist head h4 (ys @ zs)"
    by (rule elist_unlink [OF l h4(2), where c = "c3\<lparr>el_count := el_count c3 - 1\<rparr>"])
       (use h3 h4 c3 elist_head [OF l] hd(1) in auto)
  ultimately show ?thesis using h4 by auto
qed

section \<open>The laws\<close>

lemma insert_law:
  assumes "holds head h Q E" "0 < room h"
  shows "\<exists>h'. insert_into_dijks_list h head key = Some h'
     \<and> holds head h' (if key \<in> set Q then Q else key # Q) E
     \<and> room h' = (if key \<in> set Q then room h else room h - 1)"
proof -
  obtain xs where l: "elist head h xs" and xs: "map (dts h) xs = map (\<lambda>k. Some (Some k)) Q" "distinct Q"
    "E \<subseteq> dom (objs h)" "E \<inter> set (head # xs) = {}" using assms(1) by (auto simp: holds_def)
  show ?thesis
  proof (cases "key \<in> set Q")
    case True
    have "find_key h (hd (xs @ [head])) (length xs) key = Some True"
      using find_key_run [of h head xs head Q key] l xs True by (simp add: elist_def)
    then have "insert_into_dijks_list h head key = Some h"
      using elist_head [OF l] by (auto simp: insert_into_dijks_list_def)
    then show ?thesis using True assms(1) by simp
  next
    case False
    obtain h' where h': "insert_into_dijks_list h head key = Some h'" "elist head h' (brk h # xs)"
      "dts h' = (dts h)(brk h \<mapsto> Some key)" "room h' = room h - 1"
      using insert_new_key [OF l xs(1) False assms(2)] by blast
    have "brk h \<notin> dom (objs h)" using l calloc_fresh [of h] by (simp add: elist_def domIff)
    then have new: "brk h \<notin> set xs" "brk h \<notin> E" using elist_dom [OF l] xs(3) by auto
    have "dom (objs h') = insert (brk h) (dom (objs h))"
      using h'(3) dom_projs(3) [of h'] dom_projs(3) [of h] by simp
    moreover have "map (dts h') (brk h # xs) = map (\<lambda>k. Some (Some k)) (key # Q)" using xs(1) new(1) h'(3) by simp
    ultimately have "holds head h' (key # Q) E"
      unfolding holds_def using h'(2) xs False new(2) by (intro exI [of _ "brk h # xs"]) auto
    then show ?thesis using h'(1,4) False by simp
  qed
qed

lemma remove1_nth: "distinct Q \<Longrightarrow> i < length Q \<Longrightarrow> remove1 (Q ! i) Q = take i Q @ drop (Suc i) Q"
proof (induction Q arbitrary: i)
  case (Cons k Q)
  then show ?case by (cases i) auto
qed simp

lemma pop_law:
  assumes "holds head h Q E" "Q \<noteq> []" "\<forall>k \<in> set Q. lab k = Some (L k)"
  shows "\<exists>r h' k c. pop_from_dijks_list lab h head = Some (r, h') \<and> r \<noteq> head
     \<and> load h' r = Some c \<and> el_data c = Some k \<and> k \<in> set Q \<and> (\<forall>k' \<in> set Q. sint (L k) \<le> sint (L k'))
     \<and> holds head h' (remove1 k Q) (insert r E) \<and> room h' = room h"
proof -
  obtain xs where l: "elist head h xs" and xs: "map (dts h) xs = map (\<lambda>k. Some (Some k)) Q" "distinct Q"
    "E \<subseteq> dom (objs h)" "E \<inter> set (head # xs) = {}" using assms(1) by (auto simp: holds_def)
  have ok: "heap_ok h" and nx: "nexts (nxs h) head xs head" using l by (auto simp: elist_def)
  have len: "length xs = length Q" using arg_cong [OF xs(1), of length] by simp
  have nth: "dts h (xs ! i) = Some (Some (Q ! i))" if "i < length Q" for i
    using arg_cong [OF xs(1), of "\<lambda>l. l ! i"] that len by simp
  have first_xs: "hd (xs @ [head]) = xs ! 0" using len assms(2) by (cases xs) auto
  obtain c where c: "load h head = Some c" "el_next c = xs ! 0" "el_count c = length xs"
    using elist_head [OF l] first_xs by auto
  obtain d where d: "load h (xs ! 0) = Some d" "el_data d = Some (Q ! 0)"
    using nth [of 0] assms(2) load_objs [OF ok] by (auto simp: dts_Some)
  have lab0: "lab (Q ! 0) = Some (L (Q ! 0))" using assms(2,3) by simp
  obtain r m where r: "min_loop lab h (xs ! 0) (length xs) (L (Q ! 0)) (xs ! 0) = Some r"
     "r = xs ! 0 \<and> m = L (Q ! 0) \<or> (\<exists>i<length xs. r = xs ! i \<and> m = L (Q ! i))"
     "\<forall>k \<in> set Q. sint m \<le> sint (L k)"
    using min_loop_run [OF ok nx xs(1) assms(3), of "L (Q ! 0)" "xs ! 0"] first_xs by auto
  then obtain i where i: "i < length Q" "r = xs ! i" "m = L (Q ! i)" using len assms(2) by auto
  let ?ys = "take i xs" and ?zs = "drop (Suc i) xs"
  have split: "xs = ?ys @ r # ?zs" using i len by (simp add: id_take_nth_drop)
  obtain h' where h': "pop_from_dijks_list lab h head = Some (r, h')" "elist head h' (?ys @ ?zs)" "dts h' = dts h" "room h' = room h"
    using pop_run [of head h ?ys r ?zs c d "Q ! 0" lab "L (Q ! 0)"] l split c d lab0 r(1) by auto
  have "remove1 (Q ! i) Q = take i Q @ drop (Suc i) Q" by (rule remove1_nth [OF xs(2) i(1)])
  moreover have "map (dts h') (?ys @ ?zs) = map (\<lambda>k. Some (Some k)) (take i Q @ drop (Suc i) Q)"
    using xs(1) h'(3) by (simp add: take_map [symmetric] drop_map [symmetric])
  moreover have "dom (objs h') = dom (objs h)" using h'(3) dom_projs(3) [of h'] dom_projs(3) [of h] by simp
  moreover have dist: "distinct (head # ?ys @ r # ?zs)" using l split by (simp only: elist_def)
  moreover have r_in: "r \<in> set xs" using i len by simp
  moreover have "distinct (remove1 (Q ! i) Q)" using xs(2) by simp
  moreover have "set (?ys @ ?zs) \<subseteq> set xs" using set_take_subset [of i xs] set_drop_subset [of "Suc i" xs] by auto
  ultimately have "holds head h' (remove1 (Q ! i) Q) (insert r E)"
    unfolding holds_def using h'(2) xs(3,4) elist_dom [OF l] by (intro exI [of _ "?ys @ ?zs"]) auto
  moreover have "\<exists>c. load h' r = Some c \<and> el_data c = Some (Q ! i)"
    using nth [OF i(1), folded h'(3) i(2)] h'(2) by (simp add: elist_def load_objs dts_Some)
  ultimately show ?thesis using h'(1,4) r(3) i dist by (metis distinct.simps(2) in_set_conv_decomp nth_mem)
qed

lemma free_law:
  assumes "holds head h Q E" "e \<in> E"
  shows "\<exists>h'. free e h = Some h' \<and> holds head h' Q (E - {e}) \<and> room h' = room h"
proof -
  obtain xs where l: "elist head h xs" and xs: "map (dts h) xs = map (\<lambda>k. Some (Some k)) Q" "distinct Q"
    "E \<subseteq> dom (objs h)" "E \<inter> set (head # xs) = {}" using assms(1) by (auto simp: holds_def)
  define h' where "h' = h\<lparr>objs := (objs h)(e := None)\<rparr>"
  have e: "e \<notin> set (head # xs)" "e \<in> dom (objs h)" using xs(3,4) assms(2) by auto
  have run: "free e h = Some h'" using e(2) l by (auto simp: free_def h'_def elist_def dest: heap_okD)
  have proj: "nxs h' = (nxs h)(e := None)" "pvs h' = (pvs h)(e := None)" "dts h' = (dts h)(e := None)"
    by (auto simp: h'_def nxs_def pvs_def dts_def)
  have "heap_ok h'" using heap_ok_free [OF _ run] l by (simp add: elist_def)
  moreover have "nexts (nxs h') head xs head = nexts (nxs h) head xs head"
    by (rule nexts_cong) (use e(1) proj in auto)
  moreover have "prevs (pvs h') head xs head = prevs (pvs h) head xs head"
    by (rule prevs_cong) (use e(1) proj in auto)
  ultimately have "elist head h' xs" using l e(1) by (auto simp: elist_def h'_def)
  moreover have "map (dts h') xs = map (dts h) xs" using e(1) proj(3) by auto
  moreover have "E - {e} \<subseteq> dom (objs h')" using xs(3) by (auto simp: h'_def)
  ultimately have "holds head h' Q (E - {e})" unfolding holds_def using xs by (intro exI [of _ xs]) auto
  then show ?thesis using run by (simp add: h'_def)
qed

lemma init_law:
  assumes "heap_ok h" "0 < room h"
  shows "\<exists>h'. init_dijks_list (snd (calloc zero_elem h)) (fst (calloc zero_elem h)) = Some h'
     \<and> holds (fst (calloc zero_elem h)) h' [] {} \<and> room h' = room h - 1"
proof -
  have "0 < brk h" using assms(1) by (simp add: heap_ok_def)
  then show ?thesis using assms heap_ok_calloc [OF assms(1), of zero_elem]
    by (auto simp: init_dijks_list_def calloc_def store_def load_def holds_def elist_def nxs_def pvs_def zero_elem_def heap_ok_def)
qed


text \<open>
  The contract of a candidate list.  The search calls the operations through the function pointers of
  the list, so they are parameters there, and it is correct for every list that keeps these laws.
\<close>

locale candidate_list =
  fixes contents :: "'h \<Rightarrow> nat list \<Rightarrow> ptr set \<Rightarrow> bool"
    and slots :: "'h \<Rightarrow> nat"
    and ins :: "'h \<Rightarrow> nat \<Rightarrow> 'h option"
    and pop :: "(nat \<Rightarrow> u32 option) \<Rightarrow> 'h \<Rightarrow> (ptr \<times> 'h) option"
    and datum :: "'h \<Rightarrow> ptr \<Rightarrow> nat option"
    and release :: "ptr \<Rightarrow> 'h \<Rightarrow> 'h option"
  assumes ins_law: "contents h Q E \<Longrightarrow> 0 < slots h \<Longrightarrow>
      \<exists>h'. ins h k = Some h' \<and> contents h' (if k \<in> set Q then Q else k # Q) E
        \<and> slots h' = (if k \<in> set Q then slots h else slots h - 1)"
    and pop_min: "contents h Q E \<Longrightarrow> Q \<noteq> [] \<Longrightarrow> \<forall>k \<in> set Q. lab k = Some (L k) \<Longrightarrow>
      \<exists>r h' k. pop lab h = Some (r, h') \<and> datum h' r = Some k \<and> k \<in> set Q
        \<and> (\<forall>k' \<in> set Q. sint (L k) \<le> sint (L k'))
        \<and> contents h' (remove1 k Q) (insert r E) \<and> slots h' = slots h"
    and release_law: "contents h Q E \<Longrightarrow> e \<in> E \<Longrightarrow>
      \<exists>h'. release e h = Some h' \<and> contents h' Q (E - {e}) \<and> slots h' = slots h"
    and distinct_contents: "contents h Q E \<Longrightarrow> distinct Q"

text \<open>The \<^verbatim>\<open>data\<close> field of a cell, and \<^verbatim>\<open>if(data_list != tmp) free(tmp)\<close>.\<close>

definition elem_data :: "elems \<Rightarrow> ptr \<Rightarrow> nat option" where
  "elem_data h p = Option.bind (load h p) el_data"

definition free_elem :: "ptr \<Rightarrow> ptr \<Rightarrow> elems \<Rightarrow> elems option" where
  "free_elem head p h = (if head \<noteq> p then free p h else Some h)"

lemma free_elem_law:
  assumes "holds head h Q E" "e \<in> E"
  shows "\<exists>h'. free_elem head e h = Some h' \<and> holds head h' Q (E - {e}) \<and> room h' = room h"
proof -
  have "e \<noteq> head" using assms by (auto simp: holds_def)
  then show ?thesis using free_law [OF assms] by (simp add: free_elem_def)
qed

interpretation dl: candidate_list "holds head" room "\<lambda>h. insert_into_dijks_list h head"
    "\<lambda>lab h. pop_from_dijks_list lab h head" elem_data "free_elem head" for head
proof unfold_locales
  fix h Q E k
  assume "holds head h Q E" "0 < room h"
  then show "\<exists>h'. insert_into_dijks_list h head k = Some h' \<and> holds head h' (if k \<in> set Q then Q else k # Q) E
      \<and> room h' = (if k \<in> set Q then room h else room h - 1)" by (rule insert_law)
next
  fix h Q E lab and L :: "nat \<Rightarrow> u32"
  assume "holds head h Q E" "Q \<noteq> []" "\<forall>k \<in> set Q. lab k = Some (L k)"
  from pop_law [OF this] show "\<exists>r h' k. pop_from_dijks_list lab h head = Some (r, h') \<and> elem_data h' r = Some k \<and> k \<in> set Q
      \<and> (\<forall>k' \<in> set Q. sint (L k) \<le> sint (L k')) \<and> holds head h' (remove1 k Q) (insert r E) \<and> room h' = room h"
    by (force simp: elem_data_def)
next
  fix h Q E e
  assume "holds head h Q E" "e \<in> E"
  then show "\<exists>h'. free_elem head e h = Some h' \<and> holds head h' Q (E - {e}) \<and> room h' = room h" by (rule free_elem_law)
next
  fix h Q E
  assume "holds head h Q E"
  then show "distinct Q" by (auto simp: holds_def)
qed

end
