(* ===== verification/Distances.thy ===== *)
theory Distances
  imports Main
begin

text \<open>
  Distances in a graph with positive edge costs, where cost 0 means that there is no edge: the
  specification of the shortest path search.  The last lemma is the reason why the search is right.
\<close>

inductive walk_cost :: "(nat \<Rightarrow> nat \<Rightarrow> nat) \<Rightarrow> nat \<Rightarrow> nat \<Rightarrow> nat \<Rightarrow> bool" for c s where
  here: "walk_cost c s s 0"
| further: "walk_cost c s u d \<Longrightarrow> 0 < c u v \<Longrightarrow> walk_cost c s v (d + c u v)"

definition connected :: "(nat \<Rightarrow> nat \<Rightarrow> nat) \<Rightarrow> nat \<Rightarrow> nat \<Rightarrow> bool" where
  "connected c s v = (\<exists>d. walk_cost c s v d)"

definition dist :: "(nat \<Rightarrow> nat \<Rightarrow> nat) \<Rightarrow> nat \<Rightarrow> nat \<Rightarrow> nat" where
  "dist c s v = (LEAST d. walk_cost c s v d)"

lemma connected_start [simp]: "connected c s s"
  by (auto simp: connected_def intro: walk_cost.here)

lemma connected_edge: "connected c s u \<Longrightarrow> 0 < c u v \<Longrightarrow> connected c s v"
  by (auto simp: connected_def intro: walk_cost.further)

lemma dist_walk: "connected c s v \<Longrightarrow> walk_cost c s v (dist c s v)"
  unfolding connected_def dist_def by (rule LeastI_ex)

lemma dist_le: "walk_cost c s v d \<Longrightarrow> dist c s v \<le> d"
  unfolding dist_def by (rule Least_le)

lemma dist_start [simp]: "dist c s s = 0"
  using dist_le [OF walk_cost.here] by simp

lemma dist_edge: "connected c s u \<Longrightarrow> 0 < c u v \<Longrightarrow> dist c s v \<le> dist c s u + c u v"
  by (intro dist_le walk_cost.further dist_walk)

lemma dist_pred:
  assumes "connected c s v" "v \<noteq> s"
  shows "\<exists>u. connected c s u \<and> 0 < c u v \<and> dist c s v = dist c s u + c u v"
  using dist_walk [OF assms(1)]
proof cases
  case here
  then show ?thesis using assms(2) by simp
next
  case (further u d)
  then have "connected c s u" by (auto simp: connected_def)
  moreover have "dist c s u \<le> d" using further by (auto intro: dist_le)
  moreover have "dist c s v \<le> dist c s u + c u v" by (rule dist_edge) (use \<open>connected c s u\<close> further in auto)
  ultimately show ?thesis using further by (intro exI [of _ u]) auto
qed

lemma dist_pos: "connected c s v \<Longrightarrow> v \<noteq> s \<Longrightarrow> 0 < dist c s v"
  using dist_pred [of c s v] by auto

text \<open>A walk that leaves a set has an edge out of it.\<close>

lemma walk_leaves:
  "walk_cost c s v d \<Longrightarrow> s \<in> S \<Longrightarrow> v \<notin> S \<Longrightarrow>
     \<exists>x y. x \<in> S \<and> y \<notin> S \<and> connected c s x \<and> 0 < c x y \<and> dist c s x + c x y \<le> d"
proof (induction rule: walk_cost.induct)
  case (further u d v)
  show ?case
  proof (cases "u \<in> S")
    case True
    then show ?thesis using further dist_le [OF further(1)] by (intro exI [of _ u] exI [of _ v]) (auto simp: connected_def)
  next
    case False
    then obtain x y where "x \<in> S" "y \<notin> S" "connected c s x" "0 < c x y" "dist c s x + c x y \<le> d" using further by blast
    then show ?thesis by (intro exI [of _ x] exI [of _ y]) auto
  qed
qed simp

text \<open>The cheapest way out of a set that contains the start leads to a node at that distance.\<close>

lemma cheapest_exit:
  assumes "s \<in> S" "v \<notin> S" "u \<in> S" "connected c s u" "0 < c u v"
    and least: "\<And>x y. x \<in> S \<Longrightarrow> y \<notin> S \<Longrightarrow> connected c s x \<Longrightarrow> 0 < c x y \<Longrightarrow> dist c s u + c u v \<le> dist c s x + c x y"
  shows "dist c s v = dist c s u + c u v"
proof (rule antisym)
  show "dist c s v \<le> dist c s u + c u v" by (rule dist_edge [where u = u, OF assms(4,5)])
  have "connected c s v" by (rule connected_edge [OF assms(4,5)])
  from walk_leaves [OF dist_walk [OF this] assms(1,2)] least show "dist c s u + c u v \<le> dist c s v"
    by (meson order_trans)
qed

text \<open>Walks as lists of nodes, with their cost.\<close>

fun path_cost :: "(nat \<Rightarrow> nat \<Rightarrow> nat) \<Rightarrow> nat list \<Rightarrow> nat" where
  "path_cost c (a # b # xs) = c a b + path_cost c (b # xs)"
| "path_cost c xs = 0"

definition path_from_to :: "(nat \<Rightarrow> nat \<Rightarrow> nat) \<Rightarrow> nat \<Rightarrow> nat \<Rightarrow> nat list \<Rightarrow> bool" where
  "path_from_to c s v xs = (xs \<noteq> [] \<and> hd xs = s \<and> last xs = v \<and> successively (\<lambda>a b. 0 < c a b) xs)"

lemma path_cost_snoc: "xs \<noteq> [] \<Longrightarrow> path_cost c (xs @ [v]) = path_cost c xs + c (last xs) v"
  by (induction c xs rule: path_cost.induct) auto

lemma path_is_walk: "path_from_to c s v xs \<Longrightarrow> walk_cost c s v (path_cost c xs)"
proof (induction xs arbitrary: v rule: rev_induct)
  case (snoc x xs)
  show ?case
  proof (cases "xs = []")
    case True
    then show ?thesis using snoc.prems by (auto simp: path_from_to_def intro: walk_cost.here)
  next
    case False
    have "successively (\<lambda>a b. 0 < c a b) xs \<and> 0 < c (last xs) x \<and> x = v"
      using snoc.prems False by (auto simp: path_from_to_def successively_append_iff)
    moreover from this have "walk_cost c s (last xs) (path_cost c xs)"
      using snoc False by (intro snoc.IH) (auto simp: path_from_to_def)
    ultimately show ?thesis using False walk_cost.further [of c s "last xs" "path_cost c xs" v] by (auto simp: path_cost_snoc)
  qed
qed (simp add: path_from_to_def)

text \<open>No path is cheaper than the distance.\<close>

lemma dist_le_path: "path_from_to c s v xs \<Longrightarrow> dist c s v \<le> path_cost c xs"
  by (intro dist_le path_is_walk)

end
