(* ===== verification/Elbonian.thy ===== *)
theory Elbonian
  imports Dijks_List Distances
begin

text \<open>
  \<^verbatim>\<open>CodeWar2013/elbonian.c\<close>: the shortest path between two nodes of a graph given by its edges.
  \<^verbatim>\<open>build_graph\<close> turns the cost matrix into nodes with lists of peers, \<^verbatim>\<open>dijkstra_call\<close> labels the
  nodes with their distances, and \<^verbatim>\<open>main\<close> reads the input and walks back along the labels.

  A node is allocated only by \<^verbatim>\<open>build_graph\<close>, which stores it in its container at once, so a pointer
  to a node is its position there and the nodes are a list.  Labels and costs are 32-bit words: sums
  are unsigned and wrap, comparisons of labels are signed.  The list of candidates is used through the
  operations its head points to, which are parameters of the search.  \<^const>\<open>None\<close> is undefined
  behaviour: a null pointer, an index outside an array.

  The lemmas end in the correctness of the whole computation: for a symmetric cost matrix without
  loops whose sums do not overflow, it prints a shortest path and its cost.
\<close>

section \<open>The graph\<close>

definition MAX_NODE_COUNT :: nat where
  "MAX_NODE_COUNT = 200"

type_synonym costs = "nat \<Rightarrow> nat \<Rightarrow> u32"

record node =
  node_id :: nat
  order_id :: int
  temp_label :: u32
  final_label :: u32
  visited :: bool
  peer_list :: "nat list"

definition new_node :: "nat \<Rightarrow> node" where
  "new_node i = \<lparr>node_id = i, order_id = 0, temp_label = 0, final_label = 0, visited = False, peer_list = []\<rparr>"

text \<open>
  The scan stops at the first null entry of the container; a full container has none and the scan
  would leave the array.
\<close>

fun scan_container :: "nat \<Rightarrow> node list \<Rightarrow> nat \<Rightarrow> nat option option" where
  "scan_container i [] key = (if i < MAX_NODE_COUNT then Some None else None)"
| "scan_container i (n # ns) key = (if node_id n = key then Some (Some i) else scan_container (i + 1) ns key)"

definition find_node_in_container :: "node list \<Rightarrow> nat \<Rightarrow> nat option option" where
  "find_node_in_container ns key = scan_container 0 ns key"

text \<open>Find or make the node; \<open>mem\<close> is the number of nodes \<^verbatim>\<open>calloc\<close> grants.\<close>

definition find_or_make :: "nat \<Rightarrow> nat \<Rightarrow> node list \<Rightarrow> (nat \<times> node list) option" where
  "find_or_make mem key ns = do {
     found \<leftarrow> find_node_in_container ns key;
     (case found of
        Some p \<Rightarrow> Some (p, ns)
      | None \<Rightarrow> if length ns < mem \<and> length ns < MAX_NODE_COUNT
               then Some (length ns, ns @ [new_node key]) else None) }"

definition insert_into_peer_list :: "nat \<Rightarrow> nat \<Rightarrow> node list \<Rightarrow> node list option" where
  "insert_into_peer_list p key ns =
     (if p < length ns \<and> length (peer_list (ns ! p)) < MAX_NODE_COUNT
      then Some (ns[p := (ns ! p)\<lparr>peer_list := peer_list (ns ! p) @ [key]\<rparr>]) else None)"

fun col_loop :: "nat \<Rightarrow> costs \<Rightarrow> nat \<Rightarrow> nat list \<Rightarrow> nat option \<times> node list \<Rightarrow> (nat option \<times> node list) option" where
  "col_loop mem cost row [] st = Some st"
| "col_loop mem cost row (col # cols) (row_start, ns) =
     (if cost row col \<noteq> 0 then do {
        (r, ns) \<leftarrow> find_or_make mem row ns;
        (t, ns) \<leftarrow> find_or_make mem col ns;
        ns \<leftarrow> insert_into_peer_list r t ns;
        col_loop mem cost row cols (Some r, ns) }
      else col_loop mem cost row cols (row_start, ns))"

fun row_loop :: "nat \<Rightarrow> costs \<Rightarrow> int \<Rightarrow> nat list \<Rightarrow> nat option \<Rightarrow> nat option \<times> node list \<Rightarrow> (nat option \<times> node list) option" where
  "row_loop mem cost src [] start st = Some (start, snd st)"
| "row_loop mem cost src (row # rows) start st = do {
     (row_start, ns) \<leftarrow> col_loop mem cost row [0..<MAX_NODE_COUNT] st;
     row_loop mem cost src rows (if int row = src then row_start else start) (row_start, ns) }"

definition build_graph :: "nat \<Rightarrow> costs \<Rightarrow> int \<Rightarrow> (nat option \<times> node list) option" where
  "build_graph mem cost src = row_loop mem cost src [0..<MAX_NODE_COUNT] None (None, [])"

section \<open>The search\<close>

definition node_at :: "node list \<Rightarrow> nat \<Rightarrow> node option" where
  "node_at ns p = (if p < length ns then Some (ns ! p) else None)"

text \<open>
  Peer lists do not change during the search, so a loop over the peers of a node runs over the list;
  it ends at the null pointer behind the last peer, which a full list does not have.
\<close>

definition peers_end :: "node \<Rightarrow> unit option" where
  "peers_end n = (if length (peer_list n) < MAX_NODE_COUNT then Some () else None)"

fun first_peers :: "('h \<Rightarrow> nat \<Rightarrow> 'h option) \<Rightarrow> costs \<Rightarrow> nat \<Rightarrow> nat list \<Rightarrow> node list \<times> 'h \<Rightarrow> (node list \<times> 'h) option" where
  "first_peers ins cost s [] st = Some st"
| "first_peers ins cost s (q # qs) (ns, h) = do {
     sn \<leftarrow> node_at ns s;
     qn \<leftarrow> node_at ns q;
     let ns = ns[q := qn\<lparr>temp_label := final_label sn + cost (node_id sn) (node_id qn)\<rparr>];
     h \<leftarrow> ins h q;
     first_peers ins cost s qs (ns, h) }"

definition better_label :: "u32 \<Rightarrow> u32 \<Rightarrow> u32" where
  "better_label old new = (if old = 0 then new else if sint new < sint old then new else old)"

fun relax_peers :: "('h \<Rightarrow> nat \<Rightarrow> 'h option) \<Rightarrow> costs \<Rightarrow> nat \<Rightarrow> nat list \<Rightarrow> node list \<times> 'h \<Rightarrow> (node list \<times> 'h) option" where
  "relax_peers ins cost v [] st = Some st"
| "relax_peers ins cost v (q # qs) (ns, h) = do {
     vn \<leftarrow> node_at ns v;
     qn \<leftarrow> node_at ns q;
     if visited qn then relax_peers ins cost v qs (ns, h)
     else do {
       let t = final_label vn + cost (node_id vn) (node_id qn);
       let ns = ns[q := qn\<lparr>temp_label := better_label (temp_label qn) t\<rparr>];
       h \<leftarrow> ins h q;
       relax_peers ins cost v qs (ns, h) } }"

function search_loop :: "('h \<Rightarrow> nat \<Rightarrow> 'h option) \<Rightarrow> ((nat \<Rightarrow> u32 option) \<Rightarrow> 'h \<Rightarrow> (ptr \<times> 'h) option)
    \<Rightarrow> ('h \<Rightarrow> ptr \<Rightarrow> nat option) \<Rightarrow> (ptr \<Rightarrow> 'h \<Rightarrow> 'h option) \<Rightarrow> costs \<Rightarrow> int \<Rightarrow> int \<Rightarrow> int \<Rightarrow> nat option
    \<Rightarrow> node list \<times> 'h \<Rightarrow> (nat option \<times> node list) option" where
  "search_loop ins pop datum release cost dst node_count cur en (ns, h) =
     (if cur < node_count then do {
        (tmp, h) \<leftarrow> pop (\<lambda>k. map_option temp_label (node_at ns k)) h;
        v \<leftarrow> datum h tmp;
        n \<leftarrow> node_at ns v;
        let ns = ns[v := n\<lparr>final_label := temp_label n, order_id := cur + 1, visited := True\<rparr>];
        let en = (if int (node_id n) = dst then Some v else en);
        (ns, h) \<leftarrow> relax_peers ins cost v (peer_list n) (ns, h);
        _ \<leftarrow> peers_end n;
        h \<leftarrow> release tmp h;
        search_loop ins pop datum release cost dst node_count (cur + 1) en (ns, h) }
      else Some (en, ns))"
  by pat_completeness auto
termination
  by (relation "measure (\<lambda>(_, _, _, _, _, _, nc, cur, _). nat (nc - cur))") auto

definition dijkstra_call :: "('h \<Rightarrow> nat \<Rightarrow> 'h option) \<Rightarrow> ((nat \<Rightarrow> u32 option) \<Rightarrow> 'h \<Rightarrow> (ptr \<times> 'h) option)
    \<Rightarrow> ('h \<Rightarrow> ptr \<Rightarrow> nat option) \<Rightarrow> (ptr \<Rightarrow> 'h \<Rightarrow> 'h option) \<Rightarrow> costs \<Rightarrow> int \<Rightarrow> int \<Rightarrow> nat option
    \<Rightarrow> node list \<times> 'h \<Rightarrow> (nat option \<times> node list) option" where
  "dijkstra_call ins pop datum release cost dst node_count start st = do {
     s \<leftarrow> start;
     let (ns, h) = st;
     n \<leftarrow> node_at ns s;
     let ns = ns[s := n\<lparr>final_label := 0, visited := True, order_id := 1\<rparr>];
     (ns, h) \<leftarrow> first_peers ins cost s (peer_list n) (ns, h);
     _ \<leftarrow> peers_end n;
     search_loop ins pop datum release cost dst node_count 1 None (ns, h) }"

declare search_loop.simps [simp del]

section \<open>The path\<close>

fun find_step :: "costs \<Rightarrow> node list \<Rightarrow> node \<Rightarrow> nat list \<Rightarrow> nat option option" where
  "find_step cost ns e [] = Some None"
| "find_step cost ns e (q # qs) = do {
     qn \<leftarrow> node_at ns q;
     if final_label qn = final_label e - cost (node_id e) (node_id qn) then Some (Some q)
     else find_step cost ns e qs }"

text \<open>
  \<^verbatim>\<open>while(end_tmp != start_tmp)\<close>.  Without a matching peer \<^verbatim>\<open>end_tmp\<close> becomes null, which differs from
  the start and is dereferenced; the array \<^verbatim>\<open>path\<close> has 200 entries.
\<close>

function path_loop :: "costs \<Rightarrow> node list \<Rightarrow> nat \<Rightarrow> nat \<Rightarrow> nat list \<Rightarrow> u32 \<Rightarrow> (nat list \<times> u32) option" where
  "path_loop cost ns start e path total_cost =
     (if e = start then Some (path, total_cost)
      else do {
        en \<leftarrow> node_at ns e;
        found \<leftarrow> find_step cost ns en (peer_list en);
        (case found of
           None \<Rightarrow> None
         | Some q \<Rightarrow> do {
             qn \<leftarrow> node_at ns q;
             if length path < MAX_NODE_COUNT
             then path_loop cost ns start q (path @ [node_id qn]) (total_cost + cost (node_id en) (node_id qn))
             else None }) })"
  by pat_completeness auto
termination
  by (relation "measure (\<lambda>(_, _, _, _, path, _). MAX_NODE_COUNT - length path)") auto

declare path_loop.simps [simp del]

text \<open>
  \<^verbatim>\<open>main\<close> once the input is read: the numbers it prints, in order, and the cost.  \<open>h\<close> is the memory
  for the list and \<open>mem\<close> the number of nodes that can be allocated.
\<close>

definition shortest_path :: "nat \<Rightarrow> elems \<Rightarrow> costs \<Rightarrow> int \<Rightarrow> int \<Rightarrow> int \<Rightarrow> (nat list \<times> int) option" where
  "shortest_path mem h cost node_count src dst = do {
     let (head, h) = calloc zero_elem h;
     h \<leftarrow> init_dijks_list h head;
     (start, ns) \<leftarrow> build_graph mem cost src;
     (en, ns) \<leftarrow> dijkstra_call (\<lambda>h. insert_into_dijks_list h head) (\<lambda>lab h. pop_from_dijks_list lab h head)
        elem_data (free_elem head) cost dst node_count start (ns, h);
     s \<leftarrow> start;
     e \<leftarrow> en;
     n \<leftarrow> node_at ns e;
     (path, total_cost) \<leftarrow> path_loop cost ns s e [node_id n] 0;
     Some (rev path, sint total_cost) }"

section \<open>What \<^verbatim>\<open>build_graph\<close> builds\<close>

text \<open>
  \<open>want i\<close> are the numbers of the peers node \<open>i\<close> has so far.  Nodes have different numbers, all labels
  are still as \<^verbatim>\<open>calloc\<close> left them, and every number that occurs has its node.
\<close>

definition ids :: "node list \<Rightarrow> nat set" where
  "ids ns = node_id ` set ns"

definition peer_ids :: "node list \<Rightarrow> nat \<Rightarrow> nat list" where
  "peer_ids ns p = map (\<lambda>q. node_id (ns ! q)) (peer_list (ns ! p))"

definition unlabelled :: "node \<Rightarrow> bool" where
  "unlabelled n = (temp_label n = 0 \<and> final_label n = 0 \<and> \<not> visited n)"

definition built :: "(nat \<Rightarrow> nat list) \<Rightarrow> node list \<Rightarrow> bool" where
  "built want ns = (distinct (map node_id ns) \<and> ids ns \<subseteq> {..<MAX_NODE_COUNT}
     \<and> (\<forall>p<length ns. set (peer_list (ns ! p)) \<subseteq> {..<length ns} \<and> peer_ids ns p = want (node_id (ns ! p)))
     \<and> (\<forall>n \<in> set ns. unlabelled n)
     \<and> (\<forall>i. want i \<noteq> [] \<longrightarrow> i \<in> ids ns) \<and> (\<forall>i. set (want i) \<subseteq> ids ns))"

definition extended :: "node list \<Rightarrow> node list \<Rightarrow> bool" where
  "extended ns ns' = (length ns \<le> length ns' \<and> (\<forall>p<length ns. node_id (ns' ! p) = node_id (ns ! p)))"

lemma extended_refl [simp]: "extended ns ns"
  by (simp add: extended_def)

lemma extended_trans: "extended ns1 ns2 \<Longrightarrow> extended ns2 ns3 \<Longrightarrow> extended ns1 ns3"
  by (auto simp: extended_def)

lemma extended_append [simp]: "extended ns (ns @ ms)"
  by (simp add: extended_def nth_append)

lemma built_length: "built want ns \<Longrightarrow> length ns \<le> MAX_NODE_COUNT"
proof -
  assume b: "built want ns"
  then have "length ns = card (ids ns)" using distinct_card [of "map node_id ns"] by (simp add: built_def ids_def)
  also have "\<dots> \<le> MAX_NODE_COUNT" using b card_mono [of "{..<MAX_NODE_COUNT}" "ids ns"] by (simp add: built_def)
  finally show ?thesis .
qed

lemma built_full:
  assumes "built want ns" "key < MAX_NODE_COUNT" "key \<notin> ids ns"
  shows "length ns < MAX_NODE_COUNT"
proof -
  have "length ns = card (ids ns)" using assms(1) distinct_card [of "map node_id ns"] by (simp add: built_def ids_def)
  also have "\<dots> < card {..<MAX_NODE_COUNT}" by (rule psubset_card_mono) (use assms in \<open>auto simp: built_def\<close>)
  finally show ?thesis by simp
qed

lemma scan_container_found:
  "key \<in> ids ns \<Longrightarrow> \<exists>p<length ns. scan_container i ns key = Some (Some (i + p)) \<and> node_id (ns ! p) = key"
proof (induction ns arbitrary: i)
  case (Cons n ns)
  show ?case
  proof (cases "node_id n = key")
    case False
    then have "key \<in> ids ns" using Cons.prems by (auto simp: ids_def)
    from Cons.IH [OF this, of "i + 1"] obtain p where "p < length ns"
      "scan_container (i + 1) ns key = Some (Some (i + 1 + p))" "node_id (ns ! p) = key" by blast
    then show ?thesis using False by (intro exI [of _ "Suc p"]) simp
  qed auto
qed (simp add: ids_def)

lemma scan_container_absent:
  "key \<notin> ids ns \<Longrightarrow> i + length ns < MAX_NODE_COUNT \<Longrightarrow> scan_container i ns key = Some None"
  by (induction ns arbitrary: i) (auto simp: ids_def)

lemma built_new_node:
  assumes "built want ns" "key < MAX_NODE_COUNT" "key \<notin> ids ns"
  shows "built want (ns @ [new_node key])"
proof -
  have "want key = []" using assms(1,3) by (auto simp: built_def)
  moreover have "peer_ids (ns @ [new_node key]) p = peer_ids ns p" if "p < length ns" for p
  proof -
    have "\<forall>q \<in> set (peer_list (ns ! p)). q < length ns" using assms(1) that by (auto simp: built_def)
    then show ?thesis using that by (simp add: peer_ids_def nth_append)
  qed
  moreover have "peer_ids (ns @ [new_node key]) (length ns) = []" by (simp add: peer_ids_def new_node_def)
  moreover have "set (peer_list (ns ! p)) \<subseteq> {..<Suc (length ns)}" if "p < length ns" for p
    using assms(1) that by (fastforce simp: built_def)
  ultimately show ?thesis using assms
    by (auto simp: built_def ids_def nth_append less_Suc_eq unlabelled_def new_node_def)
qed

lemma find_or_make_built:
  assumes "built want ns" "key < MAX_NODE_COUNT" "MAX_NODE_COUNT \<le> mem"
  shows "\<exists>p ns'. find_or_make mem key ns = Some (p, ns') \<and> built want ns' \<and> extended ns ns'
     \<and> p < length ns' \<and> node_id (ns' ! p) = key"
proof (cases "key \<in> ids ns")
  case True
  then show ?thesis using scan_container_found [OF True, of 0] assms(1)
    by (auto simp: find_or_make_def find_node_in_container_def)
next
  case False
  then show ?thesis
    using scan_container_absent [OF False, of 0] built_full [OF assms(1,2) False] built_new_node [OF assms(1,2) False] assms(3)
    by (auto simp: find_or_make_def find_node_in_container_def) (simp add: new_node_def)
qed

lemma built_insert_peer:
  assumes b: "built want ns" and p: "p < length ns" "node_id (ns ! p) = row" and q: "q < length ns" "node_id (ns ! q) = col"
    and len: "length (want row) < MAX_NODE_COUNT"
  shows "\<exists>ns'. insert_into_peer_list p q ns = Some ns' \<and> built (want(row := want row @ [col])) ns' \<and> extended ns ns'"
proof -
  let ?n = "(ns ! p)\<lparr>peer_list := peer_list (ns ! p) @ [q]\<rparr>"
  define ns' where "ns' = ns[p := ?n]"
  have "peer_ids ns p = want row" using b p by (simp add: built_def)
  then have "length (peer_list (ns ! p)) < MAX_NODE_COUNT" using len by (metis length_map peer_ids_def)
  then have run: "insert_into_peer_list p q ns = Some ns'" using p(1) by (simp add: insert_into_peer_list_def ns'_def)
  have same_id: "node_id (ns' ! i) = node_id (ns ! i)" if "i < length ns" for i
    using that p(1) by (cases "i = p") (auto simp: ns'_def)
  have len': "length ns' = length ns" by (simp add: ns'_def)
  have map_ids: "map node_id ns' = map node_id ns" by (rule nth_equalityI) (auto simp: same_id len')
  then have ids': "ids ns' = ids ns" unfolding ids_def by (metis list.set_map)
  have peers: "set (peer_list (ns' ! i)) \<subseteq> {..<length ns} \<and> peer_ids ns' i = (want(row := want row @ [col])) (node_id (ns' ! i))"
    if i: "i < length ns" for i
  proof -
    have bi: "set (peer_list (ns ! i)) \<subseteq> {..<length ns}" "peer_ids ns i = want (node_id (ns ! i))" using b i by (auto simp: built_def)
    have "map (\<lambda>q. node_id (ns' ! q)) (peer_list (ns ! i)) = peer_ids ns i"
      unfolding peer_ids_def using bi(1) by (intro map_cong) (auto simp: same_id)
    moreover have "node_id (ns ! i) = row \<longleftrightarrow> i = p"
      using b p i nth_eq_iff_index_eq [of "map node_id ns" i p] by (auto simp: built_def)
    moreover have "peer_list (ns' ! i) = (if i = p then peer_list (ns ! i) @ [q] else peer_list (ns ! i))"
      using i by (simp add: ns'_def nth_list_update)
    ultimately show ?thesis using bi p(2) q same_id [OF q(1)] same_id [OF i] by (auto simp: peer_ids_def [of ns'])
  qed
  moreover have "\<forall>n \<in> set ns'. unlabelled n"
    using b p set_update_subset_insert [of ns p ?n] by (auto simp: ns'_def built_def unlabelled_def)
  moreover have "row \<in> ids ns" "col \<in> ids ns" using p q by (auto simp: ids_def)
  ultimately have "built (want(row := want row @ [col])) ns'"
    using b by (auto simp: built_def ids' map_ids len')
  then show ?thesis using run same_id len' by (auto simp: extended_def)
qed

definition edges_of :: "costs \<Rightarrow> nat \<Rightarrow> nat list" where
  "edges_of cost i = filter (\<lambda>j. cost i j \<noteq> 0) [0..<MAX_NODE_COUNT]"

lemma col_loop_built:
  assumes "built (want(row := filter (\<lambda>j. cost row j \<noteq> 0) [0..<c])) ns" "row < MAX_NODE_COUNT" "c \<le> MAX_NODE_COUNT"
    "MAX_NODE_COUNT \<le> mem"
  shows "\<exists>rs' ns'. col_loop mem cost row [c..<MAX_NODE_COUNT] (rs, ns) = Some (rs', ns')
     \<and> built (want(row := edges_of cost row)) ns' \<and> extended ns ns'
     \<and> (if \<forall>j \<in> {c..<MAX_NODE_COUNT}. cost row j = 0 then rs' = rs
        else \<exists>p<length ns'. rs' = Some p \<and> node_id (ns' ! p) = row)"
  using assms(1,3)
proof (induction "MAX_NODE_COUNT - c" arbitrary: c rs ns)
  case 0
  then show ?case by (simp add: edges_of_def)
next
  case (Suc k)
  let ?want = "want(row := filter (\<lambda>j. cost row j \<noteq> 0) [0..<c])"
  have c: "c < MAX_NODE_COUNT" "k = MAX_NODE_COUNT - Suc c" "[c..<MAX_NODE_COUNT] = c # [Suc c..<MAX_NODE_COUNT]"
    "{c..<MAX_NODE_COUNT} = insert c {Suc c..<MAX_NODE_COUNT}"
    using Suc.hyps(2) by (auto simp: upt_rec)
  show ?case
  proof (cases "cost row c = 0")
    case True
    then have "built (want(row := filter (\<lambda>j. cost row j \<noteq> 0) [0..<Suc c])) ns" using Suc.prems(1) by simp
    from Suc.hyps(1) [OF c(2) this, of rs] c(1) show ?thesis using True c(3,4) by simp
  next
    case False
    obtain r ns1 where r: "find_or_make mem row ns = Some (r, ns1)" "built ?want ns1" "extended ns ns1" "r < length ns1" "node_id (ns1 ! r) = row"
      using find_or_make_built [OF Suc.prems(1) assms(2,4)] by blast
    obtain t ns2 where t: "find_or_make mem c ns1 = Some (t, ns2)" "built ?want ns2" "extended ns1 ns2" "t < length ns2" "node_id (ns2 ! t) = c"
      using find_or_make_built [OF r(2) c(1) assms(4)] by blast
    have r2: "r < length ns2" "node_id (ns2 ! r) = row" using t(3) r(4,5) by (auto simp: extended_def)
    have len: "length (?want row) < MAX_NODE_COUNT"
      using length_filter_le [of "\<lambda>j. cost row j \<noteq> 0" "[0..<c]"] c(1) by simp
    obtain ns3 where n3: "insert_into_peer_list r t ns2 = Some ns3" "built (?want(row := ?want row @ [c])) ns3" "extended ns2 ns3"
      using built_insert_peer [OF t(2) r2 t(4,5) len] by blast
    have r3: "r < length ns3" "node_id (ns3 ! r) = row" using n3(3) r2 by (auto simp: extended_def)
    have "built (want(row := filter (\<lambda>j. cost row j \<noteq> 0) [0..<Suc c])) ns3" using n3(2) False by simp
    from Suc.hyps(1) [OF c(2) this, of "Some r"] c(1) obtain rs' ns' where
      ih: "col_loop mem cost row [Suc c..<MAX_NODE_COUNT] (Some r, ns3) = Some (rs', ns')"
      "built (want(row := edges_of cost row)) ns'" "extended ns3 ns'"
      "if \<forall>j \<in> {Suc c..<MAX_NODE_COUNT}. cost row j = 0 then rs' = Some r
        else \<exists>p<length ns'. rs' = Some p \<and> node_id (ns' ! p) = row" by auto
    have "\<exists>p<length ns'. rs' = Some p \<and> node_id (ns' ! p) = row"
      using ih(3,4) r3 by (auto simp: extended_def split: if_splits)
    moreover have "extended ns ns'" using r(3) t(3) n3(3) ih(3) by (blast intro: extended_trans)
    ultimately show ?thesis using False r(1) t(1) n3(1) ih(1,2) c(3,4) by simp
  qed
qed

lemma row_loop_built:
  assumes "built (\<lambda>i. if i < r then edges_of cost i else []) ns" "r \<le> MAX_NODE_COUNT" "MAX_NODE_COUNT \<le> mem"
    "src < MAX_NODE_COUNT" "edges_of cost src \<noteq> []"
    "src < r \<longrightarrow> (\<exists>s<length ns. start = Some s \<and> node_id (ns ! s) = src)"
  shows "\<exists>s ns'. row_loop mem cost (int src) [r..<MAX_NODE_COUNT] start (rs, ns) = Some (Some s, ns')
     \<and> built (\<lambda>i. if i < MAX_NODE_COUNT then edges_of cost i else []) ns' \<and> s < length ns' \<and> node_id (ns' ! s) = src"
  using assms(1,2,6)
proof (induction "MAX_NODE_COUNT - r" arbitrary: r rs ns start)
  case 0
  then show ?case using assms(4) by auto
next
  case (Suc k)
  let ?want = "\<lambda>i. if i < r then edges_of cost i else []"
  have r: "r < MAX_NODE_COUNT" "k = MAX_NODE_COUNT - Suc r" "[r..<MAX_NODE_COUNT] = r # [Suc r..<MAX_NODE_COUNT]"
    using Suc.hyps(2) by (auto simp: upt_rec)
  have "?want(r := filter (\<lambda>j. cost r j \<noteq> 0) [0..<0]) = ?want" by auto
  then obtain rs' ns' where
    cl: "col_loop mem cost r [0..<MAX_NODE_COUNT] (rs, ns) = Some (rs', ns')" "built (?want(r := edges_of cost r)) ns'" "extended ns ns'"
    "if \<forall>j \<in> {0..<MAX_NODE_COUNT}. cost r j = 0 then rs' = rs else \<exists>p<length ns'. rs' = Some p \<and> node_id (ns' ! p) = r"
    using col_loop_built [of ?want r cost 0 ns mem rs] Suc.prems(1) r(1) assms(3) by auto
  have "?want(r := edges_of cost r) = (\<lambda>i. if i < Suc r then edges_of cost i else [])" by auto
  with cl(2) have b: "built (\<lambda>i. if i < Suc r then edges_of cost i else []) ns'" by simp
  let ?start = "if int r = int src then rs' else start"
  have "\<exists>j \<in> {0..<MAX_NODE_COUNT}. cost src j \<noteq> 0" using assms(5) by (auto simp: edges_of_def filter_empty_conv)
  then have here: "\<exists>p<length ns'. rs' = Some p \<and> node_id (ns' ! p) = src" if "r = src"
    using cl(4) that by (auto split: if_splits)
  have "src < Suc r \<longrightarrow> (\<exists>s<length ns'. ?start = Some s \<and> node_id (ns' ! s) = src)"
    using cl(3) Suc.prems(3) here by (cases "r = src") (auto simp: extended_def less_Suc_eq)
  from Suc.hyps(1) [OF r(2) b _ this, of rs'] r(1) show ?case using cl(1) r(3) by simp
qed

lemma build_graph_built:
  assumes "MAX_NODE_COUNT \<le> mem" "src < MAX_NODE_COUNT" "edges_of cost src \<noteq> []"
  shows "\<exists>s ns. build_graph mem cost (int src) = Some (Some s, ns)
     \<and> built (\<lambda>i. if i < MAX_NODE_COUNT then edges_of cost i else []) ns \<and> s < length ns \<and> node_id (ns ! s) = src"
proof -
  have "built (\<lambda>i. if i < 0 then edges_of cost i else []) []" by (simp add: built_def ids_def)
  from row_loop_built [OF this _ assms, of None None] show ?thesis by (simp add: build_graph_def)
qed

end
