(* ===== verification/Elbonian_Search.thy ===== *)
theory Elbonian_Search
  imports Elbonian
begin

text \<open>
  The search of \<^verbatim>\<open>CodeWar2013/elbonian.c\<close> is correct: the labels it leaves are the distances from the
  start, and the path read off them is a shortest one.
\<close>

section \<open>Labels\<close>

lemma sint_small:
  assumes "unat (x :: u32) < 2 ^ 31"
  shows "sint x = int (unat x)"
proof -
  have "uint x < 2 ^ 31" using assms by (simp only: unat_eq_nat_uint nat_less_iff uint_ge_0) simp
  then have "signed_take_bit 31 (uint x) = uint x" by (intro signed_take_bit_int_eq_self) (auto intro: order_trans [OF _ uint_ge_0])
  then show ?thesis by (simp add: sint_uint)
qed

lemma sint_less_small: "unat (x :: u32) < 2 ^ 31 \<Longrightarrow> unat (y :: u32) < 2 ^ 31 \<Longrightarrow> sint x < sint y \<longleftrightarrow> unat x < unat y"
  by (simp only: sint_small of_nat_less_iff)

lemma sint_le_small: "unat (x :: u32) < 2 ^ 31 \<Longrightarrow> unat (y :: u32) < 2 ^ 31 \<Longrightarrow> sint x \<le> sint y \<longleftrightarrow> unat x \<le> unat y"
  by (simp only: sint_small of_nat_le_iff)

lemma unat_add_small: "unat (x :: u32) + unat y < 2 ^ 31 \<Longrightarrow> unat (x + y) = unat x + unat y"
  by (simp add: unat_word_ariths)

lemma unat_better_label:
  assumes "unat old < 2 ^ 31" "unat new < 2 ^ 31"
  shows "unat (better_label old new) = (if unat old = 0 then unat new else min (unat new) (unat old))"
  using sint_less_small [OF assms(2,1)] by (simp add: better_label_def unat_eq_0 min_def)

text \<open>
  The frontier of the search among \<open>N\<close> nodes: \<open>R p q\<close> says that the edge from \<open>p\<close> to \<open>q\<close> was looked
  at.  The candidates are the nodes not yet visited behind such edges, labelled with the cheapest way
  over them; the label 0 is kept for nodes that were not reached.
\<close>

definition label_ok :: "(nat \<Rightarrow> nat) \<Rightarrow> (nat \<Rightarrow> bool) \<Rightarrow> nat \<Rightarrow> bool" where
  "label_ok way reached t = (if \<exists>p. reached p
     then (\<exists>p. reached p \<and> t = way p) \<and> (\<forall>p. reached p \<longrightarrow> t \<le> way p) else t = 0)"

definition frontier :: "nat \<Rightarrow> (nat \<Rightarrow> bool) \<Rightarrow> (nat \<Rightarrow> nat) \<Rightarrow> (nat \<Rightarrow> nat) \<Rightarrow> (nat \<Rightarrow> nat \<Rightarrow> nat)
    \<Rightarrow> (nat \<Rightarrow> nat \<Rightarrow> bool) \<Rightarrow> nat list \<Rightarrow> bool" where
  "frontier N vis T D w R Q = ((\<forall>p q. R p q \<longrightarrow> 0 < w p q) \<and>
     set Q = {q. q < N \<and> \<not> vis q \<and> (\<exists>p. R p q)} \<and>
     (\<forall>q<N. \<not> vis q \<longrightarrow> label_ok (\<lambda>p. D p + w p q) (\<lambda>p. R p q) (T q)))"

lemma label_ok_relax:
  assumes ok: "label_ok way reached t" and pos: "\<And>p. reached p \<Longrightarrow> 0 < way p"
  shows "label_ok way (\<lambda>p. reached p \<or> p = v) (if t = 0 then way v else min (way v) t)"
proof (cases "\<exists>p. reached p")
  case False
  then show ?thesis using ok by (simp add: label_ok_def)
next
  case True
  then obtain p where p: "reached p" "t = way p" and least: "\<forall>p. reached p \<longrightarrow> t \<le> way p"
    using ok by (auto simp: label_ok_def)
  have "t \<noteq> 0" using p pos by auto
  moreover have "\<exists>x. (reached x \<or> x = v) \<and> min (way v) t = way x" using p by (auto simp: min_def)
  ultimately show ?thesis using least by (auto simp: label_ok_def min_le_iff_disj)
qed

lemma frontier_relax:
  assumes f: "frontier N vis T D w R Q" and q: "q < N" "\<not> vis q" "0 < w v q"
  shows "frontier N vis (T(q := if T q = 0 then D v + w v q else min (D v + w v q) (T q))) D w
     (\<lambda>p x. R p x \<or> p = v \<and> x = q) (if q \<in> set Q then Q else q # Q)"
proof -
  have "label_ok (\<lambda>p. D p + w p q) (\<lambda>p. R p q) (T q)" using f q by (simp add: frontier_def)
  then have "label_ok (\<lambda>p. D p + w p q) (\<lambda>p. R p q \<or> p = v) (if T q = 0 then D v + w v q else min (D v + w v q) (T q))"
    by (rule label_ok_relax) (use f in \<open>simp add: frontier_def\<close>)
  then show ?thesis using f q unfolding frontier_def by auto
qed

lemma frontier_skip:
  assumes "frontier N vis T D w R Q" "vis q" "0 < w v q"
  shows "frontier N vis T D w (\<lambda>p x. R p x \<or> p = v \<and> x = q) Q"
proof -
  have "(\<lambda>p. R p x \<or> p = v \<and> x = q) = (\<lambda>p. R p x)" if "\<not> vis x" for x using assms(2) that by auto
  then show ?thesis using assms unfolding frontier_def by auto
qed

lemma frontier_visit:
  "frontier N vis T D w R Q \<Longrightarrow> distinct Q \<Longrightarrow> frontier N (vis(v := True)) T D w R (remove1 v Q)"
  unfolding frontier_def by auto

lemma frontier_cong:
  assumes "frontier N vis T D w R Q" "\<And>p q. q < N \<Longrightarrow> R p q = R' p q" "\<And>p q. R' p q \<Longrightarrow> 0 < w p q"
  shows "frontier N vis T D w R' Q"
proof -
  have "(\<lambda>p. R p q) = (\<lambda>p. R' p q)" if "q < N" for q using assms(2) that by auto
  then show ?thesis using assms unfolding frontier_def by auto
qed

section \<open>The search finds the distances\<close>

text \<open>The part of the nodes the search does not change: numbers and peers.\<close>

definition graph :: "costs \<Rightarrow> nat list \<Rightarrow> nat list list \<Rightarrow> bool" where
  "graph cost is ps = (distinct is \<and> length ps = length is \<and> length is \<le> MAX_NODE_COUNT
     \<and> (\<forall>p<length is. distinct (ps ! p) \<and> length (ps ! p) < MAX_NODE_COUNT
          \<and> set (ps ! p) = {q. q < length is \<and> cost (is ! p) (is ! q) \<noteq> 0})
     \<and> (\<forall>i j. cost i j \<noteq> 0 \<longrightarrow> i \<in> set is \<and> j \<in> set is))"

definition has_graph :: "nat list \<Rightarrow> nat list list \<Rightarrow> node list \<Rightarrow> bool" where
  "has_graph is ps ns = (map node_id ns = is \<and> map peer_list ns = ps)"

lemma has_graph_update:
  assumes "has_graph is ps ns" "p < length ns" "node_id n = node_id (ns ! p)" "peer_list n = peer_list (ns ! p)"
  shows "has_graph is ps (ns[p := n])"
  using assms by (auto simp: has_graph_def map_update list_update_same_conv)

lemma has_graph_nth:
  assumes "has_graph is ps ns" "p < length is"
  shows "node_id (ns ! p) = is ! p" "peer_list (ns ! p) = ps ! p" "length ns = length is"
  using assms by (auto simp: has_graph_def)

definition vis_of :: "node list \<Rightarrow> nat \<Rightarrow> bool" where
  "vis_of ns p = visited (ns ! p)"

definition label_of :: "node list \<Rightarrow> nat \<Rightarrow> nat" where
  "label_of ns p = unat (temp_label (ns ! p))"

definition edge :: "costs \<Rightarrow> nat list \<Rightarrow> nat \<Rightarrow> nat \<Rightarrow> nat" where
  "edge cost is p q = unat (cost (is ! p) (is ! q))"

lemma relax_step_labels:
  assumes "q < length ns"
  shows "vis_of (ns[q := (ns ! q)\<lparr>temp_label := l\<rparr>]) = vis_of ns"
    and "label_of (ns[q := (ns ! q)\<lparr>temp_label := l\<rparr>]) = (label_of ns)(q := unat l)"
  using assms by (auto simp: vis_of_def label_of_def nth_list_update fun_eq_iff)

lemma frontier_label_small:
  assumes "frontier N vis T D w R Q" "q < N" "\<not> vis q" "\<And>p. R p q \<Longrightarrow> D p + w p q < 2 ^ 31"
  shows "T q < 2 ^ 31"
proof -
  have "label_ok (\<lambda>p. D p + w p q) (\<lambda>p. R p q) (T q)" using assms(1-3) by (simp add: frontier_def)
  then show ?thesis using assms(4) by (auto simp: label_ok_def split: if_splits)
qed

lemma frontier_size:
  assumes "frontier N vis T D w R Q" "distinct Q"
  shows "length Q + card {p. p < N \<and> vis p} \<le> N"
proof -
  have "length Q = card (set Q)" using distinct_card [OF assms(2)] by simp
  moreover have "set Q \<subseteq> {p. p < N \<and> \<not> vis p}" using assms(1) by (auto simp: frontier_def)
  then have "card (set Q) \<le> card {p. p < N \<and> \<not> vis p}" by (intro card_mono) auto
  moreover have "card {p. p < N \<and> \<not> vis p} + card {p. p < N \<and> vis p} = card ({p. p < N \<and> \<not> vis p} \<union> {p. p < N \<and> vis p})"
    by (intro card_Un_disjoint [symmetric]) auto
  moreover have "{p. p < N \<and> \<not> vis p} \<union> {p. p < N \<and> vis p} = {..<N}" by auto
  ultimately show ?thesis by simp
qed

text \<open>The state of the search after \<open>cur\<close> nodes: they have their distances, and these are bounded.\<close>

definition ucost :: "costs \<Rightarrow> nat \<Rightarrow> nat \<Rightarrow> nat" where
  "ucost cost i j = unat (cost i j)"

definition dist_of :: "costs \<Rightarrow> nat \<Rightarrow> nat list \<Rightarrow> nat \<Rightarrow> nat" where
  "dist_of cost src is p = dist (ucost cost) src (is ! p)"

definition looked_at :: "costs \<Rightarrow> nat list \<Rightarrow> (nat \<Rightarrow> bool) \<Rightarrow> nat \<Rightarrow> nat \<Rightarrow> bool" where
  "looked_at cost is vis p q = (p < length is \<and> q < length is \<and> vis p \<and> 0 < edge cost is p q)"

definition labelled :: "costs \<Rightarrow> nat \<Rightarrow> nat list \<Rightarrow> nat \<Rightarrow> nat \<Rightarrow> node list \<Rightarrow> bool" where
  "labelled cost src is C cur ns = ((\<forall>p<length is. vis_of ns p \<longrightarrow>
       unat (final_label (ns ! p)) = dist_of cost src is p \<and> connected (ucost cost) src (is ! p)
       \<and> dist_of cost src is p \<le> (cur - 1) * C)
     \<and> (\<exists>s<length is. is ! s = src \<and> vis_of ns s) \<and> card {p. p < length is \<and> vis_of ns p} = cur)"

abbreviation at_frontier :: "costs \<Rightarrow> nat \<Rightarrow> nat list \<Rightarrow> node list \<Rightarrow> nat list \<Rightarrow> bool" where
  "at_frontier cost src is ns Q \<equiv> frontier (length is) (vis_of ns) (label_of ns) (dist_of cost src is)
     (edge cost is) (looked_at cost is (vis_of ns)) Q"

definition seen :: "nat list \<Rightarrow> node list \<Rightarrow> nat set" where
  "seen is ns = (!) is ` {p. p < length is \<and> vis_of ns p}"

lemma card_seen: "distinct is \<Longrightarrow> card (seen is ns) = card {p. p < length is \<and> vis_of ns p}"
  unfolding seen_def by (intro card_image) (auto simp: inj_on_def nth_eq_iff_index_eq)

text \<open>An edge out of the visited nodes leads to a candidate.\<close>

lemma exit_candidate:
  assumes "graph cost is ps" "at_frontier cost src is ns Q" "x \<in> seen is ns" "y \<notin> seen is ns" "0 < ucost cost x y"
  shows "\<exists>p q. p < length is \<and> q \<in> set Q \<and> is ! p = x \<and> is ! q = y \<and> label_of ns q \<le> dist_of cost src is p + edge cost is p q"
proof -
  obtain p where p: "p < length is" "vis_of ns p" "is ! p = x" using assms(3) by (auto simp: seen_def)
  have "cost x y \<noteq> 0" using assms(5) by (auto simp: ucost_def)
  then have "y \<in> set is" using assms(1) by (auto simp: graph_def)
  then obtain q where q: "q < length is" "is ! q = y" by (auto simp: in_set_conv_nth)
  have "\<not> vis_of ns q" using assms(4) q by (auto simp: seen_def)
  moreover have look: "looked_at cost is (vis_of ns) p q" using p q assms(5) by (auto simp: looked_at_def edge_def ucost_def)
  ultimately have "q \<in> set Q" "label_ok (\<lambda>p. dist_of cost src is p + edge cost is p q) (\<lambda>p. looked_at cost is (vis_of ns) p q) (label_of ns q)"
    using assms(2) q(1) by (auto simp: frontier_def)
  then show ?thesis using p q look by (auto simp: label_ok_def split: if_splits)
qed

lemma candidate_left:
  assumes "graph cost is ps" "at_frontier cost src is ns Q" "labelled cost src is C cur ns"
    "cur < card {i. connected (ucost cost) src i}"
  shows "Q \<noteq> []"
proof -
  have src: "src \<in> seen is ns" using assms(3) by (auto simp: labelled_def seen_def)
  have "distinct is" using assms(1) by (simp add: graph_def)
  then have "card (seen is ns) = cur" using card_seen [of "is" ns] assms(3) by (simp add: labelled_def)
  moreover have "finite (seen is ns)" by (simp add: seen_def)
  ultimately have "\<not> {i. connected (ucost cost) src i} \<subseteq> seen is ns" 
    using assms(4) card_mono [of "seen is ns" "{i. connected (ucost cost) src i}"] by auto
  then obtain i where "connected (ucost cost) src i" "i \<notin> seen is ns" by auto
  from walk_leaves [OF dist_walk [OF this(1)] src this(2)] obtain x y where
    "x \<in> seen is ns" "y \<notin> seen is ns" "0 < ucost cost x y" by blast
  from exit_candidate [OF assms(1,2) this] show ?thesis by auto
qed

lemma least_candidate:
  assumes g: "graph cost is ps" and f: "at_frontier cost src is ns Q" and l: "labelled cost src is C cur ns"
    and v: "v \<in> set Q" "\<forall>q \<in> set Q. label_of ns v \<le> label_of ns q" and C: "\<forall>i j. ucost cost i j \<le> C" and cur: "0 < cur"
  shows "label_of ns v = dist_of cost src is v \<and> connected (ucost cost) src (is ! v) \<and> dist_of cost src is v \<le> cur * C"
proof -
  have vis: "v < length is" "\<not> vis_of ns v" using f v(1) by (auto simp: frontier_def)
  have "\<exists>p. looked_at cost is (vis_of ns) p v" using f v(1) by (auto simp: frontier_def)
  moreover have "label_ok (\<lambda>p. dist_of cost src is p + edge cost is p v) (\<lambda>p. looked_at cost is (vis_of ns) p v) (label_of ns v)"
    using f vis by (simp add: frontier_def)
  ultimately obtain p where p: "looked_at cost is (vis_of ns) p v" "label_of ns v = dist_of cost src is p + edge cost is p v"
    by (auto simp: label_ok_def split: if_splits)
  then have p': "p < length is" "vis_of ns p" "0 < ucost cost (is ! p) (is ! v)" "edge cost is p v = ucost cost (is ! p) (is ! v)"
    by (auto simp: looked_at_def edge_def ucost_def)
  have con: "connected (ucost cost) src (is ! p)" "dist_of cost src is p \<le> (cur - 1) * C" using l p' by (auto simp: labelled_def)
  have out: "is ! v \<notin> seen is ns" using g vis by (auto simp: seen_def graph_def nth_eq_iff_index_eq)
  have src: "src \<in> seen is ns" using l by (auto simp: labelled_def seen_def)
  have inn: "is ! p \<in> seen is ns" using p' by (auto simp: seen_def)
  have least: "dist (ucost cost) src (is ! p) + ucost cost (is ! p) (is ! v) \<le> dist (ucost cost) src x + ucost cost x y"
    if xy: "x \<in> seen is ns" "y \<notin> seen is ns" "0 < ucost cost x y" for x y
  proof -
    from exit_candidate [OF g f xy] obtain a b where
      ab: "b \<in> set Q" "is ! a = x" "is ! b = y" "label_of ns b \<le> dist_of cost src is a + edge cost is a b" by blast
    have "label_of ns v \<le> label_of ns b" using v(2) ab(1) by blast
    then show ?thesis using p(2) p'(4) ab by (simp add: dist_of_def edge_def ucost_def)
  qed
  have "dist (ucost cost) src (is ! v) = dist (ucost cost) src (is ! p) + ucost cost (is ! p) (is ! v)"
    by (rule cheapest_exit [OF src out inn con(1) p'(3)]) (rule least)
  then have "label_of ns v = dist_of cost src is v" using p(2) p'(4) by (simp add: dist_of_def)
  moreover have "dist_of cost src is v \<le> cur * C"
  proof -
    have "dist_of cost src is v \<le> (cur - 1) * C + C" using calculation p(2) p'(4) con(2) C by (metis add_mono)
    also have "\<dots> = cur * C" using cur by (cases cur) auto
    finally show ?thesis .
  qed
  ultimately show ?thesis using connected_edge [of "ucost cost", OF con(1) p'(3)] by simp
qed

lemma ways_small:
  assumes "labelled cost src is C cur ns" "\<forall>i j. ucost cost i j \<le> C" "cur \<le> n" "n * C < 2 ^ 31" "0 < cur"
    "looked_at cost is (vis_of ns) p q"
  shows "dist_of cost src is p + edge cost is p q < 2 ^ 31"
proof -
  have "dist_of cost src is p \<le> (cur - 1) * C" using assms(1,6) by (auto simp: labelled_def looked_at_def)
  moreover have "edge cost is p q \<le> C" using assms(2) by (simp add: edge_def ucost_def)
  ultimately have "dist_of cost src is p + edge cost is p q \<le> (cur - 1) * C + C" by simp
  also have "\<dots> = cur * C" using assms(5) by (cases cur) auto
  also have "\<dots> \<le> n * C" using assms(3) by simp
  finally show ?thesis using assms(4) by simp
qed

definition visit :: "int \<Rightarrow> nat \<Rightarrow> node list \<Rightarrow> node list" where
  "visit k v ns = ns[v := (ns ! v)\<lparr>final_label := temp_label (ns ! v), order_id := k, visited := True\<rparr>]"

lemma visit_labels:
  assumes "v < length ns"
  shows "vis_of (visit k v ns) = (vis_of ns)(v := True)" "label_of (visit k v ns) = label_of ns"
    "final_label (visit k v ns ! p) = (if p = v then temp_label (ns ! v) else final_label (ns ! p))"
  using assms by (auto simp: visit_def vis_of_def label_of_def nth_list_update fun_eq_iff)

lemma labelled_visit:
  assumes "labelled cost src is C cur ns" "v < length is" "length ns = length is" "\<not> vis_of ns v"
    "label_of ns v = dist_of cost src is v" "connected (ucost cost) src (is ! v)" "dist_of cost src is v \<le> cur * C"
  shows "labelled cost src is C (Suc cur) (visit k v ns)"
proof -
  have v: "v < length ns" using assms(2,3) by simp
  have "{p. p < length is \<and> vis_of (visit k v ns) p} = insert v {p. p < length is \<and> vis_of ns p}"
    using assms(2) by (auto simp: visit_labels [OF v])
  then have "card {p. p < length is \<and> vis_of (visit k v ns) p} = Suc cur"
    using assms(1,4) by (simp add: labelled_def)
  moreover have "unat (final_label (visit k v ns ! p)) = dist_of cost src is p \<and> connected (ucost cost) src (is ! p)
      \<and> dist_of cost src is p \<le> cur * C" if p: "p < length is" "vis_of (visit k v ns) p" for p
  proof (cases "p = v")
    case True
    then show ?thesis using assms(5-7) by (simp add: visit_labels [OF v] label_of_def)
  next
    case False
    then have "vis_of ns p" using p(2) by (simp add: visit_labels [OF v])
    then have "unat (final_label (ns ! p)) = dist_of cost src is p" "connected (ucost cost) src (is ! p)"
      "dist_of cost src is p \<le> (cur - 1) * C" using assms(1) p(1) by (auto simp: labelled_def)
    moreover from this(3) have "dist_of cost src is p \<le> cur * C" by (rule order_trans) simp
    ultimately show ?thesis using False by (simp add: visit_labels [OF v])
  qed
  moreover have "\<exists>s<length is. is ! s = src \<and> vis_of (visit k v ns) s"
    using assms(1) by (auto simp: labelled_def visit_labels [OF v])
  ultimately show ?thesis by (simp add: labelled_def)
qed

text \<open>The end of the path is remembered when its node is visited.\<close>

definition end_known :: "nat \<Rightarrow> nat list \<Rightarrow> int \<Rightarrow> node list \<Rightarrow> nat option \<Rightarrow> bool" where
  "end_known src is dst ns en = (\<forall>p. en = Some p \<longleftrightarrow> p < length is \<and> vis_of ns p \<and> is ! p \<noteq> src \<and> int (is ! p) = dst)"

lemma end_known_visit:
  assumes "end_known src is dst ns en" "v < length is" "distinct is" "vis_of ns' = (vis_of ns)(v := True)" "is ! v \<noteq> src"
  shows "end_known src is dst ns' (if int (is ! v) = dst then Some v else en)"
proof (cases "int (is ! v) = dst")
  case True
  have "(Some v = Some p) = (p < length is \<and> ((vis_of ns)(v := True)) p \<and> is ! p \<noteq> src \<and> int (is ! p) = dst)" for p
  proof (cases "p = v")
    case False
    then show ?thesis using True assms(2,3) nth_eq_iff_index_eq [of "is" p v] by auto
  qed (use True assms(2,5) in simp)
  then show ?thesis using True unfolding end_known_def assms(4) by simp
next
  case False
  have "(en = Some p) = (p < length is \<and> ((vis_of ns)(v := True)) p \<and> is ! p \<noteq> src \<and> int (is ! p) = dst)" for p
    using assms(1) False unfolding end_known_def by (cases "p = v") simp_all
  then show ?thesis using False unfolding end_known_def assms(4) by simp
qed

text \<open>While a peer is new, the loop before the search does what the loop of the search does.\<close>

lemma first_peers_relax:
  assumes "s < length ns" "s \<notin> set qs" "distinct qs"
    "\<forall>q \<in> set qs. q < length ns \<and> \<not> visited (ns ! q) \<and> temp_label (ns ! q) = 0"
  shows "first_peers ins cost s qs (ns, h) = relax_peers ins cost s qs (ns, h)"
  using assms
proof (induction qs arbitrary: ns h)
  case (Cons q qs)
  let ?ns = "\<lambda>t. ns[q := (ns ! q)\<lparr>temp_label := t\<rparr>]"
  have "first_peers ins cost s qs (?ns t, h') = relax_peers ins cost s qs (?ns t, h')" for t h'
    by (rule Cons.IH) (use Cons.prems in \<open>auto simp: nth_list_update\<close>)
  then show ?case using Cons.prems by (simp add: node_at_def better_label_def Let_def)
qed simp

definition start_at :: "nat \<Rightarrow> node list \<Rightarrow> node list" where
  "start_at s ns = ns[s := (ns ! s)\<lparr>final_label := 0, visited := True, order_id := 1\<rparr>]"

lemma start_at_nth:
  assumes "s < length ns" "\<forall>n \<in> set ns. unlabelled n" "p < length ns"
  shows "vis_of (start_at s ns) p = (p = s)" "temp_label (start_at s ns ! p) = 0" "final_label (start_at s ns ! p) = 0"
  using assms nth_mem [OF assms(3)] by (auto simp: start_at_def vis_of_def nth_list_update unlabelled_def)

lemma frontier_start:
  assumes "s < length ns" "\<forall>n \<in> set ns. unlabelled n"
  shows "frontier (length ns) (vis_of (start_at s ns)) (label_of (start_at s ns)) D w (\<lambda>_ _. False) []"
  by (simp add: frontier_def label_ok_def label_of_def start_at_nth [OF assms])

lemma labelled_start:
  assumes "s < length ns" "\<forall>n \<in> set ns. unlabelled n" "length is = length ns" "is ! s = src"
  shows "labelled cost src is C 1 (start_at s ns)"
proof -
  have "{p. p < length is \<and> vis_of (start_at s ns) p} = {s}" using assms start_at_nth(1) [OF assms(1,2)] by auto
  then show ?thesis using assms start_at_nth [OF assms(1,2)] by (auto simp: labelled_def dist_of_def)
qed

lemma connected_nodes:
  assumes "graph cost is ps" "connected (ucost cost) src i" "i \<noteq> src"
  shows "i \<in> set is"
proof -
  obtain u where "0 < ucost cost u i" using dist_pred [OF assms(2,3)] by blast
  then have "cost u i \<noteq> 0" by (auto simp: ucost_def)
  then show ?thesis using assms(1) by (auto simp: graph_def)
qed

lemma some_connected:
  assumes "graph cost is ps"
  shows "finite {i. connected (ucost cost) src i}" "1 \<le> card {i. connected (ucost cost) src i}"
proof -
  have "{i. connected (ucost cost) src i} \<subseteq> insert src (set is)" using connected_nodes [OF assms] by blast
  then show fin: "finite {i. connected (ucost cost) src i}" by (rule finite_subset) simp
  have "{i. connected (ucost cost) src i} \<noteq> {}" using connected_start by blast
  then show "1 \<le> card {i. connected (ucost cost) src i}" using fin by (simp add: card_gt_0_iff Suc_le_eq)
qed

lemma graph_peers:
  assumes "graph cost is ps" "p < length is"
  shows "set (ps ! p) = {q. q < length is \<and> 0 < edge cost is p q}" "length (ps ! p) < MAX_NODE_COUNT" "distinct (ps ! p)"
  using assms by (auto simp: graph_def edge_def unat_gt_0)

context candidate_list
begin

lemma relax_peers_frontier:
  assumes "frontier (length is) (vis_of ns) (label_of ns) D (edge cost is) R Q" "contents h Q E"
    "has_graph is ps ns" "v < length is" "vis_of ns v" "unat (final_label (ns ! v)) = D v"
    "\<forall>q \<in> set qs. q < length is \<and> 0 < edge cost is v q \<and> D v + edge cost is v q < 2 ^ 31"
    "\<forall>p q. R p q \<longrightarrow> D p + edge cost is p q < 2 ^ 31"
    "length is < slots h + length Q + card {p. p < length is \<and> vis_of ns p}"
  shows "\<exists>ns' h' Q'. relax_peers ins cost v qs (ns, h) = Some (ns', h')
     \<and> frontier (length is) (vis_of ns') (label_of ns') D (edge cost is) (\<lambda>p x. R p x \<or> p = v \<and> x \<in> set qs) Q'
     \<and> contents h' Q' E \<and> has_graph is ps ns' \<and> vis_of ns' = vis_of ns
     \<and> (\<forall>p. final_label (ns' ! p) = final_label (ns ! p))
     \<and> length is < slots h' + length Q' + card {p. p < length is \<and> vis_of ns' p}"
  using assms
proof (induction qs arbitrary: ns h Q R)
  case Nil
  then show ?case by (intro exI [of _ ns] exI [of _ h] exI [of _ Q]) simp
next
  case (Cons q qs)
  have q: "q < length is" "0 < edge cost is v q" "D v + edge cost is v q < 2 ^ 31" using Cons.prems(7) by auto
  note nth = has_graph_nth [OF Cons.prems(3)]
  have at: "node_at ns v = Some (ns ! v)" "node_at ns q = Some (ns ! q)"
    using nth(3) [OF q(1)] q(1) Cons.prems(4) by (auto simp: node_at_def)
  let ?R = "\<lambda>p x. R p x \<or> p = v \<and> x = q"
  have R: "(\<lambda>p x. ?R p x \<or> p = v \<and> x \<in> set qs) = (\<lambda>p x. R p x \<or> p = v \<and> x \<in> set (q # qs))" by auto
  show ?case
  proof (cases "vis_of ns q")
    case True
    have "frontier (length is) (vis_of ns) (label_of ns) D (edge cost is) ?R Q"
      by (rule frontier_skip [OF Cons.prems(1) True q(2)])
    from Cons.IH [OF this Cons.prems(2-6)] Cons.prems(7,8,9) have "\<exists>ns' h' Q'. relax_peers ins cost v qs (ns, h) = Some (ns', h')
      \<and> frontier (length is) (vis_of ns') (label_of ns') D (edge cost is) (\<lambda>p x. ?R p x \<or> p = v \<and> x \<in> set qs) Q'
      \<and> contents h' Q' E \<and> has_graph is ps ns' \<and> vis_of ns' = vis_of ns
      \<and> (\<forall>p. final_label (ns' ! p) = final_label (ns ! p))
      \<and> length is < slots h' + length Q' + card {p. p < length is \<and> vis_of ns' p}" by auto
    moreover have "visited (ns ! q)" using True by (simp add: vis_of_def)
    ultimately show ?thesis using at unfolding R by simp
  next
    case False
    define t where "t = final_label (ns ! v) + cost (node_id (ns ! v)) (node_id (ns ! q))"
    define ns1 where "ns1 = ns[q := (ns ! q)\<lparr>temp_label := better_label (temp_label (ns ! q)) t\<rparr>]"
    have "cost (node_id (ns ! v)) (node_id (ns ! q)) = cost (is ! v) (is ! q)"
      using nth(1) [OF q(1)] nth(1) [OF Cons.prems(4)] by simp
    then have t: "unat t = D v + edge cost is v q"
      using Cons.prems(6) q(3) by (simp add: t_def edge_def unat_add_small)
    have old: "label_of ns q < 2 ^ 31"
      by (rule frontier_label_small [OF Cons.prems(1) q(1) False]) (use Cons.prems(8) in auto)
    have len: "q < length ns" using nth(3) [OF q(1)] q(1) by simp
    have "unat (better_label (temp_label (ns ! q)) t)
        = (if label_of ns q = 0 then D v + edge cost is v q else min (D v + edge cost is v q) (label_of ns q))"
      using unat_better_label [of "temp_label (ns ! q)" t] old q(3) by (simp add: label_of_def t)
    then have f1: "frontier (length is) (vis_of ns1) (label_of ns1) D (edge cost is) ?R (if q \<in> set Q then Q else q # Q)"
      using frontier_relax [OF Cons.prems(1) q(1) False q(2)] by (simp add: ns1_def relax_step_labels [OF len])
    have "length Q + card {p. p < length is \<and> vis_of ns p} \<le> length is"
      by (rule frontier_size [OF Cons.prems(1) distinct_contents [OF Cons.prems(2)]])
    then have "0 < slots h" using Cons.prems(9) by simp
    from ins_law [OF Cons.prems(2) this, of q] obtain h1 where h1: "ins h q = Some h1"
      "contents h1 (if q \<in> set Q then Q else q # Q) E" "slots h1 = (if q \<in> set Q then slots h else slots h - 1)" by blast
    have v1: "vis_of ns1 = vis_of ns" by (simp add: ns1_def relax_step_labels [OF len])
    have fin: "final_label (ns1 ! p) = final_label (ns ! p)" for p
      using len by (cases "p = q") (auto simp: ns1_def)
    have g1: "has_graph is ps ns1" unfolding ns1_def by (rule has_graph_update [OF Cons.prems(3) len]) simp_all
    have s1: "length is < slots h1 + length (if q \<in> set Q then Q else q # Q) + card {p. p < length is \<and> vis_of ns1 p}"
      using Cons.prems(9) h1(3) \<open>0 < slots h\<close> v1 by auto
    have "\<exists>ns' h' Q'. relax_peers ins cost v qs (ns1, h1) = Some (ns', h')
      \<and> frontier (length is) (vis_of ns') (label_of ns') D (edge cost is) (\<lambda>p x. ?R p x \<or> p = v \<and> x \<in> set qs) Q'
      \<and> contents h' Q' E \<and> has_graph is ps ns' \<and> vis_of ns' = vis_of ns1
      \<and> (\<forall>p. final_label (ns' ! p) = final_label (ns1 ! p))
      \<and> length is < slots h' + length Q' + card {p. p < length is \<and> vis_of ns' p}"
      by (rule Cons.IH [OF f1 h1(2) g1 Cons.prems(4)]) (use Cons.prems(5-8) q(3) s1 v1 fin in auto)
    then obtain ns' h' Q' where "relax_peers ins cost v qs (ns1, h1) = Some (ns', h')"
      and rest: "frontier (length is) (vis_of ns') (label_of ns') D (edge cost is) (\<lambda>p x. ?R p x \<or> p = v \<and> x \<in> set qs) Q'"
        "contents h' Q' E" "has_graph is ps ns'" "vis_of ns' = vis_of ns" "\<forall>p. final_label (ns' ! p) = final_label (ns ! p)"
        "length is < slots h' + length Q' + card {p. p < length is \<and> vis_of ns' p}"
      using v1 fin by auto
    moreover from this have "relax_peers ins cost v (q # qs) (ns, h) = Some (ns', h')"
      using at h1(1) False by (simp add: vis_of_def Let_def t_def [symmetric] ns1_def [symmetric])
    ultimately show ?thesis unfolding R by blast
  qed
qed

lemma search_step:
  assumes g: "graph cost is ps" and hg: "has_graph is ps ns" and f: "at_frontier cost src is ns Q"
    and l: "labelled cost src is C cur ns" and c: "contents h Q {}" and sl: "length is < slots h + length Q + cur"
    and C: "\<forall>i j. ucost cost i j \<le> C" and n: "n = card {i. connected (ucost cost) src i}" "n * C < 2 ^ 31"
    and cur: "0 < cur" "cur < n" "int cur < nc"
  shows "\<exists>v ns' h' Q'. search_loop ins pop datum release cost dst nc (int cur) en (ns, h)
        = search_loop ins pop datum release cost dst nc (int (Suc cur)) (if int (is ! v) = dst then Some v else en) (ns', h')
     \<and> v < length is \<and> \<not> vis_of ns v \<and> vis_of ns' = (vis_of ns)(v := True) \<and> has_graph is ps ns'
     \<and> at_frontier cost src is ns' Q' \<and> labelled cost src is C (Suc cur) ns' \<and> contents h' Q' {}
     \<and> length is < slots h' + length Q' + Suc cur"
proof -
  let ?D = "dist_of cost src is" and ?e = "edge cost is" and ?R = "looked_at cost is (vis_of ns)"
  have dQ: "distinct Q" by (rule distinct_contents [OF c])
  have len: "length ns = length is" using hg by (auto simp: has_graph_def)
  have Qin: "q < length is \<and> \<not> vis_of ns q" if "q \<in> set Q" for q using f that by (auto simp: frontier_def)
  have small: "?R p q \<Longrightarrow> ?D p + ?e p q < 2 ^ 31" for p q by (rule ways_small [OF l C _ n(2) cur(1)]) (use cur in auto)
  have lab: "\<forall>k \<in> set Q. map_option temp_label (node_at ns k) = Some (temp_label (ns ! k))"
    using Qin len by (simp add: node_at_def)
  have "Q \<noteq> []" using candidate_left [OF g f l] cur(2) n(1) by simp
  from pop_min [OF c this lab] obtain r h1 v where
    pop: "pop (\<lambda>k. map_option temp_label (node_at ns k)) h = Some (r, h1)" "datum h1 r = Some v" "v \<in> set Q"
      "\<forall>k \<in> set Q. sint (temp_label (ns ! v)) \<le> sint (temp_label (ns ! k))"
      "contents h1 (remove1 v Q) {r}" "slots h1 = slots h" by blast
  have v: "v < length is" "\<not> vis_of ns v" using Qin [OF pop(3)] by auto
  have lsmall: "label_of ns q < 2 ^ 31" if "q \<in> set Q" for q
    using frontier_label_small [OF f, of q] Qin [OF that] small by blast
  have least: "\<forall>q \<in> set Q. label_of ns v \<le> label_of ns q"
    using pop(3,4) lsmall sint_le_small unfolding label_of_def by blast
  note dv = least_candidate [OF g f l pop(3) least C cur(1)]
  define ns1 where "ns1 = visit (int cur + 1) v ns"
  have ns1: "visit (1 + int cur) v ns = ns1" by (simp add: ns1_def add.commute)
  have vlen: "v < length ns" using v(1) len by simp
  note vl = visit_labels [OF vlen, of "int cur + 1", folded ns1_def]
  have hg1: "has_graph is ps ns1" unfolding ns1_def visit_def by (rule has_graph_update [OF hg vlen]) simp_all
  have l1: "labelled cost src is C (Suc cur) ns1"
    unfolding ns1_def by (rule labelled_visit [OF l v(1) len v(2)]) (use dv in auto)
  have f1: "frontier (length is) (vis_of ns1) (label_of ns1) ?D ?e ?R (remove1 v Q)"
    using frontier_visit [OF f dQ] vl by simp
  have peers: "peer_list (ns ! v) = ps ! v" "set (ps ! v) = {q. q < length is \<and> 0 < ?e v q}" "length (ps ! v) < MAX_NODE_COUNT"
    using has_graph_nth(2) [OF hg v(1)] graph_peers [OF g v(1)] by simp_all
  have "?D v + ?e v q < 2 ^ 31" if "0 < ?e v q" "q < length is" for q
    by (rule ways_small [OF l1 C _ n(2)]) (use cur v vl that in \<open>auto simp: looked_at_def\<close>)
  then have pre: "\<forall>q \<in> set (ps ! v). q < length is \<and> 0 < ?e v q \<and> ?D v + ?e v q < 2 ^ 31" using peers(2) by auto
  have card1: "card {p. p < length is \<and> vis_of ns1 p} = Suc cur" using l1 by (simp add: labelled_def)
  have s1: "length is < slots h1 + length (remove1 v Q) + card {p. p < length is \<and> vis_of ns1 p}"
    using sl pop(3,6) unfolding card1 by (simp add: length_remove1)
  have fv: "unat (final_label (ns1 ! v)) = ?D v" "vis_of ns1 v" using vl dv by (auto simp: label_of_def)
  from relax_peers_frontier [OF f1 pop(5) hg1 v(1) fv(2,1) pre _ s1] small obtain ns' h2 Q' where
    rel: "relax_peers ins cost v (ps ! v) (ns1, h1) = Some (ns', h2)"
      "frontier (length is) (vis_of ns') (label_of ns') ?D ?e (\<lambda>p x. ?R p x \<or> p = v \<and> x \<in> set (ps ! v)) Q'"
      "contents h2 Q' {r}" "has_graph is ps ns'" "vis_of ns' = vis_of ns1" "\<forall>p. final_label (ns' ! p) = final_label (ns1 ! p)"
      "length is < slots h2 + length Q' + card {p. p < length is \<and> vis_of ns' p}" by blast
  obtain h3 where h3: "release r h2 = Some h3" "contents h3 Q' {}" "slots h3 = slots h2"
    using release_law [OF rel(3), of r] by auto
  have "at_frontier cost src is ns' Q'"
    by (rule frontier_cong [OF rel(2)]) (use peers(2) v(1) rel(5) vl in \<open>auto simp: looked_at_def\<close>)
  moreover have "labelled cost src is C (Suc cur) ns'" using l1 rel(5,6) by (simp add: labelled_def)
  moreover have "search_loop ins pop datum release cost dst nc (int cur) en (ns, h)
      = search_loop ins pop datum release cost dst nc (int (Suc cur)) (if int (is ! v) = dst then Some v else en) (ns', h3)"
    using cur(3) pop(1,2) vlen rel(1) h3(1) peers has_graph_nth(1) [OF hg v(1)]
    by (subst search_loop.simps) (simp add: node_at_def Let_def peers_end_def visit_def [symmetric] ns1 add.commute)
  ultimately show ?thesis using v rel(4,5,7) vl(1) h3 card1
    by (intro exI [of _ v] exI [of _ ns'] exI [of _ h3] exI [of _ Q']) simp
qed

lemma search_loop_labels:
  assumes g: "graph cost is ps" and C: "\<forall>i j. ucost cost i j \<le> C"
    and n: "n = card {i. connected (ucost cost) src i}" "n * C < 2 ^ 31"
    and st: "has_graph is ps ns" "at_frontier cost src is ns Q" "labelled cost src is C cur ns" "contents h Q {}"
      "length is < slots h + length Q + cur" "0 < cur" "cur \<le> n" "end_known src is dst ns en"
  shows "\<exists>en' ns'. search_loop ins pop datum release cost dst (int n) (int cur) en (ns, h) = Some (en', ns')
     \<and> has_graph is ps ns' \<and> labelled cost src is C n ns' \<and> end_known src is dst ns' en'"
  using st
proof (induction "n - cur" arbitrary: cur ns Q h en)
  case 0
  then show ?case by (subst search_loop.simps) simp
next
  case (Suc k)
  then have "cur < n" by simp
  then obtain v ns' h' Q' where step: "search_loop ins pop datum release cost dst (int n) (int cur) en (ns, h)
        = search_loop ins pop datum release cost dst (int n) (int (Suc cur)) (if int (is ! v) = dst then Some v else en) (ns', h')"
     "v < length is" "vis_of ns' = (vis_of ns)(v := True)" "has_graph is ps ns'"
     "at_frontier cost src is ns' Q'" "labelled cost src is C (Suc cur) ns'" "contents h' Q' {}"
     "length is < slots h' + length Q' + Suc cur" "\<not> vis_of ns v"
    using search_step [OF g Suc.prems(1-5) C n Suc.prems(6) \<open>cur < n\<close>, of "int n" dst en] by auto
  have "distinct is" using g by (simp add: graph_def)
  moreover have "is ! v \<noteq> src"
    using Suc.prems(3) step(2,9) \<open>distinct is\<close> by (auto simp: labelled_def nth_eq_iff_index_eq)
  ultimately have "end_known src is dst ns' (if int (is ! v) = dst then Some v else en)"
    by (intro end_known_visit [OF Suc.prems(8) step(2) _ step(3)])
  from Suc.hyps(1) [OF _ step(4-8) _ _ this] Suc.hyps(2) \<open>cur < n\<close> show ?case unfolding step(1) by simp
qed

lemma dijkstra_call_labels:
  assumes g: "graph cost is ps" and C: "\<forall>i j. ucost cost i j \<le> C"
    and n: "n = card {i. connected (ucost cost) src i}" "n * C < 2 ^ 31"
    and hg: "has_graph is ps ns" and un: "\<forall>m \<in> set ns. unlabelled m"
    and s: "s < length is" "is ! s = src" and loop: "cost src src = 0"
    and c: "contents h [] {}" "length is \<le> slots h"
  shows "\<exists>en ns'. dijkstra_call ins pop datum release cost dst (int n) (Some s) (ns, h) = Some (en, ns')
     \<and> has_graph is ps ns' \<and> labelled cost src is C n ns' \<and> end_known src is dst ns' en"
proof -
  let ?D = "dist_of cost src is" and ?e = "edge cost is"
  define ns1 where "ns1 = start_at s ns"
  have len: "length ns = length is" using hg by (auto simp: has_graph_def)
  have sl: "s < length ns" using s len by simp
  note at = start_at_nth [OF sl un, folded ns1_def]
  have len1: "length ns1 = length ns" by (simp add: ns1_def start_at_def)
  have hg1: "has_graph is ps ns1" unfolding ns1_def start_at_def by (rule has_graph_update [OF hg sl]) simp_all
  have f1: "frontier (length is) (vis_of ns1) (label_of ns1) ?D ?e (\<lambda>_ _. False) []"
    using frontier_start [OF sl un] len by (simp add: ns1_def)
  have l1: "labelled cost src is C 1 ns1" unfolding ns1_def by (rule labelled_start [OF sl un]) (use len s in auto)
  have peers: "peer_list (ns ! s) = ps ! s" "set (ps ! s) = {q. q < length is \<and> 0 < ?e s q}" "length (ps ! s) < MAX_NODE_COUNT" "distinct (ps ! s)"
    using has_graph_nth(2) [OF hg s(1)] graph_peers [OF g s(1)] by simp_all
  have not_s: "s \<notin> set (ps ! s)" using peers(2) loop s(2) by (simp add: edge_def)
  have vs: "vis_of ns1 s" "unat (final_label (ns1 ! s)) = ?D s" using at sl s(2) by (auto simp: dist_of_def)
  have n1: "1 \<le> n" unfolding n(1) by (rule some_connected(2) [OF g])
  have way: "?D s + ?e s q < 2 ^ 31" if "0 < ?e s q" "q < length is" for q
    by (rule ways_small [OF l1 C n1 n(2)]) (use vs s that in \<open>auto simp: looked_at_def\<close>)
  have card1: "card {p. p < length is \<and> vis_of ns1 p} = 1" using l1 by (simp add: labelled_def)
  have "length is < slots h + length ([] :: nat list) + card {p. p < length is \<and> vis_of ns1 p}" using c(2) unfolding card1 by simp
  moreover have "\<forall>q \<in> set (ps ! s). q < length is \<and> 0 < ?e s q \<and> ?D s + ?e s q < 2 ^ 31" using way peers(2) by blast
  ultimately obtain ns2 h2 Q where
    rel: "relax_peers ins cost s (ps ! s) (ns1, h) = Some (ns2, h2)"
      "frontier (length is) (vis_of ns2) (label_of ns2) ?D ?e (\<lambda>p x. False \<or> p = s \<and> x \<in> set (ps ! s)) Q"
      "contents h2 Q {}" "has_graph is ps ns2" "vis_of ns2 = vis_of ns1" "\<forall>p. final_label (ns2 ! p) = final_label (ns1 ! p)"
      "length is < slots h2 + length Q + card {p. p < length is \<and> vis_of ns2 p}"
    using relax_peers_frontier [OF f1 c(1) hg1 s(1) vs, where qs = "ps ! s"] by blast
  have first: "first_peers ins cost s (ps ! s) (ns1, h) = Some (ns2, h2)"
  proof -
    have "\<not> visited (ns1 ! q) \<and> temp_label (ns1 ! q) = 0 \<and> q < length ns1" if "q \<in> set (ps ! s)" for q
    proof -
      have "q < length is" using that unfolding peers(2) by blast
      then have "q < length ns" unfolding len .
      moreover have "q \<noteq> s" using that not_s by blast
      ultimately have "q < length ns" "q \<noteq> s" .
      then show ?thesis using at(1,2) [of q] len1 by (simp add: vis_of_def)
    qed
    then show ?thesis using first_peers_relax [of s ns1 "ps ! s" ins cost h] not_s peers(4) sl len1 rel(1) by simp
  qed
  have f2: "at_frontier cost src is ns2 Q"
    by (rule frontier_cong [OF rel(2)]) (use peers(2) s(1) at(1) len rel(5) in \<open>auto simp: looked_at_def\<close>)
  have l2: "labelled cost src is C 1 ns2" using l1 rel(5,6) by (simp add: labelled_def)
  have e2: "end_known src is dst ns2 None" using at(1) len rel(5) s(2) by (force simp: end_known_def)
  have sl2: "length is < slots h2 + length Q + 1" using rel(7) rel(5) card1 by simp
  obtain en ns' where "search_loop ins pop datum release cost dst (int n) (int 1) None (ns2, h2) = Some (en, ns')"
     "has_graph is ps ns'" "labelled cost src is C n ns'" "end_known src is dst ns' en"
    using search_loop_labels [OF g C n rel(4) f2 l2 rel(3) sl2 _ n1 e2] by auto
  then show ?thesis using sl first peers(1,3)
    by (simp add: dijkstra_call_def node_at_def Let_def peers_end_def start_at_def [symmetric] ns1_def [symmetric])
qed

end

section \<open>The path read off the labels\<close>

lemma find_step_run:
  assumes "\<forall>q \<in> set qs. q < length ns" "q0 \<in> set qs"
    "final_label (ns ! q0) = final_label e - cost (node_id e) (node_id (ns ! q0))"
  shows "\<exists>q \<in> set qs. find_step cost ns e qs = Some (Some q)
     \<and> final_label (ns ! q) = final_label e - cost (node_id e) (node_id (ns ! q))"
  using assms by (induction qs) (auto simp: node_at_def)

text \<open>When the search is over, every node that can be reached has been visited.\<close>

lemma all_seen:
  assumes g: "graph cost is ps" and l: "labelled cost src is C n ns" and n: "n = card {i. connected (ucost cost) src i}"
    and p: "p < length is" "connected (ucost cost) src (is ! p)"
  shows "vis_of ns p"
proof -
  have "seen is ns \<subseteq> {i. connected (ucost cost) src i}" using l by (auto simp: seen_def labelled_def)
  moreover have "card (seen is ns) = n" using g l card_seen [of "is" ns] by (simp add: graph_def labelled_def)
  ultimately have "seen is ns = {i. connected (ucost cost) src i}"
    using some_connected(1) [OF g] n by (intro card_subset_eq) auto
  then have "is ! p \<in> seen is ns" using p(2) by simp
  then obtain q where "q < length is" "vis_of ns q" "is ! q = is ! p" by (auto simp: seen_def)
  then show ?thesis using g p(1) by (auto simp: graph_def nth_eq_iff_index_eq)
qed

text \<open>What is known when the search is over.\<close>

definition searched :: "costs \<Rightarrow> nat \<Rightarrow> nat list \<Rightarrow> nat list list \<Rightarrow> nat \<Rightarrow> node list \<Rightarrow> bool" where
  "searched cost src is ps C ns = (graph cost is ps \<and> has_graph is ps ns
     \<and> labelled cost src is C (card {i. connected (ucost cost) src i}) ns
     \<and> (\<forall>i j. cost i j = cost j i) \<and> (\<forall>i j. ucost cost i j \<le> C)
     \<and> card {i. connected (ucost cost) src i} * C < 2 ^ 31)"

lemma searched_label:
  assumes "searched cost src is ps C ns" "p < length is" "connected (ucost cost) src (is ! p)"
  shows "unat (final_label (ns ! p)) = dist (ucost cost) src (is ! p)"
  using assms all_seen [of cost "is" ps src C _ ns p] by (auto simp: searched_def labelled_def dist_of_def)

lemma searched_way:
  assumes st: "searched cost src is ps C ns" and p: "p < length is" "connected (ucost cost) src (is ! p)" "0 < edge cost is p q" "q < length is"
  shows "dist (ucost cost) src (is ! p) + edge cost is p q < 2 ^ 31"
proof -
  let ?n = "card {i. connected (ucost cost) src i}"
  have l: "graph cost is ps" "labelled cost src is C ?n ns" "\<forall>i j. ucost cost i j \<le> C" "?n * C < 2 ^ 31"
    using st by (auto simp: searched_def)
  have "vis_of ns p" by (rule all_seen [OF l(1,2) refl p(1,2)])
  then have "looked_at cost is (vis_of ns) p q" using p by (simp add: looked_at_def)
  from ways_small [OF l(2,3) order_refl l(4) _ this] some_connected(2) [OF l(1), of src] show ?thesis by (simp add: dist_of_def)
qed

lemma step_back_iff:
  assumes st: "searched cost src is ps C ns" and e: "e < length is" "connected (ucost cost) src (is ! e)"
    and q: "q < length is" "0 < edge cost is e q"
  shows "final_label (ns ! q) = final_label (ns ! e) - cost (is ! e) (is ! q)
     \<longleftrightarrow> dist (ucost cost) src (is ! q) + ucost cost (is ! q) (is ! e) = dist (ucost cost) src (is ! e)"
proof -
  have sym: "cost (is ! e) (is ! q) = cost (is ! q) (is ! e)" using st by (auto simp: searched_def)
  then have eq: "0 < edge cost is q e" using q(2) by (simp add: edge_def)
  have con: "connected (ucost cost) src (is ! q)" by (rule connected_edge [OF e(2)]) (use q(2) in \<open>simp add: edge_def ucost_def\<close>)
  have "unat (final_label (ns ! q)) + unat (cost (is ! q) (is ! e)) < 2 ^ 31"
    using searched_way [OF st q(1) con eq e(1)] searched_label [OF st q(1) con] by (simp add: edge_def)
  then have "unat (final_label (ns ! q) + cost (is ! q) (is ! e)) = dist (ucost cost) src (is ! q) + ucost cost (is ! q) (is ! e)"
    using searched_label [OF st q(1) con] by (simp add: unat_add_small ucost_def)
  moreover have "final_label (ns ! q) = final_label (ns ! e) - cost (is ! e) (is ! q)
     \<longleftrightarrow> final_label (ns ! q) + cost (is ! q) (is ! e) = final_label (ns ! e)" unfolding sym by (auto simp: algebra_simps)
  ultimately show ?thesis using searched_label [OF st e] by (metis word_unat_eq_iff)
qed

text \<open>One turn of the loop finds the node before \<open>e\<close> on a shortest path.\<close>

lemma step_back:
  assumes st: "searched cost src is ps C ns" and e: "e < length is" "connected (ucost cost) src (is ! e)" "is ! e \<noteq> src"
  shows "\<exists>q<length is. find_step cost ns (ns ! e) (ps ! e) = Some (Some q) \<and> connected (ucost cost) src (is ! q)
     \<and> 0 < ucost cost (is ! q) (is ! e) \<and> dist (ucost cost) src (is ! q) + ucost cost (is ! q) (is ! e) = dist (ucost cost) src (is ! e)"
proof -
  have g: "graph cost is ps" and hg: "has_graph is ps ns" and sym: "\<forall>i j. cost i j = cost j i" using st by (auto simp: searched_def)
  note nth = has_graph_nth [OF hg]
  obtain u where u: "0 < ucost cost u (is ! e)" "dist (ucost cost) src (is ! e) = dist (ucost cost) src u + ucost cost u (is ! e)"
    using dist_pred [OF e(2,3)] by blast
  have "cost u (is ! e) \<noteq> 0" using u(1) by (auto simp: ucost_def)
  then have "u \<in> set is" using g by (auto simp: graph_def)
  then obtain q0 where q0: "q0 < length is" "is ! q0 = u" by (auto simp: in_set_conv_nth)
  have pos: "0 < edge cost is e q0" using u(1) q0(2) sym by (simp add: edge_def ucost_def)
  then have "q0 \<in> set (ps ! e)" using graph_peers(1) [OF g e(1)] q0(1) by blast
  moreover have "final_label (ns ! q0) = final_label (ns ! e) - cost (node_id (ns ! e)) (node_id (ns ! q0))"
    using step_back_iff [OF st e(1,2) q0(1) pos] u(2) q0 nth(1) [OF q0(1)] nth(1) [OF e(1)] by simp
  moreover have "\<forall>q \<in> set (ps ! e). q < length ns" using graph_peers(1) [OF g e(1)] nth(3) [OF e(1)] by auto
  ultimately obtain q where q: "q \<in> set (ps ! e)" "find_step cost ns (ns ! e) (ps ! e) = Some (Some q)"
    "final_label (ns ! q) = final_label (ns ! e) - cost (node_id (ns ! e)) (node_id (ns ! q))"
    using find_step_run [of "ps ! e" ns q0 "ns ! e" cost] by blast
  have q': "q < length is" "0 < edge cost is e q" using q(1) graph_peers(1) [OF g e(1)] by auto
  then have "dist (ucost cost) src (is ! q) + ucost cost (is ! q) (is ! e) = dist (ucost cost) src (is ! e)"
    using step_back_iff [OF st e(1,2) q'] q(3) nth(1) [OF q'(1)] nth(1) [OF e(1)] by simp
  moreover have "connected (ucost cost) src (is ! q)"
    by (rule connected_edge [OF e(2)]) (use q'(2) in \<open>simp add: edge_def ucost_def\<close>)
  moreover have "0 < ucost cost (is ! q) (is ! e)" using q'(2) sym by (simp add: edge_def ucost_def)
  ultimately show ?thesis using q(2) q'(1) by blast
qed

lemma path_loop_run:
  assumes st: "searched cost src is ps C ns" and s: "s < length is" "is ! s = src"
    and e: "e < length is" "connected (ucost cost) src (is ! e)"
    and path: "path_from_to (ucost cost) (is ! e) dst (rev path)" "distinct path"
      "\<forall>i \<in> set path. connected (ucost cost) src i \<and> dist (ucost cost) src (is ! e) \<le> dist (ucost cost) src i"
    and tot: "unat tot = path_cost (ucost cost) (rev path)" "unat tot + dist (ucost cost) src (is ! e) = dist (ucost cost) src dst"
      "dist (ucost cost) src dst < 2 ^ 31"
  shows "\<exists>path' tot'. path_loop cost ns s e path tot = Some (path', tot') \<and> path_from_to (ucost cost) src dst (rev path')
     \<and> distinct path' \<and> unat tot' = path_cost (ucost cost) (rev path') \<and> unat tot' = dist (ucost cost) src dst"
  using e path tot(1,2)
proof (induction "dist (ucost cost) src (is ! e)" arbitrary: e path tot rule: less_induct)
  case less
  let ?d = "dist (ucost cost) src"
  have g: "graph cost is ps" and hg: "has_graph is ps ns" using st by (auto simp: searched_def)
  note nth = has_graph_nth [OF hg]
  show ?case
  proof (cases "e = s")
    case True
    then show ?thesis using less.prems s(2) by (subst path_loop.simps) simp
  next
    case False
    then have "is ! e \<noteq> src" using g s less.prems(1) by (auto simp: graph_def nth_eq_iff_index_eq)
    from step_back [OF st less.prems(1,2) this] obtain q where
      q: "q < length is" "find_step cost ns (ns ! e) (ps ! e) = Some (Some q)" "connected (ucost cost) src (is ! q)"
        "0 < ucost cost (is ! q) (is ! e)" "?d (is ! q) + ucost cost (is ! q) (is ! e) = ?d (is ! e)" by blast
    let ?path = "path @ [is ! q]" and ?tot = "tot + cost (is ! e) (is ! q)"
    have sym: "cost (is ! e) (is ! q) = cost (is ! q) (is ! e)" using st by (auto simp: searched_def)
    have less_d: "?d (is ! q) < ?d (is ! e)" using q(4,5) by simp
    have new: "is ! q \<notin> set path" using less.prems(5) less_d by auto
    have dist': "distinct ?path" using less.prems(4) new by simp
    have "set ?path \<subseteq> set is"
    proof
      fix i assume "i \<in> set ?path"
      then have "connected (ucost cost) src i" using less.prems(5) q(3) by auto
      then show "i \<in> set is" using connected_nodes [OF g, of src i] s by (cases "i = src") auto
    qed
    then have "length ?path \<le> length is" using distinct_card [OF dist'] card_mono [of "set is" "set ?path"] card_length [of "is"] by simp
    then have room: "length path < MAX_NODE_COUNT" using g by (simp add: graph_def)
    have hd_rev: "rev path \<noteq> []" "hd (rev path) = is ! e" using less.prems(3) by (auto simp: path_from_to_def)
    then obtain ys where ys: "rev path = is ! e # ys" by (cases "rev path") auto
    have pf: "path_from_to (ucost cost) (is ! q) dst (rev ?path)"
      using less.prems(3) q(4) by (simp add: path_from_to_def ys)
    have "unat tot + unat (cost (is ! e) (is ! q)) < 2 ^ 31"
      using less.prems(7) q(5) tot(3) by (simp add: sym ucost_def)
    then have t: "unat ?tot = unat tot + ucost cost (is ! q) (is ! e)" by (simp add: unat_add_small sym ucost_def)
    have "\<exists>path' tot'. path_loop cost ns s q ?path ?tot = Some (path', tot') \<and> path_from_to (ucost cost) src dst (rev path')
       \<and> distinct path' \<and> unat tot' = path_cost (ucost cost) (rev path') \<and> unat tot' = ?d dst"
    proof (rule less.hyps [OF less_d q(1,3) pf dist'])
      show "\<forall>i \<in> set ?path. connected (ucost cost) src i \<and> ?d (is ! q) \<le> ?d i"
        using less.prems(5) q(3) less_d by (auto intro: less_imp_le order_trans)
      show "unat ?tot = path_cost (ucost cost) (rev ?path)" using less.prems(6) t by (simp add: ys)
      show "unat ?tot + ?d (is ! q) = ?d dst" using less.prems(7) q(5) t by simp
    qed
    moreover have "path_loop cost ns s e path tot = path_loop cost ns s q ?path ?tot"
      using False q(2) room nth [OF less.prems(1)] nth [OF q(1)] less.prems(1) q(1)
      by (subst path_loop.simps) (simp add: node_at_def)
    ultimately show ?thesis by simp
  qed
qed

section \<open>The whole computation\<close>

text \<open>What the theorem asks of the cost matrix.\<close>

definition sound_costs :: "costs \<Rightarrow> nat \<Rightarrow> nat \<Rightarrow> bool" where
  "sound_costs cost src C = ((\<forall>i j. cost i j = cost j i) \<and> (\<forall>i. cost i i = 0)
     \<and> (\<forall>i j. cost i j \<noteq> 0 \<longrightarrow> i < MAX_NODE_COUNT \<and> j < MAX_NODE_COUNT)
     \<and> (\<forall>i j. ucost cost i j \<le> C) \<and> card {i. connected (ucost cost) src i} * C < 2 ^ 31)"

lemma edges_of_length:
  assumes "cost i i = 0" "i < MAX_NODE_COUNT"
  shows "length (edges_of cost i) < MAX_NODE_COUNT"
proof -
  have "length (edges_of cost i) < length [0..<MAX_NODE_COUNT]"
    unfolding edges_of_def by (rule length_filter_less [of i]) (use assms in auto)
  then show ?thesis by simp
qed

lemma built_graph:
  assumes b: "built (\<lambda>i. if i < MAX_NODE_COUNT then edges_of cost i else []) ns" and c: "sound_costs cost src C"
  shows "graph cost (map node_id ns) (map peer_list ns)"
proof -
  have dist: "distinct (map node_id ns)" using b by (simp add: built_def)
  let ?want = "\<lambda>i. if i < MAX_NODE_COUNT then edges_of cost i else []"
  have wants: "ids ns \<subseteq> {..<MAX_NODE_COUNT}" "\<forall>i. set (?want i) \<subseteq> ids ns" "\<forall>i. ?want i \<noteq> [] \<longrightarrow> i \<in> ids ns"
    using b unfolding built_def by blast+
  have ids: "node_id (ns ! p) < MAX_NODE_COUNT" if "p < length ns" for p
    using wants(1) nth_mem [OF that] unfolding ids_def by blast
  have peers: "map (\<lambda>q. node_id (ns ! q)) (peer_list (ns ! p)) = edges_of cost (node_id (ns ! p))"
    and inside: "set (peer_list (ns ! p)) \<subseteq> {..<length ns}" if "p < length ns" for p
    using b that ids [OF that] by (auto simp: built_def peer_ids_def)
  have "distinct (peer_list (ns ! p))" if "p < length ns" for p
  proof -
    have "distinct (map (\<lambda>q. node_id (ns ! q)) (peer_list (ns ! p)))" unfolding peers [OF that] by (simp add: edges_of_def)
    then show ?thesis by (simp add: distinct_map)
  qed
  moreover have "length (peer_list (ns ! p)) < MAX_NODE_COUNT" if "p < length ns" for p
    using arg_cong [OF peers [OF that], of length] edges_of_length [of cost "node_id (ns ! p)"] ids [OF that] c
    by (simp add: sound_costs_def)
  moreover have "set (peer_list (ns ! p)) = {q. q < length ns \<and> cost (node_id (ns ! p)) (node_id (ns ! q)) \<noteq> 0}"
    if p: "p < length ns" for p
  proof -
    have es: "(\<lambda>q. node_id (ns ! q)) ` set (peer_list (ns ! p)) = {j. j < MAX_NODE_COUNT \<and> cost (node_id (ns ! p)) j \<noteq> 0}"
      using arg_cong [OF peers [OF p], of set] by (auto simp: edges_of_def)
    have "q \<in> set (peer_list (ns ! p))" if q: "q < length ns" "cost (node_id (ns ! p)) (node_id (ns ! q)) \<noteq> 0" for q
    proof -
      have "node_id (ns ! q) \<in> (\<lambda>q. node_id (ns ! q)) ` set (peer_list (ns ! p))" unfolding es using q ids by simp
      then obtain r where "r \<in> set (peer_list (ns ! p))" "node_id (ns ! r) = node_id (ns ! q)" by auto
      moreover from this have "r < length ns" using inside [OF p] by auto
      ultimately show ?thesis using nth_eq_iff_index_eq [OF dist, of r q] q(1) by simp
    qed
    moreover have "cost (node_id (ns ! p)) (node_id (ns ! q)) \<noteq> 0" if "q \<in> set (peer_list (ns ! p))" for q using es that by blast
    ultimately show ?thesis using inside [OF p] by auto
  qed
  moreover have "i \<in> set (map node_id ns) \<and> j \<in> set (map node_id ns)" if "cost i j \<noteq> 0" for i j
  proof -
    have "j \<in> set (edges_of cost i)" "i < MAX_NODE_COUNT" using c that by (auto simp: sound_costs_def edges_of_def)
    then have "j \<in> set (?want i)" by simp
    then have "j \<in> ids ns" "i \<in> ids ns" using wants(2,3) by (blast, metis empty_iff empty_set)
    then show ?thesis by (simp add: ids_def)
  qed
  ultimately show ?thesis using dist built_length [OF b] unfolding graph_def by (auto simp del: set_map)
qed

lemma reached_edge:
  assumes "connected c s v" "v \<noteq> s"
  shows "\<exists>j. 0 < c s j"
proof -
  obtain d where "walk_cost c s v d" using assms(1) by (auto simp: connected_def)
  from walk_leaves [OF this, of "{s}"] assms(2) show ?thesis by auto
qed

text \<open>Everything up to the end of the search, for any number given as destination.\<close>

lemma search_done:
  assumes mem: "MAX_NODE_COUNT \<le> mem" and h: "heap_ok h" "MAX_NODE_COUNT < room h" and c: "sound_costs cost src C"
    and j: "cost src j \<noteq> 0"
  shows "\<exists>s nums ps en ns. s < length nums \<and> nums ! s = src \<and> searched cost src nums ps C ns \<and> end_known src nums dst ns en
     \<and> shortest_path mem h cost (int (card {i. connected (ucost cost) src i})) (int src) dst
       = do { e \<leftarrow> en; n \<leftarrow> node_at ns e; (path, tot) \<leftarrow> path_loop cost ns s e [node_id n] 0; Some (rev path, sint tot) }"
proof -
  let ?n = "card {i. connected (ucost cost) src i}"
  have src: "src < MAX_NODE_COUNT" "edges_of cost src \<noteq> []" using c j by (auto simp: sound_costs_def edges_of_def filter_empty_conv)
  obtain s ns where bg: "build_graph mem cost (int src) = Some (Some s, ns)"
     "built (\<lambda>i. if i < MAX_NODE_COUNT then edges_of cost i else []) ns" "s < length ns" "node_id (ns ! s) = src"
    using build_graph_built [OF mem src] by blast
  define nums where "nums = map node_id ns"
  define ps where "ps = map peer_list ns"
  have g: "graph cost nums ps" unfolding nums_def ps_def by (rule built_graph [OF bg(2) c])
  have hg: "has_graph nums ps ns" by (simp add: has_graph_def nums_def ps_def)
  have s: "s < length nums" "nums ! s = src" using bg(3,4) by (simp_all add: nums_def)
  have un: "\<forall>m \<in> set ns. unlabelled m" using bg(2) by (simp add: built_def)
  obtain head h0 where ca: "calloc zero_elem h = (head, h0)" by (cases "calloc zero_elem h")
  obtain h1 where h1: "init_dijks_list h0 head = Some h1" "holds head h1 [] {}" "room h1 = room h - 1"
    using init_law [OF h(1)] h(2) ca by auto
  have room1: "length nums \<le> room h1" using h1(3) h(2) built_length [OF bg(2)] by (simp add: nums_def)
  have cc: "\<forall>i j. ucost cost i j \<le> C" "?n * C < 2 ^ 31" "cost src src = 0" "\<forall>i j. cost i j = cost j i" using c by (auto simp: sound_costs_def)
  obtain en ns' where dc: "dijkstra_call (\<lambda>h. insert_into_dijks_list h head) (\<lambda>lab h. pop_from_dijks_list lab h head)
        elem_data (free_elem head) cost dst (int ?n) (Some s) (ns, h1) = Some (en, ns')"
     "has_graph nums ps ns'" "labelled cost src nums C ?n ns'" "end_known src nums dst ns' en"
    using dl.dijkstra_call_labels [OF g cc(1) refl cc(2) hg un s cc(3) h1(2) room1, of dst] by blast
  have "searched cost src nums ps C ns'" unfolding searched_def using g dc(2,3) cc by blast
  moreover have "shortest_path mem h cost (int ?n) (int src) dst
       = do { e \<leftarrow> en; n \<leftarrow> node_at ns' e; (path, tot) \<leftarrow> path_loop cost ns' s e [node_id n] 0; Some (rev path, sint tot) }"
    using ca h1(1) bg(1) dc(1) by (simp add: shortest_path_def)
  ultimately show ?thesis using s dc(4) by blast
qed

lemma shortest_path_run:
  assumes mem: "MAX_NODE_COUNT \<le> mem" and h: "heap_ok h" "MAX_NODE_COUNT < room h" and c: "sound_costs cost src C"
    and dst: "connected (ucost cost) src dst" "dst \<noteq> src"
  shows "\<exists>path. shortest_path mem h cost (int (card {i. connected (ucost cost) src i})) (int src) (int dst)
        = Some (path, int (dist (ucost cost) src dst))
     \<and> path_from_to (ucost cost) src dst path \<and> distinct path \<and> path_cost (ucost cost) path = dist (ucost cost) src dst"
proof -
  let ?n = "card {i. connected (ucost cost) src i}" and ?d = "dist (ucost cost) src"
  obtain j where "0 < ucost cost src j" using reached_edge [OF dst] by blast
  then have "cost src j \<noteq> 0" by (auto simp: ucost_def)
  from search_done [OF mem h c this, of "int dst"] obtain s nums ps en ns where
    s: "s < length nums" "nums ! s = src" and st: "searched cost src nums ps C ns" and en: "end_known src nums (int dst) ns en"
    and run: "shortest_path mem h cost (int ?n) (int src) (int dst)
      = do { e \<leftarrow> en; n \<leftarrow> node_at ns e; (path, tot) \<leftarrow> path_loop cost ns s e [node_id n] 0; Some (rev path, sint tot) }" by blast
  have g: "graph cost nums ps" "has_graph nums ps ns" "labelled cost src nums C ?n ns" "?n * C < 2 ^ 31" using st by (auto simp: searched_def)
  have "dst \<in> set nums" by (rule connected_nodes [OF g(1) dst])
  then obtain e where e: "e < length nums" "nums ! e = dst" by (auto simp: in_set_conv_nth)
  have vis: "vis_of ns e" by (rule all_seen [OF g(1,3) refl e(1)]) (simp add: e(2) dst(1))
  have en: "en = Some e" using en e vis dst(2) by (simp add: end_known_def)
  have "?d dst \<le> (?n - 1) * C" using g(3) e vis by (auto simp: labelled_def dist_of_def)
  also have "\<dots> \<le> ?n * C" by simp
  finally have small: "?d dst < 2 ^ 31" using g(4) by simp
  have "\<exists>path' tot'. path_loop cost ns s e [dst] 0 = Some (path', tot') \<and> path_from_to (ucost cost) src dst (rev path')
       \<and> distinct path' \<and> unat tot' = path_cost (ucost cost) (rev path') \<and> unat tot' = ?d dst"
    by (rule path_loop_run [OF st s e(1)]) (use small in \<open>simp_all add: e(2) dst(1) path_from_to_def\<close>)
  then obtain path tot where pl: "path_loop cost ns s e [dst] 0 = Some (path, tot)" "path_from_to (ucost cost) src dst (rev path)"
      "distinct path" "unat tot = path_cost (ucost cost) (rev path)" "unat tot = ?d dst" by blast
  have "node_at ns e = Some (ns ! e)" "node_id (ns ! e) = dst"
    using has_graph_nth [OF g(2) e(1)] e by (auto simp: node_at_def)
  then have "shortest_path mem h cost (int ?n) (int src) (int dst) = Some (rev path, sint tot)" using run en pl(1) by simp
  moreover have "sint tot = int (?d dst)" using pl(5) small by (simp only: sint_small)
  ultimately show ?thesis using pl by (intro exI [of _ "rev path"]) simp
qed

text \<open>Asked for the way from a node to itself, or to a number that is not connected to the start, the
  search never records an end node, and \<^verbatim>\<open>main\<close> dereferences a null pointer.\<close>

theorem elbonian_no_end_node:
  assumes "MAX_NODE_COUNT \<le> mem" "heap_ok h" "MAX_NODE_COUNT < room h" "sound_costs cost src C" "cost src j \<noteq> 0"
    "dst = src \<or> \<not> connected (ucost cost) src dst" "node_count = int (card {i. connected (ucost cost) src i})"
  shows "shortest_path mem h cost node_count (int src) (int dst) = None"
proof -
  obtain s nums ps en ns where st: "searched cost src nums ps C ns" "end_known src nums (int dst) ns en"
    "shortest_path mem h cost node_count (int src) (int dst)
      = do { e \<leftarrow> en; n \<leftarrow> node_at ns e; (path, tot) \<leftarrow> path_loop cost ns s e [node_id n] 0; Some (rev path, sint tot) }"
    using search_done [OF assms(1-5), of "int dst"] unfolding assms(7) by blast
  have "en \<noteq> Some p" for p
    using st(1,2) assms(6) by (auto simp: end_known_def searched_def labelled_def)
  then have "en = None" by auto
  then show ?thesis using st(3) by simp
qed


text \<open>Three nodes in a row.\<close>

definition row_costs :: costs where
  "row_costs i j = (if (i, j) \<in> {(0, 1), (1, 0)} then 5 else if (i, j) \<in> {(1, 2), (2, 1)} then 7 else 0)"

lemma row_connected: "{i. connected (ucost row_costs) 0 i} = {0, 1, 2}"
proof
  have "i \<in> {0, 1, 2}" if i: "connected (ucost row_costs) 0 i" "i \<noteq> 0" for i
  proof -
    obtain u where "0 < ucost row_costs u i" using dist_pred [OF i] by blast
    then show ?thesis by (auto simp: ucost_def row_costs_def split: if_splits)
  qed
  then show "{i. connected (ucost row_costs) 0 i} \<subseteq> {0, 1, 2}" by blast
  have one: "connected (ucost row_costs) 0 1"
    by (rule connected_edge [OF connected_start]) (simp add: ucost_def row_costs_def)
  have "connected (ucost row_costs) 0 2"
    by (rule connected_edge [OF one]) (simp add: ucost_def row_costs_def)
  with one show "{0, 1, 2} \<subseteq> {i. connected (ucost row_costs) 0 i}" by simp
qed

lemma row_sound: "sound_costs row_costs 0 7"
  unfolding sound_costs_def row_connected
  by (auto simp: row_costs_def ucost_def MAX_NODE_COUNT_def)


lemma elbonian_no_end_node_witness: "shortest_path 200 (empty_heap 300) row_costs 3 0 0 = None"
proof -
  have "(3::int) = int (card {i. connected (ucost row_costs) 0 i})" unfolding row_connected by simp
  then show ?thesis
    using elbonian_no_end_node [of 200 "empty_heap 300" row_costs 0 7 1 0 3] row_sound
    by (auto simp: MAX_NODE_COUNT_def empty_heap_def heap_ok_def row_costs_def)
qed

end
