(* ===== verification/Elbonian_Main.thy ===== *)
theory Elbonian_Main
  imports Elbonian_Search C_Input
begin

text \<open>
  \<^verbatim>\<open>main\<close> of \<^verbatim>\<open>CodeWar2013/elbonian.c\<close> from the characters of its input to what it prints: the number of
  nodes, the lines with edges, and the line with the two end points, which is recognised by having
  exactly two numbers.  Every other line counts as an edge, with the numbers it does not have taken
  from the line before.
\<close>

section \<open>Reading the edges\<close>

record edges_in =
  id1 :: int
  id2 :: int
  in_cost :: int
  in_src :: int
  in_dst :: int
  cost_matrix :: costs

definition no_edges :: edges_in where
  "no_edges = \<lparr>id1 = 0, id2 = 0, in_cost = 0, in_src = 0, in_dst = 0, cost_matrix = (\<lambda>_ _. 0)\<rparr>"

text \<open>\<^verbatim>\<open>sscanf(line, "%d %d %d", &id1, &id2, &cost)\<close>: the number of conversions and the variables.\<close>

definition scan_three :: "string \<Rightarrow> edges_in \<Rightarrow> (nat \<times> edges_in) option" where
  "scan_three line st = do {
     (r1, rest) \<leftarrow> scan_int line;
     (case r1 of None \<Rightarrow> Some (0, st)
      | Some a \<Rightarrow> do {
          let st = st\<lparr>id1 := a\<rparr>;
          (r2, rest) \<leftarrow> scan_int rest;
          (case r2 of None \<Rightarrow> Some (1, st)
           | Some b \<Rightarrow> do {
               let st = st\<lparr>id2 := b\<rparr>;
               (r3, rest) \<leftarrow> scan_int rest;
               (case r3 of None \<Rightarrow> Some (2, st)
                | Some c \<Rightarrow> Some (3, st\<lparr>in_cost := c\<rparr>)) }) }) }"

definition set_cost :: "edges_in \<Rightarrow> costs \<Rightarrow> costs option" where
  "set_cost st m =
     (if 0 \<le> id1 st \<and> id1 st < int MAX_NODE_COUNT \<and> 0 \<le> id2 st \<and> id2 st < int MAX_NODE_COUNT
      then (let a = nat (id1 st); b = nat (id2 st); c = word_of_int (in_cost st) in
            Some (\<lambda>i j. if (i, j) = (a, b) \<or> (i, j) = (b, a) then c else m i j))
      else None)"

definition read_line :: "string \<Rightarrow> edges_in \<Rightarrow> edges_in option" where
  "read_line line st = do {
     (k, st) \<leftarrow> scan_three line st;
     if k = 2 then Some (st\<lparr>in_src := id1 st, in_dst := id2 st\<rparr>)
     else do { m \<leftarrow> set_cost st (cost_matrix st); Some (st\<lparr>cost_matrix := m\<rparr>) } }"

function read_loop :: "string \<Rightarrow> edges_in \<Rightarrow> edges_in option" where
  "read_loop [] st = Some st"
| "read_loop (c # cs) st =
     (let (line, rest) = fgets_line 80 (c # cs) in
      case read_line line st of None \<Rightarrow> None | Some st \<Rightarrow> read_loop rest st)"
  by pat_completeness auto
termination
  by (relation "measure (\<lambda>(cs, _). length cs)") (auto dest: fgets_shorter)

datatype printed = Too_many_nodes | Path "nat list" int

definition elbonian_main :: "nat \<Rightarrow> elems \<Rightarrow> string \<Rightarrow> printed option" where
  "elbonian_main mem h input = do {
     (r, rest) \<leftarrow> scan_int input;
     let node_count = (case r of None \<Rightarrow> 0 | Some n \<Rightarrow> n);
     if node_count > int MAX_NODE_COUNT then Some Too_many_nodes
     else do {
       st \<leftarrow> read_loop rest no_edges;
       (path, total_cost) \<leftarrow> shortest_path mem h (cost_matrix st) node_count (in_src st) (in_dst st);
       Some (Path path total_cost) } }"

section \<open>The texts the program is meant for\<close>

text \<open>The number of nodes, a line for each edge, and the line with the end points.\<close>

definition edge_line :: "nat \<times> nat \<times> nat \<Rightarrow> string" where
  "edge_line e = (case e of (a, b, c) \<Rightarrow> show_nat a @ '' '' @ show_nat b @ '' '' @ show_nat c)"

definition problem_text :: "nat \<Rightarrow> (nat \<times> nat \<times> nat) list \<Rightarrow> nat \<Rightarrow> nat \<Rightarrow> string" where
  "problem_text n es s d = show_nat n @ [CHR 0x0A] @ concat (map (\<lambda>e. edge_line e @ [CHR 0x0A]) es)
     @ show_nat s @ '' '' @ show_nat d @ [CHR 0x0A]"

fun matrix_of :: "(nat \<times> nat \<times> nat) list \<Rightarrow> costs \<Rightarrow> costs" where
  "matrix_of [] m = m"
| "matrix_of ((a, b, c) # es) m = matrix_of es (\<lambda>i j. if (i, j) = (a, b) \<or> (i, j) = (b, a) then of_nat c else m i j)"

lemma space_chars: "is_space (CHR '' '')" "is_space (CHR 0x0A)" "\<not> is_digit (CHR '' '')" "\<not> is_digit (CHR 0x0A)"
  by (simp_all add: is_space_def is_digit_def)

lemma scan_edge_line:
  assumes "a < 2 ^ 31" "b < 2 ^ 31" "c < 2 ^ 31"
  shows "scan_three (edge_line (a, b, c) @ [CHR 0x0A]) st = Some (3, st\<lparr>id1 := int a, id2 := int b, in_cost := int c\<rparr>)"
proof -
  have "scan_int (show_nat a @ '' '' @ show_nat b @ '' '' @ show_nat c @ [CHR 0x0A])
      = Some (Some (int a), '' '' @ show_nat b @ '' '' @ show_nat c @ [CHR 0x0A])"
    using scan_int_show [OF assms(1), of "'' '' @ show_nat b @ '' '' @ show_nat c @ [CHR 0x0A]" "[]"] by (simp add: space_chars)
  moreover have "scan_int ('' '' @ show_nat b @ '' '' @ show_nat c @ [CHR 0x0A]) = Some (Some (int b), '' '' @ show_nat c @ [CHR 0x0A])"
    by (rule scan_int_show [OF assms(2)]) (simp_all add: space_chars)
  moreover have "scan_int ('' '' @ show_nat c @ [CHR 0x0A]) = Some (Some (int c), [CHR 0x0A])"
    by (rule scan_int_show [OF assms(3)]) (simp_all add: space_chars)
  ultimately show ?thesis by (simp add: scan_three_def edge_line_def)
qed

lemma scan_query_line:
  assumes "a < 2 ^ 31" "b < 2 ^ 31"
  shows "scan_three (show_nat a @ '' '' @ show_nat b @ [CHR 0x0A]) st = Some (2, st\<lparr>id1 := int a, id2 := int b\<rparr>)"
proof -
  have "scan_int (show_nat a @ '' '' @ show_nat b @ [CHR 0x0A]) = Some (Some (int a), '' '' @ show_nat b @ [CHR 0x0A])"
    using scan_int_show [OF assms(1), of "'' '' @ show_nat b @ [CHR 0x0A]" "[]"] by (simp add: space_chars)
  moreover have "scan_int ('' '' @ show_nat b @ [CHR 0x0A]) = Some (Some (int b), [CHR 0x0A])"
    by (rule scan_int_show [OF assms(2)]) (simp_all add: space_chars)
  moreover have "scan_int [CHR 0x0A] = Some (None, [])" by (rule scan_int_blank) (simp add: space_chars)
  ultimately show ?thesis by (simp add: scan_three_def)
qed

lemma read_loop_line:
  assumes "CHR 0x0A \<notin> set l" "length l < 80"
  shows "read_loop (l @ CHR 0x0A # cs) st = (case read_line (l @ [CHR 0x0A]) st of None \<Rightarrow> None | Some st \<Rightarrow> read_loop cs st)"
proof -
  obtain c cs' where eq: "l @ CHR 0x0A # cs = c # cs'" by (cases l) auto
  then show ?thesis using fgets_whole_line [OF assms, of cs] by simp
qed

lemma show_nat_line: "CHR 0x0A \<notin> set (show_nat n)"
  using show_nat_digits [of n] space_chars(4) by auto

lemma show_nat_short: "n < 2 ^ 31 \<Longrightarrow> length (show_nat n) \<le> 10"
  using length_show_nat [of n 9] by simp

definition good_edge :: "nat \<times> nat \<times> nat \<Rightarrow> bool" where
  "good_edge e = (case e of (a, b, c) \<Rightarrow> a < MAX_NODE_COUNT \<and> b < MAX_NODE_COUNT \<and> c < 2 ^ 31)"

lemma read_edge_line:
  assumes "good_edge (a, b, c)"
  shows "read_line (edge_line (a, b, c) @ [CHR 0x0A]) st = Some (st\<lparr>id1 := int a, id2 := int b, in_cost := int c,
     cost_matrix := matrix_of [(a, b, c)] (cost_matrix st)\<rparr>)"
proof -
  have "a < 2 ^ 31" "b < 2 ^ 31" "c < 2 ^ 31" using assms by (auto simp: good_edge_def MAX_NODE_COUNT_def)
  then show ?thesis using assms
    by (cases st) (simp add: read_line_def scan_edge_line set_cost_def good_edge_def Let_def cong: if_cong)
qed

lemma edge_line_short:
  assumes "good_edge (a, b, c)"
  shows "CHR 0x0A \<notin> set (edge_line (a, b, c)) \<and> length (edge_line (a, b, c)) < 80"
proof -
  have "a < 2 ^ 31" "b < 2 ^ 31" "c < 2 ^ 31" using assms by (auto simp: good_edge_def MAX_NODE_COUNT_def)
  then show ?thesis using show_nat_short [of a] show_nat_short [of b] show_nat_short [of c]
    by (simp add: edge_line_def show_nat_line)
qed

lemma read_edges:
  assumes "list_all good_edge es"
  shows "\<exists>st'. read_loop (concat (map (\<lambda>e. edge_line e @ [CHR 0x0A]) es) @ cs) st = read_loop cs st'
     \<and> cost_matrix st' = matrix_of es (cost_matrix st)"
  using assms
proof (induction es arbitrary: st)
  case (Cons e es)
  obtain a b c where e: "e = (a, b, c)" by (cases e)
  let ?st = "st\<lparr>id1 := int a, id2 := int b, in_cost := int c, cost_matrix := matrix_of [(a, b, c)] (cost_matrix st)\<rparr>"
  have g: "good_edge (a, b, c)" using Cons.prems e by simp
  have "read_loop (concat (map (\<lambda>e. edge_line e @ [CHR 0x0A]) (e # es)) @ cs) st
      = read_loop (concat (map (\<lambda>e. edge_line e @ [CHR 0x0A]) es) @ cs) ?st"
    using read_loop_line [of "edge_line (a, b, c)"] edge_line_short [OF g] read_edge_line [OF g, of st] e by simp
  moreover obtain st' where "read_loop (concat (map (\<lambda>e. edge_line e @ [CHR 0x0A]) es) @ cs) ?st = read_loop cs st'"
    "cost_matrix st' = matrix_of es (cost_matrix ?st)" using Cons.IH [of ?st] Cons.prems by auto
  ultimately show ?case by (auto simp: e)
qed auto

lemma read_query:
  assumes "s < 2 ^ 31" "d < 2 ^ 31"
  shows "\<exists>st'. read_loop (show_nat s @ '' '' @ show_nat d @ [CHR 0x0A]) st = Some st'
     \<and> in_src st' = int s \<and> in_dst st' = int d \<and> cost_matrix st' = cost_matrix st"
proof -
  let ?l = "show_nat s @ '' '' @ show_nat d"
  have "CHR 0x0A \<notin> set ?l" "length ?l < 80"
    using show_nat_short [OF assms(1)] show_nat_short [OF assms(2)] by (simp_all add: show_nat_line)
  from read_loop_line [OF this, of "[]" st] show ?thesis
    using scan_query_line [OF assms, of st] by (simp add: read_line_def)
qed

lemma read_rest_of_first_line: "read_loop (CHR 0x0A # cs) no_edges = read_loop cs no_edges"
proof -
  have "scan_int [CHR 0x0A] = Some (None, [])" by (rule scan_int_blank) (simp add: space_chars)
  then have "read_line [CHR 0x0A] no_edges = Some no_edges"
    by (simp add: read_line_def scan_three_def set_cost_def no_edges_def MAX_NODE_COUNT_def Let_def fun_eq_iff)
  then show ?thesis using read_loop_line [of "[]" cs no_edges] by simp
qed

text \<open>C40. On a text of the intended form the program computes with exactly the graph described there: the
  number of nodes, the symmetric matrix of the edges, later lines replacing earlier ones, and the two
  end points reach the search unchanged.\<close>

theorem elbonian_reads_problem:
  assumes "n \<le> MAX_NODE_COUNT" "list_all good_edge es" "s < 2 ^ 31" "d < 2 ^ 31"
  shows "elbonian_main mem h (problem_text n es s d)
     = map_option (\<lambda>(path, tot). Path path tot) (shortest_path mem h (matrix_of es (\<lambda>_ _. 0)) (int n) (int s) (int d))"
proof -
  let ?q = "show_nat s @ '' '' @ show_nat d @ [CHR 0x0A]"
  let ?rest = "concat (map (\<lambda>e. edge_line e @ [CHR 0x0A]) es) @ ?q"
  have "scan_int (problem_text n es s d) = Some (Some (int n), CHR 0x0A # ?rest)"
    using scan_int_show [of n "CHR 0x0A # ?rest" "[]"] assms(1) by (simp add: problem_text_def space_chars MAX_NODE_COUNT_def)
  moreover obtain st where st: "read_loop ?rest no_edges = read_loop ?q st" "cost_matrix st = matrix_of es (\<lambda>_ _. 0)"
    using read_edges [OF assms(2), of ?q no_edges] by (auto simp: no_edges_def)
  moreover obtain st' where st': "read_loop ?q st = Some st'" "in_src st' = int s" "in_dst st' = int d" "cost_matrix st' = cost_matrix st"
    using read_query [OF assms(3,4), of st] by blast
  moreover have "read_loop (CHR 0x0A # ?rest) no_edges = Some st'"
    unfolding read_rest_of_first_line st(1) by (rule st'(1))
  ultimately show ?thesis using assms(1)
    by (simp add: elbonian_main_def del: read_loop.simps) (auto split: option.splits Option.bind_splits)
qed

lemma elbonian_reads_problem_witness:
  "elbonian_main 200 (empty_heap 300) (problem_text 3 [(0, 1, 5), (1, 2, 7)] 0 2)
     = map_option (\<lambda>(path, tot). Path path tot) (shortest_path 200 (empty_heap 300) (matrix_of [(0, 1, 5), (1, 2, 7)] (\<lambda>_ _. 0)) 3 0 2)"
  using elbonian_reads_problem [of 3 "[(0, 1, 5), (1, 2, 7)]" 0 2 200 "empty_heap 300"]
  by (simp add: MAX_NODE_COUNT_def good_edge_def)

text \<open>A blank line behind the end points gives the end points an edge with the cost of the last one.\<close>

lemma blank_line_adds_edge:
  assumes "s < MAX_NODE_COUNT" "d < MAX_NODE_COUNT"
  shows "\<exists>st'. read_loop (show_nat s @ '' '' @ show_nat d @ [CHR 0x0A, CHR 0x0A]) st = Some st'
     \<and> cost_matrix st' s d = word_of_int (in_cost st)"
proof -
  let ?l = "show_nat s @ '' '' @ show_nat d"
  let ?st = "st\<lparr>id1 := int s, id2 := int d, in_src := int s, in_dst := int d\<rparr>"
  have lim: "s < 2 ^ 31" "d < 2 ^ 31" using assms by (auto simp: MAX_NODE_COUNT_def)
  have "CHR 0x0A \<notin> set ?l" "length ?l < 80"
    using show_nat_short [OF lim(1)] show_nat_short [OF lim(2)] by (simp_all add: show_nat_line)
  from read_loop_line [OF this, of "[CHR 0x0A]" st]
  have "read_loop (?l @ [CHR 0x0A, CHR 0x0A]) st = read_loop [CHR 0x0A] ?st"
    using scan_query_line [OF lim, of st] by (simp add: read_line_def)
  also have "\<dots> = read_line [CHR 0x0A] ?st" using read_loop_line [of "[]" "[]" ?st] by (simp split: option.splits)
  finally show ?thesis using assms scan_int_blank [of "[CHR 0x0A]"]
    by (simp add: read_line_def scan_three_def set_cost_def space_chars Let_def)
qed

end
