(* ===== verification/Trace_Probe.thy ===== *)
theory Trace_Probe
  imports Icmp
begin

text \<open>
  The sending side of \<^verbatim>\<open>tcpipi/traceroute\<close>: the probe packet, the table of MTU values,
  \<^verbatim>\<open>send_probe\<close> with its retry on \<^verbatim>\<open>EMSGSIZE\<close>, and \<^verbatim>\<open>frag_err\<close>.  The files
  \<^verbatim>\<open>traceroute.lsrr.c\<close> and \<^verbatim>\<open>traceroute.pmtu.c\<close> differ in four lines, so every routine is one
  definition with the variant as a parameter.  The layout is that of a 32-bit host (\<^verbatim>\<open>long\<close> has
  four bytes); the byte order is a parameter.  The packet under construction is the block that
  \<^verbatim>\<open>malloc\<close> returned, as a byte list of its size; \<^const>\<open>None\<close> is undefined behaviour, which
  includes handing bytes behind that block to \<^verbatim>\<open>sendto\<close>.
\<close>

section \<open>Data\<close>

datatype variant = Lsrr | Pmtu

text \<open>What \<^verbatim>\<open>sendto\<close> and \<^verbatim>\<open>gettimeofday\<close> answer may depend on how often they were called.  A
  refused packet is either too long for the interface or fails for another reason.\<close>

datatype sent = Sent nat | Emsgsize | SendFailed

record kernel =
  sendto :: "nat \<Rightarrow> u8 list \<Rightarrow> sent"
  gettimeofday :: "nat \<Rightarrow> int \<times> int"
  gethostname :: "string option"
  gethostbyaddr :: "u32 \<Rightarrow> string option"

text \<open>The global variables that are fixed once the probes start.\<close>

record settings =
  nprobes :: int
  max_ttl :: int
  ident :: u16
  port :: u16
  so_debug :: bool
  so_dontroute :: bool
  vflag :: bool
  waittime :: int
  nflag :: bool

datatype msg =
    Hop int
  | Host string u32
  | ToHost int u32
  | Ms int
  | TtlBang
  | Flag string
  | Star
  | Newline
  | FragNextHop int
  | NotInTable
  | FragTrying int
  | EmsgsizeFor int
  | SendtoError
  | Wrote int int
  | OutgoingMtu int
  | TooShort int u32
  | Dump int u32 u32 u8 string u8
  | DumpWord int u32

text \<open>The variables that change while probes are sent and answers arrive: \<open>mtuptr\<close> is an index into
  \<^verbatim>\<open>mtus\<close>, \<open>from_addr\<close> has no value until something is received, \<open>sends\<close> and \<open>ticks\<close> count the
  calls of \<^verbatim>\<open>sendto\<close> and \<^verbatim>\<open>gettimeofday\<close>, and \<open>out\<close> is what was printed.\<close>

record trace =
  outpacket :: "u8 list"
  datalen :: int
  mtuptr :: int
  nextmtu :: int
  firsttime :: bool
  packet :: "u8 list"
  from_addr :: "u32 option"
  first :: bool
  domain :: string
  seqno :: int
  sends :: nat
  ticks :: nat
  out :: "msg list"

definition say :: "msg list \<Rightarrow> trace \<Rightarrow> trace" where
  "say ms st = st\<lparr>out := out st @ ms\<rparr>"

section \<open>The probe packet\<close>

definition sizeof_ip :: int where
  "sizeof_ip = 20"

definition sizeof_opacket :: int where
  "sizeof_opacket = 40"

definition IP_DF :: u16 where
  "IP_DF = 0x4000"

fun htons :: "host \<Rightarrow> u16 \<Rightarrow> u16" where
  "htons LittleEndian w = of_nat (swap16 (unat w))"
| "htons BigEndian w = w"

text \<open>Storing bytes at an offset of the block.\<close>

definition poke :: "nat \<Rightarrow> u8 list \<Rightarrow> u8 list \<Rightarrow> u8 list option" where
  "poke i bs buf =
     (if i + length bs \<le> length buf then Some (take i buf @ bs @ drop (i + length bs) buf) else None)"

fun ip_off_flags :: "variant \<Rightarrow> u16" where
  "ip_off_flags Pmtu = 0 OR IP_DF"
| "ip_off_flags Lsrr = 0"

definition fill_probe ::
    "variant \<Rightarrow> host \<Rightarrow> settings \<Rightarrow> int \<Rightarrow> int \<Rightarrow> int \<times> int \<Rightarrow> int \<Rightarrow> u8 list \<Rightarrow> u8 list option" where
  "fill_probe v e g seq ttl tv len op = do {
     op \<leftarrow> poke 6 (put16 e (ip_off_flags v)) op;
     op \<leftarrow> poke 9 [17] op;
     op \<leftarrow> poke 2 (put16 e (word_of_int len)) op;
     op \<leftarrow> poke 8 [word_of_int ttl] op;
     op \<leftarrow> poke 20 (put16 e (htons e (ident g))) op;
     op \<leftarrow> poke 22 (put16 e (htons e (word_of_int (uint (port g) + seq)))) op;
     op \<leftarrow> poke 24 (put16 e (htons e (word_of_int (len - sizeof_ip)))) op;
     op \<leftarrow> poke 26 (put16 e 0) op;
     op \<leftarrow> poke 28 [word_of_int seq] op;
     op \<leftarrow> poke 29 [word_of_int ttl] op;
     poke 32 (put32 e (word_of_int (fst tv)) @ put32 e (word_of_int (snd tv))) op
   }"

section \<open>The table of MTU values\<close>

definition mtus :: "int list" where
  "mtus = [17914, 8166, 4464, 4352, 2048, 2002, 1536, 1500, 1492, 1006, 576, 552, 544, 512, 508, 296, 68, 0]"

text \<open>\<^verbatim>\<open>datalen = *mtuptr++\<close>\<close>

definition next_mtu :: "trace \<Rightarrow> trace option" where
  "next_mtu st = do {
     m \<leftarrow> aget mtus (mtuptr st);
     Some (st\<lparr>datalen := m, mtuptr := mtuptr st + 1\<rparr>)
   }"

section \<open>send_probe\<close>

text \<open>The bytes that \<^verbatim>\<open>sendto\<close> is given.\<close>

definition bytes_of :: "u8 list \<Rightarrow> int \<Rightarrow> u8 list option" where
  "bytes_of buf len = (if 0 \<le> len \<and> len \<le> int (length buf) then Some (take (nat len) buf) else None)"

text \<open>From the label \<^verbatim>\<open>again\<close> up to and including the call of \<^verbatim>\<open>sendto\<close>.\<close>

definition attempt ::
    "variant \<Rightarrow> host \<Rightarrow> kernel \<Rightarrow> settings \<Rightarrow> int \<Rightarrow> int \<Rightarrow> trace \<Rightarrow> (sent \<times> trace) option" where
  "attempt v e K g seq ttl st = do {
     op \<leftarrow> fill_probe v e g seq ttl (gettimeofday K (ticks st)) (datalen st) (outpacket st);
     pkt \<leftarrow> bytes_of op (datalen st);
     Some (sendto K (sends st) pkt, st\<lparr>outpacket := op, ticks := ticks st + 1, sends := sends st + 1\<rparr>)
   }"

definition report_send :: "sent \<Rightarrow> trace \<Rightarrow> trace" where
  "report_send r st =
     (case r of
        Sent n \<Rightarrow> if int n \<noteq> datalen st then say [Wrote (datalen st) (int n)] st else st
      | _ \<Rightarrow> say [SendtoError, Wrote (datalen st) (- 1)] st)"

definition first_report :: "variant \<Rightarrow> trace \<Rightarrow> trace" where
  "first_report v st =
     (if firsttime st
      then (case v of Pmtu \<Rightarrow> say [OutgoingMtu (datalen st)] st | Lsrr \<Rightarrow> st)\<lparr>firsttime := False\<rparr>
      else st)"

lemma attempt_frame:
  "attempt v e K g seq ttl st = Some (r, st') \<Longrightarrow> mtuptr st' = mtuptr st \<and> datalen st' = datalen st"
  by (auto simp: attempt_def Option.bind_eq_Some_conv)

lemma next_mtu_ptr: "next_mtu st = Some st' \<Longrightarrow> mtuptr st' = mtuptr st + 1 \<and> mtuptr st < int (length mtus)"
  by (auto simp: next_mtu_def aget_def Option.bind_eq_Some_conv split: if_splits)

function send_probe ::
    "variant \<Rightarrow> host \<Rightarrow> kernel \<Rightarrow> settings \<Rightarrow> int \<Rightarrow> int \<Rightarrow> trace \<Rightarrow> trace option" where
  "send_probe v e K g seq ttl st =
     (case attempt v e K g seq ttl st of
        None \<Rightarrow> None
      | Some (Emsgsize, st1) \<Rightarrow>
          (case next_mtu (say (if vflag g then [EmsgsizeFor (datalen st1)] else []) st1) of
             None \<Rightarrow> None
           | Some st2 \<Rightarrow> send_probe v e K g seq ttl st2)
      | Some (r, st1) \<Rightarrow> Some (first_report v (report_send r st1)))"
  by pat_completeness auto
termination
  by (relation "measure (\<lambda>(v, e, K, g, seq, ttl, st). nat (int (length mtus) - mtuptr st))")
    (auto dest!: attempt_frame next_mtu_ptr simp: say_def)

declare send_probe.simps [simp del]

section \<open>frag_err\<close>

text \<open>The loop over the table: the index of the given value, if it occurs before the final 0.\<close>

function mtu_index :: "int \<Rightarrow> int \<Rightarrow> int option option" where
  "mtu_index m i =
     (case aget mtus i of
        None \<Rightarrow> None
      | Some t \<Rightarrow> if t > 0 then (if t = m then Some (Some i) else mtu_index m (i + 1)) else Some None)"
  by pat_completeness auto
termination
  by (relation "measure (\<lambda>(m, i). nat (int (length mtus) - i))") (auto simp: aget_def split: if_splits)

declare mtu_index.simps [simp del]

definition frag_err :: "trace \<Rightarrow> trace option" where
  "frag_err st =
     (if nextmtu st > 0 then do {
        let st = (say [FragNextHop (nextmtu st)] st)\<lparr>datalen := nextmtu st\<rparr>;
        f \<leftarrow> mtu_index (nextmtu st) 0;
        Some (case f of Some i \<Rightarrow> st\<lparr>mtuptr := i + 1\<rparr> | None \<Rightarrow> say [NotInTable] st)
      } else do {
        st \<leftarrow> next_mtu st;
        Some (say [FragTrying (datalen st)] st)
      })"

text \<open>Concrete values for examples: an interface that takes packets of \<open>M\<close> bytes, numeric output, and a
  zeroed block of \<open>n\<close> bytes.\<close>

definition sample_kernel :: "nat \<Rightarrow> kernel" where
  "sample_kernel M = \<lparr>sendto = \<lambda>n pkt. if M < length pkt then Emsgsize else Sent (length pkt),
     gettimeofday = \<lambda>n. (1000, int (min n 999999)), gethostname = Some ''gateway.net'', gethostbyaddr = \<lambda>a. None\<rparr>"

definition sample_settings :: settings where
  "sample_settings = \<lparr>nprobes = 3, max_ttl = 30, ident = 0x8123, port = 33434, so_debug = False,
     so_dontroute = False, vflag = False, waittime = 5, nflag = True\<rparr>"

definition sample_trace :: "nat \<Rightarrow> int \<Rightarrow> int \<Rightarrow> trace" where
  "sample_trace n len i = \<lparr>outpacket = replicate n 0, datalen = len, mtuptr = i, nextmtu = 0, firsttime = True,
     packet = replicate 512 0, from_addr = None, first = True, domain = [], seqno = 0, sends = 0, ticks = 0,
     out = []\<rparr>"

lemmas samples = sample_kernel_def sample_settings_def sample_trace_def

section \<open>The contents of a probe\<close>

lemma poke_skip: "length a \<le> i \<Longrightarrow> poke i bs (a @ r) = map_option ((@) a) (poke (i - length a) bs r)"
  by (auto simp: poke_def)

lemma poke_here: "length bs = length b \<Longrightarrow> poke 0 bs (b @ r) = Some (bs @ r)"
  by (simp add: poke_def)

lemma put16_htons: "put16 e (htons e w) = put16 BigEndian w"
proof (cases e)
  case LittleEndian
  have "put16 BigEndian (of_nat (unat w)) = put16 LittleEndian (of_nat (swap16 (unat w)))"
    using put16_swap [OF swap16_bound [OF unat_u16_bound]] swap16_swap16 [OF unat_u16_bound] by metis
  with LittleEndian show ?thesis by (simp del: put16.simps)
qed simp

text \<open>The probe with the fields that \<^verbatim>\<open>send_probe\<close> does not write, \<open>f0\<close> (version, header length and type
  of service), \<open>f4\<close> (identification), \<open>f10\<close> (checksum and addresses) and \<open>f30\<close> (padding), as they are
  in the block.\<close>

definition probe_layout ::
    "variant \<Rightarrow> host \<Rightarrow> settings \<Rightarrow> int \<Rightarrow> int \<Rightarrow> int \<times> int \<Rightarrow> int \<Rightarrow> u8 list \<Rightarrow> u8 list \<Rightarrow> u8 list \<Rightarrow>
     u8 list \<Rightarrow> u8 list \<Rightarrow> u8 list" where
  "probe_layout v e g seq ttl tv len f0 f4 f10 f30 data =
     f0 @ put16 e (word_of_int len) @ f4 @ put16 e (ip_off_flags v) @ [word_of_int ttl] @ [17] @ f10 @
     put16 BigEndian (ident g) @ put16 BigEndian (word_of_int (uint (port g) + seq)) @
     put16 BigEndian (word_of_int (len - 20)) @ put16 e 0 @ [word_of_int seq] @ [word_of_int ttl] @ f30 @
     (put32 e (word_of_int (fst tv)) @ put32 e (word_of_int (snd tv))) @ data"

lemma fill_probe_pieces:
  assumes "length f0 = 2" "length f2 = 2" "length f4 = 2" "length f6 = 2" "length f8 = 1" "length f9 = 1"
    "length f10 = 10" "length f20 = 2" "length f22 = 2" "length f24 = 2" "length f26 = 2"
    "length f28 = 1" "length f29 = 1" "length f30 = 2" "length f32 = 8"
  shows "fill_probe v e g seq ttl tv len
      (f0 @ f2 @ f4 @ f6 @ f8 @ f9 @ f10 @ f20 @ f22 @ f24 @ f26 @ f28 @ f29 @ f30 @ f32 @ data) =
    Some (probe_layout v e g seq ttl tv len f0 f4 f10 f30 data)"
  by (simp add: fill_probe_def probe_layout_def sizeof_ip_def put16_htons poke_skip poke_here assms
      del: put16.simps put32.simps append_Cons append_Nil ip_off_flags.simps)

lemma take_pieces: "take n (drop i xs) @ drop (i + n) xs = drop i xs"
  by (metis append_take_drop_id drop_drop add.commute)

text \<open>A block of at least 40 bytes is filled without an access outside.\<close>

lemma fill_probe_run:
  assumes "40 \<le> length op"
  shows "fill_probe v e g seq ttl tv len op =
    Some (probe_layout v e g seq ttl tv len (take 2 op) (take 2 (drop 4 op)) (take 10 (drop 10 op))
      (take 2 (drop 30 op)) (drop 40 op))"
proof -
  let ?f = "\<lambda>i n. take n (drop i op)"
  have "op = ?f 0 2 @ ?f 2 2 @ ?f 4 2 @ ?f 6 2 @ ?f 8 1 @ ?f 9 1 @ ?f 10 10 @ ?f 20 2 @ ?f 22 2 @ ?f 24 2 @
      ?f 26 2 @ ?f 28 1 @ ?f 29 1 @ ?f 30 2 @ ?f 32 8 @ drop 40 op" (is "op = ?split")
    using take_pieces [of 2 0 op] take_pieces [of 2 2 op] take_pieces [of 2 4 op] take_pieces [of 2 6 op]
      take_pieces [of 1 8 op] take_pieces [of 1 9 op] take_pieces [of 10 10 op] take_pieces [of 2 20 op]
      take_pieces [of 2 22 op] take_pieces [of 2 24 op] take_pieces [of 2 26 op] take_pieces [of 1 28 op]
      take_pieces [of 1 29 op] take_pieces [of 2 30 op] take_pieces [of 8 32 op]
    by simp
  then have "fill_probe v e g seq ttl tv len op = fill_probe v e g seq ttl tv len ?split" by (rule arg_cong)
  also have "\<dots> = Some (probe_layout v e g seq ttl tv len (?f 0 2) (?f 4 2) (?f 10 10) (?f 30 2) (drop 40 op))"
    by (rule fill_probe_pieces) (use assms in simp_all)
  finally show ?thesis by simp
qed

lemma length_probe_layout:
  "length (probe_layout v e g seq ttl tv len f0 f4 f10 f30 data) =
     24 + length f0 + length f4 + length f10 + length f30 + length data"
  by (simp add: probe_layout_def del: put16.simps put32.simps)

lemma fill_probe_Some:
  assumes "40 \<le> length op"
  obtains op' where "fill_probe v e g seq ttl tv len op = Some op'" "length op' = length op"
  using fill_probe_run [OF assms, of v e g seq ttl tv len] assms that by (simp add: length_probe_layout)

lemma bytes_of_Some [simp]: "0 \<le> len \<Longrightarrow> len \<le> int (length buf) \<Longrightarrow> bytes_of buf len = Some (take (nat len) buf)"
  by (simp add: bytes_of_def)

text \<open>Reading a field that lies behind the first bytes of a packet.\<close>

lemma rd_skip:
  assumes "int (length a) \<le> i"
  shows "rd8 (a @ r) i = rd8 r (i - int (length a))" "rd16 e (a @ r) i = rd16 e r (i - int (length a))"
    "rd32 e (a @ r) i = rd32 e r (i - int (length a))"
proof -
  have "rd8 (a @ r) j = rd8 r (j - int (length a))" if "int (length a) \<le> j" for j
    using that by (auto simp: rd8_def aget_def nth_append nat_diff_distrib)
  moreover from this have "rd16 e (a @ r) j = rd16 e r (j - int (length a))" if "int (length a) \<le> j" for j
    using that by (simp add: rd16_def add_diff_eq diff_add_eq)
  ultimately show "rd8 (a @ r) i = rd8 r (i - int (length a))" "rd16 e (a @ r) i = rd16 e r (i - int (length a))"
    "rd32 e (a @ r) i = rd32 e r (i - int (length a))"
    using assms by (simp_all add: rd32_def add_diff_eq diff_add_eq)
qed

lemma rd_here:
  "rd8 ([b] @ r) 0 = Some b" "rd16 e (put16 e w @ r) 0 = Some w" "rd32 e (put32 e d @ r) 0 = Some d"
  using rd16_put16 [of 0 "[]" e w r] rd32_put32 [of 0 "[]" e d r]
  by (simp_all add: rd8_def del: put16.simps put32.simps)

lemmas packet_fields = rd_skip rd_here

lemma take_probe_layout:
  assumes "length f0 = 2" "length f4 = 2" "length f10 = 10" "length f30 = 2" "40 \<le> n"
  shows "take n (probe_layout v e g seq ttl tv len f0 f4 f10 f30 data) =
    probe_layout v e g seq ttl tv len f0 f4 f10 f30 (take (n - 40) data)"
  using assms by (simp add: probe_layout_def take_Cons' del: put16.simps put32.simps ip_off_flags.simps)

lemma probe_layout_fields:
  fixes v e g seq ttl tv len f0 f4 f10 f30 data
  assumes "length f0 = 2" "length f4 = 2" "length f10 = 10" "length f30 = 2"
  defines "pkt \<equiv> probe_layout v e g seq ttl tv len f0 f4 f10 f30 data"
  shows "rd16 e pkt 2 = Some (word_of_int len)" "rd16 e pkt 6 = Some (ip_off_flags v)"
    "rd8 pkt 8 = Some (word_of_int ttl)" "rd8 pkt 9 = Some 17" "rd16 BigEndian pkt 20 = Some (ident g)"
    "rd16 BigEndian pkt 22 = Some (word_of_int (uint (port g) + seq))"
    "rd16 BigEndian pkt 24 = Some (word_of_int (len - 20))" "rd16 e pkt 26 = Some 0"
    "take 2 pkt = f0" "take 8 (drop 12 pkt) = drop 2 f10"
  unfolding pkt_def probe_layout_def
  by (simp_all add: packet_fields assms(1-4) del: put16.simps put32.simps append_Cons append_Nil ip_off_flags.simps)

text \<open>The probe as it is handed to the kernel: when the block has room for the header and for
  \<open>datalen\<close> bytes, exactly \<open>datalen\<close> bytes are sent, with the length, the don't-fragment flag of the
  path MTU variant, the time-to-live and protocol 17 in the IP header; the UDP header has the
  identifier and the port number raised by the sequence number (modulo 65536) in network byte order
  on either host, the length of the datagram and no checksum; type of service, source and
  destination are those stored before.\<close>

theorem probe_contents:
  assumes "40 \<le> length (outpacket st)" "40 \<le> datalen st" "datalen st \<le> int (length (outpacket st))"
  shows "\<exists>pkt st'. attempt v e K g seq ttl st = Some (sendto K (sends st) pkt, st') \<and>
    int (length pkt) = datalen st \<and> length (outpacket st') = length (outpacket st) \<and>
    rd16 e pkt 2 = Some (word_of_int (datalen st)) \<and>
    rd16 e pkt 6 = Some (case v of Pmtu \<Rightarrow> 0x4000 | Lsrr \<Rightarrow> 0) \<and>
    rd8 pkt 8 = Some (word_of_int ttl) \<and> rd8 pkt 9 = Some 17 \<and>
    rd16 BigEndian pkt 20 = Some (ident g) \<and>
    rd16 BigEndian pkt 22 = Some (word_of_int (uint (port g) + seq)) \<and>
    rd16 BigEndian pkt 24 = Some (word_of_int (datalen st - 20)) \<and> rd16 e pkt 26 = Some 0 \<and>
    take 2 pkt = take 2 (outpacket st) \<and> take 8 (drop 12 pkt) = take 8 (drop 12 (outpacket st))"
proof -
  define opk where "opk = outpacket st"
  define tv where "tv = gettimeofday K (ticks st)"
  define op where "op = probe_layout v e g seq ttl tv (datalen st) (take 2 opk) (take 2 (drop 4 opk))
    (take 10 (drop 10 opk)) (take 2 (drop 30 opk)) (drop 40 opk)"
  define pkt where "pkt = take (nat (datalen st)) op"
  have l: "40 \<le> length opk" "datalen st \<le> int (length opk)" using assms by (simp_all add: opk_def)
  then have fields: "length (take 2 opk) = 2" "length (take 2 (drop 4 opk)) = 2"
    "length (take 10 (drop 10 opk)) = 10" "length (take 2 (drop 30 opk)) = 2" by auto
  then have len: "length op = length opk" using l by (simp add: op_def length_probe_layout)
  have pkt: "pkt = probe_layout v e g seq ttl tv (datalen st) (take 2 opk) (take 2 (drop 4 opk))
      (take 10 (drop 10 opk)) (take 2 (drop 30 opk)) (take (nat (datalen st) - 40) (drop 40 opk))"
    unfolding pkt_def op_def using fields assms(2) by (intro take_probe_layout) auto
  have "fill_probe v e g seq ttl tv (datalen st) opk = Some op"
    unfolding op_def using l(1) by (rule fill_probe_run)
  then have run: "attempt v e K g seq ttl st = Some (sendto K (sends st) pkt,
      st\<lparr>outpacket := op, ticks := ticks st + 1, sends := sends st + 1\<rparr>)"
    using assms l len by (simp add: attempt_def pkt_def opk_def tv_def)
  have flags: "ip_off_flags v = (case v of Pmtu \<Rightarrow> 0x4000 | Lsrr \<Rightarrow> 0)"
    by (cases v) (simp_all add: IP_DF_def)
  have "int (length pkt) = datalen st" using assms l len by (simp add: pkt_def)
  moreover note probe_layout_fields [OF fields, where v = v and e = e and g = g and seq = seq and ttl = ttl and tv = tv
      and len = "datalen st" and data = "take (nat (datalen st) - 40) (drop 40 opk)", folded pkt, unfolded flags]
  moreover have "drop 2 (take 10 (drop 10 opk)) = take 8 (drop 12 opk)" by (simp add: drop_take)
  ultimately show ?thesis
    by (intro exI [of _ pkt] exI [of _ "st\<lparr>outpacket := op, ticks := ticks st + 1, sends := sends st + 1\<rparr>"] conjI)
      (simp_all add: run len opk_def)
qed

theorem probe_contents_witness:
  "\<exists>pkt st'. attempt Pmtu LittleEndian (sample_kernel 1500) sample_settings 5 2 (sample_trace 44 44 0) =
      Some (Sent (length pkt), st') \<and> length pkt = 44 \<and> rd16 BigEndian pkt 22 = Some 33439"
  using probe_contents [of "sample_trace 44 44 0" Pmtu LittleEndian "sample_kernel 1500" sample_settings 5 2]
  by (auto simp: samples)

section \<open>What sending changes\<close>

lemma say_simps [simp]:
  "outpacket (say ms st) = outpacket st" "datalen (say ms st) = datalen st" "mtuptr (say ms st) = mtuptr st"
  "nextmtu (say ms st) = nextmtu st" "firsttime (say ms st) = firsttime st" "packet (say ms st) = packet st"
  "from_addr (say ms st) = from_addr st" "first (say ms st) = first st" "domain (say ms st) = domain st"
  "seqno (say ms st) = seqno st" "sends (say ms st) = sends st" "ticks (say ms st) = ticks st"
  "out (say ms st) = out st @ ms"
  by (simp_all add: say_def)

text \<open>The state of the receiving side is not touched and the block keeps its size.\<close>

definition same_receiver :: "trace \<Rightarrow> trace \<Rightarrow> bool" where
  "same_receiver st st' \<longleftrightarrow> length (outpacket st') = length (outpacket st) \<and> nextmtu st' = nextmtu st \<and>
     packet st' = packet st \<and> from_addr st' = from_addr st \<and> first st' = first st \<and> domain st' = domain st \<and>
     seqno st' = seqno st"

lemma same_receiver_simps [simp]:
  "same_receiver st st" "same_receiver st (say ms st') = same_receiver st st'"
  "same_receiver (say ms st) st' = same_receiver st st'"
  "same_receiver st (st'\<lparr>datalen := n, mtuptr := i\<rparr>) = same_receiver st st'"
  by (simp_all add: same_receiver_def)

lemma same_receiver_trans: "same_receiver a b \<Longrightarrow> same_receiver b c \<Longrightarrow> same_receiver a c"
  by (simp add: same_receiver_def)

lemma same_receiver_reports [simp]:
  "same_receiver st (first_report v st') = same_receiver st st'"
  "same_receiver st (report_send r st') = same_receiver st st'"
  by (auto simp: first_report_def report_send_def same_receiver_def split: variant.split sent.split)

lemma reports_simps [simp]:
  "datalen (first_report v st) = datalen st" "datalen (report_send r st) = datalen st"
  "mtuptr (first_report v st) = mtuptr st" "mtuptr (report_send r st) = mtuptr st"
  "outpacket (first_report v st) = outpacket st" "outpacket (report_send r st) = outpacket st"
  by (auto simp: first_report_def report_send_def split: variant.split sent.split)

text \<open>An attempt succeeds whenever the block has room for the header and for \<open>datalen\<close> bytes.\<close>

definition roomy :: "trace \<Rightarrow> bool" where
  "roomy st \<longleftrightarrow> 40 \<le> length (outpacket st) \<and> 0 \<le> datalen st \<and> datalen st \<le> int (length (outpacket st))"

lemma attempt_run:
  assumes "roomy st"
  obtains pkt st' where "attempt v e K g seq ttl st = Some (sendto K (sends st) pkt, st')"
    "int (length pkt) = datalen st" "datalen st' = datalen st" "mtuptr st' = mtuptr st" "same_receiver st st'"
    "out st' = out st" "firsttime st' = firsttime st"
proof -
  obtain op where op: "fill_probe v e g seq ttl (gettimeofday K (ticks st)) (datalen st) (outpacket st) = Some op"
      "length op = length (outpacket st)"
    using assms fill_probe_Some unfolding roomy_def by blast
  show ?thesis
    by (rule that [of "take (nat (datalen st)) op" "st\<lparr>outpacket := op, ticks := ticks st + 1, sends := sends st + 1\<rparr>"])
      (use assms op in \<open>simp_all add: attempt_def roomy_def same_receiver_def min_absorb2 nat_le_iff\<close>)
qed

lemma send_probe_retry:
  "attempt v e K g seq ttl st = Some (Emsgsize, st1) \<Longrightarrow>
   next_mtu (say (if vflag g then [EmsgsizeFor (datalen st1)] else []) st1) = Some st2 \<Longrightarrow>
   send_probe v e K g seq ttl st = send_probe v e K g seq ttl st2"
  by (simp only: send_probe.simps [of v e K g seq ttl st]) simp

lemma send_probe_done:
  "attempt v e K g seq ttl st = Some (r, st1) \<Longrightarrow> r \<noteq> Emsgsize \<Longrightarrow>
   send_probe v e K g seq ttl st = Some (first_report v (report_send r st1))"
  by (simp only: send_probe.simps [of v e K g seq ttl st]) (simp split: sent.split)

section \<open>The search for an MTU\<close>

lemma mtus_at:
  assumes "0 \<le> i" "i < 18"
  shows "aget mtus i = Some (mtus ! nat i)" "0 \<le> mtus ! nat i" "mtus ! nat i \<le> 17914"
    "mtus ! nat 16 = 68" "mtus ! nat 17 = 0"
proof -
  have l: "nat i < length mtus" using assms by (simp add: mtus_def)
  have "\<forall>m \<in> set mtus. 0 \<le> m \<and> m \<le> 17914" by (simp add: mtus_def)
  then show "0 \<le> mtus ! nat i" "mtus ! nat i \<le> 17914" using nth_mem [OF l] by blast+
  show "aget mtus i = Some (mtus ! nat i)" using assms by (simp add: aget_def mtus_def)
qed (simp_all add: mtus_def)

text \<open>The invariant of the sending side on a path whose first link takes packets of \<open>M\<close> bytes.\<close>

definition mtu_inv :: "int \<Rightarrow> trace \<Rightarrow> bool" where
  "mtu_inv M st \<longleftrightarrow> roomy st \<and> 0 \<le> mtuptr st \<and>
     (datalen st \<le> M \<or> mtuptr st \<le> 16 \<and> 17914 \<le> length (outpacket st))"

lemma mtu_inv_step:
  assumes "mtu_inv M st" "68 \<le> M" "datalen st > M"
  obtains st' where "next_mtu st = Some st'" "mtu_inv M st'" "same_receiver st st'"
    "datalen st' = mtus ! nat (mtuptr st)" "mtuptr st' = mtuptr st + 1" "out st' = out st"
proof -
  have i: "0 \<le> mtuptr st" "mtuptr st \<le> 16" using assms by (auto simp: mtu_inv_def)
  moreover have "mtus ! nat (mtuptr st) \<le> M \<or> mtuptr st \<le> 15"
    using i mtus_at(4) [of 0] assms(2) by (cases "mtuptr st = 16") auto
  ultimately show ?thesis
    using assms mtus_at [of "mtuptr st"] that [of "st\<lparr>datalen := mtus ! nat (mtuptr st), mtuptr := mtuptr st + 1\<rparr>"]
    by (auto simp: next_mtu_def mtu_inv_def roomy_def)
qed

lemma mtu_inv_simps [simp]:
  "mtu_inv M (say ms st) = mtu_inv M st" "mtu_inv M (first_report v st) = mtu_inv M st"
  "mtu_inv M (report_send r st) = mtu_inv M st"
  by (simp_all add: mtu_inv_def roomy_def)

lemma mtu_inv_same:
  "same_receiver st st' \<Longrightarrow> datalen st' = datalen st \<Longrightarrow> mtuptr st' = mtuptr st \<Longrightarrow> mtu_inv M st' = mtu_inv M st"
  by (simp add: mtu_inv_def roomy_def same_receiver_def)

text \<open>A kernel that refuses as too long only packets of more than \<open>M\<close> bytes.\<close>

definition link_takes :: "kernel \<Rightarrow> int \<Rightarrow> bool" where
  "link_takes K M \<longleftrightarrow> 68 \<le> M \<and> (\<forall>n pkt. sendto K n pkt = Emsgsize \<longrightarrow> int (length pkt) > M)"

lemma send_probe_safe:
  assumes "link_takes K M" "mtu_inv M st"
  shows "\<exists>st'. send_probe v e K g seq ttl st = Some st' \<and> mtu_inv M st' \<and> same_receiver st st'"
  using assms
proof (induction v e K g seq ttl st rule: send_probe.induct)
  case (1 v e K g seq ttl st)
  from 1(3) have "roomy st" by (simp add: mtu_inv_def)
  then obtain pkt st1 where a: "attempt v e K g seq ttl st = Some (sendto K (sends st) pkt, st1)"
      "int (length pkt) = datalen st" "datalen st1 = datalen st" "mtuptr st1 = mtuptr st" "same_receiver st st1"
    by (rule attempt_run)
  from a have inv: "mtu_inv M st1" using 1(3) mtu_inv_same by blast
  show ?case
  proof (cases "sendto K (sends st) pkt = Emsgsize")
    case True
    let ?st1 = "say (if vflag g then [EmsgsizeFor (datalen st1)] else []) st1"
    have "int (length pkt) > M" "68 \<le> M" using 1(2) True by (auto simp: link_takes_def)
    then have "datalen ?st1 > M" "68 \<le> M" using a by auto
    then obtain st2 where st2: "next_mtu ?st1 = Some st2" "mtu_inv M st2" "same_receiver ?st1 st2"
      using inv mtu_inv_step [of M ?st1] by auto
    from 1(1) [OF a(1) refl True st2(1) 1(2) st2(2)] obtain st' where
        "send_probe v e K g seq ttl st2 = Some st'" "mtu_inv M st'" "same_receiver st2 st'" by auto
    moreover have "same_receiver st st2" using a(5) st2(3) same_receiver_trans by simp
    moreover have "send_probe v e K g seq ttl st = send_probe v e K g seq ttl st2"
      using a(1) True st2(1) by (simp add: send_probe_retry)
    ultimately show ?thesis using same_receiver_trans by metis
  next
    case False
    then show ?thesis using a inv by (simp add: send_probe_done)
  qed
qed

text \<open>The largest table entry from an index on that does not exceed \<open>M\<close>.\<close>

definition largest_mtu :: "nat \<Rightarrow> nat \<Rightarrow> int" where
  "largest_mtu M i = Max {m \<in> set (drop i mtus). m \<le> int M}"

lemma mtus_sorted: "sorted_wrt (>) mtus"
  by (simp add: mtus_def)

lemma largest_mtu_step:
  assumes "i < 18"
  shows "mtus ! i \<le> int M \<Longrightarrow> largest_mtu M i = mtus ! i"
    "mtus ! i > int M \<Longrightarrow> largest_mtu M i = largest_mtu M (Suc i)"
proof -
  have d: "drop i mtus = mtus ! i # drop (Suc i) mtus"
    using assms by (intro Cons_nth_drop_Suc [symmetric]) (simp add: mtus_def)
  moreover have "sorted_wrt (>) (drop i mtus)" by (simp add: mtus_sorted sorted_wrt_drop)
  ultimately have less: "\<forall>m \<in> set (drop (Suc i) mtus). m < mtus ! i" by simp
  show "largest_mtu M i = mtus ! i" if "mtus ! i \<le> int M"
    unfolding largest_mtu_def d using that less by (intro Max_eqI) auto
  show "largest_mtu M i = largest_mtu M (Suc i)" if "mtus ! i > int M"
  proof -
    have "{m \<in> set (drop i mtus). m \<le> int M} = {m \<in> set (drop (Suc i) mtus). m \<le> int M}"
      using that by (auto simp: d)
    then show ?thesis by (simp add: largest_mtu_def)
  qed
qed

lemma first_report_last: "firsttime st \<Longrightarrow> last (out (first_report Pmtu st)) = OutgoingMtu (datalen st)"
  by (simp add: first_report_def)

lemma attempt_too_long: "datalen st > int (length (outpacket st)) \<Longrightarrow> attempt v e K g seq ttl st = None"
proof -
  assume a: "datalen st > int (length (outpacket st))"
  have keep: "length b = length buf" if "poke i bs buf = Some b" for i bs buf b
    using that by (auto simp: poke_def split: if_splits)
  have "length op = length (outpacket st)"
    if "fill_probe v e g seq ttl tv (datalen st) (outpacket st) = Some op" for tv op
    using that by (auto simp: fill_probe_def Option.bind_eq_Some_conv dest!: keep)
  then show ?thesis using a
    by (cases "fill_probe v e g seq ttl (gettimeofday K (ticks st)) (datalen st) (outpacket st)")
      (auto simp: attempt_def bytes_of_def)
qed

lemma send_probe_too_long: "datalen st > int (length (outpacket st)) \<Longrightarrow> send_probe v e K g seq ttl st = None"
  by (simp add: send_probe.simps [of v e K g seq ttl st] attempt_too_long)

lemma length_mtus: "length mtus = 18"
  by (simp add: mtus_def)

lemma send_probe_search:
  assumes "\<And>n pkt. sendto K n pkt = (if M < length pkt then Emsgsize else Sent (length pkt))"
    and "roomy st" "0 \<le> mtuptr st"
    "datalen st \<le> int M \<or> mtuptr st \<le> 17 \<and> mtus ! nat (mtuptr st) \<le> int (length (outpacket st))"
  shows "\<exists>st'. send_probe v e K g seq ttl st = Some st' \<and> same_receiver st st' \<and>
    datalen st' = (if datalen st \<le> int M then datalen st else largest_mtu M (nat (mtuptr st))) \<and>
    (firsttime st \<and> v = Pmtu \<longrightarrow> last (out st') = OutgoingMtu (datalen st')) \<and> roomy st' \<and>
    (\<exists>ms. out st' = out st @ ms \<and> (\<forall>m \<in> set ms. \<exists>n. m = OutgoingMtu n \<or> vflag g \<and> m = EmsgsizeFor n))"
  using assms
proof (induction "nat (18 - mtuptr st)" arbitrary: st rule: less_induct)
  case less
  from less.prems(2) obtain pkt st1 where a: "attempt v e K g seq ttl st = Some (sendto K (sends st) pkt, st1)"
      "int (length pkt) = datalen st" "datalen st1 = datalen st" "mtuptr st1 = mtuptr st" "same_receiver st st1"
      "out st1 = out st" "firsttime st1 = firsttime st" by (rule attempt_run)
  show ?case
  proof (cases "datalen st \<le> int M")
    case True
    then have "sendto K (sends st) pkt = Sent (length pkt)" using less.prems(1) a(2) by simp
    then have "send_probe v e K g seq ttl st = Some (first_report v st1)"
      using a send_probe_done [of v e K g seq ttl st "Sent (length pkt)" st1] by (simp add: report_send_def)
    moreover have "roomy (first_report v st1)" using less.prems(2) a(3,5) by (simp add: roomy_def same_receiver_def)
    moreover have "\<exists>ms. out (first_report v st1) = out st1 @ ms \<and> (\<forall>m \<in> set ms. \<exists>n. m = OutgoingMtu n \<or> vflag g \<and> m = EmsgsizeFor n)"
      by (auto simp: first_report_def split: variant.split)
    ultimately show ?thesis using True a first_report_last by auto
  next
    case False
    let ?st1 = "say (if vflag g then [EmsgsizeFor (datalen st1)] else []) st1"
    let ?m = "mtus ! nat (mtuptr st)"
    define st2 where "st2 = ?st1\<lparr>datalen := ?m, mtuptr := mtuptr st + 1\<rparr>"
    have st2: "datalen st2 = ?m" "mtuptr st2 = mtuptr st + 1" "firsttime st2 = firsttime st"
        "length (outpacket st2) = length (outpacket st)" "same_receiver st st2"
        "out st2 = out st @ (if vflag g then [EmsgsizeFor (datalen st1)] else [])"
      using a(5-7) by (simp_all add: st2_def) (simp add: same_receiver_def)
    have r: "sendto K (sends st) pkt = Emsgsize" using False less.prems(1) a(2) by simp
    have i: "mtuptr st \<le> 17" "nat (mtuptr st) < 18" "nat (mtuptr st + 1) = Suc (nat (mtuptr st))"
      using False less.prems(3,4) by auto
    note m = mtus_at [of "mtuptr st"]
    have "next_mtu ?st1 = Some st2" using less.prems(3) i m a(4) by (simp add: next_mtu_def st2_def)
    then have step: "send_probe v e K g seq ttl st = send_probe v e K g seq ttl st2"
      using a(1) r by (simp add: send_probe_retry)
    have fits: "?m \<le> int (length (outpacket st))" using False less.prems(4) by simp
    have "?m \<le> int M \<or> mtuptr st + 1 \<le> 17 \<and> mtus ! nat (mtuptr st + 1) \<le> int (length (outpacket st2))"
    proof (cases "mtuptr st = 17")
      case True
      then show ?thesis using m i by simp
    next
      case False
      then have "mtus ! Suc (nat (mtuptr st)) < ?m"
        using i sorted_wrt_nth_less [OF mtus_sorted, of "nat (mtuptr st)" "Suc (nat (mtuptr st))"] length_mtus by simp
      then show ?thesis using fits False i st2(4) by simp
    qed
    moreover have "roomy st2" using less.prems(2,3) i st2 m fits by (simp add: roomy_def)
    ultimately obtain st' where st': "send_probe v e K g seq ttl st2 = Some st'" "same_receiver st2 st'"
        "datalen st' = (if ?m \<le> int M then ?m else largest_mtu M (nat (mtuptr st + 1)))"
        "firsttime st \<and> v = Pmtu \<longrightarrow> last (out st') = OutgoingMtu (datalen st')" "roomy st'"
        "\<exists>ms. out st' = out st2 @ ms \<and> (\<forall>m \<in> set ms. \<exists>n. m = OutgoingMtu n \<or> vflag g \<and> m = EmsgsizeFor n)"
      using less.hyps [of st2] less.prems(1,3) i(1) by (simp only: st2) auto
    have "datalen st' = largest_mtu M (nat (mtuptr st))"
      using st'(3) largest_mtu_step [OF i(2), of M] i(3) by auto
    moreover have "same_receiver st st'" using st2(5) st'(2) by (rule same_receiver_trans)
    moreover obtain ms where "out st' = out st2 @ ms" "\<forall>m \<in> set ms. \<exists>n. m = OutgoingMtu n \<or> vflag g \<and> m = EmsgsizeFor n"
      using st'(6) by blast
    then have "\<exists>ms. out st' = out st @ ms \<and> (\<forall>m \<in> set ms. \<exists>n. m = OutgoingMtu n \<or> vflag g \<and> m = EmsgsizeFor n)"
      using st2(6) by (intro exI [of _ "(if vflag g then [EmsgsizeFor (datalen st1)] else []) @ ms"]) auto
    ultimately show ?thesis using step st'(1,4,5) False by auto
  qed
qed

lemma send_probe_overreads:
  assumes "\<And>n pkt. sendto K n pkt = (if M < length pkt then Emsgsize else Sent (length pkt))"
    and "roomy st" "0 \<le> mtuptr st" "mtuptr st \<le> 17" "int M < datalen st"
    and "int (length (outpacket st)) < mtus ! nat (mtuptr st)"
  shows "send_probe v e K g seq ttl st = None"
proof -
  obtain pkt st1 where a: "attempt v e K g seq ttl st = Some (sendto K (sends st) pkt, st1)"
      "int (length pkt) = datalen st" "datalen st1 = datalen st" "mtuptr st1 = mtuptr st" "same_receiver st st1"
    using assms(2) by (rule attempt_run) blast
  then have r: "sendto K (sends st) pkt = Emsgsize" using assms(1,5) by simp
  let ?st1 = "say (if vflag g then [EmsgsizeFor (datalen st1)] else []) st1"
  obtain st2 where n: "next_mtu ?st1 = Some st2" "datalen st2 = mtus ! nat (mtuptr st)" "outpacket st2 = outpacket st1"
    using assms(3,4) mtus_at [of "mtuptr st"] a(4) by (simp add: next_mtu_def)
  have "send_probe v e K g seq ttl st2 = None"
    by (rule send_probe_too_long) (use n a(5) assms(6) in \<open>simp add: same_receiver_def\<close>)
  then show ?thesis using send_probe_retry [OF a(1) [unfolded r] n(1)] by simp
qed



section \<open>frag_err\<close>

lemma mtu_index_run:
  assumes "0 \<le> i" "i \<le> 17"
  obtains r where "mtu_index m i = Some r"
    "\<And>j. r = Some j \<Longrightarrow> i \<le> j \<and> j \<le> 16 \<and> mtus ! nat j = m"
    "r = None \<Longrightarrow> m > 0 \<Longrightarrow> m \<notin> set (drop (nat i) mtus)"
  using assms
proof (induction "nat (17 - i)" arbitrary: i thesis rule: less_induct)
  case less
  note m = mtus_at [of i]
  have d: "drop (nat i) mtus = mtus ! nat i # drop (nat (i + 1)) mtus"
    using less.prems Cons_nth_drop_Suc [of "nat i" mtus] by (simp add: mtus_def nat_add_distrib)
  show ?case
  proof (cases "i = 17")
    case True
    then have "mtu_index m i = Some None" using m by (subst mtu_index.simps) simp
    moreover have "drop (nat i) mtus = [0]" using True by (simp add: mtus_def)
    ultimately show ?thesis by (intro less.prems(1)) auto
  next
    case False
    then have i: "0 \<le> i" "i \<le> 16" using less.prems by auto
    then have pos: "mtus ! nat i > 0" using sorted_wrt_nth_less [OF mtus_sorted, of "nat i" 17] m by (simp add: mtus_def)
    show ?thesis
    proof (cases "mtus ! nat i = m")
      case True
      then have "mtu_index m i = Some (Some i)" using i m pos by (simp add: mtu_index.simps [of m i])
      then show ?thesis using i True by (intro less.prems(1)) auto
    next
      case False
      then have step: "mtu_index m i = mtu_index m (i + 1)" using i m pos by (simp add: mtu_index.simps [of m i])
      show ?thesis
        by (rule less.hyps [of "i + 1"]) (use i False step d in \<open>auto intro!: less.prems(1)\<close>)
    qed
  qed
qed

text \<open>A next-hop MTU is adopted, with the table pointer behind its entry if it has one; a router that
  gives none makes the program take the next table entry.\<close>

lemma frag_err_next_hop:
  assumes "nextmtu st > 0"
  obtains st' where "frag_err st = Some st'" "same_receiver st st'" "datalen st' = nextmtu st"
    "if nextmtu st \<in> set mtus then 1 \<le> mtuptr st' \<and> mtuptr st' \<le> 17 \<and> mtus ! nat (mtuptr st' - 1) = nextmtu st
     else mtuptr st' = mtuptr st"
proof -
  obtain r where r: "mtu_index (nextmtu st) 0 = Some r"
      "\<And>j. r = Some j \<Longrightarrow> 0 \<le> j \<and> j \<le> 16 \<and> mtus ! nat j = nextmtu st"
      "r = None \<Longrightarrow> nextmtu st > 0 \<Longrightarrow> nextmtu st \<notin> set (drop (nat 0) mtus)"
    by (rule mtu_index_run [of 0 "nextmtu st"]) auto
  have "nextmtu st \<in> set mtus" if "r = Some j" for j
    using r(2) [OF that] nth_mem [of "nat j" mtus] length_mtus by auto
  then show ?thesis
    using assms r by (intro that [of "the (frag_err st)"]) (auto simp: frag_err_def Let_def same_receiver_def split: option.split)
qed

lemma frag_err_table:
  assumes "nextmtu st \<le> 0" "0 \<le> mtuptr st" "mtuptr st \<le> 17"
  obtains st' where "frag_err st = Some st'" "same_receiver st st'" "datalen st' = mtus ! nat (mtuptr st)"
    "mtuptr st' = mtuptr st + 1" "out st' = out st @ [FragTrying (mtus ! nat (mtuptr st))]"
  using assms mtus_at [of "mtuptr st"] by (intro that [of "the (frag_err st)"]) (auto simp: frag_err_def next_mtu_def)

lemma frag_err_past_table: "nextmtu st \<le> 0 \<Longrightarrow> mtuptr st \<ge> 18 \<Longrightarrow> frag_err st = None"
  by (simp add: frag_err_def next_mtu_def aget_def mtus_def)

end
