(* ===== verification/Trace_Reply.thy ===== *)
theory Trace_Reply
  imports Trace_Probe C_Input
begin

text \<open>
  The receiving side of \<^verbatim>\<open>tcpipi/traceroute\<close>: \<^verbatim>\<open>wait_for_reply\<close>, \<^verbatim>\<open>packet_ok\<close>, which decides
  whether an ICMP message answers the current probe, \<^verbatim>\<open>print\<close> and \<^verbatim>\<open>inetname\<close>, and the round trip
  time.  The receive buffer is the byte list \<open>packet\<close> of length 512; bytes behind the received
  message keep their old values.
\<close>

section \<open>wait_for_reply\<close>

text \<open>What one call of \<^verbatim>\<open>select\<close> followed by \<^verbatim>\<open>recvfrom\<close> gives: no descriptor ready within the
  waiting time (or an error of \<^verbatim>\<open>select\<close>), an error of \<^verbatim>\<open>recvfrom\<close>, or a message and its sender.  A
  message longer than the buffer is cut off by the kernel.\<close>

datatype answer = NotReady | RecvFailed | Received u32 "u8 list"

definition packet_size :: nat where
  "packet_size = 512"

fun wait_for_reply :: "answer \<Rightarrow> trace \<Rightarrow> int \<times> trace" where
  "wait_for_reply NotReady st = (0, st)"
| "wait_for_reply RecvFailed st = (- 1, st)"
| "wait_for_reply (Received a bs) st =
     (let got = take packet_size bs in
      (int (length got), st\<lparr>packet := got @ drop (length got) (packet st), from_addr := Some a\<rparr>))"

section \<open>Round trip time\<close>

text \<open>Seconds, microseconds and milliseconds are signed numbers; a result that does not fit 32 bits is
  undefined.\<close>

definition signed32 :: "int \<Rightarrow> int option" where
  "signed32 v = (if - (2 ^ 31) \<le> v \<and> v < 2 ^ 31 then Some v else None)"

fun tvsub :: "int \<times> int \<Rightarrow> int \<times> int \<Rightarrow> (int \<times> int) option" where
  "tvsub (out_sec, out_usec) (in_sec, in_usec) = do {
     out_usec \<leftarrow> signed32 (out_usec - in_usec);
     (out_sec, out_usec) \<leftarrow>
       (if out_usec < 0 then do {
          out_sec \<leftarrow> signed32 (out_sec - 1);
          out_usec \<leftarrow> signed32 (out_usec + 1000000);
          Some (out_sec, out_usec)
        } else Some (out_sec, out_usec));
     out_sec \<leftarrow> signed32 (out_sec - in_sec);
     Some (out_sec, out_usec)
   }"

definition deltaT :: "kernel \<Rightarrow> int \<times> int \<Rightarrow> trace \<Rightarrow> (int \<times> trace) option" where
  "deltaT K tp st = do {
     (tv_sec, tv_usec) \<leftarrow> tvsub (gettimeofday K (ticks st)) tp;
     ms \<leftarrow> signed32 (tv_sec * 1000);
     us \<leftarrow> signed32 (tv_usec + 500);
     dt \<leftarrow> signed32 (ms + us sdiv 1000);
     Some (dt, st\<lparr>ticks := ticks st + 1\<rparr>)
   }"

section \<open>packet_ok\<close>

definition ttab :: "string list" where
  "ttab = [''Echo Reply'', ''ICMP 1'', ''ICMP 2'', ''Dest Unreachable'',
           ''Source Quench'', ''Redirect'', ''ICMP 6'', ''ICMP 7'',
           ''Echo'', ''ICMP 9'', ''ICMP 10'', ''Time Exceeded'',
           ''Param Problem'', ''Timestamp'', ''Timestamp Reply'', ''Info Request'',
           ''Info Reply'']"

definition pr_type :: "u8 \<Rightarrow> string option" where
  "pr_type t = (if t > 16 then Some ''OUT-OF-RANGE'' else aget ttab (uint t))"

definition ICMP_UNREACH :: u8 where
  "ICMP_UNREACH = 3"

definition ICMP_TIMXCEED :: u8 where
  "ICMP_TIMXCEED = 11"

text \<open>The test that the quoted datagram is the current probe: its operands are evaluated from left to
  right and only as far as needed.\<close>

definition quotes_probe :: "host \<Rightarrow> settings \<Rightarrow> u8 list \<Rightarrow> int \<Rightarrow> int \<Rightarrow> int \<Rightarrow> bool option" where
  "quotes_probe e g buf icp cc seq = do {
     b \<leftarrow> rd8 buf (icp + 8);
     let hlen = int (unat b mod 16) * 4;
     let up = icp + 8 + hlen;
     if \<not> hlen + 12 \<le> cc then Some False
     else do {
       ip_p \<leftarrow> rd8 buf (icp + 8 + 9);
       if ip_p \<noteq> 17 then Some False
       else do {
         uh_sport \<leftarrow> rd16 e buf up;
         if uh_sport \<noteq> htons e (ident g) then Some False
         else do {
           uh_dport \<leftarrow> rd16 e buf (up + 2);
           Some (uh_dport = htons e (word_of_int (uint (port g) + seq)))
         }
       }
     }
   }"

text \<open>The loop of the verbose dump.\<close>

function dump_words :: "host \<Rightarrow> u8 list \<Rightarrow> int \<Rightarrow> int \<Rightarrow> int \<Rightarrow> msg list \<Rightarrow> msg list option" where
  "dump_words e buf lp i cc ms =
     (if i < cc
      then (case rd32 e buf lp of None \<Rightarrow> None | Some w \<Rightarrow> dump_words e buf (lp + 4) (i + 4) cc (ms @ [DumpWord i w]))
      else Some ms)"
  by pat_completeness auto
termination
  by (relation "measure (\<lambda>(e, buf, lp, i, cc, ms). nat (cc - i))") auto

declare dump_words.simps [simp del]

definition dump :: "host \<Rightarrow> u8 list \<Rightarrow> int \<Rightarrow> int \<Rightarrow> u8 \<Rightarrow> u8 \<Rightarrow> trace \<Rightarrow> trace option" where
  "dump e buf icp cc ty code st = do {
     a \<leftarrow> from_addr st;
     dst \<leftarrow> rd32 e buf 16;
     name \<leftarrow> pr_type ty;
     ws \<leftarrow> dump_words e buf (icp + 8) 4 cc [];
     Some (say (Dump cc a dst ty name code # ws) st)
   }"

definition packet_ok :: "host \<Rightarrow> settings \<Rightarrow> int \<Rightarrow> int \<Rightarrow> trace \<Rightarrow> (int \<times> trace) option" where
  "packet_ok e g cc seq st = do {
     let buf = packet st;
     b \<leftarrow> rd8 buf 0;
     let hlen = int (unat b mod 16) * 4;
     if cc < hlen + ICMP_MINLEN then
       (if vflag g then do {
          a \<leftarrow> from_addr st;
          Some (0, say [TooShort cc a] st)
        } else Some (0, st))
     else do {
       let cc = cc - hlen;
       let icp = hlen;
       ty \<leftarrow> rd8 buf icp;
       code \<leftarrow> rd8 buf (icp + 1);
       (ours, st) \<leftarrow>
         (if (ty = ICMP_TIMXCEED \<and> code = 0) \<or> ty = ICMP_UNREACH then do {
            void \<leftarrow> rd32 e buf (icp + 4);
            ours \<leftarrow> quotes_probe e g buf icp cc seq;
            Some (ours, st\<lparr>nextmtu := sint (htonl e void)\<rparr>)
          } else Some (False, st));
       if ours then Some (if ty = ICMP_TIMXCEED then - 1 else uint code + 1, st)
       else if vflag g then do {
         st \<leftarrow> dump e buf icp cc ty code st;
         Some (0, st)
       } else Some (0, st)
     }
   }"

section \<open>inetname and print\<close>

definition line_size :: nat where
  "line_size = 50"

text \<open>\<^verbatim>\<open>index(s, '.')\<close>: the text before and after the first period.\<close>

fun split_dot :: "string \<Rightarrow> (string \<times> string) option" where
  "split_dot [] = None"
| "split_dot (c # cs) =
     (if c = CHR ''.'' then Some ([], cs)
      else (case split_dot cs of None \<Rightarrow> None | Some (a, b) \<Rightarrow> Some (c # a, b)))"

text \<open>The domain is moved to the front of the buffer with \<^verbatim>\<open>strcpy\<close>, whose strings may not overlap: the domain
  with its final zero must not be longer than the part before it, the period included.\<close>

definition local_domain :: "kernel \<Rightarrow> string option" where
  "local_domain K =
     (case gethostname K of
        None \<Rightarrow> Some ''''
      | Some n \<Rightarrow> (case split_dot n of None \<Rightarrow> Some '''' | Some (h, d) \<Rightarrow> if length d \<le> length h then Some d else None))"

definition dotted :: "u32 \<Rightarrow> string" where
  "dotted a =
     (let n = unat a in
      show_nat (n div 2 ^ 24 mod 256) @ ''.'' @ show_nat (n div 2 ^ 16 mod 256) @ ''.'' @
      show_nat (n div 2 ^ 8 mod 256) @ ''.'' @ show_nat (n mod 256))"

text \<open>The local domain is cut off a host name.\<close>

definition strip_domain :: "string \<Rightarrow> string \<Rightarrow> string" where
  "strip_domain d name = (case split_dot name of Some (h, d') \<Rightarrow> if d' = d then h else name | None \<Rightarrow> name)"

definition inetname :: "host \<Rightarrow> kernel \<Rightarrow> settings \<Rightarrow> u32 \<Rightarrow> trace \<Rightarrow> (string \<times> trace) option" where
  "inetname e K g a st = do {
     st \<leftarrow>
       (if first st \<and> \<not> nflag g then do {
          d \<leftarrow> local_domain K;
          Some (st\<lparr>first := False, domain := d\<rparr>)
        } else Some st);
     let cp = (if \<not> nflag g \<and> a \<noteq> 0 then map_option (strip_domain (domain st)) (gethostbyaddr K a) else None);
     let text = (case cp of Some name \<Rightarrow> name | None \<Rightarrow> dotted (ntohl e a));
     if length text < line_size then Some (text, st) else None
   }"

text \<open>The name that is shown; without one the message has the empty string.\<close>

definition print_reply :: "host \<Rightarrow> kernel \<Rightarrow> settings \<Rightarrow> int \<Rightarrow> u32 \<Rightarrow> trace \<Rightarrow> trace option" where
  "print_reply e K g cc a st = do {
     b \<leftarrow> rd8 (packet st) 0;
     let cc = cc - int (unat b mod 16) * 4;
     (name, st) \<leftarrow> (if nflag g then Some ('''', st) else inetname e K g a st);
     let st = say [Host name a] st;
     if vflag g then do {
       dst \<leftarrow> rd32 e (packet st) 16;
       Some (say [ToHost cc dst] st)
     } else Some st
   }"

section \<open>Which messages are answers\<close>

text \<open>The declarative counterpart of \<^verbatim>\<open>packet_ok\<close>, in terms of network byte order: a message of
  \<open>cc\<close> bytes at the start of the buffer is the time exceeded or unreachable error of a UDP datagram
  with our identifier as source port and the port of probe \<open>seq\<close> as destination.\<close>

definition icmp_part :: "u8 list \<Rightarrow> u8 list" where
  "icmp_part buf = drop (nat (hdr_len buf)) buf"

definition quoted_part :: "u8 list \<Rightarrow> u8 list" where
  "quoted_part buf = drop 8 (icmp_part buf)"

definition is_error :: "u8 list \<Rightarrow> bool" where
  "is_error buf \<longleftrightarrow> icmp_part buf ! 0 = 11 \<and> icmp_part buf ! 1 = 0 \<or> icmp_part buf ! 0 = 3"

definition quotes :: "settings \<Rightarrow> int \<Rightarrow> u8 list \<Rightarrow> bool" where
  "quotes g seq q \<longleftrightarrow> q ! 9 = 17 \<and> rd16 BigEndian q (hdr_len q) = Some (ident g) \<and>
     rd16 BigEndian q (hdr_len q + 2) = Some (word_of_int (uint (port g) + seq))"

definition accepts :: "settings \<Rightarrow> int \<Rightarrow> int \<Rightarrow> u8 list \<Rightarrow> bool" where
  "accepts g seq cc buf \<longleftrightarrow> hdr_len buf + 8 \<le> cc \<and> is_error buf \<and>
     hdr_len buf + hdr_len (quoted_part buf) + 12 \<le> cc \<and> quotes g seq (quoted_part buf)"

text \<open>The value of \<^verbatim>\<open>packet_ok\<close> for an answer.\<close>

definition verdict :: "u8 list \<Rightarrow> int" where
  "verdict buf = (if icmp_part buf ! 0 = 11 then - 1 else uint (icmp_part buf ! 1) + 1)"

lemma put16_val16: "put16 e (of_nat (val16 e a b)) = [a, b]"
proof -
  have "unat a < 256" "unat b < 256" using unsigned_less [of a, where 'a = nat] unsigned_less [of b, where 'a = nat] by auto
  then show ?thesis
    using unat_u16_of_nat [OF val16_bound [of e a b]] by (cases e) (auto simp: unat_u16_of_nat)
qed

lemma put16_inject: "put16 e v = put16 e w \<longleftrightarrow> v = w"
proof
  assume "put16 e v = put16 e w"
  then have "rd16 e (put16 e v @ []) 0 = rd16 e (put16 e w @ []) 0" by (simp only:)
  then show "v = w" by (simp only: rd_here option.inject)
qed (simp only:)

lemma val16_network: "of_nat (val16 e a b) = htons e w \<longleftrightarrow> of_nat (val16 BigEndian a b) = w"
proof -
  have "of_nat (val16 e a b) = htons e w \<longleftrightarrow> put16 e (of_nat (val16 e a b)) = put16 e (htons e w)"
    by (rule put16_inject [symmetric])
  also have "\<dots> \<longleftrightarrow> put16 BigEndian (of_nat (val16 BigEndian a b)) = put16 BigEndian w"
    unfolding put16_val16 put16_htons ..
  finally show ?thesis unfolding put16_inject .
qed

lemma rd16_network: "rd16 e buf i = Some (htons e w) \<longleftrightarrow> rd16 BigEndian buf i = Some w"
proof (cases "rd8 buf i")
  case (Some a)
  then show ?thesis by (cases "rd8 buf (i + 1)") (simp_all only: rd16_def Option.bind.simps option.inject val16_network option.distinct)
qed (simp add: rd16_def)

lemma rd8_at: "0 \<le> i \<Longrightarrow> i < int (length buf) \<Longrightarrow> rd8 buf i = Some (buf ! nat i)"
  by (simp add: rd8_def)

lemma rd_drop:
  assumes "0 \<le> i" "n \<le> length buf"
  shows "rd8 buf (int n + i) = rd8 (drop n buf) i" "rd16 e buf (int n + i) = rd16 e (drop n buf) i"
    "rd32 e buf (int n + i) = rd32 e (drop n buf) i"
  using rd_skip [of "take n buf" "int n + i", where r = "drop n buf"] assms by (simp_all add: min_absorb2)

text \<open>In a buffer of 512 bytes the fields looked at are in range.\<close>

lemma header_reads:
  assumes "length buf = 512"
  shows "rd8 buf 0 = Some (buf ! 0)" "int (unat (buf ! 0) mod 16) * 4 = hdr_len buf"
    "rd8 buf (hdr_len buf) = Some (icmp_part buf ! 0)" "rd8 buf (hdr_len buf + 1) = Some (icmp_part buf ! 1)"
    "rd8 buf (hdr_len buf + 8) = Some (quoted_part buf ! 0)"
    "rd8 buf (17 + hdr_len buf) = Some (quoted_part buf ! 9)"
    "int (unat (quoted_part buf ! 0) mod 16) * 4 = hdr_len (quoted_part buf)"
proof -
  note h = hdr_len_range [of buf]
  show "rd8 buf 0 = Some (buf ! 0)" using assms by (simp add: rd8_at)
  show "int (unat (buf ! 0) mod 16) * 4 = hdr_len buf" by (simp add: hdr_len_def)
  show "int (unat (quoted_part buf ! 0) mod 16) * 4 = hdr_len (quoted_part buf)" by (simp add: hdr_len_def)
  show "rd8 buf (hdr_len buf) = Some (icmp_part buf ! 0)" "rd8 buf (hdr_len buf + 1) = Some (icmp_part buf ! 1)"
    "rd8 buf (hdr_len buf + 8) = Some (quoted_part buf ! 0)"
    "rd8 buf (17 + hdr_len buf) = Some (quoted_part buf ! 9)"
    using assms h by (simp_all add: rd8_at icmp_part_def quoted_part_def nat_add_distrib add.commute)
qed

lemma quoted_reads:
  assumes "length buf = 512" "0 \<le> i"
  shows "rd16 e buf (hdr_len buf + 8 + i) = rd16 e (quoted_part buf) i"
proof -
  have "hdr_len buf + 8 = int (nat (hdr_len buf) + 8)" using hdr_len_range [of buf] by simp
  moreover have "nat (hdr_len buf) + 8 \<le> length buf" using hdr_len_range [of buf] assms by simp
  ultimately show ?thesis
    using rd_drop(2) [OF assms(2), of "nat (hdr_len buf) + 8" buf e] by (simp add: quoted_part_def icmp_part_def add.commute)
qed

lemma rd_Some_iff:
  assumes "0 \<le> i"
  shows "rd16 e buf i \<noteq> None \<longleftrightarrow> i + 2 \<le> int (length buf)" "rd32 e buf i \<noteq> None \<longleftrightarrow> i + 4 \<le> int (length buf)"
  using assms by (auto simp: rd16_def rd32_def rd8_def aget_def split: if_splits)

lemma quotes_probe_run:
  assumes "length buf = 512" "cc \<le> 512 - hdr_len buf"
  shows "quotes_probe e g buf (hdr_len buf) cc seq =
    Some (hdr_len (quoted_part buf) + 12 \<le> cc \<and> quotes g seq (quoted_part buf))"
proof (cases "hdr_len (quoted_part buf) + 12 \<le> cc")
  case True
  let ?q = "quoted_part buf"
  have q: "0 \<le> hdr_len ?q" by (rule hdr_len_range)
  have up: "rd16 e buf (hdr_len buf + 8 + hdr_len ?q) = rd16 e ?q (hdr_len ?q)"
    "rd16 e buf (hdr_len buf + 8 + hdr_len ?q + 2) = rd16 e ?q (hdr_len ?q + 2)"
    using quoted_reads [OF assms(1), of "hdr_len ?q" e] quoted_reads [OF assms(1), of "hdr_len ?q + 2" e] q
    by (simp_all add: add.assoc)
  have "rd16 e buf (hdr_len buf + 8 + hdr_len ?q) \<noteq> None" "rd16 e buf (hdr_len buf + 8 + hdr_len ?q + 2) \<noteq> None"
    using True q hdr_len_range [of buf] assms by (simp_all only: rd_Some_iff)
  then obtain sp dp where sp: "rd16 e ?q (hdr_len ?q) = Some sp" "rd16 e ?q (hdr_len ?q + 2) = Some dp"
    unfolding up by auto
  have "hdr_len buf + 8 + hdr_len ?q + 2 = 10 + (hdr_len buf + hdr_len ?q)" by simp
  then have dp: "rd16 e buf (10 + (hdr_len buf + hdr_len ?q)) = Some dp" using up(2) sp(2) by (simp only:)
  note n = rd16_network [of e ?q "hdr_len ?q" "ident g"]
    rd16_network [of e ?q "hdr_len ?q + 2" "word_of_int (uint (port g) + seq)"]
  show ?thesis
    using True n by (auto simp: quotes_probe_def quotes_def header_reads [OF assms(1)] up(1) dp sp Let_def)
next
  case False
  then show ?thesis by (simp add: quotes_probe_def header_reads [OF assms(1)] Let_def)
qed

section \<open>packet_ok\<close>

lemma dump_words_range:
  assumes "length buf = 512" "0 \<le> lp" "lp mod 4 = 0"
  shows "dump_words e buf lp i cc ms \<noteq> None \<longleftrightarrow> cc \<le> i \<or> lp + (cc - i) \<le> 512"
  using assms
proof (induction e buf lp i cc ms rule: dump_words.induct)
  case (1 e buf lp i cc ms)
  show ?case
  proof (cases "i < cc")
    case True
    show ?thesis
    proof (cases "lp + 4 \<le> 512")
      case False
      then have "\<not> lp < 512" using 1(4) by presburger
      moreover have "rd32 e buf lp = None" using rd_Some_iff(2) [OF 1(3), of e buf] False 1(2) by auto
      ultimately show ?thesis using True by (simp add: dump_words.simps [of e buf lp])
    next
      case inside: True
      then obtain w where w: "rd32 e buf lp = Some w" using rd_Some_iff(2) [OF 1(3), of e buf] 1(2) by auto
      have "dump_words e buf (lp + 4) (i + 4) cc (ms @ [DumpWord i w]) \<noteq> None \<longleftrightarrow>
          cc \<le> i + 4 \<or> lp + 4 + (cc - (i + 4)) \<le> 512"
        by (rule 1(1) [OF True w]) (use 1 in auto)
      moreover have "dump_words e buf lp i cc ms = dump_words e buf (lp + 4) (i + 4) cc (ms @ [DumpWord i w])"
        using True w by (simp add: dump_words.simps [of e buf lp])
      ultimately show ?thesis using True inside by auto
    qed
  qed (simp add: dump_words.simps [of e buf lp])
qed

lemma pr_type_Some: "\<exists>name. pr_type t = Some name"
proof (cases "t > 16")
  case False
  then have "uint t \<le> 16" by (simp add: word_less_def not_less)
  then show ?thesis by (simp add: pr_type_def ttab_def)
qed (simp add: pr_type_def)

text \<open>The part of the state that \<^verbatim>\<open>packet_ok\<close> leaves alone.\<close>

definition same_sender :: "trace \<Rightarrow> trace \<Rightarrow> bool" where
  "same_sender st st' \<longleftrightarrow> (\<exists>n ms. st' = st\<lparr>nextmtu := n, out := out st @ ms\<rparr>)"

lemma dump_run:
  assumes "length buf = 512" "from_addr st = Some a" "8 \<le> cc"
  shows "if hdr_len buf + cc \<le> 508 then \<exists>ms. dump e buf (hdr_len buf) cc ty code st = Some (say ms st)
    else dump e buf (hdr_len buf) cc ty code st = None"
proof -
  obtain name where name: "pr_type ty = Some name" using pr_type_Some by blast
  obtain dst where dst: "rd32 e buf 16 = Some dst" using rd_Some_iff(2) [of 16 e buf] assms(1) by auto
  have "dump_words e buf (hdr_len buf + 8) 4 cc [] \<noteq> None \<longleftrightarrow> cc \<le> 4 \<or> hdr_len buf + 8 + (cc - 4) \<le> 512"
    by (rule dump_words_range) (use assms hdr_len_range [of buf] in \<open>auto simp: hdr_len_def\<close>)
  then have "dump_words e buf (hdr_len buf + 8) 4 cc [] \<noteq> None \<longleftrightarrow> hdr_len buf + cc \<le> 508" using assms(3) by auto
  then show ?thesis
    using assms(2) name dst by (cases "dump_words e buf (hdr_len buf + 8) 4 cc []") (auto simp: dump_def)
qed

lemma put32_surj:
  assumes "length bs = 4"
  obtains w where "put32 e w = bs"
proof -
  obtain a b c d where bs: "bs = [a, b] @ [c, d]"
    using assms by (auto simp: length_Suc_conv numeral_eq_Suc)
  have halves: "put32 e (join32 e x y) = put16 e x @ put16 e y" for x y
    using unat_u32_of_halves [OF unat_u16_bound [of x] unat_u16_bound [of y]]
      unat_u32_of_halves [OF unat_u16_bound [of y] unat_u16_bound [of x]]
      unat_u16_bound [of x] unat_u16_bound [of y]
    by (cases e) (simp_all add: add.commute del: put16.simps of_nat_add of_nat_mult)
  show ?thesis
    by (rule that [of "join32 e (of_nat (val16 e a b)) (of_nat (val16 e c d))"]) (simp only: halves put16_val16 bs)
qed

lemma rd32_network_order:
  assumes "0 \<le> i" "i + 4 \<le> int (length buf)"
  obtains w where "rd32 e buf i = Some w" "rd32 BigEndian buf i = Some (htonl e w)"
proof -
  have "length (take 4 (drop (nat i) buf)) = 4" using assms by simp
  then obtain w where w: "put32 e w = take 4 (drop (nat i) buf)" by (rule put32_surj)
  have "buf = take (nat i) buf @ take 4 (drop (nat i) buf) @ drop 4 (drop (nat i) buf)"
    by (simp only: append_take_drop_id)
  then have buf: "buf = take (nat i) buf @ put32 e w @ drop 4 (drop (nat i) buf)" by (simp only: w)
  moreover have "put32 e w = put32 BigEndian (htonl e w)" using put32_htonl [of e "htonl e w"] by (simp only: htonl_htonl)
  ultimately have "buf = take (nat i) buf @ put32 BigEndian (htonl e w) @ drop 4 (drop (nat i) buf)" by (simp only:)
  moreover have "i = int (length (take (nat i) buf))" using assms by simp
  ultimately show ?thesis using that buf rd32_put32 by metis
qed

text \<open>The next-hop MTU that a router puts into the second word of the ICMP message.\<close>

definition mtu_field :: "u8 list \<Rightarrow> int" where
  "mtu_field buf = sint (the (rd32 BigEndian buf (hdr_len buf + 4)))"

text \<open>For a message with a complete ICMP header, \<^verbatim>\<open>packet_ok\<close> is the choice between an answer, the
  verbose dump and silence.\<close>

definition noted_mtu :: "trace \<Rightarrow> trace" where
  "noted_mtu st = (if is_error (packet st) then st\<lparr>nextmtu := mtu_field (packet st)\<rparr> else st)"

lemma packet_ok_choice:
  assumes "length (packet st) = 512" "cc \<le> 512" "hdr_len (packet st) + 8 \<le> cc"
  shows "packet_ok e g cc seq st =
    (if accepts g seq cc (packet st) then Some (verdict (packet st), noted_mtu st)
     else if vflag g then
       map_option (Pair 0) (dump e (packet st) (hdr_len (packet st)) (cc - hdr_len (packet st))
         (icmp_part (packet st) ! 0) (icmp_part (packet st) ! 1) (noted_mtu st))
     else Some (0, noted_mtu st))"
proof -
  note rd = header_reads [OF assms(1)]
  let ?b = "packet st" and ?h = "hdr_len (packet st)"
  obtain w where w: "rd32 e ?b (?h + 4) = Some w" "rd32 BigEndian ?b (?h + 4) = Some (htonl e w)"
    by (rule rd32_network_order [of "?h + 4" ?b e]) (use assms hdr_len_range [of ?b] in auto)
  then have "sint (htonl e w) = mtu_field ?b" by (simp add: mtu_field_def)
  moreover have "quotes_probe e g ?b ?h (cc - ?h) seq =
      Some (hdr_len (quoted_part ?b) + 12 \<le> cc - ?h \<and> quotes g seq (quoted_part ?b))"
    by (rule quotes_probe_run) (use assms in auto)
  ultimately show ?thesis
    using assms(3) rd w
    by (cases "is_error ?b"; cases "accepts g seq cc ?b")
      (auto simp: packet_ok_def noted_mtu_def is_error_def accepts_def verdict_def ICMP_MINLEN_def ICMP_TIMXCEED_def
        ICMP_UNREACH_def Let_def algebra_simps map_option_case split: option.splits)
qed

lemma packet_ok_short:
  assumes "length (packet st) = 512" "cc < hdr_len (packet st) + 8" "vflag g \<Longrightarrow> from_addr st \<noteq> None"
  shows "packet_ok e g cc seq st =
    Some (0, if vflag g then say [TooShort cc (the (from_addr st))] st else st)"
  using header_reads [OF assms(1)] assms by (auto simp: packet_ok_def ICMP_MINLEN_def Let_def)

lemma verdict_nonzero [simp]: "verdict buf \<noteq> 0"
proof -
  have "uint (icmp_part buf ! 1) + 1 \<noteq> 0" using uint_ge_0 [of "icmp_part buf ! 1"] by linarith
  then show ?thesis by (simp add: verdict_def)
qed

lemma noted_mtu_sender: "same_sender st (noted_mtu st)"
proof -
  have "st = st\<lparr>nextmtu := nextmtu st, out := out st @ []\<rparr>" by simp
  moreover have "st\<lparr>nextmtu := n\<rparr> = st\<lparr>nextmtu := n, out := out st @ []\<rparr>" for n by simp
  ultimately show ?thesis unfolding same_sender_def noted_mtu_def by metis
qed

lemma noted_mtu_simps [simp]: "from_addr (noted_mtu st) = from_addr st" "packet (noted_mtu st) = packet st"
  "out (noted_mtu st) = out st"
  by (simp_all add: noted_mtu_def)

lemma same_sender_say: "same_sender st st' \<Longrightarrow> same_sender st (say ms st')"
proof -
  have "say ms (st\<lparr>nextmtu := n, out := out st @ ms'\<rparr>) = st\<lparr>nextmtu := n, out := out st @ (ms' @ ms)\<rparr>" for n ms'
    by (simp add: say_def)
  then show "same_sender st st' \<Longrightarrow> same_sender st (say ms st')" unfolding same_sender_def by metis
qed

lemma same_sender_refl: "same_sender st st"
  using same_sender_say noted_mtu_sender unfolding noted_mtu_def same_sender_def by (metis append_Nil2 trace.surjective trace.update_convs(4,13))

lemma say_Nil: "say [] st = st"
  by (simp add: say_def)

lemma packet_ok_undefined:
  assumes "length (packet st) = 512" "cc \<le> 512" "vflag g \<Longrightarrow> from_addr st \<noteq> None"
  shows "packet_ok e g cc seq st = None \<longleftrightarrow>
    vflag g \<and> hdr_len (packet st) + 8 \<le> cc \<and> \<not> accepts g seq cc (packet st) \<and> 508 < cc"
proof (cases "hdr_len (packet st) + 8 \<le> cc")
  case True
  have "vflag g \<Longrightarrow> \<exists>a. from_addr st = Some a" using assms(3) by auto
  then show ?thesis
    using True dump_run [of "packet st" "noted_mtu st" _ "cc - hdr_len (packet st)" e "icmp_part (packet st) ! 0"
        "icmp_part (packet st) ! 1"] assms(1)
    by (auto simp: packet_ok_choice [OF assms(1,2) True] split: if_splits)
qed (use packet_ok_short [OF assms(1) _ assms(3)] in simp)

lemma dump_says: "dump e buf h n t c st = Some st' \<Longrightarrow> \<exists>ms. st' = say ms st"
  by (auto simp: dump_def Option.bind_eq_Some_conv)

lemma packet_ok_result:
  assumes "length (packet st) = 512" "cc \<le> 512" "packet_ok e g cc seq st = Some (i, st')"
  shows "i = (if accepts g seq cc (packet st) then verdict (packet st) else 0)" (is ?val)
    "same_sender st st'"
    "accepts g seq cc (packet st) \<or> \<not> vflag g \<Longrightarrow> out st' = out st"
    "accepts g seq cc (packet st) \<Longrightarrow> nextmtu st' = mtu_field (packet st)"
proof -
  have "?val \<and> same_sender st st' \<and> (accepts g seq cc (packet st) \<or> \<not> vflag g \<longrightarrow> out st' = out st) \<and>
    (accepts g seq cc (packet st) \<longrightarrow> nextmtu st' = mtu_field (packet st))"
  proof (cases "cc < hdr_len (packet st) + 8")
    case True
    then have no: "\<not> accepts g seq cc (packet st)" by (simp add: accepts_def)
    have "i = 0 \<and> (\<exists>ms. st' = say ms st) \<and> (\<not> vflag g \<longrightarrow> st' = st)"
      using True header_reads [OF assms(1)] assms(3)
      by (auto simp: packet_ok_def ICMP_MINLEN_def Let_def Option.bind_eq_Some_conv
          intro: say_Nil [symmetric] split: if_splits)
    with no show ?thesis using same_sender_say [OF same_sender_refl] by auto
  next
    case False
    then have c: "hdr_len (packet st) + 8 \<le> cc" by simp
    show ?thesis
    proof (cases "accepts g seq cc (packet st)")
      case True
      then have "i = verdict (packet st) \<and> st' = noted_mtu st"
        using assms(3) packet_ok_choice [OF assms(1,2) c, of e g seq] by simp
      moreover have "is_error (packet st)" using True by (simp add: accepts_def)
      ultimately show ?thesis using True noted_mtu_sender [of st] by (simp add: noted_mtu_def)
    next
      case False
      then have "i = 0 \<and> (\<exists>ms. st' = say ms (noted_mtu st)) \<and> (\<not> vflag g \<longrightarrow> st' = noted_mtu st)"
        using assms(3) packet_ok_choice [OF assms(1,2) c, of e g seq]
        by (auto dest: dump_says intro: say_Nil [symmetric] split: if_splits)
      with False show ?thesis using same_sender_say [OF noted_mtu_sender] by auto
    qed
  qed
  then show ?val "same_sender st st'" "accepts g seq cc (packet st) \<or> \<not> vflag g \<Longrightarrow> out st' = out st"
    "accepts g seq cc (packet st) \<Longrightarrow> nextmtu st' = mtu_field (packet st)" by blast+
qed

text \<open>C29. \<^verbatim>\<open>packet_ok\<close> accepts exactly the answers to the current probe: for every content of the
  512-byte receive buffer and every received length, it reads outside the buffer only in one case,
  the verbose dump of a message of more than 508 bytes that is no answer; in every other case it
  returns 0 for a message that is no answer and otherwise -1 (time exceeded) or the unreachable code
  plus one, with the next-hop MTU of the message noted, and it changes nothing else but what is
  printed, which without the verbose flag is nothing.\<close>

theorem packet_ok_correct:
  assumes "length (packet st) = 512" "cc \<le> 512" "from_addr st \<noteq> None"
  shows "if vflag g \<and> hdr_len (packet st) + 8 \<le> cc \<and> \<not> accepts g seq cc (packet st) \<and> 508 < cc
    then packet_ok e g cc seq st = None
    else \<exists>n ms. packet_ok e g cc seq st =
        Some (if accepts g seq cc (packet st) then verdict (packet st) else 0, st\<lparr>nextmtu := n, out := out st @ ms\<rparr>) \<and>
      (accepts g seq cc (packet st) \<longrightarrow> n = mtu_field (packet st)) \<and>
      (accepts g seq cc (packet st) \<or> \<not> vflag g \<longrightarrow> ms = [])"
proof (cases "packet_ok e g cc seq st")
  case None
  then show ?thesis using packet_ok_undefined [of st cc g e seq] assms by simp
next
  case (Some r)
  then obtain i st' where r: "packet_ok e g cc seq st = Some (i, st')" by (cases r) auto
  note res = packet_ok_result [OF assms(1,2) r]
  from res(2) obtain n ms where "st' = st\<lparr>nextmtu := n, out := out st @ ms\<rparr>" by (auto simp: same_sender_def)
  with r res show ?thesis using packet_ok_undefined [of st cc g e seq] assms
    by (auto intro!: exI [of _ n] exI [of _ ms])
qed

section \<open>Answers to a probe\<close>

text \<open>An ICMP error as a router or host builds it: the IP header \<open>iph\<close>, type, code, checksum and the word
  that may hold an MTU, then the IP header \<open>qip\<close> of the offending datagram and the first eight bytes behind it.\<close>

definition icmp_error :: "u8 list \<Rightarrow> u8 \<Rightarrow> u8 \<Rightarrow> u16 \<Rightarrow> u32 \<Rightarrow> u8 list \<Rightarrow> u8 list \<Rightarrow> u8 list" where
  "icmp_error iph ty code ck mtu qip udp =
     iph @ [ty] @ [code] @ put16 BigEndian ck @ put32 BigEndian mtu @ qip @ udp"

definition ip_header :: "u8 list \<Rightarrow> bool" where
  "ip_header h \<longleftrightarrow> 20 \<le> length h \<and> hdr_len h = int (length h)"

lemma hdr_len_append: "a \<noteq> [] \<Longrightarrow> hdr_len (a @ r) = hdr_len a"
  by (simp add: hdr_len_def nth_append)

lemma icmp_error_parts:
  fixes iph ty code ck mtu qip udp rest
  assumes "ip_header iph" "ip_header qip"
  defines "buf \<equiv> icmp_error iph ty code ck mtu qip udp @ rest"
  shows "hdr_len buf = int (length iph)" "icmp_part buf ! 0 = ty" "icmp_part buf ! 1 = code"
    "quoted_part buf = qip @ udp @ rest" "hdr_len (quoted_part buf) = int (length qip)"
    "mtu_field buf = sint mtu"
proof -
  have ne: "iph \<noteq> []" "qip \<noteq> []" "hdr_len iph = int (length iph)" "hdr_len qip = int (length qip)"
    using assms by (auto simp: ip_header_def)
  show h: "hdr_len buf = int (length iph)" using ne by (simp add: buf_def icmp_error_def hdr_len_append)
  then have icp: "icmp_part buf = [ty] @ [code] @ put16 BigEndian ck @ put32 BigEndian mtu @ qip @ udp @ rest"
    by (simp add: icmp_part_def buf_def icmp_error_def)
  then show "icmp_part buf ! 0 = ty" "icmp_part buf ! 1 = code" by simp_all
  show q: "quoted_part buf = qip @ udp @ rest" using icp by (simp add: quoted_part_def)
  show "hdr_len (quoted_part buf) = int (length qip)" using q ne by (simp add: hdr_len_append)
  have "rd32 BigEndian buf (int (length iph) + 4) = Some mtu"
    unfolding buf_def icmp_error_def by (simp add: packet_fields del: put16.simps put32.simps append_Cons append_Nil)
  then show "mtu_field buf = sint mtu" using h by (simp add: mtu_field_def)
qed

text \<open>The UDP header of a probe.\<close>

definition probe_udp :: "settings \<Rightarrow> int \<Rightarrow> u16 \<Rightarrow> u8 list" where
  "probe_udp g seq len = put16 BigEndian (ident g) @ put16 BigEndian (word_of_int (uint (port g) + seq)) @
     put16 BigEndian len @ [0, 0]"

lemma quotes_probe_udp:
  assumes "ip_header qip" "qip ! 9 = 17"
  shows "quotes g seq' (qip @ probe_udp g seq len @ rest) \<longleftrightarrow> (word_of_int seq' :: u16) = word_of_int seq"
proof -
  let ?q = "qip @ probe_udp g seq len @ rest"
  have h: "hdr_len ?q = int (length qip)" using assms(1) hdr_len_append [of qip] by (fastforce simp: ip_header_def)
  have "rd16 BigEndian ?q (int (length qip)) = Some (ident g)"
    "rd16 BigEndian ?q (int (length qip) + 2) = Some (word_of_int (uint (port g) + seq))"
    unfolding probe_udp_def append_assoc
    by (simp_all add: packet_fields del: put16.simps append_Cons append_Nil)
  moreover have "?q ! 9 = 17" using assms by (simp add: ip_header_def nth_append)
  ultimately show ?thesis by (auto simp: quotes_def h)
qed

lemma attempt_udp:
  assumes "attempt v e K g seq ttl st = Some (r, st')" "40 \<le> length (outpacket st)"
  shows "take 8 (drop 20 (outpacket st')) = probe_udp g seq (word_of_int (datalen st - 20))"
proof -
  have "outpacket st' = probe_layout v e g seq ttl (gettimeofday K (ticks st)) (datalen st) (take 2 (outpacket st))
      (take 2 (drop 4 (outpacket st))) (take 10 (drop 10 (outpacket st))) (take 2 (drop 30 (outpacket st)))
      (drop 40 (outpacket st))"
    using assms by (auto simp: attempt_def fill_probe_run Option.bind_eq_Some_conv)
  then show ?thesis
    using assms(2) by (simp add: probe_layout_def probe_udp_def put16_0 drop_Cons' take_Cons' min_absorb2 del: put16.simps put32.simps)
qed

lemma received_state:
  assumes "wait_for_reply (Received a bs) st = (cc, st')" "length bs \<le> 512"
  shows "cc = int (length bs)" "packet st' = bs @ drop (length bs) (packet st)" "from_addr st' = Some a"
    "length (packet st) = 512 \<Longrightarrow> length (packet st') = 512" "out st' = out st" "outpacket st' = outpacket st"
  using assms by (auto simp: Let_def packet_size_def)

text \<open>An ICMP error about our probe is accepted for the probe with that sequence number.\<close>

lemma icmp_error_accepted:
  assumes "ip_header iph" "ip_header qip" "qip ! 9 = 17" "ty = 11 \<and> code = 0 \<or> ty = 3"
    and "bs = icmp_error iph ty code ck mtu qip (probe_udp g seq len)" "cc = int (length bs)"
  shows "accepts g seq' cc (bs @ rest) \<longleftrightarrow> (word_of_int seq' :: u16) = word_of_int seq"
    "verdict (bs @ rest) = (if ty = 11 then - 1 else uint code + 1)" "mtu_field (bs @ rest) = sint mtu"
proof -
  note p = icmp_error_parts [OF assms(1,2), where ty = ty and code = code and ck = ck and mtu = mtu
      and udp = "probe_udp g seq len" and rest = rest, folded assms(5)]
  have "length bs = length iph + length qip + 16"
    by (simp add: assms(5) icmp_error_def probe_udp_def del: put16.simps put32.simps)
  then show "accepts g seq' cc (bs @ rest) \<longleftrightarrow> (word_of_int seq' :: u16) = word_of_int seq"
    using p assms(4) quotes_probe_udp [OF assms(2,3), of g seq' seq len rest]
    by (auto simp: accepts_def is_error_def assms(6))
  show "verdict (bs @ rest) = (if ty = 11 then - 1 else uint code + 1)" "mtu_field (bs @ rest) = sint mtu"
    using p by (simp_all add: verdict_def)
qed

text \<open>C32. A probe is recognised in the errors it causes: let an attempt of \<^verbatim>\<open>send_probe\<close> fill the
  packet for sequence number \<open>seq\<close>, and let a time exceeded or unreachable message arrive that quotes
  an IP header with protocol 17 and the eight bytes of UDP header that were sent.  Without the verbose
  flag, \<^verbatim>\<open>packet_ok\<close> then reports it for that sequence number, and for another one exactly if the two
  agree modulo 65536.\<close>

theorem probe_recognised:
  assumes "attempt v e K g seq ttl st = Some (r, st1)" "40 \<le> length (outpacket st)"
    and "length (packet st1) = 512" "\<not> vflag g"
    and "ip_header iph" "ip_header qip" "qip ! 9 = 17" "ty = 11 \<and> code = 0 \<or> ty = 3"
    and "wait_for_reply (Received a (icmp_error iph ty code ck mtu qip (take 8 (drop 20 (outpacket st1))))) st1 = (cc, st2)"
  shows "\<exists>st3. packet_ok e g cc seq' st2 =
    Some (if (word_of_int seq' :: u16) = word_of_int seq then (if ty = 11 then - 1 else uint code + 1) else 0, st3)"
proof -
  let ?len = "word_of_int (datalen st - 20)"
  let ?bs = "icmp_error iph ty code ck mtu qip (probe_udp g seq ?len)"
  have w: "wait_for_reply (Received a ?bs) st1 = (cc, st2)" using assms(9) attempt_udp [OF assms(1,2)] by simp
  have "length iph \<le> 60" "length qip \<le> 60" using assms(5,6) hdr_len_range [of iph] hdr_len_range [of qip]
    by (auto simp: ip_header_def)
  then have short: "length ?bs \<le> 512" by (simp add: icmp_error_def probe_udp_def del: put16.simps put32.simps)
  note st2 = received_state [OF w short]
  note acc = icmp_error_accepted [OF assms(5-8) refl refl, where rest = "drop (length ?bs) (packet st1)",
      folded st2(2)]
  have "length (packet st2) = 512" "cc \<le> 512" using st2 assms(3) short by auto
  then show ?thesis
    using packet_ok_undefined [of st2 cc g e seq'] packet_ok_result [of st2 cc e g seq'] assms(4) acc st2(1,2)
    by (cases "packet_ok e g cc seq' st2") auto
qed

text \<open>Headers without options for examples.\<close>

definition sample_header :: "u8 list" where
  "sample_header = 0x45 # replicate 8 0 @ 17 # replicate 10 0"

lemma sample_header_ok: "ip_header sample_header" "sample_header ! 9 = 17"
  by (simp_all add: ip_header_def sample_header_def hdr_len_def nth_append)

theorem probe_recognised_witness:
  "\<exists>r st1 cc st2 st3. attempt Pmtu LittleEndian (sample_kernel 1500) sample_settings 65537 1 (sample_trace 40 40 0) = Some (r, st1) \<and>
     wait_for_reply (Received 7 (icmp_error sample_header 11 0 0 0 sample_header (take 8 (drop 20 (outpacket st1))))) st1 = (cc, st2) \<and>
     packet_ok LittleEndian sample_settings cc 1 st2 = Some (- 1, st3)"
proof -
  have "roomy (sample_trace 40 40 0)" by (simp add: roomy_def samples)
  then obtain pkt st1 where a: "attempt Pmtu LittleEndian (sample_kernel 1500) sample_settings 65537 1 (sample_trace 40 40 0) =
      Some (sendto (sample_kernel 1500) (sends (sample_trace 40 40 0)) pkt, st1)" "same_receiver (sample_trace 40 40 0) st1"
    by (rule attempt_run)
  obtain cc st2 where w: "wait_for_reply (Received 7 (icmp_error sample_header 11 0 0 0 sample_header
      (take 8 (drop 20 (outpacket st1))))) st1 = (cc, st2)" by fastforce
  have "length (packet st1) = 512" "40 \<le> length (outpacket (sample_trace 40 40 0))" "\<not> vflag sample_settings"
    using a(2) by (simp_all add: same_receiver_def samples)
  then show ?thesis
    using probe_recognised [OF a(1) _ _ _ sample_header_ok(1) sample_header_ok _ w, of 1] a(1) w by auto
qed

theorem packet_ok_correct_witness:
  "packet_ok LittleEndian (sample_settings\<lparr>vflag := True\<rparr>) 512 1 ((sample_trace 40 40 0)\<lparr>from_addr := Some 7\<rparr>) = None"
  using packet_ok_correct [of "(sample_trace 40 40 0)\<lparr>from_addr := Some 7\<rparr>" 512 "sample_settings\<lparr>vflag := True\<rparr>" 1 LittleEndian]
  by (simp add: samples accepts_def is_error_def icmp_part_def hdr_len_def)

section \<open>Round trip time and names\<close>

text \<open>Clock readings that are close together: microseconds below one million, and the seconds of any two
  readings not more than 2000000 apart, some 23 days.\<close>

definition close_times :: "int \<times> int \<Rightarrow> int \<times> int \<Rightarrow> bool" where
  "close_times t0 t1 \<longleftrightarrow> 0 \<le> snd t0 \<and> snd t0 < 1000000 \<and> 0 \<le> snd t1 \<and> snd t1 < 1000000 \<and>
     - (2 ^ 31) < fst t1 \<and> fst t1 < 2 ^ 31 \<and> \<bar>fst t1 - fst t0\<bar> \<le> 2000000"

lemma tvsub_close:
  assumes "close_times (s0, u0) (s1, u1)"
  shows "tvsub (s1, u1) (s0, u0) = Some (if u1 < u0 then (s1 - 1 - s0, u1 - u0 + 1000000) else (s1 - s0, u1 - u0))"
proof -
  have "- 2000000 \<le> s1 - s0" "s1 - s0 \<le> 2000000" using assms by (auto simp: close_times_def)
  then show ?thesis using assms by (auto simp: close_times_def signed32_def)
qed

lemma sdiv_1000: "0 \<le> x \<Longrightarrow> x sdiv 1000 = x div 1000" for x :: int
  by (cases "x = 0") (simp_all add: signed_divide_int_def sgn_if)

lemma deltaT_close:
  assumes "gettimeofday K (ticks st) = (s1, u1)" "close_times (s0, u0) (s1, u1)"
  shows "deltaT K (s0, u0) st = Some (((s1 * 1000000 + u1) - (s0 * 1000000 + u0) + 500) div 1000, st\<lparr>ticks := ticks st + 1\<rparr>)"
proof -
  define s where "s = (if u1 < u0 then s1 - 1 - s0 else s1 - s0)"
  define u where "u = (if u1 < u0 then u1 - u0 + 1000000 else u1 - u0)"
  have sub: "tvsub (s1, u1) (s0, u0) = Some (s, u)" using tvsub_close [OF assms(2)] by (simp add: s_def u_def)
  have b: "- 2000001 \<le> s" "s \<le> 2000000" "0 \<le> u" "u < 1000000"
    using assms(2) by (auto simp: close_times_def s_def u_def)
  then have d: "0 \<le> (u + 500) div 1000" "(u + 500) div 1000 \<le> 1000" by auto
  then have run: "signed32 (s * 1000) = Some (s * 1000)" "signed32 (u + 500) = Some (u + 500)"
      "signed32 (s * 1000 + (u + 500) div 1000) = Some (s * 1000 + (u + 500) div 1000)"
    using b by (auto simp: signed32_def)
  have "s * 1000 + (u + 500) div 1000 = ((u + 500) + s * 1000 * 1000) div 1000" by (simp only: div_mult_self1)
  also have "(u + 500) + s * 1000 * 1000 = (s1 * 1000000 + u1) - (s0 * 1000000 + u0) + 500"
    by (simp add: s_def u_def algebra_simps)
  finally show ?thesis
    using b(3) assms(1) sub run by (simp add: deltaT_def sdiv_1000 del: tvsub.simps)
qed

text \<open>The time shown is the elapsed time rounded to milliseconds, halves upwards, for two readings of the
  clock that are close together.\<close>

theorem deltaT_rounds:
  assumes "gettimeofday K (ticks st) = (s1, u1)" "close_times (s0, u0) (s1, u1)"
  shows "map_option fst (deltaT K (s0, u0) st) = Some (((s1 * 1000000 + u1) - (s0 * 1000000 + u0) + 500) div 1000)"
  using deltaT_close [OF assms] by simp

theorem deltaT_rounds_witness:
  "map_option fst (deltaT ((sample_kernel 1500)\<lparr>gettimeofday := \<lambda>n. (5, 1500)\<rparr>) (3, 999000) (sample_trace 40 40 0)) = Some 1003"
  using deltaT_rounds [of "(sample_kernel 1500)\<lparr>gettimeofday := \<lambda>n. (5, 1500)\<rparr>" "sample_trace 40 40 0" 5 1500 3 999000]
  by (simp add: close_times_def)

lemma length_dotted: "length (dotted a) < 50"
proof -
  have "length (show_nat (n mod 256)) \<le> 3" for n
  proof -
    have "n mod 256 < 256" by simp
    then have "n mod 256 < 10 ^ Suc 2" by simp
    from length_show_nat [OF this] show ?thesis by simp
  qed
  from this [of "unat a div 2 ^ 24"] this [of "unat a div 2 ^ 16"] this [of "unat a div 2 ^ 8"] this [of "unat a"]
  show ?thesis by (simp add: dotted_def Let_def)
qed

definition named_state :: "kernel \<Rightarrow> settings \<Rightarrow> trace \<Rightarrow> trace option" where
  "named_state K g st =
     (if first st \<and> \<not> nflag g then map_option (\<lambda>d. st\<lparr>first := False, domain := d\<rparr>) (local_domain K) else Some st)"

text \<open>\<^verbatim>\<open>inetname\<close> and its buffer of 50 bytes: without a name for the address the result is the
  dotted address, which always fits; with a name it is the name without the local domain, and a name
  of 50 or more characters is copied behind the end of the buffer.\<close>

lemma inetname_buffer:
  "inetname e K g a st =
    (case named_state K g st of None \<Rightarrow> None | Some st' \<Rightarrow>
      (case (if nflag g \<or> a = 0 then None else gethostbyaddr K a) of
         None \<Rightarrow> Some (dotted (ntohl e a), st')
       | Some name \<Rightarrow>
           if length (strip_domain (domain st') name) < 50 then Some (strip_domain (domain st') name, st') else None))"
  using length_dotted [of "ntohl e a"]
  by (auto simp: inetname_def named_state_def line_size_def Let_def split: option.split)

end
