(* ===== verification/Trace_Loop.thy ===== *)
theory Trace_Loop
  imports Trace_Reply
begin

text \<open>
  The probe loops of \<^verbatim>\<open>main\<close> of \<^verbatim>\<open>tcpipi/traceroute\<close>: for every time-to-live a number of probes,
  and for every probe the wait for an answer.  The input is the list of answers that the calls of
  \<^verbatim>\<open>wait_for_reply\<close> meet; every wait uses up one of them, and when none is left the program is
  still waiting.  Counters are integers.
\<close>

section \<open>Waiting for the answer to one probe\<close>

datatype waited = Silence | Reply int int | StillWaiting

text \<open>The \<^verbatim>\<open>while\<close> loop around \<^verbatim>\<open>wait_for_reply\<close> and \<^verbatim>\<open>packet_ok\<close>; \<^term>\<open>Reply i cc\<close> is left with
  the value of \<^verbatim>\<open>packet_ok\<close> and the length received.\<close>

fun await_reply ::
    "host \<Rightarrow> settings \<Rightarrow> int \<Rightarrow> answer list \<Rightarrow> trace \<Rightarrow> (waited \<times> trace \<times> answer list) option" where
  "await_reply e g seq [] st = Some (StillWaiting, st, [])"
| "await_reply e g seq (a # as) st =
     (let (cc, st) = wait_for_reply a st in
      if cc = 0 then Some (Silence, st, as)
      else (case packet_ok e g cc seq st of
              None \<Rightarrow> None
            | Some (i, st) \<Rightarrow> if i \<noteq> 0 then Some (Reply i cc, st, as) else await_reply e g seq as st))"

section \<open>One answer\<close>

record hop =
  lastaddr :: u32
  got_there :: int
  unreachable :: int

definition new_hop :: hop where
  "new_hop = \<lparr>lastaddr = 0, got_there = 0, unreachable = 0\<rparr>"

datatype jump = NextProbe | Again

definition reply_switch :: "int \<Rightarrow> hop \<Rightarrow> trace \<Rightarrow> (jump \<times> hop \<times> trace) option" where
  "reply_switch code h st =
     (if code = 3 then do {
        ip_ttl \<leftarrow> rd8 (packet st) 8;
        Some (NextProbe, h\<lparr>got_there := got_there h + 1\<rparr>, if ip_ttl \<le> 1 then say [TtlBang] st else st)
      }
      else if code = 0 then Some (NextProbe, h\<lparr>unreachable := unreachable h + 1\<rparr>, say [Flag ''!N''] st)
      else if code = 1 then Some (NextProbe, h\<lparr>unreachable := unreachable h + 1\<rparr>, say [Flag ''!H''] st)
      else if code = 2 then Some (NextProbe, h\<lparr>got_there := got_there h + 1\<rparr>, say [Flag ''!P''] st)
      else if code = 4 then do {
        st \<leftarrow> frag_err st;
        Some (Again, h, st)
      }
      else if code = 5 then Some (NextProbe, h\<lparr>unreachable := unreachable h + 1\<rparr>, say [Flag ''!S''] st)
      else Some (NextProbe, h, st))"

definition handle_reply ::
    "host \<Rightarrow> kernel \<Rightarrow> settings \<Rightarrow> int \<times> int \<Rightarrow> int \<Rightarrow> int \<Rightarrow> hop \<Rightarrow> trace \<Rightarrow> (jump \<times> hop \<times> trace) option" where
  "handle_reply e K g tv i cc h st = do {
     (dt, st) \<leftarrow> deltaT K tv st;
     a \<leftarrow> from_addr st;
     (h, st) \<leftarrow>
       (if a \<noteq> lastaddr h then do {
          st \<leftarrow> print_reply e K g cc a st;
          Some (h\<lparr>lastaddr := a\<rparr>, st)
        } else Some (h, st));
     reply_switch (i - 1) h (say [Ms dt] st)
   }"

section \<open>The loops\<close>

definition start_probe :: "trace \<Rightarrow> trace" where
  "start_probe st = st\<lparr>ticks := ticks st + 1, seqno := seqno st + 1\<rparr>"

lemma await_reply_shorter:
  "await_reply e g seq as st = Some (w, st', as') \<Longrightarrow> w \<noteq> StillWaiting \<Longrightarrow> length as' < length as"
  by (induction e g seq as st rule: await_reply.induct)
    (fastforce split: prod.splits if_splits option.splits)+

text \<open>The probes for one time-to-live from number \<open>probe\<close> on; the jump to \<^verbatim>\<open>again\<close> starts over
  without resetting the counters of the hop.\<close>

function hop_loop ::
    "variant \<Rightarrow> host \<Rightarrow> kernel \<Rightarrow> settings \<Rightarrow> int \<Rightarrow> int \<Rightarrow> hop \<Rightarrow> trace \<Rightarrow> answer list \<Rightarrow>
     (hop option \<times> trace \<times> answer list) option" where
  "hop_loop v e K g ttl probe h st as =
     (if probe < nprobes g then
        (let tv = gettimeofday K (ticks st) in
         case send_probe v e K g (seqno (start_probe st)) ttl (start_probe st) of
           None \<Rightarrow> None
         | Some st1 \<Rightarrow>
             (case await_reply e g (seqno (start_probe st)) as st1 of
                None \<Rightarrow> None
              | Some (StillWaiting, st2, as') \<Rightarrow> Some (None, st2, as')
              | Some (Silence, st2, as') \<Rightarrow> hop_loop v e K g ttl (probe + 1) h (say [Star] st2) as'
              | Some (Reply i cc, st2, as') \<Rightarrow>
                  (case handle_reply e K g tv i cc h st2 of
                     None \<Rightarrow> None
                   | Some (NextProbe, h', st3) \<Rightarrow> hop_loop v e K g ttl (probe + 1) h' st3 as'
                   | Some (Again, h', st3) \<Rightarrow> hop_loop v e K g ttl 0 h' (say [Hop ttl] st3) as')))
      else Some (Some h, st, as))"
  by pat_completeness auto
termination
  by (relation "measure (\<lambda>(v, e, K, g, ttl, probe, h, st, as). length as)")
    (auto dest: await_reply_shorter)

declare hop_loop.simps [simp del]

datatype ending = Exited int | EndOfMain | Pending

function ttl_loop ::
    "variant \<Rightarrow> host \<Rightarrow> kernel \<Rightarrow> settings \<Rightarrow> int \<Rightarrow> trace \<Rightarrow> answer list \<Rightarrow> (ending \<times> trace) option" where
  "ttl_loop v e K g ttl st as =
     (if ttl \<le> max_ttl g then
        (case hop_loop v e K g ttl 0 new_hop (say [Hop ttl] st) as of
           None \<Rightarrow> None
         | Some (None, st1, _) \<Rightarrow> Some (Pending, st1)
         | Some (Some h, st1, as') \<Rightarrow>
             if got_there h \<noteq> 0 \<or> unreachable h \<ge> nprobes g - 1
             then Some (Exited 0, say [Newline] st1)
             else ttl_loop v e K g (ttl + 1) (say [Newline] st1) as')
      else Some (EndOfMain, st))"
  by pat_completeness auto
termination
  by (relation "measure (\<lambda>(v, e, K, g, ttl, st, as). nat (max_ttl g + 1 - ttl))") auto

declare ttl_loop.simps [simp del]

section \<open>What an answer changes\<close>

text \<open>The state behind the sending of probes and the received message are untouched.\<close>

definition same_probe :: "trace \<Rightarrow> trace \<Rightarrow> bool" where
  "same_probe st st' \<longleftrightarrow> outpacket st' = outpacket st \<and> datalen st' = datalen st \<and> mtuptr st' = mtuptr st \<and>
     nextmtu st' = nextmtu st \<and> firsttime st' = firsttime st \<and> packet st' = packet st \<and> from_addr st' = from_addr st \<and>
     seqno st' = seqno st"

lemma same_probe_simps [simp]:
  "same_probe st st" "same_probe st (say ms st') = same_probe st st'"
  "same_probe st (st'\<lparr>ticks := n\<rparr>) = same_probe st st'"
  by (auto simp: same_probe_def)

lemma same_probe_trans: "same_probe a b \<Longrightarrow> same_probe b c \<Longrightarrow> same_probe a c"
  by (simp add: same_probe_def)

definition short_names :: "kernel \<Rightarrow> bool" where
  "short_names K \<longleftrightarrow> (\<forall>a name. gethostbyaddr K a = Some name \<longrightarrow> length name < 50)"

lemma split_dot_length: "split_dot s = Some (h, d) \<Longrightarrow> length h \<le> length s"
  by (induction s arbitrary: h d) (fastforce split: if_splits option.splits)+

lemma length_strip_domain: "length (strip_domain d name) \<le> length name"
  using split_dot_length by (auto simp: strip_domain_def split: option.split)

text \<open>A clock whose readings are close together, and a host name whose domain can be moved.\<close>

definition calm :: "kernel \<Rightarrow> settings \<Rightarrow> bool" where
  "calm K g \<longleftrightarrow> (\<forall>m n. close_times (gettimeofday K m) (gettimeofday K n)) \<and> (nflag g \<or> local_domain K \<noteq> None)"

lemma named_state_run:
  assumes "named_state K g st = Some st'"
  shows "same_probe st st'" "out st' = out st"
  using assms by (auto simp: named_state_def same_probe_def split: if_splits)

lemma named_state_calm: "calm K g \<Longrightarrow> named_state K g st \<noteq> None"
  by (auto simp: named_state_def calm_def)

lemma inetname_run:
  assumes "short_names K" "named_state K g st = Some st'"
  obtains name where "inetname e K g a st = Some (name, st')"
proof -
  have "length (strip_domain (domain st') name) < 50" if "gethostbyaddr K a = Some name" for name
    using assms that length_strip_domain le_less_trans unfolding short_names_def by blast
  then show ?thesis using that assms(2) unfolding inetname_buffer by (cases "nflag g \<or> a = 0"; cases "gethostbyaddr K a") auto
qed

text \<open>Without such a clock and such a name the handling of a reply may be undefined.\<close>

lemma print_reply_run:
  assumes "length (packet st) = 512" "short_names K"
  shows "\<not> calm K g \<and> print_reply e K g cc a st = None \<or>
    (\<exists>st' name ms. print_reply e K g cc a st = Some st' \<and> same_probe st st' \<and>
       out st' = out st @ [Host name a] @ ms \<and> (\<not> vflag g \<longrightarrow> ms = []))"
proof (cases "nflag g")
  case True
  obtain dst where dst: "rd32 e (packet st) 16 = Some dst" using rd_Some_iff(2) [of 16 e "packet st"] assms(1) by auto
  show ?thesis using True dst header_reads(1,2) [OF assms(1)] by (auto simp: print_reply_def Let_def)
next
  case names: False
  show ?thesis
  proof (cases "named_state K g st")
    case None
    then have "inetname e K g a st = None" "\<not> calm K g"
      using named_state_calm [of K g st] by (auto simp: inetname_buffer)
    then show ?thesis using names header_reads(1) [OF assms(1)] by (auto simp: print_reply_def)
  next
    case (Some st1)
    note n = named_state_run [OF Some]
    obtain name where name: "inetname e K g a st = Some (name, st1)" by (rule inetname_run [OF assms(2) Some])
    have p: "packet st1 = packet st" using n(1) by (simp add: same_probe_def)
    obtain dst where dst: "rd32 e (packet st) 16 = Some dst" using rd_Some_iff(2) [of 16 e "packet st"] assms(1) by auto
    show ?thesis using names name dst n p header_reads(1,2) [OF assms(1)] by (auto simp: print_reply_def Let_def)
  qed
qed

lemma handle_reply_cases:
  assumes "length (packet st) = 512" "short_names K" "from_addr st = Some a"
  shows "\<not> (calm K g \<and> (\<exists>n. tv = gettimeofday K n)) \<and> handle_reply e K g tv i cc h st = None \<or>
    (\<exists>st' dt ms. handle_reply e K g tv i cc h st = reply_switch (i - 1) (h\<lparr>lastaddr := a\<rparr>) st' \<and>
      same_probe st st' \<and> out st' = out st @ ms @ [Ms dt] \<and>
      (\<not> vflag g \<longrightarrow> (if a = lastaddr h then ms = [] else \<exists>name. ms = [Host name a])))"
proof (cases "deltaT K tv st")
  case None
  have "\<not> (calm K g \<and> (\<exists>n. tv = gettimeofday K n))"
  proof
    assume "calm K g \<and> (\<exists>n. tv = gettimeofday K n)"
    then have "close_times tv (gettimeofday K (ticks st))" by (auto simp: calm_def)
    then show False
      using None deltaT_close [of K st "fst (gettimeofday K (ticks st))" "snd (gettimeofday K (ticks st))" "fst tv" "snd tv"] by simp
  qed
  then show ?thesis using None by (simp add: handle_reply_def)
next
  case (Some r)
  then obtain dt where dt: "deltaT K tv st = Some (dt, st\<lparr>ticks := ticks st + 1\<rparr>)"
    by (auto simp: deltaT_def Option.bind_eq_Some_conv)
  let ?st = "st\<lparr>ticks := ticks st + 1\<rparr>"
  show ?thesis
  proof (cases "a = lastaddr h")
    case True
    then have "h\<lparr>lastaddr := a\<rparr> = h" by simp
    then show ?thesis using True dt assms(3)
      by (intro disjI2 exI [of _ "say [Ms dt] ?st"] exI [of _ dt] exI [of _ "[]"]) (simp_all add: handle_reply_def)
  next
    case False
    have "length (packet ?st) = 512" using assms(1) by simp
    from print_reply_run [OF this assms(2), of g e cc a] show ?thesis
    proof (elim disjE exE conjE)
      assume "\<not> calm K g" "print_reply e K g cc a ?st = None"
      then show ?thesis using False dt assms(3) by (simp add: handle_reply_def)
    next
      fix st' name ms
      assume p: "print_reply e K g cc a ?st = Some st'" "same_probe ?st st'"
        "out st' = out ?st @ [Host name a] @ ms" "\<not> vflag g \<longrightarrow> ms = []"
      have "same_probe st st'" using p(2) by (simp add: same_probe_def)
      then show ?thesis using False dt assms(3) p
        by (intro disjI2 exI [of _ "say [Ms dt] st'"] exI [of _ dt] exI [of _ "[Host name a] @ ms"]) (auto simp: handle_reply_def)
    qed
  qed
qed

lemma handle_reply_run:
  assumes "length (packet st) = 512" "short_names K" "from_addr st = Some a" "calm K g"
  obtains st' dt ms where "handle_reply e K g (gettimeofday K n) i cc h st = reply_switch (i - 1) (h\<lparr>lastaddr := a\<rparr>) st'"
    "same_probe st st'" "out st' = out st @ ms @ [Ms dt]"
    "\<not> vflag g \<Longrightarrow> if a = lastaddr h then ms = [] else \<exists>name. ms = [Host name a]"
  using handle_reply_cases [OF assms(1-3), of g "gettimeofday K n" e i cc h] assms(4) by blast

section \<open>Safety\<close>

text \<open>The answers for which the program stays within its buffers: with the verbose flag no failing
  \<^verbatim>\<open>recvfrom\<close> and no message of more than 508 bytes, and in a message of type 3 and code 4 a next-hop MTU
  between 1 and the given limit.\<close>

fun tame :: "settings \<Rightarrow> int \<Rightarrow> answer \<Rightarrow> bool" where
  "tame g L NotReady \<longleftrightarrow> True"
| "tame g L RecvFailed \<longleftrightarrow> \<not> vflag g"
| "tame g L (Received a bs) \<longleftrightarrow> (vflag g \<longrightarrow> length bs \<le> 508) \<and>
     (icmp_part (take 512 bs) ! 0 = 3 \<and> icmp_part (take 512 bs) ! 1 = 4 \<longrightarrow>
       0 < mtu_field (take 512 bs) \<and> mtu_field (take 512 bs) \<le> L)"

lemma rd_prefix:
  assumes "0 \<le> i" "i + 4 \<le> int (length a)"
  shows "rd32 e (a @ r) i = rd32 e a i"
proof -
  have "rd8 (a @ r) j = rd8 a j" if "0 \<le> j" "j < int (length a)" for j
  proof -
    have "nat j < length a" using that by linarith
    then show ?thesis using that by (simp add: rd8_def nth_append)
  qed
  then show ?thesis using assms by (simp add: rd32_def rd16_def)
qed

lemma message_fields:
  assumes "hdr_len (got @ r) + 12 \<le> int (length got)"
  shows "icmp_part (got @ r) ! 0 = icmp_part got ! 0" "icmp_part (got @ r) ! 1 = icmp_part got ! 1"
    "mtu_field (got @ r) = mtu_field got"
proof -
  have "got \<noteq> []" using assms hdr_len_range [of "got @ r"] by auto
  then have h: "hdr_len (got @ r) = hdr_len got" by (rule hdr_len_append)
  have "nat (hdr_len got) < length got" "Suc 0 < length got - nat (hdr_len got)" using assms hdr_len_range [of got] h by linarith+
  then show "icmp_part (got @ r) ! 0 = icmp_part got ! 0" "icmp_part (got @ r) ! 1 = icmp_part got ! 1"
    using h by (simp_all add: icmp_part_def nth_append)
  show "mtu_field (got @ r) = mtu_field got"
    using assms hdr_len_range [of got] h rd_prefix [of "hdr_len got + 4" got BigEndian r] by (simp add: mtu_field_def)
qed

definition loop_inv :: "int \<Rightarrow> nat \<Rightarrow> trace \<Rightarrow> bool" where
  "loop_inv M N st \<longleftrightarrow> mtu_inv M st \<and> length (outpacket st) = N \<and> length (packet st) = 512"

lemma loop_inv_simps [simp]:
  "loop_inv M N (say ms st) = loop_inv M N st" "loop_inv M N (start_probe st) = loop_inv M N st"
  by (simp_all add: loop_inv_def start_probe_def mtu_inv_def roomy_def)

lemma loop_inv_same:
  "same_sender st st' \<Longrightarrow> loop_inv M N st' = loop_inv M N st"
  "same_probe st st' \<Longrightarrow> loop_inv M N st' = loop_inv M N st"
  by (auto simp: loop_inv_def mtu_inv_def roomy_def same_sender_def same_probe_def)

lemma wait_for_reply_inv:
  assumes "loop_inv M N st" "wait_for_reply a st = (cc, st')"
  shows "loop_inv M N st'" "cc \<le> 512"
  using assms by (cases a; auto simp: loop_inv_def mtu_inv_def roomy_def packet_size_def Let_def)+

lemma await_reply_safe:
  assumes "loop_inv M N st" "list_all (tame g L) as"
  shows "\<exists>w st' as'. await_reply e g seq as st = Some (w, st', as') \<and> loop_inv M N st' \<and> list_all (tame g L) as' \<and>
    (\<forall>i cc. w = Reply i cc \<longrightarrow> from_addr st' \<noteq> None \<and> (i = 5 \<longrightarrow> 0 < nextmtu st' \<and> nextmtu st' \<le> L))"
  using assms
proof (induction as arbitrary: st)
  case (Cons a as)
  obtain cc st1 where w: "wait_for_reply a st = (cc, st1)" by fastforce
  note st1 = wait_for_reply_inv [OF Cons.prems(1) w]
  show ?case
  proof (cases "cc = 0")
    case True
    then show ?thesis using w st1 Cons.prems by simp
  next
    case False
    from st1 have l: "length (packet st1) = 512" by (simp add: loop_inv_def)
    have fr: "vflag g \<Longrightarrow> from_addr st1 \<noteq> None \<and> cc \<le> 508"
      using w False Cons.prems(2) by (cases a) (auto simp: Let_def)
    then have "packet_ok e g cc seq st1 \<noteq> None" using packet_ok_undefined [OF l st1(2)] by auto
    then obtain i st2 where ok: "packet_ok e g cc seq st1 = Some (i, st2)" by auto
    note res = packet_ok_result [OF l st1(2) ok]
    have inv2: "loop_inv M N st2" using res(2) st1(1) loop_inv_same(1) by blast
    show ?thesis
    proof (cases "i = 0")
      case True
      then show ?thesis using w False ok Cons.IH [OF inv2] Cons.prems by simp
    next
      case answer: False
      then have acc: "accepts g seq cc (packet st1)" "i = verdict (packet st1)" using res(1) by (auto split: if_splits)
      then have long: "hdr_len (packet st1) + 12 \<le> cc"
        using hdr_len_range [of "quoted_part (packet st1)"] by (simp add: accepts_def)
      then have "cc > 0" using hdr_len_range [of "packet st1"] by linarith
      then obtain b bs where a: "a = Received b bs" using w by (cases a) auto
      have p1: "packet st1 = take 512 bs @ drop (length (take 512 bs)) (packet st)" "cc = int (length (take 512 bs))"
          "from_addr st1 = Some b"
        using w a by (auto simp: Let_def packet_size_def)
      note f = message_fields [of "take 512 bs" "drop (length (take 512 bs)) (packet st)", folded p1, OF long]
      have "icmp_part (packet st1) ! 0 = 3 \<and> icmp_part (packet st1) ! 1 = 4" if "i = 5"
      proof -
        have "icmp_part (packet st1) ! 0 \<noteq> 11" "uint (icmp_part (packet st1) ! 1) = 4"
          using acc(2) that by (auto simp: verdict_def split: if_splits)
        moreover from this(2) have "icmp_part (packet st1) ! 1 = 4" by (metis word_of_int_uint word_of_int_numeral)
        ultimately show ?thesis using acc(1) by (auto simp: accepts_def is_error_def)
      qed
      then have "i = 5 \<longrightarrow> 0 < nextmtu st2 \<and> nextmtu st2 \<le> L"
        using f res(4) [OF acc(1)] Cons.prems(2) a by auto
      moreover have "from_addr st2 = Some b" using res(2) p1(3) by (auto simp: same_sender_def)
      ultimately show ?thesis using w False ok answer inv2 Cons.prems by simp
    qed
  qed
qed simp

lemma frag_err_inv:
  assumes "loop_inv M N st" "0 < nextmtu st" "nextmtu st \<le> M" "nextmtu st \<le> int N"
  obtains st' where "frag_err st = Some st'" "loop_inv M N st'"
proof -
  obtain st' where st': "frag_err st = Some st'" "same_receiver st st'" "datalen st' = nextmtu st"
      "if nextmtu st \<in> set mtus then 1 \<le> mtuptr st' \<and> mtuptr st' \<le> 17 \<and> mtus ! nat (mtuptr st' - 1) = nextmtu st
       else mtuptr st' = mtuptr st"
    by (rule frag_err_next_hop [OF assms(2)])
  then have "loop_inv M N st'"
    using assms by (auto simp: loop_inv_def mtu_inv_def roomy_def same_receiver_def split: if_splits)
  with st'(1) show ?thesis by (rule that)
qed

lemma handle_reply_safe:
  assumes "loop_inv M N st" "short_names K" "calm K g" "from_addr st \<noteq> None"
    and "i = 5 \<longrightarrow> 0 < nextmtu st \<and> nextmtu st \<le> min M (int N)"
  obtains j h' st' where "handle_reply e K g (gettimeofday K n) i cc h st = Some (j, h', st')" "loop_inv M N st'"
proof -
  obtain a where a: "from_addr st = Some a" using assms(4) by auto
  have "length (packet st) = 512" using assms(1) by (simp add: loop_inv_def)
  then obtain st1 where st1: "handle_reply e K g (gettimeofday K n) i cc h st = reply_switch (i - 1) (h\<lparr>lastaddr := a\<rparr>) st1"
      "same_probe st st1" using handle_reply_run [OF _ assms(2) a assms(3)] by metis
  have inv: "loop_inv M N st1" using st1(2) assms(1) loop_inv_same(2) by blast
  have rd: "rd8 (packet st1) 8 = Some (packet st1 ! 8)" using inv by (simp add: loop_inv_def rd8_at)
  show ?thesis
  proof (cases "i = 5")
    case True
    then have "0 < nextmtu st1" "nextmtu st1 \<le> M" "nextmtu st1 \<le> int N"
      using assms(5) st1(2) by (auto simp: same_probe_def)
    from frag_err_inv [OF inv this] obtain st2 where "frag_err st1 = Some st2" "loop_inv M N st2" .
    then show ?thesis using that st1(1) True by (simp add: reply_switch_def)
  next
    case False
    have "\<exists>j h' st'. reply_switch (i - 1) (h\<lparr>lastaddr := a\<rparr>) st1 = Some (j, h', st') \<and> loop_inv M N st'"
      using False inv rd by (auto simp: reply_switch_def)
    then show ?thesis using that st1(1) by auto
  qed
qed

text \<open>One pass through the loop over the probes, by the outcome of the wait.\<close>

lemma hop_loop_pass:
  assumes "probe < nprobes g" "send_probe v e K g (seqno (start_probe st)) ttl (start_probe st) = Some st1"
  shows "await_reply e g (seqno (start_probe st)) as st1 = Some (Silence, st2, as') \<Longrightarrow>
      hop_loop v e K g ttl probe h st as = hop_loop v e K g ttl (probe + 1) h (say [Star] st2) as'"
    "await_reply e g (seqno (start_probe st)) as st1 = Some (StillWaiting, st2, as') \<Longrightarrow>
      hop_loop v e K g ttl probe h st as = Some (None, st2, as')"
    "await_reply e g (seqno (start_probe st)) as st1 = Some (Reply i cc, st2, as') \<Longrightarrow>
      handle_reply e K g (gettimeofday K (ticks st)) i cc h st2 = Some (NextProbe, h', st3) \<Longrightarrow>
      hop_loop v e K g ttl probe h st as = hop_loop v e K g ttl (probe + 1) h' st3 as'"
    "await_reply e g (seqno (start_probe st)) as st1 = Some (Reply i cc, st2, as') \<Longrightarrow>
      handle_reply e K g (gettimeofday K (ticks st)) i cc h st2 = Some (Again, h', st3) \<Longrightarrow>
      hop_loop v e K g ttl probe h st as = hop_loop v e K g ttl 0 h' (say [Hop ttl] st3) as'"
  using assms by (simp_all add: hop_loop.simps [of v e K g ttl probe h st as] Let_def)

lemma hop_loop_end: "\<not> probe < nprobes g \<Longrightarrow> hop_loop v e K g ttl probe h st as = Some (Some h, st, as)"
  by (simp add: hop_loop.simps)

lemma hop_loop_safe:
  assumes "link_takes K M" "short_names K" "calm K g" "loop_inv M N st" "list_all (tame g (min M (int N))) as"
  shows "\<exists>h' st' as'. hop_loop v e K g ttl probe h st as = Some (h', st', as') \<and> loop_inv M N st' \<and>
    list_all (tame g (min M (int N))) as'"
  using assms
proof (induction v e K g ttl probe h st as rule: hop_loop.induct)
  case (1 v e K g ttl probe h st as)
  note IH = "1.IH" and prems = "1.prems"
  show ?case
  proof (cases "probe < nprobes g")
    case True
    let ?s = "start_probe st"
    have "mtu_inv M ?s" using prems(4) by (auto simp: loop_inv_def start_probe_def mtu_inv_def roomy_def)
    then obtain st1 where s: "send_probe v e K g (seqno ?s) ttl ?s = Some st1" "mtu_inv M st1" "same_receiver ?s st1"
      using send_probe_safe [OF prems(1)] by blast
    then have inv1: "loop_inv M N st1"
      using prems(4) by (auto simp: loop_inv_def same_receiver_def start_probe_def)
    obtain w st2 as' where w: "await_reply e g (seqno ?s) as st1 = Some (w, st2, as')" "loop_inv M N st2"
        "list_all (tame g (min M (int N))) as'"
        "\<And>i cc. w = Reply i cc \<Longrightarrow> from_addr st2 \<noteq> None \<and> (i = 5 \<longrightarrow> 0 < nextmtu st2 \<and> nextmtu st2 \<le> min M (int N))"
      using await_reply_safe [OF inv1 prems(5)] by blast
    show ?thesis
    proof (cases w)
      case Silence
      then show ?thesis
        using IH(1) [OF True refl s(1) w(1) refl Silence refl prems(1-3)] w hop_loop_pass(1) [OF True s(1)] by simp
    next
      case (Reply i cc)
      from w(4) [OF this] obtain j h' st3 where
          r: "handle_reply e K g (gettimeofday K (ticks st)) i cc h st2 = Some (j, h', st3)" "loop_inv M N st3"
        using handle_reply_safe [OF w(2) prems(2,3)] by metis
      show ?thesis
      proof (cases j)
        case NextProbe
        then show ?thesis
          using IH(2) [OF True refl s(1) w(1) refl Reply refl r(1) refl NextProbe refl prems(1-3) r(2) w(3)]
            hop_loop_pass(3) [OF True s(1)] w(1) Reply r(1) by simp
      next
        case Again
        then show ?thesis
          using IH(3) [OF True refl s(1) w(1) refl Reply refl r(1) refl Again refl prems(1-3) _ w(3)] r(2)
            hop_loop_pass(4) [OF True s(1)] w(1) Reply r(1) by simp
      qed
    next
      case StillWaiting
      then show ?thesis using w hop_loop_pass(2) [OF True s(1)] by simp
    qed
  next
    case False
    then show ?thesis using prems by (simp add: hop_loop_end)
  qed
qed

lemma ttl_loop_safe:
  assumes "link_takes K M" "short_names K" "calm K g" "loop_inv M N st" "list_all (tame g (min M (int N))) as"
  shows "\<exists>r. ttl_loop v e K g ttl st as = Some r"
  using assms
proof (induction v e K g ttl st as rule: ttl_loop.induct)
  case (1 v e K g ttl st as)
  have "loop_inv M N (say [Hop ttl] st)" using "1.prems"(4) by simp
  from hop_loop_safe [OF "1.prems"(1-3) this "1.prems"(5)] obtain h st1 as' where
      hop: "hop_loop v e K g ttl 0 new_hop (say [Hop ttl] st) as = Some (h, st1, as')" "loop_inv M N st1"
        "list_all (tame g (min M (int N))) as'" by blast
  show ?case
  proof (cases "ttl \<le> max_ttl g")
    case True
    show ?thesis
    proof (cases h)
      case (Some h')
      show ?thesis
      proof (cases "got_there h' \<noteq> 0 \<or> unreachable h' \<ge> nprobes g - 1")
        case False
        then show ?thesis
          using "1.IH" [OF True hop(1) refl Some refl False "1.prems"(1-3) _ hop(3)] hop True Some
          by (simp add: ttl_loop.simps [of v e K g ttl])
      qed (use hop True Some in \<open>simp add: ttl_loop.simps [of v e K g ttl]\<close>)
    qed (use hop True in \<open>simp add: ttl_loop.simps [of v e K g ttl]\<close>)
  qed (simp add: ttl_loop.simps [of v e K g ttl])
qed

end
