(* ===== verification/Trace_Route.thy ===== *)
theory Trace_Route
  imports Trace_Loop
begin

text \<open>
  What \<^verbatim>\<open>tcpipi/traceroute\<close> prints on a network that answers: routers that drop the probe with a time
  exceeded message and a destination that refuses its port, among any other ICMP traffic.
\<close>

section \<open>Tracing a route\<close>

text \<open>What a reader sees, without the measured times, the host names and the size reported on standard
  error.\<close>

fun shown_msg :: "msg \<Rightarrow> msg list" where
  "shown_msg (Host name a) = [Host [] a]"
| "shown_msg (Ms d) = [Ms 0]"
| "shown_msg (OutgoingMtu n) = []"
| "shown_msg m = [m]"

definition shown :: "msg list \<Rightarrow> msg list" where
  "shown ms = concat (map shown_msg ms)"

lemma shown_append [simp]: "shown (xs @ ys) = shown xs @ shown ys" "shown [] = []"
  by (simp_all add: shown_def)

lemma shown_Cons [simp]: "shown (m # ms) = shown_msg m @ shown ms"
  by (simp add: shown_def)

text \<open>Messages that are no answer to probe \<open>seq\<close>, whatever the buffer holds behind them, and the genuine
  ICMP errors about it.\<close>

fun noise :: "settings \<Rightarrow> int \<Rightarrow> answer \<Rightarrow> bool" where
  "noise g seq NotReady \<longleftrightarrow> False"
| "noise g seq RecvFailed \<longleftrightarrow> True"
| "noise g seq (Received a bs) \<longleftrightarrow>
     bs \<noteq> [] \<and> (\<forall>rest. \<not> accepts g seq (int (length (take 512 bs))) (take 512 bs @ rest))"

definition genuine :: "settings \<Rightarrow> int \<Rightarrow> u8 \<Rightarrow> u8 \<Rightarrow> u8 list \<Rightarrow> bool" where
  "genuine g seq ty code bs \<longleftrightarrow> (\<exists>iph ck mtu qip len.
     bs = icmp_error iph ty code ck mtu qip (probe_udp g seq len) \<and> ip_header iph \<and> iph ! 8 > 1 \<and>
     ip_header qip \<and> qip ! 9 = 17)"

definition answer_to :: "settings \<Rightarrow> int \<Rightarrow> u32 \<Rightarrow> u8 \<Rightarrow> u8 \<Rightarrow> answer list \<Rightarrow> bool" where
  "answer_to g seq a ty code as \<longleftrightarrow> (\<exists>ns bs. as = ns @ [Received a bs] \<and> list_all (noise g seq) ns \<and> genuine g seq ty code bs)"

text \<open>A wait leaves the sending side and the output alone.\<close>

definition same_view :: "trace \<Rightarrow> trace \<Rightarrow> bool" where
  "same_view st st' \<longleftrightarrow> outpacket st' = outpacket st \<and> datalen st' = datalen st \<and> mtuptr st' = mtuptr st \<and>
     seqno st' = seqno st \<and> out st' = out st \<and> length (packet st') = 512"

lemma same_view_trans: "same_view a b \<Longrightarrow> same_view b c \<Longrightarrow> same_view a c"
  by (simp add: same_view_def)

lemma await_one:
  assumes "length (packet st) = 512" "\<not> vflag g" "wait_for_reply a st = (cc, st1)" "cc \<noteq> 0"
  obtains st2 where "packet_ok e g cc seq st1 = Some (if accepts g seq cc (packet st1) then verdict (packet st1) else 0, st2)"
    "same_view st st2" "from_addr st2 = from_addr st1" "packet st2 = packet st1"
proof -
  have st1: "length (packet st1) = 512" "cc \<le> 512" "same_view st st1"
    using assms(1,3) by (cases a; auto simp: same_view_def packet_size_def Let_def)+
  then obtain i st2 where ok: "packet_ok e g cc seq st1 = Some (i, st2)"
    using packet_ok_undefined [of st1 cc g e seq] assms(2) by auto
  note r = packet_ok_result [OF st1(1,2) ok]
  have "same_view st1 st2" "from_addr st2 = from_addr st1" "packet st2 = packet st1"
    using r(2,3) assms(2) st1(1) by (auto simp: same_sender_def same_view_def)
  then show ?thesis using ok r(1) same_view_trans [OF st1(3)] by (intro that [of st2]) simp_all
qed

lemma await_noise:
  assumes "length (packet st) = 512" "\<not> vflag g" "list_all (noise g seq) ns"
  shows "\<exists>st'. await_reply e g seq (ns @ as) st = await_reply e g seq as st' \<and> same_view st st'"
  using assms
proof (induction ns arbitrary: st)
  case (Cons a ns)
  obtain cc st1 where w: "wait_for_reply a st = (cc, st1)" by fastforce
  have cc: "cc \<noteq> 0 \<and> \<not> accepts g seq cc (packet st1)"
  proof (cases a)
    case (Received b bs)
    then have "bs \<noteq> []" "\<not> accepts g seq (int (length (take 512 bs))) (take 512 bs @ drop (length (take 512 bs)) (packet st))"
      using Cons.prems(3) by auto
    moreover have "cc = int (length (take 512 bs))" "packet st1 = take 512 bs @ drop (length (take 512 bs)) (packet st)"
      using w Received by (auto simp: Let_def packet_size_def)
    ultimately show ?thesis by simp
  next
    case RecvFailed
    then show ?thesis using w hdr_len_range(1) [of "packet st1"] by (auto simp: accepts_def)
  qed (use Cons.prems(3) in simp)
  note cc = conjunct1 [OF cc] conjunct2 [OF cc]
  obtain st2 where "packet_ok e g cc seq st1 = Some (if accepts g seq cc (packet st1) then verdict (packet st1) else 0, st2)"
      and view: "same_view st st2" by (rule await_one [OF Cons.prems(1,2) w cc(1)])
  then have ok: "packet_ok e g cc seq st1 = Some (0, st2)" using cc(2) by simp
  have "length (packet st2) = 512" using view by (simp add: same_view_def)
  from Cons.IH [OF this Cons.prems(2)] Cons.prems(3) obtain st' where
      "await_reply e g seq (ns @ as) st2 = await_reply e g seq as st'" "same_view st2 st'" by auto
  then show ?case using w cc(1) ok same_view_trans [OF view] by auto
qed (auto simp: same_view_def)

lemma await_answer:
  assumes "length (packet st) = 512" "\<not> vflag g" "answer_to g seq a ty code c" "ty = 11 \<and> code = 0 \<or> ty = 3"
  obtains cc st' where
    "await_reply e g seq (c @ as) st = Some (Reply (if ty = 11 then - 1 else uint code + 1) cc, st', as)"
    "same_view st st'" "from_addr st' = Some a" "packet st' ! 8 > 1"
proof -
  obtain ns bs where c: "c = ns @ [Received a bs]" "list_all (noise g seq) ns" "genuine g seq ty code bs"
    using assms(3) by (auto simp: answer_to_def)
  obtain iph ck mtu qip len where bs: "bs = icmp_error iph ty code ck mtu qip (probe_udp g seq len)" "ip_header iph"
      "iph ! 8 > 1" "ip_header qip" "qip ! 9 = 17" using c(3) by (auto simp: genuine_def)
  obtain st1 where st1: "await_reply e g seq (ns @ Received a bs # as) st = await_reply e g seq (Received a bs # as) st1"
      "same_view st st1" using await_noise [OF assms(1,2) c(2)] by blast
  have "length iph \<le> 60" "length qip \<le> 60" using bs(2,4) hdr_len_range [of iph] hdr_len_range [of qip]
    by (auto simp: ip_header_def)
  then have short: "length bs \<le> 512" "bs \<noteq> []"
    by (auto simp: bs(1) icmp_error_def probe_udp_def simp del: put16.simps put32.simps)
  obtain cc st2 where w: "wait_for_reply (Received a bs) st1 = (cc, st2)" by fastforce
  note st2 = received_state [OF w short(1)]
  have l: "length (packet st1) = 512" using st1(2) by (simp add: same_view_def)
  note acc = icmp_error_accepted [OF bs(2,4,5) assms(4) bs(1) st2(1), where rest = "drop (length bs) (packet st1)", folded st2(2)]
  have cc: "cc \<noteq> 0" using st2(1) short(2) by simp
  obtain st3 where st3: "packet_ok e g cc seq st2 = Some (if accepts g seq cc (packet st2) then verdict (packet st2) else 0, st3)"
      "same_view st1 st3" "from_addr st3 = from_addr st2" "packet st3 = packet st2"
    by (rule await_one [OF l assms(2) w cc])
  then have ok: "packet_ok e g cc seq st2 = Some (if ty = 11 then - 1 else uint code + 1, st3)"
    using acc(1,2) by simp
  have nz: "(if ty = 11 then - 1 else uint code + 1) \<noteq> 0" using verdict_nonzero [of "packet st2"] acc(2) by simp
  have "packet st2 ! 8 = iph ! 8" using bs(1,2) st2(2) by (simp add: icmp_error_def ip_header_def nth_append)
  then show ?thesis
    using ok st1(1) c(1) w cc nz st2(3) st3 bs(3) same_view_trans [OF st1(2) st3(2)]
    by (intro that [of cc st3]) (simp_all del: wait_for_reply.simps)
qed

section \<open>One probe and one hop\<close>

text \<open>The interface takes packets of the current size, or it has a limit and the table of MTU values has
  entries left that fit the block.\<close>

definition takes_size :: "kernel \<Rightarrow> int \<Rightarrow> bool" where
  "takes_size K len \<longleftrightarrow> (\<forall>n pkt. int (length pkt) = len \<longrightarrow> sendto K n pkt = Sent (length pkt))"

definition limited :: "kernel \<Rightarrow> bool" where
  "limited K \<longleftrightarrow> (\<exists>M. \<forall>n pkt. sendto K n pkt = (if M < length pkt then Emsgsize else Sent (length pkt)))"

definition steady :: "kernel \<Rightarrow> trace \<Rightarrow> bool" where
  "steady K st \<longleftrightarrow> roomy st \<and> length (packet st) = 512 \<and>
     (takes_size K (datalen st) \<or>
      limited K \<and> 0 \<le> mtuptr st \<and> mtuptr st \<le> 17 \<and> mtus ! nat (mtuptr st) \<le> int (length (outpacket st)))"

lemma steady_same_probe: "same_probe st st' \<Longrightarrow> steady K st \<Longrightarrow> steady K st'"
  by (simp add: steady_def same_probe_def roomy_def)

lemma steady_same_view: "same_view st st' \<Longrightarrow> steady K st \<Longrightarrow> steady K st'"
  by (simp add: steady_def same_view_def roomy_def)

lemma steady_say [simp]: "steady K (say ms st) = steady K st"
  by (simp add: steady_def roomy_def)

lemma shown_sizes: "\<forall>m \<in> set ms. \<exists>n. m = OutgoingMtu n \<Longrightarrow> shown ms = []"
  by (induction ms) auto

lemma largest_mtu_le: "largest_mtu M i \<le> int M" if "i < 18"
proof -
  have "0 \<in> set (drop i mtus)" using that by (simp add: mtus_def drop_Cons' numeral_eq_Suc split: if_splits)
  then have "largest_mtu M i \<in> {m \<in> set (drop i mtus). m \<le> int M}"
    unfolding largest_mtu_def by (intro Max_in) auto
  then show ?thesis by simp
qed

lemma send_steady:
  assumes "steady K st" "\<not> vflag g"
  obtains st' where "send_probe v e K g seq ttl st = Some st'" "steady K st'" "shown (out st') = shown (out st)"
    "seqno st' = seqno st" "same_receiver st st'"
proof (cases "takes_size K (datalen st)")
  case True
  from assms have "roomy st" by (simp add: steady_def)
  then obtain pkt st1 where a: "attempt v e K g seq ttl st = Some (sendto K (sends st) pkt, st1)"
      "int (length pkt) = datalen st" "datalen st1 = datalen st" "same_receiver st st1" "out st1 = out st"
    by (rule attempt_run) blast
  have r: "sendto K (sends st) pkt = Sent (length pkt)" using True a(2) by (simp add: takes_size_def)
  have "send_probe v e K g seq ttl st = Some (first_report v st1)"
    using a r send_probe_done [of v e K g seq ttl st "Sent (length pkt)" st1] by (simp add: report_send_def)
  moreover have "steady K (first_report v st1)" "seqno (first_report v st1) = seqno st"
    using assms(1) a True by (auto simp: steady_def roomy_def same_receiver_def first_report_def split: variant.split)
  moreover have "shown (out (first_report v st1)) = shown (out st)"
    using a(5) by (auto simp: first_report_def split: variant.split)
  moreover have "same_receiver st (first_report v st1)" using a(4) by simp
  ultimately show ?thesis by (intro that [of "first_report v st1"])
next
  case False
  then obtain M where M: "\<And>n pkt. sendto K n pkt = (if M < length pkt then Emsgsize else Sent (length pkt))"
      and i: "roomy st" "0 \<le> mtuptr st" "mtuptr st \<le> 17" "mtus ! nat (mtuptr st) \<le> int (length (outpacket st))"
    using assms(1) by (auto simp: steady_def limited_def)
  obtain st' ms where st': "send_probe v e K g seq ttl st = Some st'" "same_receiver st st'" "roomy st'"
      "datalen st' = (if datalen st \<le> int M then datalen st else largest_mtu M (nat (mtuptr st)))"
      "out st' = out st @ ms" "\<forall>m \<in> set ms. \<exists>n. m = OutgoingMtu n \<or> vflag g \<and> m = EmsgsizeFor n"
    using send_probe_search [OF M i(1,2), of v e g seq ttl] i(3,4) by blast
  have "datalen st' \<le> int M" using st'(4) largest_mtu_le [of "nat (mtuptr st)" M] i(3) by auto
  then have "takes_size K (datalen st')" using M by (simp add: takes_size_def)
  moreover have "length (packet st') = 512" using assms(1) st'(2) by (simp add: steady_def same_receiver_def)
  ultimately have "steady K st'" using st'(3) by (simp add: steady_def)
  moreover have "shown (out st') = shown (out st)" using st'(5,6) assms(2) shown_sizes [of ms] by auto
  ultimately show ?thesis using st'(1,2) by (intro that [of st']) (simp_all add: same_receiver_def)
qed

text \<open>The two kinds of answers on the way: routers drop the probe, the destination refuses the port.\<close>

definition route_answer :: "u8 \<Rightarrow> u8 \<Rightarrow> bool" where
  "route_answer ty code \<longleftrightarrow> ty = 11 \<and> code = 0 \<or> ty = 3 \<and> code = 3"

lemma probe_answered:
  assumes "steady K st" "short_names K" "calm K g" "\<not> vflag g" "probe < nprobes g" "route_answer ty code"
    and "answer_to g (seqno st + 1) a ty code c"
  obtains st' where "hop_loop v e K g ttl probe h st (c @ as) =
      hop_loop v e K g ttl (probe + 1) (h\<lparr>lastaddr := a, got_there := got_there h + (if ty = 3 then 1 else 0)\<rparr>) st' as"
    "steady K st'" "seqno st' = seqno st + 1"
    "shown (out st') = shown (out st) @ (if a = lastaddr h then [] else [Host [] a]) @ [Ms 0]"
proof -
  let ?s = "start_probe st"
  have s: "steady K ?s" "seqno ?s = seqno st + 1" "out ?s = out st"
    using assms(1) by (simp_all add: steady_def start_probe_def roomy_def)
  obtain st1 where st1: "send_probe v e K g (seqno ?s) ttl ?s = Some st1" "steady K st1"
      "shown (out st1) = shown (out st)" "seqno st1 = seqno st + 1"
    using send_steady [OF s(1) assms(4)] s(2,3) by metis
  have l1: "length (packet st1) = 512" using st1(2) by (simp add: steady_def)
  have tc: "ty = 11 \<and> code = 0 \<or> ty = 3" using assms(6) by (auto simp: route_answer_def)
  obtain cc st2 where st2: "await_reply e g (seqno st + 1) (c @ as) st1 =
        Some (Reply (if ty = 11 then - 1 else uint code + 1) cc, st2, as)"
      "same_view st1 st2" "from_addr st2 = Some a" "packet st2 ! 8 > 1"
    by (rule await_answer [OF l1 assms(4,7) tc])
  have l2: "length (packet st2) = 512" using st2(2) by (simp add: same_view_def)
  obtain st3 dt ms where st3: "handle_reply e K g (gettimeofday K (ticks st)) (if ty = 11 then - 1 else uint code + 1) cc h st2 =
        reply_switch ((if ty = 11 then - 1 else uint code + 1) - 1) (h\<lparr>lastaddr := a\<rparr>) st3"
      "same_probe st2 st3" "out st3 = out st2 @ ms @ [Ms dt]"
      "\<not> vflag g \<Longrightarrow> if a = lastaddr h then ms = [] else \<exists>name. ms = [Host name a]"
    by (rule handle_reply_run [OF l2 assms(2) st2(3) assms(3), where e = e and n = "ticks st"
        and i = "if ty = 11 then - 1 else uint code + 1" and cc = cc and h = h]) blast
  have p3: "packet st3 = packet st2" using st3(2) by (simp add: same_probe_def)
  have rd: "rd8 (packet st3) 8 = Some (packet st2 ! 8)" using l2 p3 by (simp add: rd8_at)
  have nt: "\<not> packet st2 ! 8 \<le> 1" using st2(4) by (simp add: not_le)
  have sw: "reply_switch ((if ty = 11 then - 1 else uint code + 1) - 1) (h\<lparr>lastaddr := a\<rparr>) st3 =
      Some (NextProbe, h\<lparr>lastaddr := a, got_there := got_there h + (if ty = 3 then 1 else 0)\<rparr>, st3)"
  proof (cases "ty = 11")
    case True
    then show ?thesis by (simp add: reply_switch_def)
  next
    case False
    then have "ty = 3" "code = 3" using assms(6) by (auto simp: route_answer_def)
    then show ?thesis using rd nt by (simp add: reply_switch_def)
  qed
  show ?thesis
  proof (rule that)
    show "hop_loop v e K g ttl probe h st (c @ as) =
      hop_loop v e K g ttl (probe + 1) (h\<lparr>lastaddr := a, got_there := got_there h + (if ty = 3 then 1 else 0)\<rparr>) st3 as"
      using hop_loop_pass(3) [OF assms(5) st1(1), of "c @ as"] st2(1) st3(1) sw s(2) by simp
    show "steady K st3" using st1(2) st2(2) st3(2) steady_same_view steady_same_probe by blast
    show "seqno st3 = seqno st + 1" using st1(4) st2(2) st3(2) by (simp add: same_view_def same_probe_def)
    show "shown (out st3) = shown (out st) @ (if a = lastaddr h then [] else [Host [] a]) @ [Ms 0]"
      using st1(3) st2(2) st3(3,4) assms(4) by (auto simp: same_view_def split: if_splits)
  qed
qed

fun hop_answers :: "settings \<Rightarrow> int \<Rightarrow> u32 \<Rightarrow> u8 \<Rightarrow> u8 \<Rightarrow> answer list list \<Rightarrow> bool" where
  "hop_answers g seq a ty code [] \<longleftrightarrow> True"
| "hop_answers g seq a ty code (c # cs) \<longleftrightarrow> answer_to g (seq + 1) a ty code c \<and> hop_answers g (seq + 1) a ty code cs"

lemma hop_answered:
  assumes "steady K st" "short_names K" "calm K g" "\<not> vflag g" "route_answer ty code"
    and "hop_answers g (seqno st) a ty code cs" "probe + int (length cs) = nprobes g"
  shows "\<exists>h' st'. hop_loop v e K g ttl probe h st (concat cs @ as) = Some (Some h', st', as) \<and>
    got_there h' = got_there h + (if ty = 3 then int (length cs) else 0) \<and> unreachable h' = unreachable h \<and>
    steady K st' \<and> seqno st' = seqno st + int (length cs) \<and>
    shown (out st') = shown (out st) @ (if cs = [] \<or> a = lastaddr h then [] else [Host [] a]) @ replicate (length cs) (Ms 0)"
  using assms
proof (induction cs arbitrary: probe h st)
  case Nil
  then show ?case by (simp add: hop_loop_end)
next
  case (Cons c cs)
  let ?h = "h\<lparr>lastaddr := a, got_there := got_there h + (if ty = 3 then 1 else 0)\<rparr>"
  have p: "probe < nprobes g" "answer_to g (seqno st + 1) a ty code c" using Cons.prems(6,7) by auto
  obtain st1 where st1: "hop_loop v e K g ttl probe h st (c @ (concat cs @ as)) =
        hop_loop v e K g ttl (probe + 1) ?h st1 (concat cs @ as)"
      "steady K st1" "seqno st1 = seqno st + 1"
      "shown (out st1) = shown (out st) @ (if a = lastaddr h then [] else [Host [] a]) @ [Ms 0]"
    by (rule probe_answered [OF Cons.prems(1-4) p(1) Cons.prems(5) p(2)])
  obtain h' st' where IH: "hop_loop v e K g ttl (probe + 1) ?h st1 (concat cs @ as) = Some (Some h', st', as)"
      "got_there h' = got_there ?h + (if ty = 3 then int (length cs) else 0)" "unreachable h' = unreachable h"
      "steady K st'" "seqno st' = seqno st1 + int (length cs)"
      "shown (out st') = shown (out st1) @ replicate (length cs) (Ms 0)"
    using Cons.IH [OF st1(2) Cons.prems(2-5), of "probe + 1" ?h] Cons.prems(6,7) st1(3) by auto
  show ?case using IH st1 by (auto simp: replicate_append_same)
qed

section \<open>The whole route\<close>

text \<open>The answers of a path: \<open>n\<close> for every router and finally \<open>n\<close> from the destination.\<close>

fun route_answers :: "settings \<Rightarrow> nat \<Rightarrow> int \<Rightarrow> u32 list \<Rightarrow> answer list list list \<Rightarrow> bool" where
  "route_answers g n seq [d] [cs] \<longleftrightarrow> length cs = n \<and> hop_answers g seq d 3 3 cs"
| "route_answers g n seq (r # r' # rs) (cs # css) \<longleftrightarrow>
     length cs = n \<and> hop_answers g seq r 11 0 cs \<and> route_answers g n (seq + int n) (r' # rs) css"
| "route_answers g n seq _ _ \<longleftrightarrow> False"

fun route_lines :: "nat \<Rightarrow> int \<Rightarrow> u32 list \<Rightarrow> msg list" where
  "route_lines n ttl [] = []"
| "route_lines n ttl (r # rs) = [Hop ttl, Host [] r] @ replicate n (Ms 0) @ [Newline] @ route_lines n (ttl + 1) rs"

lemma route_traced:
  assumes "steady K st" "short_names K" "calm K g" "\<not> vflag g" "nprobes g = int n" "2 \<le> n"
    and "route_answers g n (seqno st) path css" "0 \<notin> set path" "ttl + int (length path) \<le> max_ttl g + 1"
  shows "\<exists>st'. ttl_loop v e K g ttl st (concat (concat css) @ later) = Some (Exited 0, st') \<and>
    shown (out st') = shown (out st) @ route_lines n ttl path"
  using assms
proof (induction g n "seqno st" path css arbitrary: st ttl rule: route_answers.induct)
  case (1 g n d cs)
  have s: "steady K (say [Hop ttl] st)" "hop_answers g (seqno (say [Hop ttl] st)) d 3 3 cs" "cs \<noteq> []" using 1 by auto
  obtain h st1 where h: "hop_loop v e K g ttl 0 new_hop (say [Hop ttl] st) (concat cs @ later) = Some (Some h, st1, later)"
      "got_there h = int (length cs)" "shown (out st1) = shown (out st) @ [Hop ttl, Host [] d] @ replicate (length cs) (Ms 0)"
    using hop_answered [OF s(1) 1(2-4) _ s(2), of 0 v e ttl new_hop later] 1 s(3) by (auto simp: new_hop_def route_answer_def)
  show ?case using h 1 by (simp add: ttl_loop.simps [of v e K g ttl])
next
  case (2 g n r r' rs cs css)
  have s: "steady K (say [Hop ttl] st)" "hop_answers g (seqno (say [Hop ttl] st)) r 11 0 cs" "cs \<noteq> []" using 2 by auto
  let ?as = "concat (concat css) @ later"
  obtain h st1 where h: "hop_loop v e K g ttl 0 new_hop (say [Hop ttl] st) (concat cs @ ?as) = Some (Some h, st1, ?as)"
      "got_there h = 0" "unreachable h = 0" "steady K st1" "seqno st1 = seqno st + int (length cs)"
      "shown (out st1) = shown (out st) @ [Hop ttl, Host [] r] @ replicate (length cs) (Ms 0)"
    using hop_answered [OF s(1) 2(3-5) _ s(2), of 0 v e ttl new_hop ?as] 2 s(3) by (auto simp: new_hop_def route_answer_def)
  have step: "ttl_loop v e K g ttl st (concat (concat (cs # css)) @ later) = ttl_loop v e K g (ttl + 1) (say [Newline] st1) ?as"
    using h(1-3) 2 by (simp add: ttl_loop.simps [of v e K g ttl])
  show ?case using 2(1) [of "say [Newline] st1" "ttl + 1"] h step 2(2-) by auto
qed simp_all

end
