(* ===== verification/Trace_Setup.thy ===== *)
theory Trace_Setup
  imports Trace_Route Sock_Options
begin

text \<open>
  The beginning of \<^verbatim>\<open>main\<close> of \<^verbatim>\<open>tcpipi/traceroute\<close>, up to the first probe, and the whole program.
  The options come as \<^verbatim>\<open>getopt\<close> delivers them, then the operands.  Resolver, allocator and sockets are
  functions of a record; the socket options that are set are recorded in order.  \<^verbatim>\<open>SO_SNDBUF\<close> and
  \<^verbatim>\<open>IP_HDRINCL\<close> are taken as defined, \<^verbatim>\<open>ARCHAIC\<close> as undefined.  A run that ends before the probes gives
  its exit status; messages about errors and the source route are not recorded.
\<close>

section \<open>Results\<close>

datatype halt = Quit int | Undef

type_synonym 'a start = "halt + 'a"

definition bindq :: "'a start \<Rightarrow> ('a \<Rightarrow> 'b start) \<Rightarrow> 'b start" where
  "bindq x f = (case x of Inl q \<Rightarrow> Inl q | Inr a \<Rightarrow> f a)"

definition defined :: "'a option \<Rightarrow> 'a start" where
  "defined x = (case x of None \<Rightarrow> Inl Undef | Some a \<Rightarrow> Inr a)"

definition number :: "string \<Rightarrow> int start" where
  "number s = (case atoi s of Inl _ \<Rightarrow> Inl Undef | Inr v \<Rightarrow> Inr v)"

definition quit_if :: "bool \<Rightarrow> int \<Rightarrow> unit start" where
  "quit_if b c = (if b then Inl (Quit c) else Inr ())"

lemma bindq_simps [simp]: "bindq (Inr a) f = f a" "bindq (Inl q) f = Inl q"
  by (simp_all add: bindq_def)

lemma bindq_Inr: "bindq x f = Inr b \<longleftrightarrow> (\<exists>a. x = Inr a \<and> f a = Inr b)"
  by (cases x) auto

lemma quit_if_Inr [simp]: "quit_if b c = Inr u \<longleftrightarrow> \<not> b"
  by (simp add: quit_if_def)

lemma quit_if_simps [simp]: "quit_if False c = Inr ()" "quit_if True c = Inl (Quit c)"
  by (simp_all add: quit_if_def)

lemma defined_Inr [simp]: "defined x = Inr a \<longleftrightarrow> x = Some a"
  by (cases x) (simp_all add: defined_def)

section \<open>The system\<close>

datatype sock = IcmpSock | SendSock

datatype sockopt = SoDebug sock | SoDontroute sock | IpOptions "u8 list" | SoSndbuf int | IpHdrincl

record system =
  inet_addr :: "string \<Rightarrow> u32"
  gethostbyname :: "string \<Rightarrow> u32 option"
  getprotobyname :: "string \<Rightarrow> int option"
  malloc_ok :: "int \<Rightarrow> bool"
  getpid :: int
  icmp_socket :: "int \<Rightarrow> int"
  raw_socket :: int
  setsockopt :: "sockopt \<Rightarrow> int"

section \<open>The options\<close>

record cmdline =
  set_to :: settings
  tos :: int
  source :: "string option"
  lsrr :: int
  oix :: "int option"
  optlist :: "u8 list"

definition MAX_IPOPTLEN :: nat where
  "MAX_IPOPTLEN = 40"

definition IPOPT_MINOFF :: nat where
  "IPOPT_MINOFF = 4"

text \<open>The values at the start; \<open>ident\<close> is set later.\<close>

definition start_values :: cmdline where
  "start_values = \<lparr>set_to = \<lparr>nprobes = 3, max_ttl = 30, ident = 0, port = 32768 + 666, so_debug = False,
       so_dontroute = False, vflag = False, waittime = 5, nflag = False\<rparr>,
     tos = 0, source = None, lsrr = 0, oix = None, optlist = replicate MAX_IPOPTLEN 0\<rparr>"

text \<open>An address given as dotted decimal number or else as name.\<close>

definition resolve :: "system \<Rightarrow> string \<Rightarrow> u32 start" where
  "resolve S name =
     (if inet_addr S name \<noteq> 0xffffffff then Inr (inet_addr S name)
      else (case gethostbyname S name of Some a \<Rightarrow> Inr a | None \<Rightarrow> Inl (Quit 1)))"

text \<open>The start of the option: type, a length that is filled in later, and the pointer.\<close>

definition begin_route :: "char \<Rightarrow> cmdline \<Rightarrow> cmdline start" where
  "begin_route ch c =
     (let ol = replicate MAX_IPOPTLEN 0 in
      bindq (defined (poke 0 [if ch = CHR ''G'' then 137 else 131] ol)) (\<lambda>ol.
      bindq (defined (poke 2 [of_nat IPOPT_MINOFF] ol)) (\<lambda>ol.
      Inr (c\<lparr>oix := Some 3, optlist := ol\<rparr>))))"

definition put_address :: "host \<Rightarrow> u32 \<Rightarrow> cmdline \<Rightarrow> cmdline start" where
  "put_address e a c =
     bindq (defined (oix c)) (\<lambda>i.
     bindq (defined (poke (nat i) (put32 e a) (optlist c))) (\<lambda>ol.
     Inr (c\<lparr>optlist := ol, oix := Some (i + 4)\<rparr>)))"

definition gateway :: "host \<Rightarrow> system \<Rightarrow> char \<Rightarrow> string \<Rightarrow> cmdline \<Rightarrow> cmdline start" where
  "gateway e S ch arg c =
     bindq (quit_if (lsrr c + 1 \<ge> int ((MAX_IPOPTLEN - IPOPT_MINOFF) div 4)) 1) (\<lambda>_.
     bindq (if lsrr c = 0 then begin_route ch c else Inr c) (\<lambda>c.
     bindq (resolve S arg) (\<lambda>gw.
     put_address e gw (c\<lparr>lsrr := lsrr c + 1\<rparr>))))"

abbreviation with_settings :: "cmdline \<Rightarrow> (settings \<Rightarrow> settings) \<Rightarrow> cmdline" where
  "with_settings c f \<equiv> c\<lparr>set_to := f (set_to c)\<rparr>"

definition trace_option :: "host \<Rightarrow> system \<Rightarrow> char \<Rightarrow> string \<Rightarrow> cmdline \<Rightarrow> cmdline start" where
  "trace_option e S ch arg c =
     (if ch = CHR ''d'' then Inr (with_settings c (\<lambda>g. g\<lparr>so_debug := True\<rparr>))
      else if ch = CHR ''G'' \<or> ch = CHR ''g'' then gateway e S ch arg c
      else if ch = CHR ''m'' then
        bindq (number arg) (\<lambda>v. bindq (quit_if (v \<le> 1) 1) (\<lambda>_. Inr (with_settings c (\<lambda>g. g\<lparr>max_ttl := v\<rparr>))))
      else if ch = CHR ''n'' then Inr (with_settings c (\<lambda>g. g\<lparr>nflag := True\<rparr>))
      else if ch = CHR ''p'' then
        bindq (number arg) (\<lambda>v. let p = (word_of_int v :: u16) in
        bindq (quit_if (p < 1) 1) (\<lambda>_. Inr (with_settings c (\<lambda>g. g\<lparr>port := p\<rparr>))))
      else if ch = CHR ''q'' then
        bindq (number arg) (\<lambda>v. bindq (quit_if (v < 1) 1) (\<lambda>_. Inr (with_settings c (\<lambda>g. g\<lparr>nprobes := v\<rparr>))))
      else if ch = CHR ''r'' then Inr (with_settings c (\<lambda>g. g\<lparr>so_dontroute := True\<rparr>))
      else if ch = CHR ''s'' then Inr (c\<lparr>source := Some arg\<rparr>)
      else if ch = CHR ''t'' then
        bindq (number arg) (\<lambda>v. bindq (quit_if (v < 0 \<or> v > 255) 1) (\<lambda>_. Inr (c\<lparr>tos := v\<rparr>)))
      else if ch = CHR ''v'' then Inr (with_settings c (\<lambda>g. g\<lparr>vflag := True\<rparr>))
      else if ch = CHR ''w'' then
        bindq (number arg) (\<lambda>v. bindq (quit_if (v \<le> 1) 1) (\<lambda>_. Inr (with_settings c (\<lambda>g. g\<lparr>waittime := v\<rparr>))))
      else Inl (Quit 1))"

primrec trace_options :: "host \<Rightarrow> system \<Rightarrow> (char \<times> string) list \<Rightarrow> cmdline \<Rightarrow> cmdline start" where
  "trace_options e S [] c = Inr c"
| "trace_options e S (x # xs) c = bindq (trace_option e S (fst x) (snd x) c) (\<lambda>c. trace_options e S xs c)"

section \<open>The packet\<close>

definition MAXPACKET :: int where
  "MAXPACKET = 65535"

text \<open>The wanted data size and the position in the table of MTU values.\<close>

definition data_size :: "variant \<Rightarrow> string list \<Rightarrow> (int \<times> int) start" where
  "data_size v rest =
     (case rest of
        s # _ \<Rightarrow> bindq (number s) (\<lambda>n. Inr (n, 0))
      | [] \<Rightarrow>
          (case v of
             Lsrr \<Rightarrow> Inr (0, 0)
           | Pmtu \<Rightarrow> bindq (defined (aget mtus 0)) (\<lambda>m. Inr (m - sizeof_opacket, 1))))"

definition make_packet :: "host \<Rightarrow> system \<Rightarrow> u32 \<Rightarrow> int \<Rightarrow> int \<times> int \<Rightarrow> trace start" where
  "make_packet e S dst t want =
     bindq (quit_if (fst want < 0 \<or> fst want \<ge> MAXPACKET - sizeof_opacket) 1) (\<lambda>_.
     let len = fst want + sizeof_opacket in
     bindq (quit_if (\<not> malloc_ok S len) 1) (\<lambda>_.
     bindq (defined (poke 16 (put32 e dst) (replicate (nat len) 0))) (\<lambda>op.
     bindq (defined (poke 1 [word_of_int t] op)) (\<lambda>op.
     Inr \<lparr>outpacket = op, datalen = len, mtuptr = snd want, nextmtu = 0, firsttime = True,
       packet = replicate packet_size 0, from_addr = None, first = True, domain = [], seqno = 0,
       sends = 0, ticks = 0, out = []\<rparr>))))"

section \<open>The sockets\<close>

text \<open>A socket option whose failure ends the program, and the two that are not checked.\<close>

definition must_set :: "system \<Rightarrow> sockopt \<Rightarrow> int \<Rightarrow> sockopt list \<Rightarrow> sockopt list start" where
  "must_set S opt code calls = bindq (quit_if (setsockopt S opt < 0) code) (\<lambda>_. Inr (calls @ [opt]))"

definition debug_route :: "settings \<Rightarrow> sock \<Rightarrow> sockopt list \<Rightarrow> sockopt list" where
  "debug_route g s calls =
     calls @ (if so_debug g then [SoDebug s] else []) @ (if so_dontroute g then [SoDontroute s] else [])"

text \<open>The loop that pads the option to a multiple of four bytes.\<close>

function pad4 :: "int \<Rightarrow> int" where
  "pad4 i = (if i mod 4 \<noteq> 0 then pad4 (i + 1) else i)"
  by pat_completeness auto
termination
  by (relation "measure (\<lambda>i. nat ((- i) mod 4))") (simp_all, presburger)

declare pad4.simps [simp del]

definition source_route :: "host \<Rightarrow> system \<Rightarrow> u32 \<Rightarrow> cmdline \<Rightarrow> sockopt list \<Rightarrow> sockopt list start" where
  "source_route e S dst c calls =
     (if lsrr c > 0 then
        (let n = lsrr c + 1 in
         bindq (defined (poke 1 [word_of_int (int IPOPT_MINOFF - 1 + n * 4)] (optlist c))) (\<lambda>ol.
         bindq (put_address e dst (c\<lparr>lsrr := n, optlist := ol\<rparr>)) (\<lambda>c.
         bindq (defined (oix c)) (\<lambda>i.
         bindq (quit_if (getprotobyname S ''ip'' = None) 10) (\<lambda>_.
         bindq (defined (bytes_of (optlist c) (pad4 i))) (\<lambda>bs.
         must_set S (IpOptions bs) 5 calls))))))
      else Inr calls)"

definition open_sockets :: "host \<Rightarrow> system \<Rightarrow> u32 \<Rightarrow> int \<Rightarrow> cmdline \<Rightarrow> sockopt list start" where
  "open_sockets e S dst len c =
     (case getprotobyname S ''icmp'' of
        None \<Rightarrow> Inl (Quit 10)
      | Some p \<Rightarrow>
          bindq (quit_if (icmp_socket S p < 0) 5) (\<lambda>_.
          let calls = debug_route (set_to c) IcmpSock [] in
          bindq (quit_if (raw_socket S < 0) 5) (\<lambda>_.
          bindq (source_route e S dst c calls) (\<lambda>calls.
          bindq (must_set S (SoSndbuf len) 6 calls) (\<lambda>calls.
          bindq (must_set S IpHdrincl 6 calls) (\<lambda>calls.
          Inr (debug_route (set_to c) SendSock calls)))))))"

definition set_source :: "host \<Rightarrow> system \<Rightarrow> cmdline \<Rightarrow> trace \<Rightarrow> trace start" where
  "set_source e S c st =
     (case source c of
        None \<Rightarrow> Inr st
      | Some name \<Rightarrow>
          bindq (quit_if (inet_addr S name = 0xffffffff) 1) (\<lambda>_.
          bindq (defined (poke 12 (put32 e (inet_addr S name)) (outpacket st))) (\<lambda>op.
          Inr (st\<lparr>outpacket := op, from_addr := Some (inet_addr S name)\<rparr>))))"

section \<open>The program\<close>

definition trace_setup ::
    "variant \<Rightarrow> host \<Rightarrow> system \<Rightarrow> (char \<times> string) list \<Rightarrow> string list \<Rightarrow>
     (settings \<times> trace \<times> sockopt list) start" where
  "trace_setup v e S opts argv =
     bindq (trace_options e S opts start_values) (\<lambda>c.
     case argv of
       [] \<Rightarrow> Inl (Quit 1)
     | name # rest \<Rightarrow>
         bindq (resolve S name) (\<lambda>dst.
         bindq (data_size v rest) (\<lambda>want.
         bindq (make_packet e S dst (tos c) want) (\<lambda>st.
         let c = with_settings c (\<lambda>g. g\<lparr>ident := (word_of_int (getpid S) AND 0xffff) OR 0x8000\<rparr>) in
         bindq (open_sockets e S dst (datalen st) c) (\<lambda>calls.
         bindq (set_source e S c st) (\<lambda>st.
         Inr (set_to c, st, calls)))))))"

definition traceroute_main ::
    "variant \<Rightarrow> host \<Rightarrow> system \<Rightarrow> kernel \<Rightarrow> (char \<times> string) list \<Rightarrow> string list \<Rightarrow> answer list \<Rightarrow>
     (ending \<times> trace) start" where
  "traceroute_main v e S K opts argv as =
     bindq (trace_setup v e S opts argv) (\<lambda>(g, st, calls). defined (ttl_loop v e K g 1 st as))"

text \<open>The two programs; the parts of \<^verbatim>\<open>traceroute.lsrr.c\<close> that differ from \<^verbatim>\<open>traceroute.pmtu.c\<close> are
  named.\<close>

definition pmtu_main ::
    "host \<Rightarrow> system \<Rightarrow> kernel \<Rightarrow> (char \<times> string) list \<Rightarrow> string list \<Rightarrow> answer list \<Rightarrow> (ending \<times> trace) start" where
  "pmtu_main = traceroute_main Pmtu"

definition lsrr_send_probe :: "host \<Rightarrow> kernel \<Rightarrow> settings \<Rightarrow> int \<Rightarrow> int \<Rightarrow> trace \<Rightarrow> trace option" where
  "lsrr_send_probe = send_probe Lsrr"

definition lsrr_setup ::
    "host \<Rightarrow> system \<Rightarrow> (char \<times> string) list \<Rightarrow> string list \<Rightarrow> (settings \<times> trace \<times> sockopt list) start" where
  "lsrr_setup = trace_setup Lsrr"

definition lsrr_loop :: "host \<Rightarrow> kernel \<Rightarrow> settings \<Rightarrow> int \<Rightarrow> trace \<Rightarrow> answer list \<Rightarrow> (ending \<times> trace) option" where
  "lsrr_loop = ttl_loop Lsrr"

definition lsrr_main ::
    "host \<Rightarrow> system \<Rightarrow> kernel \<Rightarrow> (char \<times> string) list \<Rightarrow> string list \<Rightarrow> answer list \<Rightarrow> (ending \<times> trace) start" where
  "lsrr_main e S K opts argv as =
     bindq (lsrr_setup e S opts argv) (\<lambda>(g, st, calls). defined (lsrr_loop e K g 1 st as))"

lemma lsrr_main_eq: "lsrr_main = traceroute_main Lsrr"
  by (intro ext) (simp add: lsrr_main_def lsrr_setup_def lsrr_loop_def traceroute_main_def)

section \<open>Accepted command lines\<close>

text \<open>What every accepted command line guarantees.\<close>

definition well_formed :: "cmdline \<Rightarrow> bool" where
  "well_formed c \<longleftrightarrow> 1 \<le> nprobes (set_to c) \<and> 2 \<le> max_ttl (set_to c) \<and> 2 \<le> waittime (set_to c) \<and>
     port (set_to c) \<noteq> 0 \<and> 0 \<le> tos c \<and> tos c \<le> 255 \<and> 0 \<le> lsrr c \<and> lsrr c \<le> 8 \<and> length (optlist c) = 40 \<and>
     (lsrr c > 0 \<longrightarrow> oix c = Some (3 + 4 * lsrr c))"

lemma well_formed_start: "well_formed start_values"
  by (simp add: well_formed_def start_values_def MAX_IPOPTLEN_def)

lemma poke_run: "i + length bs \<le> length buf \<Longrightarrow> poke i bs buf = Some (take i buf @ bs @ drop (i + length bs) buf)"
  by (simp add: poke_def)

lemma begin_route_run:
  "begin_route ch c = Inr (c\<lparr>oix := Some 3, optlist := [if ch = CHR ''G'' then 137 else 131, 0, 4] @ replicate 37 0\<rparr>)"
  by (simp add: begin_route_def defined_def poke_def MAX_IPOPTLEN_def IPOPT_MINOFF_def numeral_eq_Suc)

lemma put_address_run:
  assumes "oix c = Some i" "0 \<le> i" "i + 4 \<le> int (length (optlist c))"
  shows "put_address e a c = Inr (c\<lparr>optlist := take (nat i) (optlist c) @ put32 e a @ drop (nat i + 4) (optlist c),
    oix := Some (i + 4)\<rparr>)"
  using assms by (simp add: put_address_def defined_def poke_run)

lemma gateway_limit: "lsrr c \<ge> 8 \<Longrightarrow> gateway e S ch arg c = Inl (Quit 1)"
  by (simp add: gateway_def quit_if_def MAX_IPOPTLEN_def IPOPT_MINOFF_def)

lemma gateway_run:
  fixes ch c
  assumes "well_formed c" "lsrr c < 8" "resolve S arg = Inr a"
  defines "i \<equiv> (if lsrr c = 0 then 3 else nat (3 + 4 * lsrr c))"
    and "ol \<equiv> (if lsrr c = 0 then [if ch = CHR ''G'' then 137 else 131, 0, 4] @ replicate 37 0 else optlist c)"
  shows "gateway e S ch arg c =
    Inr (c\<lparr>lsrr := lsrr c + 1, optlist := take i ol @ put32 e a @ drop (i + 4) ol, oix := Some (7 + 4 * lsrr c)\<rparr>)"
proof -
  have q: "quit_if (lsrr c + 1 \<ge> int ((MAX_IPOPTLEN - IPOPT_MINOFF) div 4)) 1 = Inr ()"
    using assms(2) by (simp add: quit_if_def MAX_IPOPTLEN_def IPOPT_MINOFF_def)
  show ?thesis
  proof (cases "lsrr c = 0")
    case True
    then show ?thesis using q assms(3)
      by (simp add: gateway_def begin_route_run put_address_run i_def ol_def)
  next
    case False
    then have "oix c = Some (3 + 4 * lsrr c)" "length (optlist c) = 40" "0 \<le> lsrr c"
      using assms(1) by (auto simp: well_formed_def)
    then show ?thesis using q False assms(2,3)
      by (simp add: gateway_def put_address_run i_def ol_def)
  qed
qed

lemma gateway_cases:
  assumes "well_formed c"
  shows "(\<exists>a. resolve S arg = Inr a \<and> lsrr c < 8) \<or> gateway e S ch arg c = Inl (Quit 1)"
proof (cases "lsrr c < 8")
  case True
  show ?thesis
  proof (cases "resolve S arg")
    case (Inl q)
    then have "q = Quit 1" by (auto simp: resolve_def split: if_splits option.splits)
    moreover have "quit_if (lsrr c + 1 \<ge> int ((MAX_IPOPTLEN - IPOPT_MINOFF) div 4)) 1 = Inr ()"
      using True by (simp add: quit_if_def MAX_IPOPTLEN_def IPOPT_MINOFF_def)
    ultimately show ?thesis using Inl by (simp add: gateway_def begin_route_run)
  qed (use True in auto)
qed (simp add: gateway_limit)

text \<open>The arguments that are read as numbers are in range of an \<^verbatim>\<open>int\<close>.\<close>

definition numbers_ok :: "(char \<times> string) list \<Rightarrow> bool" where
  "numbers_ok opts \<longleftrightarrow> (\<forall>x \<in> set opts. fst x \<in> set ''mpqtw'' \<longrightarrow> (\<exists>v. atoi (snd x) = Inr v))"

lemma trace_option_wf:
  assumes "well_formed c" "ch \<in> set ''mpqtw'' \<Longrightarrow> \<exists>v. atoi arg = Inr v"
  shows "case trace_option e S ch arg c of Inl q \<Rightarrow> q = Quit 1 | Inr c' \<Rightarrow> well_formed c'"
proof (cases "ch = CHR ''G'' \<or> ch = CHR ''g''")
  case True
  then have "trace_option e S ch arg c = gateway e S ch arg c" by (auto simp: trace_option_def)
  moreover have "well_formed c'" if "gateway e S ch arg c = Inr c'" for c'
  proof -
    from that gateway_cases [OF assms(1), of S arg e ch] obtain a where a: "resolve S arg = Inr a" "lsrr c < 8" by auto
    show ?thesis
      using that assms(1) a(2) gateway_run [OF assms(1) a(2,1), of e ch] by (auto simp: well_formed_def)
  qed
  moreover have "q = Quit 1" if "gateway e S ch arg c = Inl q" for q
    using that gateway_cases [OF assms(1), of S arg e ch] gateway_run [OF assms(1), of S arg _ e ch] by auto
  ultimately show ?thesis by (auto split: sum.split)
next
  case False
  obtain v where v: "ch \<in> set ''mpqtw'' \<Longrightarrow> number arg = Inr v"
    using assms(2) by (cases "ch \<in> set ''mpqtw''") (auto simp: number_def)
  have port: "\<not> p < 1 \<longleftrightarrow> p \<noteq> 0" for p :: u16 by (simp add: word_less_1)
  show ?thesis
    using False assms(1) v
    by (auto simp: trace_option_def well_formed_def quit_if_def port Let_def)
qed

lemma trace_options_wf:
  assumes "well_formed c" "numbers_ok opts"
  shows "case trace_options e S opts c of Inl q \<Rightarrow> q = Quit 1 | Inr c' \<Rightarrow> well_formed c'"
  using assms
proof (induction opts arbitrary: c)
  case (Cons x xs)
  have "case trace_option e S (fst x) (snd x) c of Inl q \<Rightarrow> q = Quit 1 | Inr c' \<Rightarrow> well_formed c'"
    by (rule trace_option_wf) (use Cons.prems in \<open>auto simp: numbers_ok_def\<close>)
  then show ?case
    using Cons.IH Cons.prems by (cases "trace_option e S (fst x) (snd x) c") (auto simp: numbers_ok_def)
qed simp

text \<open>Stopping at an option means a message and status 1, or a number that \<^verbatim>\<open>atoi\<close> cannot hold.\<close>

lemma number_option_Inl:
  assumes "ch \<in> set ''mpqtw''" "atoi arg = Inl e'"
  shows "trace_option e S ch arg c = Inl Undef"
  using assms by (auto simp: trace_option_def number_def)

lemma trace_option_cases:
  assumes "well_formed c"
  shows "case trace_option e S ch arg c of
      Inl q \<Rightarrow> q = Quit 1 \<or> q = Undef \<and> \<not> numbers_ok [(ch, arg)]
    | Inr c' \<Rightarrow> well_formed c'"
proof (cases "ch \<in> set ''mpqtw'' \<longrightarrow> (\<exists>v. atoi arg = Inr v)")
  case True
  then show ?thesis using trace_option_wf [OF assms, of ch arg e S] by (auto split: sum.splits)
next
  case False
  then obtain e' where "ch \<in> set ''mpqtw''" "atoi arg = Inl e'" by (cases "atoi arg") auto
  then show ?thesis by (auto simp: number_option_Inl numbers_ok_def)
qed

lemma trace_options_cases:
  assumes "well_formed c"
  shows "case trace_options e S opts c of
      Inl q \<Rightarrow> q = Quit 1 \<or> q = Undef \<and> \<not> numbers_ok opts
    | Inr c' \<Rightarrow> well_formed c'"
  using assms
proof (induction opts arbitrary: c)
  case (Cons x xs)
  have n: "\<not> numbers_ok [(fst x, snd x)] \<Longrightarrow> \<not> numbers_ok (x # xs)" "\<not> numbers_ok xs \<Longrightarrow> \<not> numbers_ok (x # xs)"
    by (auto simp: numbers_ok_def)
  show ?case
  proof (cases "trace_option e S (fst x) (snd x) c")
    case (Inl q)
    then show ?thesis
      using trace_option_cases [OF Cons.prems, where e = e and S = S and ch = "fst x" and arg = "snd x"] n(1) by auto
  next
    case (Inr c')
    then have "well_formed c'"
      using trace_option_cases [OF Cons.prems, where e = e and S = S and ch = "fst x" and arg = "snd x"] by simp
    then show ?thesis
      using Cons.IH [of c'] n(2) Inr by (auto split: sum.splits)
  qed
qed simp


definition sample_system :: system where
  "sample_system = \<lparr>inet_addr = \<lambda>s. if s = ''10.0.0.1'' then 0x0100000a else if s = ''10.0.0.9'' then 0x0900000a else 0xffffffff,
     gethostbyname = \<lambda>s. None, getprotobyname = \<lambda>s. Some 1, malloc_ok = \<lambda>n. True, getpid = 77, icmp_socket = \<lambda>p. 3,
     raw_socket = 4, setsockopt = \<lambda>opt. 0\<rparr>"


section \<open>The source route\<close>

text \<open>The gateways of a command line, with their addresses.\<close>

definition addr_of :: "system \<Rightarrow> string \<Rightarrow> u32" where
  "addr_of S arg = (case resolve S arg of Inr a \<Rightarrow> a | Inl _ \<Rightarrow> 0)"

definition gateways :: "system \<Rightarrow> (char \<times> string) list \<Rightarrow> (char \<times> u32) list" where
  "gateways S opts = map (\<lambda>x. (fst x, addr_of S (snd x))) (filter (\<lambda>x. fst x = CHR ''G'' \<or> fst x = CHR ''g'') opts)"

fun route_type :: "(char \<times> u32) list \<Rightarrow> u8" where
  "route_type [] = 0"
| "route_type (x # xs) = (if fst x = CHR ''G'' then 137 else 131)"

definition route_bytes :: "host \<Rightarrow> (char \<times> u32) list \<Rightarrow> u8 list" where
  "route_bytes e gs = concat (map (\<lambda>x. put32 e (snd x)) gs)"

lemma length_route_bytes [simp]: "length (route_bytes e gs) = 4 * length gs"
  by (induction gs) (simp_all add: route_bytes_def)

definition route_state :: "host \<Rightarrow> (char \<times> u32) list \<Rightarrow> cmdline \<Rightarrow> bool" where
  "route_state e gs c \<longleftrightarrow> lsrr c = int (length gs) \<and>
     (gs \<noteq> [] \<longrightarrow> optlist c = [route_type gs, 0, 4] @ route_bytes e gs @ replicate (37 - 4 * length gs) 0)"

lemma gateway_route:
  assumes "well_formed c" "route_state e gs c" "gateway e S ch arg c = Inr c'"
  shows "route_state e (gs @ [(ch, addr_of S arg)]) c'"
proof -
  obtain a where a: "resolve S arg = Inr a" "lsrr c < 8"
    using gateway_cases [OF assms(1), of S arg e ch] assms(3) by auto
  have n: "lsrr c = int (length gs)" using assms(2) by (simp add: route_state_def)
  have aa: "addr_of S arg = a" using a(1) by (simp add: addr_of_def)
  show ?thesis
  proof (cases "gs = []")
    case True
    then show ?thesis
      using assms(3) gateway_run [OF assms(1) a(2,1), of e ch] n aa
      by (auto simp: route_state_def route_bytes_def)
  next
    case False
    define P where "P = [route_type gs, 0, 4] @ route_bytes e gs"
    have ol: "optlist c = P @ replicate (37 - 4 * length gs) 0"
      using False assms(2) by (simp add: route_state_def P_def)
    have i: "nat (3 + 4 * lsrr c) = length P" and nz: "lsrr c \<noteq> 0" using n False by (simp_all add: P_def)
    have "optlist c' = take (length P) (optlist c) @ put32 e a @ drop (length P + 4) (optlist c)" "lsrr c' = lsrr c + 1"
      using assms(3) gateway_run [OF assms(1) a(2,1), of e ch] nz i by auto
    moreover have "37 - 4 * length gs - 4 = 33 - 4 * length gs" by simp
    ultimately have "optlist c' = P @ put32 e a @ replicate (33 - 4 * length gs) 0" "lsrr c' = lsrr c + 1"
      unfolding ol by simp_all
    moreover have t: "route_type (gs @ [(ch, a)]) = route_type gs" using False by (cases gs) auto
    ultimately show ?thesis using n aa False by (simp add: route_state_def route_bytes_def P_def)
  qed
qed

lemma trace_options_route:
  assumes "well_formed c" "route_state e gs c" "numbers_ok opts" "trace_options e S opts c = Inr c'"
  shows "route_state e (gs @ gateways S opts) c'"
  using assms
proof (induction opts arbitrary: c gs)
  case (Cons x xs)
  from Cons.prems(4) obtain c1 where c1: "trace_option e S (fst x) (snd x) c = Inr c1" "trace_options e S xs c1 = Inr c'"
    by (auto simp: bindq_Inr)
  have "case trace_option e S (fst x) (snd x) c of Inl q \<Rightarrow> q = Quit 1 | Inr c' \<Rightarrow> well_formed c'"
    by (rule trace_option_wf) (use Cons.prems in \<open>auto simp: numbers_ok_def\<close>)
  then have wf: "well_formed c1" using c1(1) by simp
  have ok: "numbers_ok xs" using Cons.prems(3) by (simp add: numbers_ok_def)
  show ?case
  proof (cases "fst x = CHR ''G'' \<or> fst x = CHR ''g''")
    case True
    then have "gateway e S (fst x) (snd x) c = Inr c1" using c1(1) by (auto simp: trace_option_def)
    from Cons.IH [OF wf gateway_route [OF Cons.prems(1,2) this] ok c1(2)] True
    show ?thesis by (auto simp: gateways_def)
  next
    case False
    then have "lsrr c1 = lsrr c" "optlist c1 = optlist c"
      using c1(1) by (auto simp: trace_option_def bindq_Inr Let_def split: if_splits)
    then have "route_state e gs c1" using Cons.prems(2) by (simp add: route_state_def)
    then show ?thesis using Cons.IH [OF wf _ ok c1(2)] False by (simp add: gateways_def)
  qed
qed (simp add: gateways_def)

lemma pad4_next: "pad4 (4 * k + 3) = 4 * k + 4"
  by (simp add: pad4.simps)

text \<open>The option as RFC 791 describes it: type, length, pointer, the gateways in the given order with
  the destination as last address, and one byte of padding.\<close>

definition route_option :: "host \<Rightarrow> (char \<times> u32) list \<Rightarrow> u32 \<Rightarrow> u8 list" where
  "route_option e gs dst = [route_type gs, of_nat (3 + 4 * (length gs + 1)), 4] @ route_bytes e gs @ put32 e dst @ [0]"

lemma source_route_run:
  assumes "well_formed c" "route_state e gs c" "gs \<noteq> []"
  shows "source_route e S dst c calls =
      bindq (quit_if (getprotobyname S ''ip'' = None) 10) (\<lambda>_. must_set S (IpOptions (route_option e gs dst)) 5 calls)"
    "length (route_option e gs dst) \<le> 40"
proof -
  have n: "lsrr c = int (length gs)" "length gs \<le> 8" "oix c = Some (3 + 4 * lsrr c)"
    using assms(1-3) by (auto simp: route_state_def well_formed_def)
  let ?n = "length gs"
  define ol where "ol = [route_type gs, of_nat (3 + 4 * (?n + 1)), 4] @ route_bytes e gs @ replicate (37 - 4 * ?n) 0"
  have "optlist c = [route_type gs] @ [0] @ [4] @ route_bytes e gs @ replicate (37 - 4 * ?n) 0"
    using assms(2,3) by (simp add: route_state_def)
  then have "poke 1 [word_of_int (int IPOPT_MINOFF - 1 + (lsrr c + 1) * 4)] (optlist c) = Some ol"
    by (simp add: poke_def ol_def IPOPT_MINOFF_def n(1) algebra_simps)
  moreover have "put_address e dst (c\<lparr>lsrr := lsrr c + 1, optlist := ol\<rparr>) =
      Inr (c\<lparr>lsrr := lsrr c + 1, optlist := take (3 + 4 * ?n) ol @ put32 e dst @ drop (3 + 4 * ?n + 4) ol,
        oix := Some (7 + 4 * int ?n)\<rparr>)"
  proof -
    have "nat (3 + 4 * int ?n) = 3 + 4 * ?n" by simp
    moreover have "length ol = 40" using n(2) by (simp add: ol_def)
    ultimately show ?thesis
      using put_address_run [of "c\<lparr>lsrr := lsrr c + 1, optlist := ol\<rparr>" "3 + 4 * int ?n" e dst] n by (simp add: add.commute)
  qed
  moreover define ol' where "ol' = take (3 + 4 * ?n) ol @ put32 e dst @ drop (3 + 4 * ?n + 4) ol"
  moreover have "ol' = route_option e gs dst @ replicate (32 - 4 * ?n) 0"
  proof -
    have "37 - 4 * ?n - 4 = Suc (32 - 4 * ?n)" using n(2) by linarith
    then have "drop 4 (replicate (37 - 4 * ?n) 0) = [0] @ replicate (32 - 4 * ?n) (0 :: u8)"
      unfolding drop_replicate by (simp only:) simp
    moreover define P where "P = [route_type gs, of_nat (3 + 4 * (?n + 1)), 4] @ route_bytes e gs"
    moreover have "ol = P @ replicate (37 - 4 * ?n) 0" "length P = 3 + 4 * ?n" by (simp_all add: P_def ol_def)
    then have "take (3 + 4 * ?n) ol = P" "drop (3 + 4 * ?n + 4) ol = drop 4 (replicate (37 - 4 * ?n) 0)"
      by (simp_all del: drop_replicate)
    ultimately show ?thesis by (simp add: ol'_def route_option_def)
  qed
  moreover have "bytes_of (route_option e gs dst @ replicate (32 - 4 * ?n) 0) (pad4 (7 + 4 * int ?n)) = Some (route_option e gs dst)"
  proof -
    have "pad4 (7 + 4 * int ?n) = int (length (route_option e gs dst))"
      using pad4_next [of "1 + int ?n"] by (simp add: route_option_def algebra_simps)
    then show ?thesis by (simp add: bytes_of_def)
  qed
  ultimately show "source_route e S dst c calls =
      bindq (quit_if (getprotobyname S ''ip'' = None) 10) (\<lambda>_. must_set S (IpOptions (route_option e gs dst)) 5 calls)"
    using n(1) assms(3) by (simp add: source_route_def defined_def)
  show "length (route_option e gs dst) \<le> 40" using n(2) by (simp add: route_option_def)
qed

section \<open>The state in which the probes start\<close>

definition started :: "trace \<Rightarrow> bool" where
  "started st \<longleftrightarrow> 40 \<le> datalen st \<and> datalen st < 65535 \<and> int (length (outpacket st)) = datalen st \<and>
     0 \<le> mtuptr st \<and> mtuptr st \<le> 1 \<and> length (packet st) = 512 \<and> seqno st = 0 \<and> out st = [] \<and> firsttime st"

lemma poke_Some:
  assumes "i + length bs \<le> length buf"
  obtains buf' where "poke i bs buf = Some buf'" "length buf' = length buf"
  using assms by (simp add: poke_def)

lemma make_packet_run:
  assumes "0 \<le> snd want" "snd want \<le> 1"
  shows "(\<exists>st. make_packet e S dst t want = Inr st \<and> started st \<and> datalen st = fst want + 40 \<and> mtuptr st = snd want) \<or>
    make_packet e S dst t want = Inl (Quit 1)"
proof (cases "(fst want < 0 \<or> fst want \<ge> MAXPACKET - sizeof_opacket) \<or> \<not> malloc_ok S (fst want + sizeof_opacket)")
  case True
  then show ?thesis by (auto simp: make_packet_def Let_def quit_if_def)
next
  case False
  then have n: "0 \<le> fst want" "fst want < 65495" by (auto simp: MAXPACKET_def sizeof_opacket_def)
  let ?b = "replicate (nat (fst want + 40)) (0 :: u8)"
  have "16 + length (put32 e dst) \<le> length ?b" using n by simp
  then obtain op where op: "poke 16 (put32 e dst) ?b = Some op" "length op = nat (fst want + 40)"
    by (rule poke_Some) simp
  then have "1 + length [word_of_int t :: u8] \<le> length op" using n by simp
  then obtain op' where "poke 1 [word_of_int t] op = Some op'" "length op' = nat (fst want + 40)"
    by (rule poke_Some) (simp add: op(2))
  with False n op(1) assms show ?thesis
    by (simp add: make_packet_def sizeof_opacket_def defined_def quit_if_def started_def packet_size_def)
qed

lemma data_size_run:
  assumes "rest = [] \<or> (\<exists>n. atoi (hd rest) = Inr n)"
  obtains n i where "data_size v rest = Inr (n, i)" "0 \<le> i" "i \<le> 1" "v = Pmtu \<and> rest = [] \<Longrightarrow> n = 17874 \<and> i = 1"
proof (cases rest)
  case Nil
  show ?thesis
  proof (cases v)
    case Lsrr
    then show ?thesis using Nil that [of 0 0] by (simp add: data_size_def)
  next
    case Pmtu
    have "aget mtus 0 = Some 17914" by (simp add: aget_def mtus_def)
    then show ?thesis using Nil Pmtu that [of 17874 1] by (simp add: data_size_def defined_def sizeof_opacket_def)
  qed
next
  case (Cons s ss)
  then obtain n where "atoi s = Inr n" using assms by auto
  then show ?thesis using Cons that [of n 0] by (simp add: data_size_def number_def)
qed

lemma open_sockets_run:
  assumes "well_formed c" "route_state e gs c"
  shows "(\<exists>calls. open_sockets e S dst len c = Inr calls \<and> IpHdrincl \<in> set calls \<and> SoSndbuf len \<in> set calls \<and>
      (\<forall>bs. IpOptions bs \<in> set calls \<longleftrightarrow> gs \<noteq> [] \<and> bs = route_option e gs dst)) \<or>
    (\<exists>q. open_sockets e S dst len c = Inl (Quit q))"
proof -
  have "source_route e S dst c calls =
      (if gs = [] then Inr calls
       else bindq (quit_if (getprotobyname S ''ip'' = None) 10) (\<lambda>_. must_set S (IpOptions (route_option e gs dst)) 5 calls))"
    for calls
    using source_route_run(1) [OF assms, of S dst calls] assms(2) by (auto simp: source_route_def route_state_def)
  then show ?thesis
    by (auto simp: open_sockets_def must_set_def debug_route_def quit_if_def Let_def split: option.split)
qed

lemma set_source_run:
  assumes "started st"
  shows "(\<exists>st'. set_source e S c st = Inr st' \<and> started st' \<and> datalen st' = datalen st \<and> mtuptr st' = mtuptr st) \<or>
    set_source e S c st = Inl (Quit 1)"
proof (cases "source c")
  case (Some name)
  have "12 + length (put32 e (inet_addr S name)) \<le> length (outpacket st)" using assms by (auto simp: started_def)
  then obtain op where "poke 12 (put32 e (inet_addr S name)) (outpacket st) = Some op" "length op = length (outpacket st)"
    by (rule poke_Some)
  then show ?thesis using Some assms by (auto simp: set_source_def quit_if_def defined_def started_def)
qed (use assms in \<open>simp add: set_source_def\<close>)

end
