(* ===== verification/Trace_Main.thy ===== *)
theory Trace_Main
  imports Trace_Setup
begin

text \<open>
  The two traceroute programs as a whole: every start ends with an exit status or in a state from
  which the probe loops run, and the theorems about the loops carry over to \<^const>\<open>traceroute_main\<close>.
\<close>

section \<open>From the command line to the first probe\<close>

definition size_ok :: "string list \<Rightarrow> bool" where
  "size_ok argv \<longleftrightarrow> tl argv = [] \<or> (\<exists>n. atoi (hd (tl argv)) = Inr n)"

definition with_ident :: "system \<Rightarrow> cmdline \<Rightarrow> cmdline" where
  "with_ident S c = c\<lparr>set_to := (set_to c)\<lparr>ident := (word_of_int (getpid S) AND 0xffff) OR 0x8000\<rparr>\<rparr>"

lemma with_ident_simps [simp]:
  "well_formed (with_ident S c) = well_formed c" "route_state e gs (with_ident S c) = route_state e gs c"
  "source (with_ident S c) = source c"
  by (simp_all add: with_ident_def well_formed_def route_state_def)

lemma trace_setup_run:
  assumes "numbers_ok opts" "size_ok argv"
  shows "(\<exists>q. trace_setup v e S opts argv = Inl (Quit q)) \<or>
    (\<exists>c dst st calls. trace_setup v e S opts argv = Inr (set_to (with_ident S c), st, calls) \<and>
      trace_options e S opts start_values = Inr c \<and> well_formed c \<and> argv \<noteq> [] \<and> resolve S (hd argv) = Inr dst \<and>
      started st \<and> (v = Pmtu \<and> tl argv = [] \<longrightarrow> datalen st = 17914 \<and> mtuptr st = 1) \<and>
      (\<forall>bs. IpOptions bs \<in> set calls \<longleftrightarrow> gateways S opts \<noteq> [] \<and> bs = route_option e (gateways S opts) dst))"
proof (cases "trace_options e S opts start_values")
  case (Inl q)
  then show ?thesis
    using trace_options_wf [OF well_formed_start assms(1), of e S] by (auto simp: trace_setup_def)
next
  case (Inr c)
  have wf: "well_formed c" using trace_options_wf [OF well_formed_start assms(1), of e S] Inr by simp
  have "route_state e [] start_values" by (simp add: route_state_def start_values_def)
  from trace_options_route [OF well_formed_start this assms(1) Inr]
  have rs: "route_state e (gateways S opts) c" by simp
  show ?thesis
  proof (cases argv)
    case Nil
    then show ?thesis using Inr by (simp add: trace_setup_def)
  next
    case (Cons name rest)
    show ?thesis
    proof (cases "resolve S name")
      case (Inl q)
      then have "q = Quit 1" by (auto simp: resolve_def split: if_splits option.splits)
      then show ?thesis using Cons Inr Inl by (simp add: trace_setup_def)
    next
      case dst: (Inr dst)
      obtain n i where want: "data_size v rest = Inr (n, i)" "0 \<le> i" "i \<le> 1" "v = Pmtu \<and> rest = [] \<Longrightarrow> n = 17874 \<and> i = 1"
        using data_size_run [of rest v] assms(2) Cons by (auto simp: size_ok_def)
      have run: "trace_setup v e S opts argv =
          bindq (make_packet e S dst (tos c) (n, i)) (\<lambda>st. bindq (open_sockets e S dst (datalen st) (with_ident S c))
            (\<lambda>calls. bindq (set_source e S (with_ident S c) st) (\<lambda>st. Inr (set_to (with_ident S c), st, calls))))"
        using Inr Cons dst want(1) by (simp add: trace_setup_def with_ident_def Let_def)
      consider "make_packet e S dst (tos c) (n, i) = Inl (Quit 1)"
        | st where "make_packet e S dst (tos c) (n, i) = Inr st" "started st" "datalen st = n + 40" "mtuptr st = i"
        using make_packet_run [of "(n, i)" e S dst "tos c"] want(2,3) by auto
      then show ?thesis
      proof cases
        case (2 st)
        show ?thesis
          using open_sockets_run [of "with_ident S c" e "gateways S opts" S dst "datalen st"]
            set_source_run [OF 2(2), of e S "with_ident S c"] wf rs run 2 Inr Cons dst want(4)
          by auto
      qed (use run in simp)
    qed
  qed
qed

section \<open>Safety\<close>

lemma loop_undefined_iff: "trace_setup v e S opts argv = Inr (g, st, calls) \<Longrightarrow>
    traceroute_main v e S K opts argv as = Inl Undef \<longleftrightarrow> ttl_loop v e K g 1 st as = None"
  by (simp add: traceroute_main_def defined_def split: option.split)

text \<open>C11. No run of either program has undefined behaviour under these conditions: the numbers on the
  command line fit an \<^verbatim>\<open>int\<close>; the first link takes packets of \<open>M\<close> bytes, \<open>M\<close> at least 68, and either
  the packet asked for is not longer or its size was left to the path MTU variant; host names have
  fewer than 50 characters; the clock gives normal readings that are at most 23 days apart; addresses are
  shown as numbers (\<^verbatim>\<open>-n\<close>) or the name of this host has no domain that is longer than its first
  part, as otherwise \<^verbatim>\<open>strcpy\<close> copies between overlapping strings; and what is received is tame: next-hop
  MTU values between 1 and the smaller of \<open>M\<close> and the size of the packet, and with the verbose flag no
  message of more than 508 bytes and no failing \<^verbatim>\<open>recvfrom\<close>.  The kernel is otherwise free to refuse,
  to send partly and to fail, and any packets may arrive in any order.\<close>

theorem trace_safe:
  assumes "numbers_ok opts" "size_ok argv" "link_takes K M" "short_names K"
    and "\<forall>g st calls. trace_setup v e S opts argv = Inr (g, st, calls) \<longrightarrow>
      (datalen st \<le> M \<or> v = Pmtu \<and> length argv = 1) \<and> calm K g \<and> list_all (tame g (min M (datalen st))) as"
  shows "traceroute_main v e S K opts argv as \<noteq> Inl Undef"
proof (cases "trace_setup v e S opts argv")
  case (Inl q)
  then show ?thesis
    using trace_setup_run [OF assms(1,2), of v e S] by (auto simp: traceroute_main_def)
next
  case (Inr r)
  obtain c dst st calls where s: "trace_setup v e S opts argv = Inr (set_to (with_ident S c), st, calls)"
      "started st" "v = Pmtu \<and> tl argv = [] \<longrightarrow> datalen st = 17914 \<and> mtuptr st = 1"
    using trace_setup_run [OF assms(1,2), of v e S] Inr by auto
  let ?g = "set_to (with_ident S c)"
  have tame: "list_all (tame ?g (min M (datalen st))) as" and size: "datalen st \<le> M \<or> v = Pmtu \<and> length argv = 1"
      and calm: "calm K ?g"
    using assms(5) s(1) by blast+
  have len: "int (length (outpacket st)) = datalen st" using s(2) by (simp add: started_def)
  have "v = Pmtu \<and> length argv = 1 \<Longrightarrow> datalen st = 17914 \<and> mtuptr st = 1" using s(3) by (cases argv) auto
  with size have "loop_inv M (length (outpacket st)) st"
    using s(2) by (auto simp: loop_inv_def mtu_inv_def roomy_def started_def)
  moreover have "list_all (tame ?g (min M (int (length (outpacket st))))) as" using tame len by simp
  ultimately obtain r where "ttl_loop v e K ?g 1 st as = Some r"
    using ttl_loop_safe [OF assms(3,4) calm] by blast
  then show ?thesis using loop_undefined_iff [OF s(1)] by simp
qed

lemma sample_link:
  "68 \<le> M \<Longrightarrow> link_takes (sample_kernel M) (int M)" "short_names (sample_kernel M)" "calm (sample_kernel M) g"
  by (simp_all add: link_takes_def short_names_def calm_def close_times_def local_domain_def sample_kernel_def min_less_iff_disj)

theorem trace_safe_witness:
  "traceroute_main Pmtu BigEndian sample_system (sample_kernel 1500) [] [''10.0.0.9'']
     [RecvFailed, Received 7 (replicate 400 1), NotReady] \<noteq> Inl Undef"
proof -
  have "trace_setup Pmtu BigEndian sample_system [] [''10.0.0.9''] = Inr (g, st, calls) \<Longrightarrow> \<not> vflag g" for g st calls
    by (auto simp: trace_setup_def bindq_Inr start_values_def Let_def)
  moreover have "hdr_len (replicate 400 1) = 4" by (simp add: hdr_len_def)
  then have "icmp_part (take 512 (replicate 400 1)) ! 0 \<noteq> 3" by (simp add: icmp_part_def)
  ultimately show ?thesis
    using trace_safe [of "[]" "[''10.0.0.9'']" "sample_kernel 1500" 1500 Pmtu BigEndian sample_system
        "[RecvFailed, Received 7 (replicate 400 1), NotReady]"] sample_link [of 1500]
    by (auto simp: numbers_ok_def size_ok_def)
qed

section \<open>The route\<close>

lemma started_steady:
  assumes "started st" "takes_size K (datalen st) \<or> limited K \<and> datalen st = 17914 \<and> mtuptr st = 1"
  shows "steady K st"
  using assms by (auto simp: started_def steady_def roomy_def mtus_def)


text \<open>Answers for examples: header with time-to-live 64, the quoted header, and the probe with number \<open>k\<close>.\<close>

definition sample_outer :: "u8 list" where
  "sample_outer = 0x45 # replicate 7 0 @ [64, 1] @ replicate 10 0"

definition sample_answer :: "settings \<Rightarrow> int \<Rightarrow> u32 \<Rightarrow> u8 \<Rightarrow> u8 \<Rightarrow> u32 \<Rightarrow> answer" where
  "sample_answer g k a ty code mtu = Received a (icmp_error sample_outer ty code 0 mtu sample_header (probe_udp g k 20))"

lemma sample_outer_ok: "ip_header sample_outer" "sample_outer ! 8 > 1"
  by (simp_all add: ip_header_def sample_outer_def hdr_len_def nth_append)

lemma sample_answer_to:
  assumes "list_all (noise g k) ns"
  shows "answer_to g k a ty code (ns @ [sample_answer g k a ty code mtu])"
  using assms sample_outer_ok sample_header_ok unfolding answer_to_def genuine_def sample_answer_def by blast

lemma sample_setup:
  assumes "atoi q = Inr n" "1 \<le> n"
  obtains st calls where "trace_setup Lsrr LittleEndian sample_system [(CHR ''q'', q)] [''10.0.0.9''] =
      Inr ((sample_settings\<lparr>nprobes := n, ident := 0x804d, nflag := False\<rparr>), st, calls)" "datalen st = 40" "mtuptr st = 0"
proof -
  have id: "(word_of_int 77 AND 0xffff) OR 0x8000 = (0x804d :: u16)" by simp
  show ?thesis
    using assms id that
    by (simp add: trace_setup_def trace_option_def number_def start_values_def resolve_def sample_system_def data_size_def
        make_packet_def MAXPACKET_def sizeof_opacket_def defined_def poke_def open_sockets_def source_route_def must_set_def
        set_source_def samples Let_def)
qed


text \<open>With one probe per hop the program gives up after the first hop: \<^verbatim>\<open>unreachable >= nprobes-1\<close> holds
  without any unreachable message, so that the answer of the first router, whoever it is, ends the
  program with exit status 0 and one line of output.\<close>

theorem one_probe_stops:
  assumes "trace_setup v e S opts argv = Inr (g, st, calls)" "numbers_ok opts" "size_ok argv"
    and "\<not> vflag g" "nprobes g = 1" "answer_to g 1 r 11 0 c" "r \<noteq> 0" "short_names K"
    and "takes_size K (datalen st)" "calm K g"
  shows "\<exists>st'. traceroute_main v e S K opts argv (c @ later) = Inr (Exited 0, st') \<and>
    shown (out st') = [Hop 1, Host [] r, Ms 0, Newline]"
proof -
  obtain cm where st: "started st" "well_formed cm" "g = set_to (with_ident S cm)"
    using trace_setup_run [OF assms(2,3), of v e S] assms(1) by auto
  then have z: "seqno st = 0" "out st = []" "1 \<le> max_ttl g"
    by (auto simp: started_def well_formed_def with_ident_def)
  have s: "steady K (say [Hop 1] st)" using started_steady [OF st(1) disjI1 [OF assms(9)]] by simp
  obtain h st1 where h: "hop_loop v e K g 1 0 new_hop (say [Hop 1] st) (c @ later) = Some (Some h, st1, later)"
      "unreachable h = 0" "shown (out st1) = [Hop 1, Host [] r, Ms 0]"
    using hop_answered [OF s assms(8,10,4), of 11 0 r "[c]" 0 v e 1 new_hop later] assms(5-7) z
    by (auto simp: route_answer_def new_hop_def)
  then have "ttl_loop v e K g 1 st (c @ later) = Some (Exited 0, say [Newline] st1)"
    using z(3) assms(5) by (simp add: ttl_loop.simps [of v e K g 1])
  then show ?thesis using assms(1) h(3) by (simp add: traceroute_main_def defined_def)
qed

theorem one_probe_stops_witness:
  "\<exists>g st'. nprobes g = 1 \<and>
     traceroute_main Lsrr LittleEndian sample_system (sample_kernel 1500) [(CHR ''q'', ''1'')] [''10.0.0.9'']
       [sample_answer g 1 7 11 0 0, sample_answer g 2 9 3 3 0] = Inr (Exited 0, st') \<and>
     shown (out st') = [Hop 1, Host [] 7, Ms 0, Newline]"
proof -
  have one: "atoi ''1'' = Inr 1" by (simp add: atoi_def decimal_def is_space_def is_digit_def Let_def)
  define g where "g = sample_settings\<lparr>nprobes := 1, ident := 0x804d, nflag := False\<rparr>"
  obtain st calls where s: "trace_setup Lsrr LittleEndian sample_system [(CHR ''q'', ''1'')] [''10.0.0.9''] = Inr (g, st, calls)"
      "datalen st = 40" unfolding g_def by (rule sample_setup [OF one]) auto
  have "answer_to g 1 7 11 0 [sample_answer g 1 7 11 0 0]" using sample_answer_to [of g 1 "[]"] by simp
  moreover have "numbers_ok [(CHR ''q'', ''1'')]" "size_ok [''10.0.0.9'']" using one by (simp_all add: numbers_ok_def size_ok_def)
  moreover have "\<not> vflag g" "nprobes g = 1" by (simp_all add: g_def sample_settings_def)
  moreover have "takes_size (sample_kernel 1500) (datalen st)"
    using s(2) by (simp add: takes_size_def sample_kernel_def)
  ultimately obtain st' where
      "traceroute_main Lsrr LittleEndian sample_system (sample_kernel 1500) [(CHR ''q'', ''1'')] [''10.0.0.9'']
        ([sample_answer g 1 7 11 0 0] @ [sample_answer g 2 9 3 3 0]) = Inr (Exited 0, st')"
      "shown (out st') = [Hop 1, Host [] 7, Ms 0, Newline]"
    using one_probe_stops [OF s(1), of 7 "[sample_answer g 1 7 11 0 0]" "sample_kernel 1500" "[sample_answer g 2 9 3 3 0]"]
      sample_link [of 1500] by auto
  then show ?thesis by (intro exI [of _ g] exI [of _ st']) (simp add: g_def sample_settings_def)
qed

section \<open>Reading behind the packet\<close>

lemma first_send_undefined:
  assumes "send_probe v e K g (seqno st + 1) 1 (start_probe (say [Hop 1] st)) = None" "1 \<le> max_ttl g" "1 \<le> nprobes g"
  shows "ttl_loop v e K g 1 st as = None"
  using assms by (simp add: ttl_loop.simps [of v e K g 1] hop_loop.simps [of v e K g 1 0] start_probe_def say_def Let_def)

text \<open>A packet size given on the command line and the table of MTU values do not go together: when
  the interface refuses a packet of the size asked for and this size is below the first table entry,
  17914, the program goes on with that entry and hands \<^verbatim>\<open>sendto\<close> bytes behind the allocated block.\<close>

theorem given_size_overread:
  assumes "trace_setup v e S opts argv = Inr (g, st, calls)" "numbers_ok opts" "size_ok argv"
    and "mtuptr st = 0" "int M < datalen st" "datalen st < 17914"
    and "\<forall>k pkt. M < length pkt \<longrightarrow> sendto K k pkt = Emsgsize"
  shows "traceroute_main v e S K opts argv as = Inl Undef"
proof -
  obtain c where st: "started st" "well_formed c" "g = set_to (with_ident S c)"
    using trace_setup_run [OF assms(2,3), of v e S] assms(1) by auto
  then have g: "1 \<le> max_ttl g" "1 \<le> nprobes g" by (auto simp: well_formed_def with_ident_def)
  let ?s = "start_probe (say [Hop 1] st)"
  have "roomy ?s" using st(1) by (simp add: started_def roomy_def start_probe_def)
  then obtain pkt st1 where a: "attempt v e K g (seqno st + 1) 1 ?s = Some (sendto K (sends ?s) pkt, st1)"
      "int (length pkt) = datalen ?s" "mtuptr st1 = mtuptr ?s" "same_receiver ?s st1"
    by (rule attempt_run) blast
  have r: "sendto K (sends ?s) pkt = Emsgsize" using a(2) assms(5,7) by (simp add: start_probe_def)
  let ?st1 = "say (if vflag g then [EmsgsizeFor (datalen st1)] else []) st1"
  let ?st2 = "?st1\<lparr>datalen := 17914, mtuptr := 1\<rparr>"
  have "aget mtus 0 = Some 17914" by (simp add: aget_def mtus_def)
  then have n: "next_mtu ?st1 = Some ?st2" using a(3) assms(4) by (simp add: next_mtu_def start_probe_def)
  have "length (outpacket st1) = length (outpacket st)" using a(4) by (simp add: same_receiver_def start_probe_def)
  then have "send_probe v e K g (seqno st + 1) 1 ?st2 = None"
    using st(1) assms(6) by (intro send_probe_too_long) (simp add: started_def)
  then have "send_probe v e K g (seqno st + 1) 1 ?s = None"
    using send_probe_retry [OF a(1) [unfolded r] n] by simp
  then show ?thesis using first_send_undefined [OF _ g] loop_undefined_iff [OF assms(1)] by blast
qed

theorem given_size_overread_witness:
  "traceroute_main Pmtu LittleEndian sample_system (sample_kernel 60) [] [''10.0.0.9'', ''100''] [] = Inl Undef"
proof -
  have n: "atoi ''100'' = Inr 100" by (simp add: atoi_def decimal_def is_space_def is_digit_def Let_def)
  obtain g st calls where s: "trace_setup Pmtu LittleEndian sample_system [] [''10.0.0.9'', ''100''] = Inr (g, st, calls)"
      "datalen st = 140" "mtuptr st = 0"
    using n by (simp add: trace_setup_def number_def start_values_def resolve_def sample_system_def data_size_def
        make_packet_def MAXPACKET_def sizeof_opacket_def defined_def poke_def open_sockets_def source_route_def must_set_def
        set_source_def Let_def)
  show ?thesis
    by (rule given_size_overread [OF s(1), where M = 60]) (use n s in \<open>simp_all add: numbers_ok_def size_ok_def sample_kernel_def\<close>)
qed

lemma needfrag_received:
  assumes "length (packet st) = 512" "\<not> vflag g" "ip_header iph" "ip_header qip" "qip ! 9 = 17"
  obtains cc st' where
    "await_reply e g k (Received a (icmp_error iph 3 4 ck mtu qip (probe_udp g k len)) # as) st = Some (Reply 5 cc, st', as)"
    "nextmtu st' = sint mtu" "from_addr st' = Some a" "length (packet st') = 512" "outpacket st' = outpacket st"
proof -
  let ?bs = "icmp_error iph 3 4 ck mtu qip (probe_udp g k len)"
  obtain cc st1 where w: "wait_for_reply (Received a ?bs) st = (cc, st1)" by fastforce
  have "length iph \<le> 60" "length qip \<le> 60" using assms(3,4) hdr_len_range [of iph] hdr_len_range [of qip]
    by (auto simp: ip_header_def)
  then have short: "length ?bs \<le> 512" "?bs \<noteq> []" by (simp_all add: icmp_error_def probe_udp_def del: put16.simps put32.simps)
  note st1 = received_state [OF w short(1)]
  have tc: "(3 :: u8) = 11 \<and> (4 :: u8) = 0 \<or> (3 :: u8) = 3" by simp
  note acc = icmp_error_accepted [OF assms(3-5) tc refl st1(1), where rest = "drop (length ?bs) (packet st)", folded st1(2)]
  have cc: "cc \<noteq> 0" "cc \<le> 512" "length (packet st1) = 512" using st1(1,4) short assms(1) by auto
  obtain i st2 where ok: "packet_ok e g cc k st1 = Some (i, st2)"
    using packet_ok_undefined [OF cc(3,2), of g e k] assms(2) by auto
  note res = packet_ok_result [OF cc(3,2) ok]
  have "i = 5" "nextmtu st2 = sint mtu" using res acc by auto
  moreover have "from_addr st2 = Some a" "length (packet st2) = 512" "outpacket st2 = outpacket st"
    using res(2) st1 cc(3) by (auto simp: same_sender_def)
  ultimately show ?thesis using w cc(1) ok by (intro that [of cc st2]) (simp_all del: wait_for_reply.simps)
qed

text \<open>C35. The size of the next packet is taken from the network unchecked: a message of type 3 and code
  4 that quotes the first probe and holds a next-hop MTU above the size of the allocated block makes
  the program hand \<^verbatim>\<open>sendto\<close> bytes behind the block.\<close>

theorem forged_mtu_overread:
  assumes "trace_setup v e S opts argv = Inr (g, st, calls)" "numbers_ok opts" "size_ok argv"
    and "\<not> vflag g" "short_names K" "\<forall>k pkt. int (length pkt) = datalen st \<longrightarrow> sendto K k pkt = Sent (length pkt)"
    and "ip_header iph" "ip_header qip" "qip ! 9 = 17" "datalen st < sint mtu"
  shows "traceroute_main v e S K opts argv
    (Received a (icmp_error iph 3 4 ck mtu qip (probe_udp g 1 len)) # later) = Inl Undef"
proof -
  let ?bs = "icmp_error iph 3 4 ck mtu qip (probe_udp g 1 len)"
  obtain c where st: "started st" "well_formed c" "g = set_to (with_ident S c)"
    using trace_setup_run [OF assms(2,3), of v e S] assms(1) by auto
  then have g: "1 \<le> max_ttl g" "0 < nprobes g" "seqno st = 0" by (auto simp: well_formed_def with_ident_def started_def)
  let ?h = "say [Hop 1] st" let ?s = "start_probe ?h"
  have "takes_size K (datalen st)" using assms(6) by (simp add: takes_size_def)
  then have "steady K ?s" using started_steady [OF st(1), of K] by (simp add: start_probe_def steady_def roomy_def)
  then obtain st2 where send: "send_probe v e K g (seqno ?s) 1 ?s = Some st2" "steady K st2" "same_receiver ?s st2"
    by (rule send_steady [OF _ assms(4)]) blast
  have k: "seqno ?s = 1" using g(3) by (simp add: start_probe_def)
  have l2: "length (packet st2) = 512" "length (outpacket st2) = length (outpacket st)"
    using send(2,3) by (simp_all add: steady_def same_receiver_def start_probe_def)
  obtain cc st4 where await: "await_reply e g (seqno ?s) (Received a ?bs # later) st2 = Some (Reply 5 cc, st4, later)"
      and i: "nextmtu st4 = sint mtu" and s4: "from_addr st4 = Some a" "length (packet st4) = 512" "outpacket st4 = outpacket st2"
    unfolding k by (rule needfrag_received [OF l2(1) assms(4,7-9)])
  let ?r = "handle_reply e K g (gettimeofday K (ticks ?h)) 5 cc new_hop st4"
  have "?r = None \<or> (\<exists>st5. ?r = reply_switch (5 - 1) (new_hop\<lparr>lastaddr := a\<rparr>) st5 \<and> same_probe st4 st5)"
    using handle_reply_cases [OF s4(2) assms(5) s4(1), of g "gettimeofday K (ticks ?h)" e 5 cc new_hop]
    by (elim disjE conjE exE) (intro disjI1, assumption, intro disjI2 exI conjI, assumption+)
  then consider "?r = None" | st5 where "?r = reply_switch (5 - 1) (new_hop\<lparr>lastaddr := a\<rparr>) st5" "same_probe st4 st5"
    by (elim disjE exE conjE)
  then have "hop_loop v e K g 1 0 new_hop ?h (Received a ?bs # later) = None"
  proof cases
    case 1
    then show ?thesis
      using g(2) send(1) await by (simp add: hop_loop.simps [of v e K g 1 0 new_hop ?h] Let_def)
  next
    case st5: 2
    have "nextmtu st5 > 0" using i st5(2) assms(10) st(1) by (simp add: same_probe_def started_def)
    then obtain st6 where st6: "frag_err st5 = Some st6" "same_receiver st5 st6" "datalen st6 = nextmtu st5"
      by (rule frag_err_next_hop)
    have "?r = Some (Again, new_hop\<lparr>lastaddr := a\<rparr>, st6)"
      using st5(1) st6(1) by (simp add: reply_switch_def)
    then have again: "hop_loop v e K g 1 0 new_hop ?h (Received a ?bs # later) =
        hop_loop v e K g 1 0 (new_hop\<lparr>lastaddr := a\<rparr>) (say [Hop 1] st6) later"
      using hop_loop_pass(4) [OF g(2) send(1) await] by simp
    have "length (outpacket st6) = length (outpacket st)"
      using st6(2) st5(2) s4(3) l2(2) by (simp add: same_receiver_def same_probe_def)
    moreover have "datalen st6 = sint mtu" using st6(3) st5(2) i by (simp add: same_probe_def)
    ultimately have "send_probe v e K g k 1 (start_probe (say [Hop 1] st6)) = None" for k
      using assms(10) st(1) by (intro send_probe_too_long) (simp add: start_probe_def started_def)
    then show ?thesis
      using again g(2) by (simp add: hop_loop.simps [of v e K g 1 0 "new_hop\<lparr>lastaddr := a\<rparr>"] Let_def)
  qed
  then show ?thesis
    using g(1) loop_undefined_iff [OF assms(1)] by (simp add: ttl_loop.simps [of v e K g 1])
qed

theorem forged_mtu_overread_witness:
  "\<exists>g. traceroute_main Lsrr LittleEndian sample_system (sample_kernel 1500) [(CHR ''q'', ''2'')] [''10.0.0.9'']
     [sample_answer g 1 7 3 4 1500] = Inl Undef"
proof -
  have two: "atoi ''2'' = Inr 2" by (simp add: atoi_def decimal_def is_space_def is_digit_def Let_def)
  define g where "g = sample_settings\<lparr>nprobes := 2, ident := 0x804d, nflag := False\<rparr>"
  obtain st calls where s: "trace_setup Lsrr LittleEndian sample_system [(CHR ''q'', ''2'')] [''10.0.0.9''] = Inr (g, st, calls)"
      "datalen st = 40" unfolding g_def by (rule sample_setup [OF two]) auto
  have "traceroute_main Lsrr LittleEndian sample_system (sample_kernel 1500) [(CHR ''q'', ''2'')] [''10.0.0.9'']
     [sample_answer g 1 7 3 4 1500] = Inl Undef"
    unfolding sample_answer_def
    by (rule forged_mtu_overread [OF s(1)])
      (use two s(2) sample_outer_ok sample_header_ok sample_link [of 1500]
       in \<open>simp_all add: numbers_ok_def size_ok_def sample_kernel_def g_def sample_settings_def\<close>)
  then show ?thesis ..
qed

section \<open>The source route\<close>

text \<open>C34. The source route that is installed: when an accepted command line names gateways, the raw
  socket gets exactly one IP options string, at most 40 bytes long, with the type of the first gateway
  option (strict or loose), its length, the pointer 4, the addresses of the gateways in the order
  given, the destination as last address and one byte of padding; without gateways none is installed.
  No accepted command line has more than eight gateways.\<close>

theorem source_route_installed:
  assumes "numbers_ok opts" "size_ok argv" "trace_setup v e S opts argv = Inr (g, st, calls)"
  shows "\<exists>dst. resolve S (hd argv) = Inr dst \<and> length (gateways S opts) \<le> 8 \<and>
    (if gateways S opts = [] then \<forall>bs. IpOptions bs \<notin> set calls
     else (\<forall>bs. IpOptions bs \<in> set calls \<longleftrightarrow> bs = route_option e (gateways S opts) dst) \<and>
       length (route_option e (gateways S opts) dst) \<le> 40)"
proof -
  obtain c dst where s: "trace_options e S opts start_values = Inr c" "well_formed c" "resolve S (hd argv) = Inr dst"
      "\<forall>bs. IpOptions bs \<in> set calls \<longleftrightarrow> gateways S opts \<noteq> [] \<and> bs = route_option e (gateways S opts) dst"
    using trace_setup_run [OF assms(1,2), of v e S] assms(3) by auto
  have "route_state e [] start_values" by (simp add: route_state_def start_values_def)
  from trace_options_route [OF well_formed_start this assms(1) s(1)]
  have "int (length (gateways S opts)) = lsrr c" by (simp add: route_state_def)
  then have "length (gateways S opts) \<le> 8" using s(2) by (simp add: well_formed_def)
  moreover from this have "length (route_option e (gateways S opts) dst) \<le> 40" by (simp add: route_option_def)
  ultimately show ?thesis using s(3,4) by auto
qed

theorem source_route_installed_witness:
  "\<exists>g st calls. trace_setup Lsrr LittleEndian sample_system [(CHR ''g'', ''10.0.0.1'')] [''10.0.0.9''] = Inr (g, st, calls) \<and>
     IpOptions [131, 11, 4, 10, 0, 0, 1, 10, 0, 0, 9, 0] \<in> set calls"
proof -
  have adr: "resolve sample_system ''10.0.0.1'' = Inr 0x0100000a" "resolve sample_system ''10.0.0.9'' = Inr 0x0900000a"
    by (simp_all add: resolve_def sample_system_def)
  have "\<exists>g st calls. trace_setup Lsrr LittleEndian sample_system [(CHR ''g'', ''10.0.0.1'')] [''10.0.0.9''] = Inr (g, st, calls)"
  proof -
    have wf: "well_formed start_values" "lsrr start_values < 8" by (simp_all add: well_formed_start) (simp add: start_values_def)
    obtain c where c: "trace_options LittleEndian sample_system [(CHR ''g'', ''10.0.0.1'')] start_values = Inr c"
        "tos c = 0" "source c = None"
      using gateway_run [OF wf adr(1), of LittleEndian "CHR ''g''"] by (simp add: trace_option_def start_values_def)
    have ok: "numbers_ok [(CHR ''g'', ''10.0.0.1'')]" by (simp add: numbers_ok_def)
    have "well_formed c" using trace_options_wf [OF well_formed_start ok, of LittleEndian sample_system] c(1) by simp
    moreover have "route_state LittleEndian (gateways sample_system [(CHR ''g'', ''10.0.0.1'')]) c"
      using trace_options_route [OF well_formed_start _ ok c(1), of "[]"] by (simp add: route_state_def start_values_def)
    moreover have "gateways sample_system [(CHR ''g'', ''10.0.0.1'')] \<noteq> []" by (simp add: gateways_def)
    ultimately have sr: "\<exists>calls'. source_route LittleEndian sample_system dst (with_ident sample_system c) calls = Inr calls'" for dst calls
      using source_route_run(1) [of "with_ident sample_system c"] by (simp add: sample_system_def must_set_def)
    have m: "\<exists>st. make_packet LittleEndian sample_system dst 0 (0, 0) = Inr st" for dst
      by (simp add: make_packet_def MAXPACKET_def sizeof_opacket_def sample_system_def defined_def poke_def)
    have o: "\<exists>calls. open_sockets LittleEndian sample_system dst len (with_ident sample_system c) = Inr calls" for dst len
    proof -
      obtain calls' where "source_route LittleEndian sample_system dst (with_ident sample_system c)
          (debug_route (set_to (with_ident sample_system c)) IcmpSock []) = Inr calls'" using sr by blast
      then show ?thesis by (simp add: open_sockets_def sample_system_def must_set_def)
    qed
    obtain st where st: "make_packet LittleEndian sample_system 0x0900000a 0 (0, 0) = Inr st" using m by blast
    obtain calls where "open_sockets LittleEndian sample_system 0x0900000a (datalen st) (with_ident sample_system c) = Inr calls"
      using o by blast
    then show ?thesis
      using c st adr(2) by (simp add: trace_setup_def data_size_def set_source_def Let_def with_ident_def)
  qed
  then obtain g st calls where s: "trace_setup Lsrr LittleEndian sample_system [(CHR ''g'', ''10.0.0.1'')] [''10.0.0.9''] = Inr (g, st, calls)"
    by blast
  have gs: "gateways sample_system [(CHR ''g'', ''10.0.0.1'')] = [(CHR ''g'', 0x0100000a)]"
    by (simp add: gateways_def addr_of_def adr)
  have "route_option LittleEndian [(CHR ''g'', 0x0100000a)] 0x0900000a = [131, 11, 4, 10, 0, 0, 1, 10, 0, 0, 9, 0]"
    by (simp add: route_option_def route_bytes_def)
  then show ?thesis
    using source_route_installed [OF _ _ s] gs adr s by (auto simp: numbers_ok_def size_ok_def)
qed

end
