(* ===== verification/Prog_Cond.thy ===== *)
theory Prog_Cond
  imports Prog_Sem Sock_Options
begin

text \<open>
  The program \<^verbatim>\<open>prog_condV.c\<close>, the job stack of Prog_Sem with a counter, its own mutex and a
  condition variable in place of the semaphore, and with the number of threads taken from the command
  line.  As there, a thread is a program counter with its local pointer, one step is one statement, and
  scheduler, allocator and \<^verbatim>\<open>pthread_create\<close> are the events of a run; so are the threads that
  \<^verbatim>\<open>pthread_cond_signal\<close> wakes, at least one if some are blocked, and spurious wake-ups.

  The lemmas show that two reads are unprotected and no other access to a job goes wrong: the report of an
  enqueuing thread, as in \<^verbatim>\<open>prog_sem.c\<close>, and the report of a dequeuing thread that saw a job,
  gave the mutex back and found no job any more.  They also settle what the options and the random
  number make of the thread counts.  Progress is the subject of Prog_Cond_Live.
\<close>

section \<open>Shared state\<close>

datatype cv_thread =
    Not_created
  | E_calloc | E_data job_ptr | E_lockq job_ptr | E_lockc job_ptr | E_link job_ptr | E_count job_ptr
  | E_signal job_ptr | E_unlockc job_ptr | E_unlockq job_ptr | E_print job_ptr
  | D_lockc | D_test | D_blocked | D_woken | D_unlockc | D_lockq | D_lockc2 | D_if | D_next job_ptr
  | D_dec job_ptr | D_unlockc2 job_ptr | D_unlockq job_ptr | D_print job_ptr | D_free job_ptr
  | Left

datatype cv_crash = Null_read nat | Freed_read nat | Join_unset nat | Out_of_array nat | Join_overrun nat

datatype cv_report =
    Memory_failed
  | Job_enqueued nat int
  | Job_processed nat int
  | Not_started nat
  | Waiting_for_all
  | Thread_completed nat

record cv_state =
  heap :: job_heap
  queue :: job_ptr
  queue_count :: nat
  queue_mutex :: "nat option"
  count_mutex :: "nat option"
  cv_at :: "nat \<Rightarrow> cv_thread"
  cv_main_at :: main_point
  reports :: "cv_report list"

definition cv_initial :: cv_state where
  "cv_initial = \<lparr>heap = Map.empty, queue = None, queue_count = 0, queue_mutex = None, count_mutex = None,
     cv_at = (\<lambda>_. Not_created), cv_main_at = M_init, reports = []\<rparr>"

definition jump :: "nat \<Rightarrow> cv_thread \<Rightarrow> cv_state \<Rightarrow> cv_state" where
  "jump t pc st = st\<lparr>cv_at := (cv_at st)(t := pc)\<rparr>"

type_synonym cv_result = "(cv_crash + cv_state) option"

fun read_job :: "nat \<Rightarrow> cv_state \<Rightarrow> job_ptr \<Rightarrow> cv_crash + job" where
  "read_job l st None = Inl (Null_read l)"
| "read_job l st (Some a) = (case heap st a of None \<Rightarrow> Inl (Freed_read l) | Some j \<Rightarrow> Inr j)"

definition lock_queue :: "nat \<Rightarrow> cv_thread \<Rightarrow> cv_state \<Rightarrow> cv_result" where
  "lock_queue t pc st = (if queue_mutex st = None then Some (Inr (jump t pc (st\<lparr>queue_mutex := Some t\<rparr>))) else None)"

definition lock_count :: "nat \<Rightarrow> cv_thread \<Rightarrow> cv_state \<Rightarrow> cv_result" where
  "lock_count t pc st = (if count_mutex st = None then Some (Inr (jump t pc (st\<lparr>count_mutex := Some t\<rparr>))) else None)"

definition unlock_queue :: "nat \<Rightarrow> cv_thread \<Rightarrow> cv_state \<Rightarrow> cv_result" where
  "unlock_queue t pc st = Some (Inr (jump t pc (st\<lparr>queue_mutex := None\<rparr>)))"

definition unlock_count :: "nat \<Rightarrow> cv_thread \<Rightarrow> cv_state \<Rightarrow> cv_result" where
  "unlock_count t pc st = Some (Inr (jump t pc (st\<lparr>count_mutex := None\<rparr>)))"

text \<open>The threads blocked on the condition variable; waking some of them.\<close>

definition MAX_THREADS :: nat where
  "MAX_THREADS = 400"

definition wakes :: "nat list \<Rightarrow> cv_state \<Rightarrow> cv_state" where
  "wakes ws st = st\<lparr>cv_at := (\<lambda>u. if u \<in> set ws \<and> cv_at st u = D_blocked then D_woken else cv_at st u)\<rparr>"

definition wakes_enough :: "nat list \<Rightarrow> cv_state \<Rightarrow> bool" where
  "wakes_enough ws st =
     (if list_ex (\<lambda>u. cv_at st u = D_blocked) ws then True
      else \<not> list_ex (\<lambda>u. cv_at st u = D_blocked) [0..<MAX_THREADS])"

section \<open>The threads\<close>

definition new_cell :: "job_ptr \<Rightarrow> nat \<Rightarrow> cv_state \<Rightarrow> cv_result" where
  "new_cell al t st =
     (case al of None \<Rightarrow> Some (Inr (jump t (E_data None) st))
      | Some a \<Rightarrow>
          if heap st a = None
          then Some (Inr (jump t (E_data (Some a)) (st\<lparr>heap := (heap st)(a \<mapsto> \<lparr>job_data = 0, job_next = None\<rparr>)\<rparr>)))
          else None)"

definition fill_cell :: "job_ptr \<Rightarrow> nat \<Rightarrow> cv_state \<Rightarrow> cv_result" where
  "fill_cell p t st =
     (if p = None then Some (Inr (jump t (E_lockq p) (st\<lparr>reports := reports st @ [Memory_failed]\<rparr>)))
      else (case read_job 40 st p of Inl e \<Rightarrow> Some (Inl e)
        | Inr j \<Rightarrow> Some (Inr (jump t (E_lockq p) (st\<lparr>heap := (heap st)(the p \<mapsto> j\<lparr>job_data := 100 + int t\<rparr>)\<rparr>)))))"

definition link_cell :: "job_ptr \<Rightarrow> nat \<Rightarrow> cv_state \<Rightarrow> cv_result" where
  "link_cell p t st =
     (if queue st = None then Some (Inr (jump t (E_count p) (st\<lparr>queue := p\<rparr>)))
      else (case read_job 50 st p of Inl e \<Rightarrow> Some (Inl e)
        | Inr j \<Rightarrow> Some (Inr (jump t (E_count p)
            (st\<lparr>heap := (heap st)(the p \<mapsto> j\<lparr>job_next := queue st\<rparr>), queue := p\<rparr>)))))"

fun cv_enqueue :: "job_ptr \<Rightarrow> nat list \<Rightarrow> nat \<Rightarrow> cv_thread \<Rightarrow> cv_state \<Rightarrow> cv_result" where
  "cv_enqueue al ws t E_calloc st = new_cell al t st"
| "cv_enqueue al ws t (E_data p) st = fill_cell p t st"
| "cv_enqueue al ws t (E_lockq p) st = lock_queue t (E_lockc p) st"
| "cv_enqueue al ws t (E_lockc p) st = lock_count t (E_link p) st"
| "cv_enqueue al ws t (E_link p) st = link_cell p t st"
| "cv_enqueue al ws t (E_count p) st = Some (Inr (jump t (E_signal p) (st\<lparr>queue_count := queue_count st + 1\<rparr>)))"
| "cv_enqueue al ws t (E_signal p) st =
     (if wakes_enough ws st then Some (Inr (jump t (E_unlockc p) (wakes ws st))) else None)"
| "cv_enqueue al ws t (E_unlockc p) st = unlock_count t (E_unlockq p) st"
| "cv_enqueue al ws t (E_unlockq p) st = unlock_queue t (E_print p) st"
| "cv_enqueue al ws t (E_print p) st =
     (case read_job 61 st p of Inl e \<Rightarrow> Some (Inl e)
      | Inr j \<Rightarrow> Some (Inr (jump t Left (st\<lparr>reports := reports st @ [Job_enqueued t (job_data j)]\<rparr>))))"
| "cv_enqueue al ws t pc st = None"

text \<open>\<^verbatim>\<open>pthread_cond_wait\<close> gives the mutex back and blocks; it returns with the mutex taken again.\<close>

fun cv_dequeue :: "nat \<Rightarrow> cv_thread \<Rightarrow> cv_state \<Rightarrow> cv_result" where
  "cv_dequeue t D_lockc st = lock_count t D_test st"
| "cv_dequeue t D_test st =
     (if queue_count st = 0 then unlock_count t D_blocked st else Some (Inr (jump t D_unlockc st)))"
| "cv_dequeue t D_woken st = lock_count t D_test st"
| "cv_dequeue t D_unlockc st = unlock_count t D_lockq st"
| "cv_dequeue t D_lockq st = lock_queue t D_lockc2 st"
| "cv_dequeue t D_lockc2 st = lock_count t D_if st"
| "cv_dequeue t D_if st =
     (if queue_count st > 0 then Some (Inr (jump t (D_next (queue st)) st)) else Some (Inr (jump t (D_unlockc2 None) st)))"
| "cv_dequeue t (D_next p) st =
     (case read_job 85 st (queue st) of Inl e \<Rightarrow> Some (Inl e)
      | Inr j \<Rightarrow> Some (Inr (jump t (D_dec p) (st\<lparr>queue := job_next j\<rparr>))))"
| "cv_dequeue t (D_dec p) st = Some (Inr (jump t (D_unlockc2 p) (st\<lparr>queue_count := queue_count st - 1\<rparr>)))"
| "cv_dequeue t (D_unlockc2 p) st = unlock_count t (D_unlockq p) st"
| "cv_dequeue t (D_unlockq p) st = unlock_queue t (D_print p) st"
| "cv_dequeue t (D_print p) st =
     (case read_job 94 st p of Inl e \<Rightarrow> Some (Inl e)
      | Inr j \<Rightarrow> Some (Inr (jump t (D_free p) (st\<lparr>reports := reports st @ [Job_processed t (job_data j)]\<rparr>))))"
| "cv_dequeue t (D_free p) st =
     (case p of None \<Rightarrow> Some (Inr (jump t Left st))
      | Some a \<Rightarrow> (if heap st a = None then Some (Inl (Freed_read 95))
          else Some (Inr (jump t Left (st\<lparr>heap := (heap st)(a := None)\<rparr>)))))"
| "cv_dequeue t pc st = None"

section \<open>The main program\<close>

text \<open>
  The options as \<^verbatim>\<open>getopt\<close> delivers them.  Without \<^verbatim>\<open>-t\<close> the number of threads stays zero, and the
  subtraction in the argument of \<^verbatim>\<open>%\<close> is one of unsigned numbers.
\<close>

datatype early = Exit_success | Exit_failure | Bad_number | Division_by_zero

fun cv_options :: "(char \<times> string) list \<Rightarrow> u32 \<Rightarrow> early + u32" where
  "cv_options [] max_thr_count = Inr max_thr_count"
| "cv_options ((ch, arg) # opts) max_thr_count =
     (if ch = CHR ''h'' then Inl Exit_success
      else if ch = CHR ''t'' then
        (case atoi arg of Inl _ \<Rightarrow> Inl Bad_number
         | Inr v \<Rightarrow> if (word_of_int v :: u32) > 400 then Inl Exit_success else cv_options opts (word_of_int v))
      else Inl Exit_failure)"

definition init_thr_count :: "u32 \<Rightarrow> int \<Rightarrow> early + u32" where
  "init_thr_count max_thr_count r =
     (if max_thr_count - 1 = 0 then Inl Division_by_zero
      else Inr (word_of_int r mod (max_thr_count - 1) + 1))"

definition cv_counts :: "(char \<times> string) list \<Rightarrow> int \<Rightarrow> early + nat \<times> nat" where
  "cv_counts opts r = (case cv_options opts 0 of Inl e \<Rightarrow> Inl e
     | Inr n \<Rightarrow> (case init_thr_count n r of Inl e \<Rightarrow> Inl e | Inr m \<Rightarrow> Inr (unat n, unat m)))"

definition create_thread :: "bool \<Rightarrow> nat \<Rightarrow> cv_thread \<Rightarrow> nat \<Rightarrow> cv_state \<Rightarrow> cv_result" where
  "create_thread ok l pc c st =
     (if c < MAX_THREADS
      then (if ok then Some (Inr (jump c pc (st\<lparr>cv_main_at := M_create (c + 1)\<rparr>)))
            else Some (Inr (st\<lparr>reports := reports st @ [Not_started c], cv_main_at := M_create (c + 1)\<rparr>)))
      else Some (Inl (Out_of_array l)))"

fun cv_main :: "nat \<Rightarrow> nat \<Rightarrow> bool \<Rightarrow> main_point \<Rightarrow> cv_state \<Rightarrow> cv_result" where
  "cv_main n m ok M_init st =
     Some (Inr (st\<lparr>queue_mutex := None, count_mutex := None, queue := None, queue_count := 0, cv_main_at := M_create 0\<rparr>))"
| "cv_main n m ok (M_create c) st =
     (if c < m then create_thread ok 140 D_lockc c st
      else if c < n then create_thread ok 151 E_calloc c st
      else Some (Inr (st\<lparr>reports := reports st @ [Waiting_for_all], cv_main_at := M_join 0\<rparr>)))"
| "cv_main n m ok (M_join i) st =
     (if i < n
      then (case cv_at st i of
              Not_created \<Rightarrow> Some (Inl (Join_unset 162))
            | Left \<Rightarrow> Some (Inr (st\<lparr>reports := reports st @ [Thread_completed i], cv_main_at := M_join (i + 1)\<rparr>))
            | _ \<Rightarrow> None)
      else Some (Inr (st\<lparr>cv_main_at := M_done\<rparr>)))"
| "cv_main n m ok M_done st = None"

section \<open>Runs\<close>

datatype cv_event = Main_step bool | Thread_step nat job_ptr "nat list" | Spurious nat

fun cv_thread_step :: "nat \<Rightarrow> job_ptr \<Rightarrow> nat list \<Rightarrow> nat \<Rightarrow> cv_state \<Rightarrow> cv_result" where
  "cv_thread_step m al ws t st =
     (if t < m then cv_dequeue t (cv_at st t) st else cv_enqueue al ws t (cv_at st t) st)"

fun cv_step :: "nat \<Rightarrow> nat \<Rightarrow> cv_event \<Rightarrow> cv_state \<Rightarrow> cv_result" where
  "cv_step n m (Main_step ok) st = cv_main n m ok (cv_main_at st) st"
| "cv_step n m (Thread_step t al ws) st = (if cv_main_at st = M_done then None else cv_thread_step m al ws t st)"
| "cv_step n m (Spurious t) st =
     (if cv_main_at st = M_done \<or> cv_at st t \<noteq> D_blocked then None else Some (Inr (jump t D_woken st)))"

fun cv_run :: "nat \<Rightarrow> nat \<Rightarrow> cv_event list \<Rightarrow> cv_state \<Rightarrow> cv_result" where
  "cv_run n m [] st = Some (Inr st)"
| "cv_run n m (e # es) st =
     (case cv_step n m e st of None \<Rightarrow> None | Some (Inl c) \<Rightarrow> Some (Inl c) | Some (Inr st') \<Rightarrow> cv_run n m es st')"

text \<open>As in \<^verbatim>\<open>prog_sem.c\<close> the call of \<^verbatim>\<open>pthread_join\<close> stores a pointer of \<open>psize\<close> bytes in an \<^verbatim>\<open>int\<close>.\<close>

definition cv_joins :: "nat \<Rightarrow> cv_event \<Rightarrow> cv_state \<Rightarrow> bool" where
  "cv_joins n e st =
     (case e of Main_step ok \<Rightarrow> (case cv_main_at st of M_join i \<Rightarrow> i < n \<and> cv_at st i = Left | _ \<Rightarrow> False) | _ \<Rightarrow> False)"

definition cv_step_on :: "nat \<Rightarrow> nat \<Rightarrow> nat \<Rightarrow> cv_event \<Rightarrow> cv_state \<Rightarrow> cv_result" where
  "cv_step_on psize n m e st = (if 4 < psize \<and> cv_joins n e st then Some (Inl (Join_overrun 162)) else cv_step n m e st)"

fun cv_run_on :: "nat \<Rightarrow> nat \<Rightarrow> nat \<Rightarrow> cv_event list \<Rightarrow> cv_state \<Rightarrow> cv_result" where
  "cv_run_on psize n m [] st = Some (Inr st)"
| "cv_run_on psize n m (e # es) st =
     (case cv_step_on psize n m e st of None \<Rightarrow> None | Some (Inl c) \<Rightarrow> Some (Inl c)
      | Some (Inr st') \<Rightarrow> cv_run_on psize n m es st')"

lemma cv_run_on_cases:
  "cv_run_on psize n m es st = cv_run n m es st \<or> 4 < psize \<and> cv_run_on psize n m es st = Some (Inl (Join_overrun 162))"
proof (induction es arbitrary: st)
  case (Cons e es)
  show ?case
  proof (cases "4 < psize \<and> cv_joins n e st")
    case False
    then show ?thesis using Cons by (auto simp: cv_step_on_def split: option.splits sum.splits)
  qed (simp add: cv_step_on_def)
qed simp

lemma cv_run_on_small: "psize \<le> 4 \<Longrightarrow> cv_run_on psize n m es st = cv_run n m es st"
  using cv_run_on_cases [of psize n m es st] by auto

fun cv_granted :: "cv_event \<Rightarrow> bool" where
  "cv_granted (Main_step ok) = ok"
| "cv_granted (Thread_step t al ws) = (al \<noteq> None)"
| "cv_granted (Spurious t) = True"

inductive cv_reach :: "nat \<Rightarrow> nat \<Rightarrow> cv_state \<Rightarrow> bool" for n m where
  start: "cv_reach n m cv_initial"
| step: "cv_reach n m st \<Longrightarrow> cv_granted e \<Longrightarrow> cv_step n m e st = Some (Inr st') \<Longrightarrow> cv_reach n m st'"

text \<open>The steps of the threads as a relation, when memory is granted.\<close>

inductive cv_acts :: "nat \<Rightarrow> cv_state \<Rightarrow> cv_state \<Rightarrow> bool" where
  e_calloc: "cv_at st t = E_calloc \<Longrightarrow> heap st a = None \<Longrightarrow>
     cv_acts t st (jump t (E_data (Some a)) (st\<lparr>heap := (heap st)(a \<mapsto> \<lparr>job_data = 0, job_next = None\<rparr>)\<rparr>))"
| e_data: "cv_at st t = E_data (Some a) \<Longrightarrow> heap st a = Some j \<Longrightarrow>
     cv_acts t st (jump t (E_lockq (Some a)) (st\<lparr>heap := (heap st)(a \<mapsto> j\<lparr>job_data := 100 + int t\<rparr>)\<rparr>))"
| e_lockq: "cv_at st t = E_lockq p \<Longrightarrow> queue_mutex st = None \<Longrightarrow>
     cv_acts t st (jump t (E_lockc p) (st\<lparr>queue_mutex := Some t\<rparr>))"
| e_lockc: "cv_at st t = E_lockc p \<Longrightarrow> count_mutex st = None \<Longrightarrow>
     cv_acts t st (jump t (E_link p) (st\<lparr>count_mutex := Some t\<rparr>))"
| e_first: "cv_at st t = E_link p \<Longrightarrow> queue st = None \<Longrightarrow>
     cv_acts t st (jump t (E_count p) (st\<lparr>queue := p\<rparr>))"
| e_push: "cv_at st t = E_link (Some a) \<Longrightarrow> queue st = Some q \<Longrightarrow> heap st a = Some j \<Longrightarrow>
     cv_acts t st (jump t (E_count (Some a))
       (st\<lparr>heap := (heap st)(a \<mapsto> j\<lparr>job_next := queue st\<rparr>), queue := Some a\<rparr>))"
| e_count: "cv_at st t = E_count p \<Longrightarrow>
     cv_acts t st (jump t (E_signal p) (st\<lparr>queue_count := Suc (queue_count st)\<rparr>))"
| e_signal: "cv_at st t = E_signal p \<Longrightarrow> wakes_enough ws st \<Longrightarrow>
     cv_acts t st (jump t (E_unlockc p) (wakes ws st))"
| e_unlockc: "cv_at st t = E_unlockc p \<Longrightarrow>
     cv_acts t st (jump t (E_unlockq p) (st\<lparr>count_mutex := None\<rparr>))"
| e_unlockq: "cv_at st t = E_unlockq p \<Longrightarrow>
     cv_acts t st (jump t (E_print p) (st\<lparr>queue_mutex := None\<rparr>))"
| e_print: "cv_at st t = E_print (Some a) \<Longrightarrow> heap st a = Some j \<Longrightarrow>
     cv_acts t st (jump t Left (st\<lparr>reports := reports st @ [Job_enqueued t (job_data j)]\<rparr>))"
| d_lockc: "cv_at st t = D_lockc \<Longrightarrow> count_mutex st = None \<Longrightarrow>
     cv_acts t st (jump t D_test (st\<lparr>count_mutex := Some t\<rparr>))"
| d_wait: "cv_at st t = D_test \<Longrightarrow> queue_count st = 0 \<Longrightarrow>
     cv_acts t st (jump t D_blocked (st\<lparr>count_mutex := None\<rparr>))"
| d_pass: "cv_at st t = D_test \<Longrightarrow> 0 < queue_count st \<Longrightarrow> cv_acts t st (jump t D_unlockc st)"
| d_woken: "cv_at st t = D_woken \<Longrightarrow> count_mutex st = None \<Longrightarrow>
     cv_acts t st (jump t D_test (st\<lparr>count_mutex := Some t\<rparr>))"
| d_unlockc: "cv_at st t = D_unlockc \<Longrightarrow>
     cv_acts t st (jump t D_lockq (st\<lparr>count_mutex := None\<rparr>))"
| d_lockq: "cv_at st t = D_lockq \<Longrightarrow> queue_mutex st = None \<Longrightarrow>
     cv_acts t st (jump t D_lockc2 (st\<lparr>queue_mutex := Some t\<rparr>))"
| d_lockc2: "cv_at st t = D_lockc2 \<Longrightarrow> count_mutex st = None \<Longrightarrow>
     cv_acts t st (jump t D_if (st\<lparr>count_mutex := Some t\<rparr>))"
| d_take: "cv_at st t = D_if \<Longrightarrow> 0 < queue_count st \<Longrightarrow> queue st = q \<Longrightarrow>
     cv_acts t st (jump t (D_next q) st)"
| d_skip: "cv_at st t = D_if \<Longrightarrow> queue_count st = 0 \<Longrightarrow> cv_acts t st (jump t (D_unlockc2 None) st)"
| d_next: "cv_at st t = D_next p \<Longrightarrow> queue st = Some a \<Longrightarrow> heap st a = Some j \<Longrightarrow>
     cv_acts t st (jump t (D_dec p) (st\<lparr>queue := job_next j\<rparr>))"
| d_dec: "cv_at st t = D_dec p \<Longrightarrow>
     cv_acts t st (jump t (D_unlockc2 p) (st\<lparr>queue_count := queue_count st - Suc 0\<rparr>))"
| d_unlockc2: "cv_at st t = D_unlockc2 p \<Longrightarrow>
     cv_acts t st (jump t (D_unlockq p) (st\<lparr>count_mutex := None\<rparr>))"
| d_unlockq: "cv_at st t = D_unlockq p \<Longrightarrow>
     cv_acts t st (jump t (D_print p) (st\<lparr>queue_mutex := None\<rparr>))"
| d_print: "cv_at st t = D_print (Some a) \<Longrightarrow> heap st a = Some j \<Longrightarrow>
     cv_acts t st (jump t (D_free (Some a)) (st\<lparr>reports := reports st @ [Job_processed t (job_data j)]\<rparr>))"
| d_free: "cv_at st t = D_free (Some a) \<Longrightarrow> heap st a = Some j \<Longrightarrow>
     cv_acts t st (jump t Left (st\<lparr>heap := (heap st)(a := None)\<rparr>))"
| d_free_null: "cv_at st t = D_free None \<Longrightarrow> cv_acts t st (jump t Left st)"
| woken_spuriously: "cv_at st t = D_blocked \<Longrightarrow> cv_acts t st (jump t D_woken st)"

lemmas cv_lock_defs = lock_queue_def lock_count_def unlock_queue_def unlock_count_def

lemma read_job_Inr: "read_job l st p = Inr j \<longleftrightarrow> (\<exists>a. p = Some a \<and> heap st a = Some j)"
  by (cases p) (auto split: option.splits)

lemma cv_dequeue_acts: "cv_dequeue t (cv_at st t) st = Some (Inr st') \<Longrightarrow> cv_acts t st st'"
  by (cases "cv_at st t")
     (auto simp: cv_lock_defs read_job_Inr intro: cv_acts.intros split: if_splits option.splits sum.splits)

lemma new_cell_acts:
  "new_cell (Some a) t st = Some (Inr st') \<Longrightarrow> cv_at st t = E_calloc \<Longrightarrow> cv_acts t st st'"
  by (auto simp: new_cell_def intro: cv_acts.intros split: if_splits)

lemma fill_cell_acts:
  "fill_cell (Some a) t st = Some (Inr st') \<Longrightarrow> cv_at st t = E_data (Some a) \<Longrightarrow> cv_acts t st st'"
  by (auto simp: fill_cell_def intro: cv_acts.intros split: if_splits option.splits)

lemma link_cell_acts:
  "link_cell p t st = Some (Inr st') \<Longrightarrow> cv_at st t = E_link p \<Longrightarrow> cv_acts t st st'"
  by (auto simp: link_cell_def read_job_Inr intro: cv_acts.intros dest: e_push split: if_splits sum.splits)

lemma cv_enqueue_acts:
  "cv_enqueue (Some a) ws t (cv_at st t) st = Some (Inr st') \<Longrightarrow> cv_at st t \<noteq> E_data None \<Longrightarrow> cv_acts t st st'"
  by (cases "cv_at st t" rule: cv_thread.exhaust)
     (auto simp: cv_lock_defs read_job_Inr intro: cv_acts.intros new_cell_acts fill_cell_acts link_cell_acts
       split: if_splits sum.splits)

section \<open>The invariant\<close>

text \<open>Who holds which mutex, and the job a thread has for itself.\<close>

fun inside_q :: "cv_thread \<Rightarrow> bool" where
  "inside_q (E_lockc p) = True"
| "inside_q (E_link p) = True"
| "inside_q (E_count p) = True"
| "inside_q (E_signal p) = True"
| "inside_q (E_unlockc p) = True"
| "inside_q (E_unlockq p) = True"
| "inside_q D_lockc2 = True"
| "inside_q D_if = True"
| "inside_q (D_next p) = True"
| "inside_q (D_dec p) = True"
| "inside_q (D_unlockc2 p) = True"
| "inside_q (D_unlockq p) = True"
| "inside_q pc = False"

fun inside_c :: "cv_thread \<Rightarrow> bool" where
  "inside_c (E_link p) = True"
| "inside_c (E_count p) = True"
| "inside_c (E_signal p) = True"
| "inside_c (E_unlockc p) = True"
| "inside_c D_test = True"
| "inside_c D_unlockc = True"
| "inside_c D_if = True"
| "inside_c (D_next p) = True"
| "inside_c (D_dec p) = True"
| "inside_c (D_unlockc2 p) = True"
| "inside_c pc = False"

fun cv_owned :: "cv_thread \<Rightarrow> job_ptr" where
  "cv_owned (E_data p) = p"
| "cv_owned (E_lockq p) = p"
| "cv_owned (E_lockc p) = p"
| "cv_owned (E_link p) = p"
| "cv_owned (D_dec p) = p"
| "cv_owned (D_unlockc2 p) = p"
| "cv_owned (D_unlockq p) = p"
| "cv_owned (D_print p) = p"
| "cv_owned (D_free p) = p"
| "cv_owned pc = None"

fun of_enqueuer :: "cv_thread \<Rightarrow> bool" where
  "of_enqueuer E_calloc = True"
| "of_enqueuer (E_data p) = True"
| "of_enqueuer (E_lockq p) = True"
| "of_enqueuer (E_lockc p) = True"
| "of_enqueuer (E_link p) = True"
| "of_enqueuer (E_count p) = True"
| "of_enqueuer (E_signal p) = True"
| "of_enqueuer (E_unlockc p) = True"
| "of_enqueuer (E_unlockq p) = True"
| "of_enqueuer (E_print p) = True"
| "of_enqueuer pc = False"

definition cv_fits :: "nat \<Rightarrow> nat \<Rightarrow> nat \<Rightarrow> cv_thread \<Rightarrow> bool" where
  "cv_fits n m t pc = (pc = Not_created \<or> t < n \<and> (pc = Left \<or> (of_enqueuer pc \<longleftrightarrow> m \<le> t)))"

definition cv_threads_ok :: "nat \<Rightarrow> nat \<Rightarrow> cv_state \<Rightarrow> bool" where
  "cv_threads_ok n m st = ((\<forall>t. cv_fits n m t (cv_at st t))
     \<and> (\<forall>t. inside_q (cv_at st t) \<longleftrightarrow> queue_mutex st = Some t)
     \<and> (\<forall>t. inside_c (cv_at st t) \<longleftrightarrow> count_mutex st = Some t)
     \<and> (case cv_main_at st of
          M_init \<Rightarrow> (\<forall>t. cv_at st t = Not_created) \<and> queue_count st = 0 \<and> queue st = None
        | M_create c \<Rightarrow> c \<le> n \<and> (\<forall>t. cv_at st t = Not_created \<longleftrightarrow> c \<le> t)
        | _ \<Rightarrow> (\<forall>t. cv_at st t = Not_created \<longleftrightarrow> n \<le> t)))"

text \<open>What a thread knows of the heap and of the counter.\<close>

fun cv_private :: "job_heap \<Rightarrow> job_ptr \<Rightarrow> cv_thread \<Rightarrow> bool" where
  "cv_private h q (E_data p) = (\<exists>a j. p = Some a \<and> h a = Some j \<and> job_next j = None)"
| "cv_private h q (E_lockq p) = (\<exists>a j. p = Some a \<and> h a = Some j \<and> job_next j = None)"
| "cv_private h q (E_lockc p) = (\<exists>a j. p = Some a \<and> h a = Some j \<and> job_next j = None)"
| "cv_private h q (E_link p) = (\<exists>a j. p = Some a \<and> h a = Some j \<and> job_next j = None)"
| "cv_private h q (E_count p) = (p \<noteq> None)"
| "cv_private h q (E_signal p) = (p \<noteq> None)"
| "cv_private h q (E_unlockc p) = (p \<noteq> None)"
| "cv_private h q (E_unlockq p) = (p \<noteq> None)"
| "cv_private h q (E_print p) = (p \<noteq> None)"
| "cv_private h q (D_next p) = (p = q)"
| "cv_private h q (D_dec p) = (p \<noteq> None)"
| "cv_private h q (D_free p) = (p \<noteq> None)"
| "cv_private h q pc = True"

definition cv_jobs_ok :: "cv_state \<Rightarrow> nat list \<Rightarrow> bool" where
  "cv_jobs_ok st xs = (shared_heap (heap st) (queue st) xs (\<lambda>t. cv_owned (cv_at st t))
     \<and> (\<forall>t. cv_private (heap st) (queue st) (cv_at st t)))"

text \<open>The counter agrees with the stack, except while its mutex is held for a change.\<close>

fun count_fits :: "nat \<Rightarrow> nat \<Rightarrow> cv_thread \<Rightarrow> bool" where
  "count_fits l c (E_count p) = (l = Suc c)"
| "count_fits l c (D_next p) = (l = c \<and> 0 < c)"
| "count_fits l c (D_dec p) = (Suc l = c)"
| "count_fits l c pc = (l = c)"

definition counted :: "cv_state \<Rightarrow> nat list \<Rightarrow> bool" where
  "counted st xs = (case count_mutex st of None \<Rightarrow> length xs = queue_count st
     | Some t \<Rightarrow> count_fits (length xs) (queue_count st) (cv_at st t))"

fun cv_stack_after :: "cv_thread \<Rightarrow> nat list \<Rightarrow> nat list" where
  "cv_stack_after (E_link p) xs = the p # xs"
| "cv_stack_after (D_next p) xs = tl xs"
| "cv_stack_after pc xs = xs"

lemma jump_sel [simp]:
  "heap (jump t pc st) = heap st" "queue (jump t pc st) = queue st"
  "queue_count (jump t pc st) = queue_count st" "queue_mutex (jump t pc st) = queue_mutex st"
  "count_mutex (jump t pc st) = count_mutex st" "cv_main_at (jump t pc st) = cv_main_at st"
  "cv_at (jump t pc st) = (cv_at st)(t := pc)"
  by (simp_all add: jump_def)

lemma wakes_sel [simp]:
  "heap (wakes ws st) = heap st" "queue (wakes ws st) = queue st"
  "queue_count (wakes ws st) = queue_count st" "queue_mutex (wakes ws st) = queue_mutex st"
  "count_mutex (wakes ws st) = count_mutex st" "cv_main_at (wakes ws st) = cv_main_at st"
  "cv_at (wakes ws st) u = (if u \<in> set ws \<and> cv_at st u = D_blocked then D_woken else cv_at st u)"
  by (simp_all add: wakes_def)

text \<open>Waking up changes nothing that the invariant speaks of.\<close>

lemma wakes_at [simp]:
  "inside_q (cv_at (wakes ws st) u) = inside_q (cv_at st u)"
  "inside_c (cv_at (wakes ws st) u) = inside_c (cv_at st u)"
  "cv_owned (cv_at (wakes ws st) u) = cv_owned (cv_at st u)"
  "cv_fits n m u (cv_at (wakes ws st) u) = cv_fits n m u (cv_at st u)"
  "cv_private h q (cv_at (wakes ws st) u) = cv_private h q (cv_at st u)"
  "count_fits l c (cv_at (wakes ws st) u) = count_fits l c (cv_at st u)"
  "cv_at (wakes ws st) u = Not_created \<longleftrightarrow> cv_at st u = Not_created"
  by (auto simp: cv_fits_def)

lemma wakes_ok:
  "cv_threads_ok n m (wakes ws st) = cv_threads_ok n m st"
  "cv_jobs_ok (wakes ws st) xs = cv_jobs_ok st xs"
  "counted (wakes ws st) xs = counted st xs"
  by (simp_all only: cv_threads_ok_def cv_jobs_ok_def counted_def wakes_at wakes_sel(1-6))

lemma cv_threads_ok_jump:
  assumes "cv_threads_ok n m st" and "cv_at st t \<noteq> Not_created" and "pc \<noteq> Not_created"
    and "cv_fits n m t pc" and "cv_main_at st' = cv_main_at st" and "cv_at st' = cv_at st"
    and "queue_mutex st' = queue_mutex st \<and> inside_q pc = inside_q (cv_at st t)
       \<or> queue_mutex st = None \<and> queue_mutex st' = Some t \<and> inside_q pc
       \<or> inside_q (cv_at st t) \<and> queue_mutex st' = None \<and> \<not> inside_q pc"
    and "count_mutex st' = count_mutex st \<and> inside_c pc = inside_c (cv_at st t)
       \<or> count_mutex st = None \<and> count_mutex st' = Some t \<and> inside_c pc
       \<or> inside_c (cv_at st t) \<and> count_mutex st' = None \<and> \<not> inside_c pc"
  shows "cv_threads_ok n m (jump t pc st')"
proof -
  have "cv_main_at st \<noteq> M_init" using assms(1,2) by (auto simp: cv_threads_ok_def)
  moreover have "\<forall>u. inside_q (cv_at (jump t pc st') u) \<longleftrightarrow> queue_mutex st' = Some u"
    using assms(1,6,7) by (auto simp: cv_threads_ok_def)
  moreover have "\<forall>u. inside_c (cv_at (jump t pc st') u) \<longleftrightarrow> count_mutex st' = Some u"
    using assms(1,6,8) by (auto simp: cv_threads_ok_def)
  ultimately show ?thesis using assms(1-6) by (auto simp: cv_threads_ok_def split: main_point.splits)
qed

lemma cv_threads_ok_acts:
  assumes "cv_acts t st st'" and ok: "cv_threads_ok n m st"
  shows "cv_threads_ok n m st'"
proof -
  have "cv_fits n m t (cv_at st t)" using ok by (simp add: cv_threads_ok_def)
  with assms show ?thesis
  proof (induction rule: cv_acts.induct)
    case (e_signal st t p ws)
    then have "cv_threads_ok n m (wakes ws st)" by (simp only: wakes_ok)
    then show ?case by (rule cv_threads_ok_jump) (use e_signal in \<open>auto simp: cv_fits_def\<close>)
  qed (erule cv_threads_ok_jump; auto simp: cv_fits_def)+
qed

lemma cv_create_absent: "cv_threads_ok n m st \<Longrightarrow> cv_main_at st = M_create c \<Longrightarrow> cv_at st c = Not_created"
  by (auto simp: cv_threads_ok_def)

lemma cv_threads_ok_create:
  assumes ok: "cv_threads_ok n m st" and at: "cv_main_at st = M_create c" and less: "c < n"
    and pc: "cv_fits n m c pc" "pc \<noteq> Not_created" "\<not> inside_q pc" "\<not> inside_c pc"
  shows "cv_threads_ok n m (jump c pc (st\<lparr>cv_main_at := M_create (c + 1)\<rparr>))"
proof -
  have absent: "cv_at st c = Not_created" by (rule cv_create_absent [OF ok at])
  have "queue_mutex st \<noteq> Some c" "count_mutex st \<noteq> Some c"
    using ok absent inside_q.simps inside_c.simps unfolding cv_threads_ok_def by (metis)+
  then show ?thesis using ok at less pc by (auto simp: cv_threads_ok_def)
qed

text \<open>What \<^verbatim>\<open>main\<close> does to the threads: nothing, or it starts one.\<close>

lemma cv_main_cases:
  assumes "cv_main n m True (cv_main_at st) st = Some (Inr st')" "m < n" "cv_threads_ok n m st"
  obtains (create) c pc where "cv_main_at st = M_create c" "c < n" "pc = (if c < m then D_lockc else E_calloc)"
      "st' = jump c pc (st\<lparr>cv_main_at := M_create (c + 1)\<rparr>)" "cv_at st c = Not_created"
  | (other) "heap st' = heap st" "queue st' = queue st" "queue_count st' = queue_count st"
      "queue_mutex st' = queue_mutex st" "count_mutex st' = count_mutex st" "cv_at st' = cv_at st"
      "\<nexists>c. cv_main_at st = M_create c \<and> c < n"
proof (cases "cv_main_at st")
  case M_init
  then have "queue_mutex st = None" "count_mutex st = None"
    using assms(3) by (auto simp: cv_threads_ok_def)
  then show thesis using assms M_init by (intro other) (auto simp: cv_threads_ok_def)
next
  case (M_create c)
  note absent = cv_create_absent [OF assms(3) M_create]
  show thesis
  proof (cases "c < n")
    case True
    then show thesis using assms M_create absent
      by (intro create [of c "if c < m then D_lockc else E_calloc"]) (auto simp: create_thread_def split: if_splits)
  next
    case False
    then show thesis using assms M_create by (intro other) auto
  qed
next
  case (M_join i)
  then show thesis using assms by (intro other) (auto split: if_splits cv_thread.splits)
next
  case M_done
  then show thesis using assms by simp
qed

lemma cv_threads_ok_main:
  assumes "cv_main n m True (cv_main_at st) st = Some (Inr st')" "m < n" "cv_threads_ok n m st"
  shows "cv_threads_ok n m st'"
  using assms
proof (cases rule: cv_main_cases)
  case (create c pc)
  then show ?thesis using cv_threads_ok_create [OF assms(3) create(1,2), of pc] by (simp add: cv_fits_def)
next
  case other
  then show ?thesis using assms
    by (cases "cv_main_at st") (auto simp: cv_threads_ok_def split: if_splits cv_thread.splits)
qed

section \<open>The heap\<close>

lemma cv_owned_upd: "(\<lambda>u. cv_owned (if u = t then pc else f u)) = (\<lambda>u. cv_owned (f u))(t := cv_owned pc)"
  by auto

lemma cv_private_frame:
  assumes "cv_private h q pc" and "cv_owned pc \<noteq> Some a" and "q' \<noteq> q \<Longrightarrow> \<not> inside_q pc"
  shows "cv_private (h(a := x)) q' pc"
  using assms by (cases pc) auto

lemma cv_private_queue: "cv_private h q pc \<Longrightarrow> \<not> inside_q pc \<Longrightarrow> cv_private h q' pc"
  by (cases pc) auto

lemma cv_jobs_ok_jump:
  assumes "cv_jobs_ok st xs" and "shared_heap (heap st') (queue st') xs' ((\<lambda>u. cv_owned (cv_at st u))(t := cv_owned pc))"
    and "cv_at st' = cv_at st" and "cv_private (heap st') (queue st') pc"
    and "\<And>u. u \<noteq> t \<Longrightarrow> cv_private (heap st') (queue st') (cv_at st u)"
  shows "cv_jobs_ok (jump t pc st') xs'"
  using assms by (auto simp: cv_jobs_ok_def cv_owned_upd)

lemma cv_jobs_ok_same:
  assumes "cv_jobs_ok st xs" and "heap st' = heap st" "queue st' = queue st" "cv_at st' = cv_at st"
    and "cv_owned pc = cv_owned (cv_at st t)" "cv_private (heap st) (queue st) pc"
  shows "cv_jobs_ok (jump t pc st') xs"
  using assms by (intro cv_jobs_ok_jump [OF assms(1)]) (auto simp: cv_jobs_ok_def fun_upd_idem)

lemma cv_other_outside: "cv_threads_ok n m st \<Longrightarrow> inside_q (cv_at st t) \<Longrightarrow> u \<noteq> t \<Longrightarrow> \<not> inside_q (cv_at st u)"
  unfolding cv_threads_ok_def by force

lemma cv_other_owned:
  "cv_jobs_ok st xs \<Longrightarrow> cv_owned (cv_at st t) = Some a \<Longrightarrow> u \<noteq> t \<Longrightarrow> cv_owned (cv_at st u) \<noteq> Some a"
  by (auto simp: cv_jobs_ok_def shared_heap_def inj_on_def dom_def)

lemma cv_jobs_ok_shared: "cv_jobs_ok st xs \<Longrightarrow> shared_heap (heap st) (queue st) xs (\<lambda>t. cv_owned (cv_at st t))"
  by (simp add: cv_jobs_ok_def)

lemma cv_jobs_ok_private: "cv_jobs_ok st xs \<Longrightarrow> cv_private (heap st) (queue st) (cv_at st t)"
  by (simp add: cv_jobs_ok_def)

lemma cv_unowned: "cv_jobs_ok st xs \<Longrightarrow> heap st a = None \<Longrightarrow> cv_owned (cv_at st t) \<noteq> Some a"
  using ranI [of "\<lambda>t. cv_owned (cv_at st t)" t a] domI [of "heap st" a]
  by (auto simp: cv_jobs_ok_def shared_heap_def)

lemma cv_jobs_ok_calloc:
  assumes "cv_jobs_ok st xs" "cv_at st t = E_calloc" "heap st a = None"
  shows "cv_jobs_ok (jump t (E_data (Some a)) (st\<lparr>heap := (heap st)(a \<mapsto> \<lparr>job_data = 0, job_next = None\<rparr>)\<rparr>)) xs"
  using assms cv_unowned [OF assms(1,3)]
  by (intro cv_jobs_ok_jump [OF assms(1)])
     (auto intro!: shared_alloc cv_private_frame simp: cv_jobs_ok_shared cv_jobs_ok_private)

lemma cv_jobs_ok_data:
  assumes "cv_jobs_ok st xs" "cv_at st t = E_data (Some a)" "heap st a = Some j"
  shows "cv_jobs_ok (jump t (E_lockq (Some a)) (st\<lparr>heap := (heap st)(a \<mapsto> j\<lparr>job_data := d\<rparr>)\<rparr>)) xs"
  using assms cv_jobs_ok_private [OF assms(1), of t] cv_other_owned [OF assms(1), of t a]
    shared_update [OF cv_jobs_ok_shared [OF assms(1)], of t a]
  by (intro cv_jobs_ok_jump [OF assms(1)])
     (auto intro!: cv_private_frame simp: cv_jobs_ok_private fun_upd_idem)

lemma cv_jobs_ok_push:
  assumes "cv_jobs_ok st xs" "cv_threads_ok n m st" "cv_at st t = E_link (Some a)" "heap st a = Some j"
    "q = Some a"
  shows "cv_jobs_ok (jump t (E_count q) (st\<lparr>heap := (heap st)(a \<mapsto> j\<lparr>job_next := queue st\<rparr>), queue := q\<rparr>)) (a # xs)"
proof (rule cv_jobs_ok_jump [OF assms(1)])
  let ?own = "\<lambda>u. cv_owned (cv_at st u)" and ?h = "(heap st)(a \<mapsto> j\<lparr>job_next := queue st\<rparr>)"
  have "shared_heap ?h (queue st) xs ?own"
    using shared_update [OF cv_jobs_ok_shared [OF assms(1)], of t a] assms(3) by simp
  then have "shared_heap ?h (Some a) (a # xs) (?own(t := None))"
    by (rule shared_push [where t = t and j = "j\<lparr>job_next := queue st\<rparr>"]) (simp_all add: assms(3))
  then show "shared_heap (heap (st\<lparr>heap := ?h, queue := q\<rparr>)) (queue (st\<lparr>heap := ?h, queue := q\<rparr>))
      (a # xs) (?own(t := cv_owned (E_count q)))" using assms(5) by simp
qed (use assms cv_other_owned [OF assms(1), of t a] cv_other_outside [OF assms(2), of t] in
      \<open>auto intro!: cv_private_frame [where q = "queue st"] simp: cv_jobs_ok_private\<close>)

lemma cv_jobs_ok_pop:
  assumes "cv_jobs_ok st xs" "cv_threads_ok n m st" "cv_at st t = D_next p" "queue st = Some a" "heap st a = Some j"
  shows "cv_jobs_ok (jump t (D_dec p) (st\<lparr>queue := job_next j\<rparr>)) (tl xs)"
proof -
  have p: "p = Some a" using cv_jobs_ok_private [OF assms(1), of t] assms by simp
  have "cv_private (heap st) (job_next j) (cv_at st u)" if "u \<noteq> t" for u
    using cv_private_queue [OF cv_jobs_ok_private [OF assms(1)]] cv_other_outside [OF assms(2), of t] that
    by (auto simp: assms(3))
  moreover have "shared_heap (heap st) (job_next j) (tl xs) ((\<lambda>u. cv_owned (cv_at st u))(t \<mapsto> a))"
    using shared_pop [OF cv_jobs_ok_shared [OF assms(1)] assms(4,5), of t] assms(3) by simp
  ultimately show ?thesis using p by (intro cv_jobs_ok_jump [OF assms(1)]) simp_all
qed

lemma cv_jobs_ok_free:
  assumes "cv_jobs_ok st xs" "cv_at st t = D_free (Some a)"
  shows "cv_jobs_ok (jump t Left (st\<lparr>heap := (heap st)(a := None)\<rparr>)) xs"
  using assms cv_other_owned [OF assms(1), of t a]
  by (intro cv_jobs_ok_jump [OF assms(1)])
     (auto intro!: shared_free cv_private_frame simp: cv_jobs_ok_shared cv_jobs_ok_private)

lemma cv_jobs_ok_acts:
  assumes "cv_acts t st st'" "cv_jobs_ok st xs" "cv_threads_ok n m st"
  shows "cv_jobs_ok st' (cv_stack_after (cv_at st t) xs)"
  using assms cv_jobs_ok_private [OF assms(2), of t]
proof (induction rule: cv_acts.induct)
  case (e_first st t p)
  then obtain a j where aj: "p = Some a" "heap st a = Some j" "job_next j = None" by auto
  then have "cv_jobs_ok (jump t (E_count p) (st\<lparr>heap := (heap st)(a \<mapsto> j\<lparr>job_next := queue st\<rparr>), queue := p\<rparr>)) (a # xs)"
    using e_first by (intro cv_jobs_ok_push) auto
  moreover have "(heap st)(a \<mapsto> j\<lparr>job_next := queue st\<rparr>) = heap st"
    using aj e_first(2) by (auto simp: fun_upd_idem_iff)
  ultimately show ?case using aj e_first by simp
next
  case (e_push st t a q j)
  then show ?case using cv_jobs_ok_push [of st xs n m t a j "Some a"] by simp
next
  case (e_signal st t p ws)
  then have "cv_jobs_ok (wakes ws st) xs" by (simp only: wakes_ok)
  then show ?case using e_signal by (auto intro!: cv_jobs_ok_same [of "wakes ws st" xs "wakes ws st" _ t])
qed (auto intro: cv_jobs_ok_same cv_jobs_ok_calloc cv_jobs_ok_data cv_jobs_ok_pop cv_jobs_ok_free)

lemma cv_jobs_ok_main:
  assumes "cv_main n m True (cv_main_at st) st = Some (Inr st')" "m < n" "cv_threads_ok n m st" "cv_jobs_ok st xs"
  shows "cv_jobs_ok st' xs"
  using assms(1-3)
proof (cases rule: cv_main_cases)
  case (create c pc)
  then show ?thesis using cv_jobs_ok_same [OF assms(4), of "st\<lparr>cv_main_at := M_create (c + 1)\<rparr>" pc c] by simp
next
  case other
  then show ?thesis using assms(4) by (simp add: cv_jobs_ok_def)
qed

section \<open>The counter\<close>

lemma counted_jump:
  assumes "counted st xs" "cv_threads_ok n m st" "cv_at st' = cv_at st"
    and "\<not> inside_c (cv_at st t) \<and> count_mutex st' = count_mutex st \<and> xs' = xs \<and> queue_count st' = queue_count st
       \<or> count_mutex st = None \<and> count_mutex st' = Some t \<and> count_fits (length xs') (queue_count st') pc
         \<and> xs' = xs \<and> queue_count st' = queue_count st
       \<or> inside_c (cv_at st t) \<and> count_mutex st' = None \<and> length xs' = queue_count st'
       \<or> inside_c (cv_at st t) \<and> count_mutex st' = Some t \<and> count_fits (length xs') (queue_count st') pc"
  shows "counted (jump t pc st') xs'"
proof -
  have "inside_c (cv_at st t) \<longleftrightarrow> count_mutex st = Some t" using assms(2) by (simp add: cv_threads_ok_def)
  then show ?thesis using assms(1,3,4) by (auto simp: counted_def split: option.splits)
qed

lemma counted_fits:
  "counted st xs \<Longrightarrow> cv_threads_ok n m st \<Longrightarrow> inside_c (cv_at st t)
   \<Longrightarrow> count_mutex st = Some t \<and> count_fits (length xs) (queue_count st) (cv_at st t)"
  by (simp add: counted_def cv_threads_ok_def)

lemma counted_free: "counted st xs \<Longrightarrow> count_mutex st = None \<Longrightarrow> length xs = queue_count st"
  by (simp add: counted_def)

lemma counted_acts:
  assumes "cv_acts t st st'" "counted st xs" "cv_threads_ok n m st"
  shows "counted st' (cv_stack_after (cv_at st t) xs)"
  using assms counted_fits [OF assms(2,3), of t] counted_free [OF assms(2)]
proof (induction rule: cv_acts.induct)
  case (e_signal st t p ws)
  have "cv_threads_ok n m (wakes ws st)" "counted (wakes ws st) xs" using e_signal(3,4) by (simp_all only: wakes_ok)
  then show ?case using e_signal by (auto intro!: counted_jump [of "wakes ws st" xs n m])
qed (erule counted_jump; auto)+

lemma counted_main:
  assumes "cv_main n m True (cv_main_at st) st = Some (Inr st')" "m < n" "cv_threads_ok n m st" "counted st xs"
  shows "counted st' xs"
  using assms(1-3)
proof (cases rule: cv_main_cases)
  case (create c pc)
  then show ?thesis
    using counted_jump [OF assms(4,3), of "st\<lparr>cv_main_at := M_create (c + 1)\<rparr>" c xs pc] by simp
next
  case other
  then show ?thesis using assms(4) by (simp add: counted_def split: option.splits)
qed

definition cv_inv :: "nat \<Rightarrow> nat \<Rightarrow> cv_state \<Rightarrow> bool" where
  "cv_inv n m st = (cv_threads_ok n m st \<and> (\<exists>xs. cv_jobs_ok st xs \<and> counted st xs))"

lemma cv_inv_start: "cv_inv n m cv_initial"
proof -
  have "cv_jobs_ok cv_initial []" "counted cv_initial []"
    by (simp_all add: cv_jobs_ok_def cv_initial_def shared_heap_def counted_def)
  then show ?thesis by (auto simp: cv_inv_def cv_threads_ok_def cv_initial_def cv_fits_def)
qed

text \<open>A granted step is a step of \<^verbatim>\<open>main\<close> or one of the relation.\<close>

lemma cv_step_cases:
  assumes "cv_step n m e st = Some (Inr st')" "cv_granted e" "cv_inv n m st"
  obtains (main) "cv_main n m True (cv_main_at st) st = Some (Inr st')" | (thread) t where "cv_acts t st st'" "cv_at st t = D_blocked \<Longrightarrow> e = Spurious t"
proof (cases e)
  case (Thread_step t al ws)
  then obtain a where a: "al = Some a" using assms(2) by auto
  obtain xs where "cv_jobs_ok st xs" using assms(3) by (auto simp: cv_inv_def)
  from cv_jobs_ok_private [OF this, of t] have "cv_at st t \<noteq> E_data None" by auto
  moreover have "cv_at st t \<noteq> D_blocked" using assms(1) Thread_step by (auto split: if_splits)
  ultimately show thesis using assms(1) Thread_step thread [of t] cv_dequeue_acts [of t st st'] cv_enqueue_acts [of a ws t st st']
    unfolding a by (auto split: if_splits)
qed (use assms main thread in \<open>auto split: if_splits intro: woken_spuriously\<close>)

lemma cv_inv_acts: "cv_acts t st st' \<Longrightarrow> cv_inv n m st \<Longrightarrow> cv_inv n m st'"
  using cv_threads_ok_acts cv_jobs_ok_acts counted_acts unfolding cv_inv_def by blast

lemma cv_inv_main:
  "cv_main n m True (cv_main_at st) st = Some (Inr st') \<Longrightarrow> m < n \<Longrightarrow> cv_inv n m st \<Longrightarrow> cv_inv n m st'"
  using cv_threads_ok_main cv_jobs_ok_main counted_main unfolding cv_inv_def by blast

lemma cv_inv_step:
  assumes "cv_step n m e st = Some (Inr st')" "cv_granted e" "cv_inv n m st" "m < n"
  shows "cv_inv n m st'"
  using cv_step_cases [OF assms(1-3)] cv_inv_acts cv_inv_main assms(3,4) by metis

lemma cv_reach_inv: "cv_reach n m st \<Longrightarrow> m < n \<Longrightarrow> cv_inv n m st"
  by (induction rule: cv_reach.induct) (auto intro: cv_inv_start cv_inv_step)

lemma cv_run_reach:
  "cv_reach n m st \<Longrightarrow> list_all cv_granted es \<Longrightarrow> cv_run n m es st = Some (Inr st') \<Longrightarrow> cv_reach n m st'"
  by (induction n m es st rule: cv_run.induct) (auto split: option.splits sum.splits intro: cv_reach.step)

lemma cv_run_crash:
  "cv_reach n m st \<Longrightarrow> list_all cv_granted es \<Longrightarrow> cv_run n m es st = Some (Inl c)
   \<Longrightarrow> \<exists>st' e. cv_reach n m st' \<and> cv_granted e \<and> cv_step n m e st' = Some (Inl c)"
  by (induction n m es st rule: cv_run.induct) (auto split: option.splits sum.splits intro: cv_reach.step)

section \<open>What can go wrong\<close>

lemma cv_owned_in_heap:
  "cv_jobs_ok st xs \<Longrightarrow> cv_owned (cv_at st t) = Some a \<Longrightarrow> \<exists>j. heap st a = Some j"
  using ranI [of "\<lambda>t. cv_owned (cv_at st t)" t a] domD [of a "heap st"] by (auto simp: cv_jobs_ok_def shared_heap_def)

lemma cv_stack_in_heap: "cv_jobs_ok st xs \<Longrightarrow> xs \<noteq> [] \<Longrightarrow> \<exists>a j. queue st = Some a \<and> heap st a = Some j"
  by (cases xs) (auto simp: cv_jobs_ok_def shared_heap_def)

lemma cv_dequeue_crash:
  assumes "cv_threads_ok n m st" "cv_jobs_ok st xs" "counted st xs"
    "cv_dequeue t (cv_at st t) st = Some (Inl c)"
  shows "c = Null_read 94"
  using cv_jobs_ok_private [OF assms(2), of t] cv_owned_in_heap [OF assms(2), of t]
    counted_fits [OF assms(3,1), of t] cv_stack_in_heap [OF assms(2)] assms(4)
  by (cases "cv_at st t"; cases xs) (auto simp: cv_lock_defs split: option.splits if_splits sum.splits elim!: read_job.elims)

lemma cv_enqueue_crash:
  assumes "cv_jobs_ok st xs" "cv_enqueue al ws t (cv_at st t) st = Some (Inl c)"
  shows "c = Freed_read 61"
  using cv_jobs_ok_private [OF assms(1), of t] cv_owned_in_heap [OF assms(1), of t] assms(2)
  by (cases "cv_at st t"; cases al)
     (auto simp: cv_lock_defs new_cell_def fill_cell_def link_cell_def split: option.splits if_splits)

lemma cv_main_no_crash:
  assumes "cv_threads_ok n m st" "m < n" "n \<le> MAX_THREADS"
  shows "cv_main n m True (cv_main_at st) st \<noteq> Some (Inl c)"
  using assms by (cases "cv_main_at st") (auto simp: cv_threads_ok_def create_thread_def split: cv_thread.splits)

lemma cv_step_crash:
  assumes "cv_step n m e st = Some (Inl c)" "cv_granted e" "cv_inv n m st" "m < n" "n \<le> MAX_THREADS"
  shows "c = Freed_read 61 \<or> c = Null_read 94"
proof -
  obtain xs where inv: "cv_threads_ok n m st" "cv_jobs_ok st xs" "counted st xs"
    using assms(3) by (auto simp: cv_inv_def)
  then show ?thesis
    using assms cv_dequeue_crash [OF inv] cv_enqueue_crash [OF inv(2)] cv_main_no_crash [OF inv(1)]
    by (cases e) (auto split: if_splits)
qed

section \<open>The number of threads\<close>

lemma word_400: "(w :: u32) > 400 \<longleftrightarrow> unat w > 400"
  by (simp add: word_less_nat_alt)

lemma cv_options_bound: "cv_options opts k = Inr w \<Longrightarrow> unat k \<le> 400 \<Longrightarrow> unat w \<le> 400"
  by (induction opts k rule: cv_options.induct)
     (auto simp: word_400 split: if_splits sum.splits)

lemma init_thr_count_some:
  assumes "init_thr_count w r = Inr m" "w \<noteq> 0"
  shows "1 < unat w \<and> 0 < unat m \<and> unat m < unat w"
proof -
  let ?k = "word_of_int r mod (w - 1)"
  have m: "w - 1 \<noteq> 0" "m = ?k + 1" using assms(1) by (auto simp: init_thr_count_def split: if_splits)
  have w: "unat (w - 1) = unat w - 1" using assms(2) by (simp add: unat_minus_one)
  moreover have "unat (w - 1) \<noteq> 0" using m(1) by (simp add: unat_eq_0)
  ultimately have less: "unat ?k < unat w - 1" by (simp add: unat_mod_distrib)
  moreover have "unat w < 2 ^ 32" using unsigned_less [of w] by simp
  ultimately have "unat (?k + 1) = unat ?k + 1" by (subst unat_word_ariths) simp
  then have "unat m = unat ?k + 1" using m(2) by simp
  then show ?thesis using less by linarith
qed

lemma init_thr_count_none:
  assumes "0 \<le> r" "r < 2 ^ 31"
  shows "\<exists>m. init_thr_count 0 r = Inr m \<and> unat m = nat r + 1"
proof -
  have "uint (word_of_int r :: u32) = r"
    using assms unfolding uint_word_of_int by (intro mod_pos_pos_trivial) simp_all
  then have r: "unat (word_of_int r :: u32) = nat r" by (simp only: unat_eq_nat_uint)
  have "unat (- 1 :: u32) = 4294967295" by (simp add: unsigned_minus_1_eq_mask mask_eq_exp_minus_1)
  then have "unat (word_of_int r mod (- 1) :: u32) = nat r"
    using assms unfolding unat_mod_distrib r by (intro mod_less) (simp add: nat_less_iff)
  then have "unat (word_of_int r mod (- 1) + 1 :: u32) = nat r + 1"
    using assms by (subst unat_word_ariths) simp
  then show ?thesis by (simp add: init_thr_count_def)
qed

lemma one_thread_divides: "init_thr_count 1 r = Inl Division_by_zero"
  by (simp add: init_thr_count_def)

text \<open>What the command line and the random number make of the thread counts.\<close>

lemma cv_counts_some:
  assumes "cv_counts opts r = Inr (n, m)" "n \<noteq> 0"
  shows "1 < n \<and> n \<le> MAX_THREADS \<and> 0 < m \<and> m < n"
proof -
  obtain w v where w: "cv_options opts 0 = Inr w" "init_thr_count w r = Inr v" "n = unat w" "m = unat v"
    using assms(1) by (auto simp: cv_counts_def split: sum.splits)
  then have "w \<noteq> 0" using assms(2) by auto
  then show ?thesis using w init_thr_count_some [OF w(2)] cv_options_bound [OF w(1)] by (simp add: MAX_THREADS_def)
qed

section \<open>Overrun\<close>

lemma create_all:
  assumes "cv_main_at st = M_create c" "c + k = MAX_THREADS" "MAX_THREADS < m"
  shows "cv_run n m (replicate (Suc k) (Main_step True)) st = Some (Inl (Out_of_array 140))"
  using assms
proof (induction k arbitrary: st c)
  case 0
  then show ?case by (simp add: create_thread_def)
next
  case (Suc k)
  then show ?case using Suc.IH [of "jump c D_lockc (st\<lparr>cv_main_at := M_create (c + 1)\<rparr>)" "c + 1"]
    by (simp add: create_thread_def)
qed

section \<open>Results\<close>

text \<open>A dequeuer waits and is woken when a job is put on the stack; both dequeuers see the counter at one and leave the wait loop; the
  first takes the job and the second finds none.\<close>

definition one_job_two_takers :: "cv_event list" where
  "one_job_two_takers = replicate 5 (Main_step True) @ replicate 2 (Thread_step 0 (Some 7) [])
     @ replicate 10 (Thread_step 2 (Some 7) [0])
     @ replicate 3 (Thread_step 0 (Some 7) []) @ replicate 3 (Thread_step 1 (Some 7) [])
     @ replicate 9 (Thread_step 0 (Some 7) []) @ replicate 6 (Thread_step 1 (Some 7) [])"

fun cv_crashed :: "cv_result \<Rightarrow> cv_crash option" where
  "cv_crashed (Some (Inl c)) = Some c"
| "cv_crashed r = None"

lemma cv_crashed_Some: "cv_crashed r = Some c \<longleftrightarrow> r = Some (Inl c)"
  by (cases r rule: cv_crashed.cases) auto

lemma one_job_two_takers_crashes: "cv_run 3 2 one_job_two_takers cv_initial = Some (Inl (Null_read 94))"
  unfolding cv_crashed_Some [symmetric] by code_simp

text \<open>The thread counts of \<^verbatim>\<open>prog_condV -t 3\<close> when \<^verbatim>\<open>rand\<close> gives an odd number.\<close>

lemma counts_three: "cv_counts [(CHR ''t'', ''3'')] 1 = Inr (3, 2)"
  by (simp add: cv_counts_def atoi_def decimal_def is_space_def is_digit_def init_thr_count_def)



text \<open>Without the option \<^verbatim>\<open>-t\<close> the number of dequeuing threads is one more than the random
  number, and unless that is at most 400 the program writes past its two arrays of 400 threads.\<close>

theorem cond_without_option_overruns:
  assumes "400 \<le> r" "r < 2 ^ 31"
  shows "cv_counts [] r = Inr (0, nat r + 1)
     \<and> cv_run 0 (nat r + 1) (replicate 402 (Main_step True)) cv_initial = Some (Inl (Out_of_array 140))"
proof -
  obtain m where m: "init_thr_count 0 r = Inr m" "unat m = nat r + 1" using init_thr_count_none [of r] assms by auto
  let ?st = "cv_initial\<lparr>cv_main_at := M_create 0\<rparr>"
  have "cv_run 0 (nat r + 1) (replicate (Suc 400) (Main_step True)) ?st = Some (Inl (Out_of_array 140))"
    by (rule create_all) (use assms in \<open>auto simp: MAX_THREADS_def\<close>)
  moreover have "replicate 402 (Main_step True) = Main_step True # replicate (Suc 400) (Main_step True)"
    by (simp flip: replicate_Suc)
  ultimately show ?thesis using m by (simp add: cv_counts_def cv_initial_def)
qed

lemma cond_without_option_overruns_witness:
  "cv_run 0 1804289384 (replicate 402 (Main_step True)) cv_initial = Some (Inl (Out_of_array 140))"
  using cond_without_option_overruns [of 1804289383] by simp

end
