(* ===== verification/Prog_Cond_Live.thy ===== *)
theory Prog_Cond_Live
  imports Prog_Cond
begin

text \<open>
  Progress of \<^verbatim>\<open>prog_condV.c\<close>.  No wake-up is lost: while a thread is blocked on the condition
  variable, every job that is counted has a thread on its way to it, or a signal that is still to be
  given.  So a run stops before \<^verbatim>\<open>main\<close> returns only when there are more dequeuing than enqueuing
  threads; apart from spurious wake-ups the length of every run is bounded.
\<close>

section \<open>Threads\<close>

lemma thread_sum_wakes:
  "(\<And>u. f u D_woken = f u D_blocked) \<Longrightarrow> thread_sum n f (cv_at (wakes ws st)) = thread_sum n f (cv_at st)"
  unfolding thread_sum_def by (intro sum.cong) auto

lemma acts_bound:
  assumes "cv_acts t st st'" "cv_threads_ok n m st"
  shows "t < n \<and> cv_fits n m t (cv_at st t)"
proof -
  have "cv_at st t \<noteq> Not_created" using assms(1) by cases auto
  then show ?thesis using assms(2) by (auto simp: cv_threads_ok_def cv_fits_def)
qed

section \<open>No wake-up is lost\<close>

text \<open>On the way to a counted job, or about to signal it.\<close>

fun heading :: "cv_thread \<Rightarrow> nat" where
  "heading D_woken = 1"
| "heading D_test = 1"
| "heading D_unlockc = 1"
| "heading D_lockq = 1"
| "heading D_lockc2 = 1"
| "heading D_if = 1"
| "heading (D_next p) = 1"
| "heading (D_dec p) = 1"
| "heading (E_signal p) = 1"
| "heading pc = 0"

definition no_lost_wakeup :: "nat \<Rightarrow> cv_state \<Rightarrow> bool" where
  "no_lost_wakeup n st =
     ((\<exists>t. cv_at st t = D_blocked) \<longrightarrow> queue_count st \<le> thread_sum n (\<lambda>_. heading) (cv_at st))"

lemma no_lost_wakeup_jump:
  assumes "no_lost_wakeup n st" "t < n" "cv_at st' = cv_at st" "pc \<noteq> D_blocked"
    "queue_count st' + heading (cv_at st t) \<le> queue_count st + heading pc"
  shows "no_lost_wakeup n (jump t pc st')"
  using assms thread_sum_upd [OF assms(2), of "\<lambda>_. heading" "cv_at st" pc]
  by (fastforce simp: no_lost_wakeup_def split: if_splits)

lemma no_lost_wakeup_empty: "queue_count st = 0 \<Longrightarrow> no_lost_wakeup n st"
  by (simp add: no_lost_wakeup_def)

lemma wakes_one:
  assumes "wakes_enough ws st" "cv_at st v = D_blocked" "v < n" "n \<le> MAX_THREADS" "\<forall>u. cv_at st u = D_blocked \<longrightarrow> u < n"
  shows "thread_sum n (\<lambda>_. heading) (cv_at st) < thread_sum n (\<lambda>_. heading) (cv_at (wakes ws st))"
proof -
  obtain u where u: "u \<in> set ws" "cv_at st u = D_blocked"
    using assms by (fastforce simp: wakes_enough_def list_ex_iff split: if_splits)
  then show ?thesis unfolding thread_sum_def using assms(5)
    by (intro sum_strict_mono_ex1) (auto intro!: bexI [of _ u])
qed

lemma no_lost_wakeup_signal:
  assumes "no_lost_wakeup n st" "cv_at st t = E_signal p" "wakes_enough ws st" "cv_threads_ok n m st" "n \<le> MAX_THREADS"
  shows "no_lost_wakeup n (jump t (E_unlockc p) (wakes ws st))"
  unfolding no_lost_wakeup_def
proof (rule impI)
  assume "\<exists>v. cv_at (jump t (E_unlockc p) (wakes ws st)) v = D_blocked"
  then obtain v where v: "cv_at st v = D_blocked" by (auto split: if_splits)
  have bound: "\<forall>u. cv_at st u \<noteq> Not_created \<longrightarrow> u < n" using assms(4) by (auto simp: cv_threads_ok_def cv_fits_def)
  then have "t < n" "v < n" "\<forall>u. cv_at st u = D_blocked \<longrightarrow> u < n" using assms(2) v by auto
  with wakes_one [OF assms(3) v _ assms(5)] thread_sum_upd [of t n "\<lambda>_. heading" "cv_at (wakes ws st)" "E_unlockc p"]
  have "thread_sum n (\<lambda>_. heading) (cv_at st) \<le> thread_sum n (\<lambda>_. heading) (cv_at (jump t (E_unlockc p) (wakes ws st)))"
    using assms(2) by simp
  then show "queue_count (jump t (E_unlockc p) (wakes ws st))
      \<le> thread_sum n (\<lambda>_. heading) (cv_at (jump t (E_unlockc p) (wakes ws st)))"
    using assms(1) v by (auto simp: no_lost_wakeup_def)
qed

lemma no_lost_wakeup_acts:
  assumes "cv_acts t st st'" "no_lost_wakeup n st" "cv_threads_ok n m st" "counted st xs" "n \<le> MAX_THREADS"
  shows "no_lost_wakeup n st'"
proof -
  have "t < n" using acts_bound [OF assms(1,3)] by simp
  with assms counted_fits [OF assms(4,3), of t] show ?thesis
  proof (induction rule: cv_acts.induct)
    case e_signal
    then show ?case by (intro no_lost_wakeup_signal)
  next
    case d_wait
    then show ?case by (intro no_lost_wakeup_empty) simp
  next
    case d_skip
    then show ?case by (intro no_lost_wakeup_empty) simp
  qed (auto intro!: no_lost_wakeup_jump)
qed

section \<open>Jobs made and jobs taken\<close>

fun consumed_at :: "cv_thread \<Rightarrow> bool" where
  "consumed_at (D_unlockc2 p) = (p \<noteq> None)"
| "consumed_at (D_unlockq p) = (p \<noteq> None)"
| "consumed_at (D_print p) = (p \<noteq> None)"
| "consumed_at (D_free p) = True"
| "consumed_at Left = True"
| "consumed_at pc = False"

fun produced_at :: "cv_thread \<Rightarrow> bool" where
  "produced_at (E_signal p) = True"
| "produced_at (E_unlockc p) = True"
| "produced_at (E_unlockq p) = True"
| "produced_at (E_print p) = True"
| "produced_at Left = True"
| "produced_at pc = False"

definition consumed :: "nat \<Rightarrow> nat \<Rightarrow> cv_thread \<Rightarrow> nat" where
  "consumed m t pc = (if t < m \<and> consumed_at pc then 1 else 0)"

definition produced :: "nat \<Rightarrow> nat \<Rightarrow> cv_thread \<Rightarrow> nat" where
  "produced m t pc = (if \<not> t < m \<and> produced_at pc then 1 else 0)"

definition jobs_flow :: "nat \<Rightarrow> nat \<Rightarrow> cv_state \<Rightarrow> bool" where
  "jobs_flow n m st =
     (queue_count st + thread_sum n (consumed m) (cv_at st) = thread_sum n (produced m) (cv_at st))"

lemma jobs_flow_jump:
  assumes "jobs_flow n m st" "t < n" "cv_at st' = cv_at st"
    "queue_count st' + consumed m t pc + produced m t (cv_at st t)
       = queue_count st + consumed m t (cv_at st t) + produced m t pc"
  shows "jobs_flow n m (jump t pc st')"
  using assms thread_sum_upd [OF assms(2), of "consumed m" "cv_at st" pc]
    thread_sum_upd [OF assms(2), of "produced m" "cv_at st" pc]
  by (simp add: jobs_flow_def)

lemma jobs_flow_wakes: "jobs_flow n m (wakes ws st) = jobs_flow n m st"
  by (simp add: jobs_flow_def thread_sum_wakes consumed_def produced_def)

lemma jobs_flow_acts:
  assumes "cv_acts t st st'" "jobs_flow n m st" "cv_threads_ok n m st" "counted st xs" "cv_jobs_ok st xs"
  shows "jobs_flow n m st'"
proof -
  have "t < n \<and> cv_fits n m t (cv_at st t)" using acts_bound [OF assms(1,3)] .
  with assms counted_fits [OF assms(4,3), of t] cv_jobs_ok_private [OF assms(5), of t] show ?thesis
  proof (induction rule: cv_acts.induct)
    case (e_signal st t p ws)
    then have "jobs_flow n m (wakes ws st)" by (simp only: jobs_flow_wakes)
    then show ?case by (rule jobs_flow_jump) (use e_signal in \<open>auto simp: consumed_def produced_def\<close>)
  qed (erule jobs_flow_jump; auto simp: consumed_def produced_def cv_fits_def)+
qed

section \<open>All of it together\<close>

definition cv_joined :: "nat \<Rightarrow> cv_state \<Rightarrow> bool" where
  "cv_joined n st = (case cv_main_at st of
      M_join i \<Rightarrow> (\<forall>t<i. cv_at st t = Left) \<and> i \<le> n
    | M_done \<Rightarrow> (\<forall>t<n. cv_at st t = Left)
    | _ \<Rightarrow> True)"

lemma cv_joined_acts: "cv_acts t st st' \<Longrightarrow> cv_joined n st \<Longrightarrow> cv_joined n st'"
  by (induction rule: cv_acts.induct) (auto simp: cv_joined_def split: main_point.splits)

lemma cv_joined_main:
  "cv_main n m True (cv_main_at st) st = Some (Inr st') \<Longrightarrow> cv_joined n st \<Longrightarrow> cv_joined n st'"
  by (cases "cv_main_at st")
     (auto simp: cv_joined_def create_thread_def less_Suc_eq split: if_splits cv_thread.splits)

definition cv_live :: "nat \<Rightarrow> nat \<Rightarrow> cv_state \<Rightarrow> bool" where
  "cv_live n m st = (cv_inv n m st \<and> cv_joined n st \<and> no_lost_wakeup n st \<and> jobs_flow n m st)"

lemma cv_live_start: "cv_live n m cv_initial"
proof -
  have "no_lost_wakeup n cv_initial" "jobs_flow n m cv_initial"
    by (simp_all add: no_lost_wakeup_def jobs_flow_def cv_initial_def thread_sum_def consumed_def produced_def)
  then show ?thesis using cv_inv_start by (simp add: cv_live_def cv_joined_def cv_initial_def)
qed

lemma cv_live_acts:
  assumes "cv_acts t st st'" "cv_live n m st" "n \<le> MAX_THREADS"
  shows "cv_live n m st'"
proof -
  obtain xs where xs: "cv_threads_ok n m st" "cv_jobs_ok st xs" "counted st xs"
    using assms(2) by (auto simp: cv_live_def cv_inv_def)
  then show ?thesis
    using assms cv_inv_acts cv_joined_acts no_lost_wakeup_acts [OF assms(1) _ xs(1,3) assms(3)]
      jobs_flow_acts [OF assms(1) _ xs(1,3,2)] by (auto simp: cv_live_def)
qed

lemma cv_live_main:
  assumes "cv_main n m True (cv_main_at st) st = Some (Inr st')" "cv_live n m st" "m < n"
  shows "cv_live n m st'"
proof -
  have inv: "cv_inv n m st" "cv_threads_ok n m st" using assms(2) by (auto simp: cv_live_def cv_inv_def)
  have "no_lost_wakeup n st' \<and> jobs_flow n m st'"
    using assms(1,3) inv(2)
  proof (cases rule: cv_main_cases)
    case (create c pc)
    then show ?thesis using assms(2) unfolding create(4)
      by (auto intro!: no_lost_wakeup_jump jobs_flow_jump simp: cv_live_def consumed_def produced_def)
  next
    case other
    then show ?thesis using assms(2) by (simp add: cv_live_def no_lost_wakeup_def jobs_flow_def)
  qed
  then show ?thesis using assms cv_inv_main cv_joined_main inv(1) by (auto simp: cv_live_def)
qed

lemma cv_live_step:
  assumes "cv_step n m e st = Some (Inr st')" "cv_granted e" "cv_live n m st" "m < n" "n \<le> MAX_THREADS"
  shows "cv_live n m st'"
proof -
  have "cv_inv n m st" using assms(3) by (simp add: cv_live_def)
  with assms(1,2) show ?thesis by (cases rule: cv_step_cases) (use assms cv_live_acts cv_live_main in blast)+
qed

lemma cv_reach_live: "cv_reach n m st \<Longrightarrow> m < n \<Longrightarrow> n \<le> MAX_THREADS \<Longrightarrow> cv_live n m st"
  by (induction rule: cv_reach.induct) (auto intro: cv_live_start cv_live_step)

section \<open>Where a run can stop\<close>

text \<open>Whoever holds the mutex of the counter can go on, and so can whoever else is not waiting.\<close>

definition moves :: "nat \<Rightarrow> nat \<Rightarrow> cv_state \<Rightarrow> bool" where
  "moves m t st = (\<exists>a ws. cv_thread_step m (Some a) ws t st \<noteq> None)"

text \<open>The two reports that fail, and a step without a failure.\<close>

definition faulty_report :: "nat \<Rightarrow> nat \<Rightarrow> cv_state \<Rightarrow> bool" where
  "faulty_report m t st =
     (if t < m then cv_at st t = D_print None
      else (case cv_at st t of E_print (Some a) \<Rightarrow> heap st a = None | _ \<Rightarrow> False))"

definition goes_on :: "nat \<Rightarrow> nat \<Rightarrow> cv_state \<Rightarrow> bool" where
  "goes_on m t st = (\<exists>a ws st'. cv_thread_step m (Some a) ws t st = Some (Inr st'))"

lemma crash_faulty:
  assumes "cv_threads_ok n m st" "cv_jobs_ok st xs" "counted st xs" "cv_thread_step m (Some a) ws t st = Some (Inl c)"
  shows "faulty_report m t st"
proof (cases "t < m")
  case True
  then have "cv_dequeue t (cv_at st t) st = Some (Inl c)" using assms(4) by simp
  then have "cv_at st t = D_print None"
    using cv_jobs_ok_private [OF assms(2), of t] cv_owned_in_heap [OF assms(2), of t]
      counted_fits [OF assms(3,1), of t] cv_stack_in_heap [OF assms(2)]
    by (cases "cv_at st t"; cases xs) (auto simp: cv_lock_defs split: option.splits if_splits sum.splits elim!: read_job.elims)
  then show ?thesis using True by (simp add: faulty_report_def)
next
  case False
  then have "cv_enqueue (Some a) ws t (cv_at st t) st = Some (Inl c)" using assms(4) by simp
  then have "\<exists>a. cv_at st t = E_print (Some a) \<and> heap st a = None"
    using cv_jobs_ok_private [OF assms(2), of t] cv_owned_in_heap [OF assms(2), of t]
    by (cases "cv_at st t")
       (auto simp: cv_lock_defs new_cell_def fill_cell_def link_cell_def split: option.splits if_splits)
  then show ?thesis using False by (auto simp: faulty_report_def)
qed

lemma moves_goes_on:
  assumes "cv_threads_ok n m st" "cv_jobs_ok st xs" "counted st xs" "moves m t st" "\<not> faulty_report m t st"
  shows "goes_on m t st"
proof -
  obtain a ws r where "cv_thread_step m (Some a) ws t st = Some r" using assms(4) by (auto simp: moves_def)
  then show ?thesis using crash_faulty [OF assms(1-3)] assms(5)
    by (cases r) (auto simp: goes_on_def simp del: cv_thread_step.simps)
qed

lemma cv_fresh_address:
  assumes "cv_threads_ok n m st" "cv_jobs_ok st xs"
  shows "\<exists>a. heap st a = None"
proof -
  let ?own = "\<lambda>t. cv_owned (cv_at st t)"
  have "ran ?own \<subseteq> (\<lambda>t. the (?own t)) ` {..<n}"
  proof
    fix a assume "a \<in> ran ?own"
    then obtain t where t: "?own t = Some a" by (auto simp: ran_def)
    then have "cv_at st t \<noteq> Not_created" by auto
    then have "t < n" using assms(1) by (auto simp: cv_threads_ok_def cv_fits_def)
    with t show "a \<in> (\<lambda>t. the (?own t)) ` {..<n}" by (intro image_eqI [of _ _ t]) auto
  qed
  then have "finite (ran ?own)" by (rule finite_subset) simp
  then have "finite (dom (heap st))" using assms(2) by (simp add: cv_jobs_ok_def shared_heap_def)
  then show ?thesis using ex_new_if_finite [of "dom (heap st)"] infinite_UNIV_nat by auto
qed

lemma wakes_all: "wakes_enough [0..<MAX_THREADS] st"
  by (auto simp: wakes_enough_def)

lemma dequeuer_moves:
  assumes "t < m" "\<not> of_enqueuer (cv_at st t)" "cv_at st t \<notin> {Not_created, Left, D_blocked}"
    "inside_c (cv_at st t) \<or> count_mutex st = None"
    "inside_c (cv_at st t) \<or> inside_q (cv_at st t) \<or> queue_mutex st = None"
  shows "moves m t st"
  using assms by (cases "cv_at st t") (auto simp: moves_def cv_lock_defs split: sum.splits option.splits)

lemma enqueuer_moves:
  assumes "\<not> t < m" "of_enqueuer (cv_at st t)" "heap st a = None"
    "inside_c (cv_at st t) \<or> count_mutex st = None"
    "inside_c (cv_at st t) \<or> inside_q (cv_at st t) \<or> queue_mutex st = None"
  shows "moves m t st"
proof -
  have "cv_thread_step m (Some a) [0..<MAX_THREADS] t st \<noteq> None"
    using assms
    by (cases "cv_at st t")
       (auto simp: cv_lock_defs new_cell_def fill_cell_def link_cell_def wakes_all split: sum.splits option.splits)
  then show ?thesis unfolding moves_def by blast
qed

lemma thread_moves:
  assumes "cv_threads_ok n m st" "cv_jobs_ok st xs" "cv_at st t \<notin> {Not_created, Left, D_blocked}"
    "inside_c (cv_at st t) \<or> count_mutex st = None"
    "inside_c (cv_at st t) \<or> inside_q (cv_at st t) \<or> queue_mutex st = None"
  shows "moves m t st"
proof -
  obtain a where a: "heap st a = None" using cv_fresh_address [OF assms(1,2)] by blast
  have "of_enqueuer (cv_at st t) \<longleftrightarrow> m \<le> t"
    using assms(1,3) by (auto simp: cv_threads_ok_def cv_fits_def)
  then show ?thesis using dequeuer_moves [OF _ _ assms(3-5)] enqueuer_moves [OF _ _ a assms(4,5)] by auto
qed

lemma inside_not_waiting:
  "inside_c (cv_at st t) \<or> inside_q (cv_at st t) \<Longrightarrow> cv_at st t \<notin> {Not_created, Left, D_blocked} \<and> \<not> faulty_report m t st"
  by (cases "cv_at st t") (auto simp: faulty_report_def)

lemma all_waiting:
  assumes "cv_threads_ok n m st" "cv_jobs_ok st xs" "counted st xs" "\<forall>t. \<not> goes_on m t st"
  shows "cv_at st t \<in> {Not_created, Left, D_blocked} \<or> faulty_report m t st"
proof -
  have moves: "cv_at st t \<in> {Not_created, Left, D_blocked} \<or> faulty_report m t st"
    if "inside_c (cv_at st t) \<or> count_mutex st = None" "inside_c (cv_at st t) \<or> inside_q (cv_at st t) \<or> queue_mutex st = None" for t
    using thread_moves [OF assms(1,2) _ that] moves_goes_on [OF assms(1-3), of t] assms(4) by blast
  have count: "count_mutex st = None"
  proof (rule ccontr)
    assume "count_mutex st \<noteq> None"
    then obtain u where "inside_c (cv_at st u)" using assms(1) by (auto simp: cv_threads_ok_def)
    then show False using moves [of u] inside_not_waiting [of st u m] by blast
  qed
  have "queue_mutex st = None"
  proof (rule ccontr)
    assume "queue_mutex st \<noteq> None"
    then obtain u where "inside_q (cv_at st u)" using assms(1) by (auto simp: cv_threads_ok_def)
    then show False using moves [of u] inside_not_waiting [of st u m] count by blast
  qed
  then show ?thesis using moves [of t] count by blast
qed

text \<open>Nobody can move: all enqueuers are done, all jobs are gone, and the dequeuers that are left wait.\<close>

definition waits_forever :: "nat \<Rightarrow> nat \<Rightarrow> cv_state \<Rightarrow> bool" where
  "waits_forever n m st = (queue_count st = 0 \<and> queue st = None
     \<and> (\<forall>t<n. cv_at st t = Left \<or> t < m \<and> cv_at st t = D_blocked)
     \<and> card {t. cv_at st t = D_blocked} = m - (n - m))"

lemma blocked_dequeuer: "cv_threads_ok n m st \<Longrightarrow> cv_at st t = D_blocked \<Longrightarrow> t < m"
  unfolding cv_threads_ok_def cv_fits_def by (drule conjunct1, drule spec [of _ t]) simp

lemma waiting_counts:
  assumes "jobs_flow n m st" "queue_count st = 0" "m < n" "cv_threads_ok n m st"
    "\<forall>t<n. cv_at st t = Left \<or> cv_at st t = D_blocked"
  shows "card {t. cv_at st t = D_blocked} + (n - m) = m"
proof -
  note blocked = blocked_dequeuer [OF assms(4)]
  have split: "{t. t < m \<and> cv_at st t \<noteq> D_blocked} \<union> {t. cv_at st t = D_blocked} = {..<m}"
    using blocked by auto
  have "thread_sum n (produced m) (cv_at st) = (\<Sum>t<n. if \<not> t < m then 1 else 0)"
    unfolding thread_sum_def by (intro sum.cong) (use assms(5) blocked in \<open>auto simp: produced_def\<close>)
  also have "\<dots> = card {m..<n}" unfolding sum_if_card by (intro arg_cong [of _ _ card]) auto
  finally have "thread_sum n (produced m) (cv_at st) = n - m" by simp
  moreover have "thread_sum n (consumed m) (cv_at st) = (\<Sum>t<n. if t < m \<and> cv_at st t \<noteq> D_blocked then 1 else 0)"
    unfolding thread_sum_def by (intro sum.cong) (use assms(5) in \<open>auto simp: consumed_def\<close>)
  then have "thread_sum n (consumed m) (cv_at st) = card {t. t < m \<and> cv_at st t \<noteq> D_blocked}"
    unfolding sum_if_card using assms(3) by (simp add: conj_commute conj_left_commute order_less_trans cong: conj_cong)
  moreover have "card {t. t < m \<and> cv_at st t \<noteq> D_blocked} + card {t. cv_at st t = D_blocked} = card {..<m}"
    unfolding split [symmetric] by (rule card_Un_disjoint [symmetric]) (use blocked in \<open>auto intro: finite_subset [of _ "{..<m}"]\<close>)
  ultimately show ?thesis using assms(1,2) by (simp add: jobs_flow_def)
qed

lemma waiting_empty:
  assumes "cv_inv n m st" "no_lost_wakeup n st" "\<forall>t. cv_at st t \<in> {Not_created, Left, D_blocked}" "cv_at st u = D_blocked"
  shows "queue_count st = 0 \<and> queue st = None"
proof -
  obtain xs where xs: "cv_threads_ok n m st" "cv_jobs_ok st xs" "counted st xs"
    using assms(1) by (auto simp: cv_inv_def)
  have "heading (cv_at st t) = 0" for t using assms(3) [rule_format, of t] by auto
  then have "thread_sum n (\<lambda>_. heading) (cv_at st) = 0" by (simp add: thread_sum_def)
  then have zero: "queue_count st = 0" using assms(2,4) by (auto simp: no_lost_wakeup_def)
  have "\<not> inside_c (cv_at st t)" for t using assms(3) [rule_format, of t] by auto
  then have "count_mutex st = None" using xs(1) unfolding cv_threads_ok_def by (metis option.exhaust)
  then have "xs = []" using counted_free [OF xs(3)] zero by simp
  then show ?thesis using xs(2) zero by (simp add: cv_jobs_ok_def shared_heap_def)
qed

fun spurious :: "cv_event \<Rightarrow> bool" where
  "spurious (Spurious t) = True"
| "spurious e = False"

lemma stopped_main:
  assumes "cv_main n m True (cv_main_at st) st = None" "cv_main_at st \<noteq> M_done"
  shows "\<exists>i<n. cv_main_at st = M_join i \<and> cv_at st i \<noteq> Left \<and> cv_at st i \<noteq> Not_created"
  using assms by (cases "cv_main_at st") (auto simp: create_thread_def split: if_splits cv_thread.splits)

text \<open>Nobody can go on without a fault: everybody has ended, is blocked, or is about to make a faulty report.\<close>

definition only_faults_left :: "nat \<Rightarrow> nat \<Rightarrow> cv_state \<Rightarrow> bool" where
  "only_faults_left n m st =
     ((\<exists>t<n. faulty_report m t st) \<and>
      (\<forall>t<n. cv_at st t = Left \<or> t < m \<and> cv_at st t = D_blocked \<or> faulty_report m t st))"

lemma stopped_waits:
  assumes "cv_live n m st" "m < n" "cv_main_at st \<noteq> M_done"
    "\<forall>e st'. cv_granted e \<and> \<not> spurious e \<longrightarrow> cv_step n m e st \<noteq> Some (Inr st')" "n \<le> MAX_THREADS"
  shows "only_faults_left n m st \<or> waits_forever n m st \<and> n - m < m"
proof -
  obtain xs where xs: "cv_threads_ok n m st" "cv_jobs_ok st xs" "counted st xs" "jobs_flow n m st"
    using assms(1) by (auto simp: cv_live_def cv_inv_def)
  have "cv_main n m True (cv_main_at st) st = None"
  proof (rule ccontr)
    assume "cv_main n m True (cv_main_at st) st \<noteq> None"
    then obtain r where r: "cv_main n m True (cv_main_at st) st = Some r" by blast
    show False
    proof (cases r)
      case (Inl c)
      then show False using r cv_main_no_crash [OF xs(1) assms(2,5)] by blast
    next
      case (Inr st')
      then show False using r assms(4) [rule_format, of "Main_step True" st'] by simp
    qed
  qed
  then obtain i where i: "i < n" "cv_main_at st = M_join i" "cv_at st i \<noteq> Left" "cv_at st i \<noteq> Not_created"
    using stopped_main assms(3) by blast
  have "\<not> goes_on m t st" for t
  proof -
    have "cv_thread_step m (Some a) ws t st \<noteq> Some (Inr st')" for a ws st'
      using assms(4) [rule_format, of "Thread_step t (Some a) ws"] assms(3) by (simp del: cv_thread_step.simps)
    then show ?thesis by (simp add: goes_on_def del: cv_thread_step.simps)
  qed
  then have waiting: "cv_at st t \<in> {Not_created, Left, D_blocked} \<or> faulty_report m t st" for t
    using all_waiting [OF xs(1-3)] by blast
  note below = blocked_dequeuer [OF xs(1)]
  have created: "cv_at st t \<noteq> Not_created" if "t < n" for t using xs(1) i(2) that by (simp add: cv_threads_ok_def)
  show ?thesis
  proof (cases "\<exists>t<n. faulty_report m t st")
    case True
    have "cv_at st t = Left \<or> t < m \<and> cv_at st t = D_blocked \<or> faulty_report m t st" if "t < n" for t
      using waiting [of t] created [OF that] below [of t] by blast
    then show ?thesis using True by (simp add: only_faults_left_def)
  next
    case False
    have outside: "cv_at st t = Not_created" if "\<not> t < n" for t using xs(1) that by (auto simp: cv_threads_ok_def cv_fits_def)
    have all: "\<forall>t. cv_at st t \<in> {Not_created, Left, D_blocked}"
    proof
      fix t show "cv_at st t \<in> {Not_created, Left, D_blocked}"
        using waiting [of t] False outside [of t] by (cases "t < n") auto
    qed
    then have blocked: "cv_at st i = D_blocked" using i by auto
    have gone: "\<forall>t<n. cv_at st t = Left \<or> cv_at st t = D_blocked" using all created by blast
    have empty: "queue_count st = 0 \<and> queue st = None"
      using assms(1) unfolding cv_live_def by (intro waiting_empty [OF _ _ all blocked]) auto
    have card: "card {t. cv_at st t = D_blocked} + (n - m) = m"
      using waiting_counts [OF xs(4) _ assms(2) xs(1) gone] empty by simp
    have "{t. cv_at st t = D_blocked} \<subseteq> {..<m}" using below by auto
    then have "finite {t. cv_at st t = D_blocked}" by (rule finite_subset) simp
    then have "0 < card {t. cv_at st t = D_blocked}" using blocked by (auto simp: card_gt_0_iff)
    then show ?thesis using gone below empty card by (auto simp: waits_forever_def)
  qed
qed

section \<open>A bound on the length of a run\<close>

fun cv_left :: "nat \<Rightarrow> cv_thread \<Rightarrow> nat" where
  "cv_left m E_calloc = 10 + 2 * m"
| "cv_left m (E_data p) = 9 + 2 * m"
| "cv_left m (E_lockq p) = 8 + 2 * m"
| "cv_left m (E_lockc p) = 7 + 2 * m"
| "cv_left m (E_link p) = 6 + 2 * m"
| "cv_left m (E_count p) = 5 + 2 * m"
| "cv_left m (E_signal p) = 4 + 2 * m"
| "cv_left m (E_unlockc p) = 3"
| "cv_left m (E_unlockq p) = 2"
| "cv_left m (E_print p) = 1"
| "cv_left m D_lockc = 12"
| "cv_left m D_woken = 12"
| "cv_left m D_test = 11"
| "cv_left m D_blocked = 10"
| "cv_left m D_unlockc = 10"
| "cv_left m D_lockq = 9"
| "cv_left m D_lockc2 = 8"
| "cv_left m D_if = 7"
| "cv_left m (D_next p) = 6"
| "cv_left m (D_dec p) = 5"
| "cv_left m (D_unlockc2 p) = 4"
| "cv_left m (D_unlockq p) = 3"
| "cv_left m (D_print p) = 2"
| "cv_left m (D_free p) = 1"
| "cv_left m pc = 0"

fun cv_main_left :: "nat \<Rightarrow> nat \<Rightarrow> main_point \<Rightarrow> nat" where
  "cv_main_left n m M_init = n * (13 + 2 * m) + n + 3"
| "cv_main_left n m (M_create c) = (n - c) * (13 + 2 * m) + n + 2"
| "cv_main_left n m (M_join i) = n - i + 1"
| "cv_main_left n m M_done = 0"

definition cv_all_left :: "nat \<Rightarrow> nat \<Rightarrow> cv_state \<Rightarrow> nat" where
  "cv_all_left n m st = cv_main_left n m (cv_main_at st) + thread_sum n (\<lambda>_. cv_left m) (cv_at st)"

lemma cv_all_left_jump:
  assumes "t < n" "cv_at st' = cv_at st" "cv_main_at st' = cv_main_at st" "cv_left m pc < cv_left m (cv_at st t)"
  shows "cv_all_left n m (jump t pc st') < cv_all_left n m st"
  using thread_sum_upd [OF assms(1), of "\<lambda>_. cv_left m" "cv_at st" pc] assms(2-4) by (simp add: cv_all_left_def)

lemma cv_left_wakes:
  assumes "cv_threads_ok n m st" "m < n"
  shows "thread_sum n (\<lambda>_. cv_left m) (cv_at (wakes ws st)) \<le> thread_sum n (\<lambda>_. cv_left m) (cv_at st) + 2 * m"
proof -
  note below = blocked_dequeuer [OF assms(1)]
  have "thread_sum n (\<lambda>_. cv_left m) (cv_at (wakes ws st)) \<le> (\<Sum>t<n. cv_left m (cv_at st t) + 2 * (if t < m then 1 else 0))"
    unfolding thread_sum_def by (intro sum_mono) (use below in auto)
  also have "\<dots> = thread_sum n (\<lambda>_. cv_left m) (cv_at st) + 2 * (\<Sum>t<n. if t < m then 1 else 0)"
    by (simp add: thread_sum_def sum.distrib sum_distrib_left)
  also have "(\<Sum>t<n. if t < m then 1 else 0) = m" using assms(2) by (simp add: count_below)
  finally show ?thesis .
qed

lemma cv_all_left_acts:
  assumes "cv_acts t st st'" "cv_threads_ok n m st" "m < n"
  shows "cv_all_left n m st' < cv_all_left n m st + (if cv_at st t = D_blocked then 3 else 0)"
proof -
  have "t < n" using acts_bound [OF assms(1,2)] by simp
  with assms show ?thesis
  proof (induction rule: cv_acts.induct)
    case (e_signal st t p ws)
    have "thread_sum n (\<lambda>_. cv_left m) (cv_at (jump t (E_unlockc p) (wakes ws st))) + (4 + 2 * m)
        = thread_sum n (\<lambda>_. cv_left m) (cv_at (wakes ws st)) + 3"
      using thread_sum_upd [OF e_signal(5), of "\<lambda>_. cv_left m" "cv_at (wakes ws st)" "E_unlockc p"] e_signal(1) by simp
    then show ?case using cv_left_wakes [OF e_signal(3,4), of ws] e_signal(1) by (simp add: cv_all_left_def)
  next
    case (woken_spuriously st t)
    then show ?case using thread_sum_upd [of t n "\<lambda>_. cv_left m" "cv_at st" D_woken] by (simp add: cv_all_left_def)
  qed (simp, rule cv_all_left_jump; simp)+
qed

lemma cv_all_left_main:
  assumes "cv_main n m True (cv_main_at st) st = Some (Inr st')" "cv_threads_ok n m st" "m < n" "cv_joined n st"
  shows "cv_all_left n m st' < cv_all_left n m st"
  using assms(1,3,2)
proof (cases rule: cv_main_cases)
  case (create c pc)
  have "(n - c) * (13 + 2 * m) = (n - (c + 1)) * (13 + 2 * m) + (13 + 2 * m)"
    using create(2) by (metis Suc_diff_Suc Suc_eq_plus1 add.commute mult_Suc)
  moreover have "cv_left m pc \<le> 12 + 2 * m" using create(3) by simp
  ultimately show ?thesis
    using create thread_sum_upd [OF create(2), of "\<lambda>_. cv_left m" "cv_at st" pc] by (simp add: cv_all_left_def)
next
  case other
  then show ?thesis using assms
    by (cases "cv_main_at st") (auto simp: cv_all_left_def cv_joined_def split: if_splits cv_thread.splits)
qed

lemma cv_all_left_step:
  assumes "cv_step n m e st = Some (Inr st')" "cv_granted e" "cv_live n m st" "m < n"
  shows "cv_all_left n m st' < cv_all_left n m st + (if spurious e then 3 else 0)"
proof -
  have inv: "cv_inv n m st" "cv_threads_ok n m st" "cv_joined n st"
    using assms(3) by (auto simp: cv_live_def cv_inv_def)
  from assms(1,2) inv(1) show ?thesis
  proof (cases rule: cv_step_cases)
    case main
    then show ?thesis using cv_all_left_main [OF _ inv(2) assms(4) inv(3)] by fastforce
  next
    case (thread t)
    then show ?thesis using cv_all_left_acts [OF thread(1) inv(2) assms(4)] by (auto split: if_splits)
  qed
qed

lemma cv_all_left_run:
  "cv_live n m st \<Longrightarrow> list_all cv_granted es \<Longrightarrow> cv_run n m es st = Some (Inr st') \<Longrightarrow> m < n \<Longrightarrow> n \<le> MAX_THREADS
   \<Longrightarrow> length es + cv_all_left n m st' \<le> cv_all_left n m st + 3 * length (filter spurious es)"
proof (induction n m es st rule: cv_run.induct)
  case (2 n m e es st)
  then obtain st1 where st1: "cv_step n m e st = Some (Inr st1)" "cv_run n m es st1 = Some (Inr st')"
    by (auto split: option.splits sum.splits)
  then have "length es + cv_all_left n m st' \<le> cv_all_left n m st1 + 3 * length (filter spurious es)"
    using 2 cv_live_step [of n m e st st1] by auto
  then show ?case using 2 st1 cv_all_left_step [of n m e st st1] by (auto split: if_splits)
qed simp

lemma cv_all_left_initial: "cv_all_left n m cv_initial = n * (14 + 2 * m) + 3"
  by (simp add: cv_all_left_def cv_initial_def thread_sum_def algebra_simps)

section \<open>Results\<close>

text \<open>Two dequeuers wait, one job comes, one of them takes it, the other waits forever.\<close>

definition one_waits_forever :: "cv_event list" where
  "one_waits_forever = replicate 5 (Main_step True) @ replicate 2 (Thread_step 0 (Some 7) [])
     @ replicate 2 (Thread_step 1 (Some 7) []) @ replicate 10 (Thread_step 2 (Some 7) [0])
     @ replicate 12 (Thread_step 0 (Some 7) []) @ [Main_step True]"

text \<open>Two threads: the dequeuer waits, is woken twice, once without a reason, and both end.\<close>

definition all_served :: "cv_event list" where
  "all_served = replicate 4 (Main_step True) @ replicate 2 (Thread_step 0 (Some 7) []) @ [Spurious 0]
     @ replicate 2 (Thread_step 0 (Some 7) []) @ replicate 10 (Thread_step 1 (Some 7) [0])
     @ replicate 12 (Thread_step 0 (Some 7) []) @ replicate 3 (Main_step True)"

definition seen :: "cv_result \<Rightarrow> (main_point \<times> cv_thread list \<times> nat) option" where
  "seen r = (case r of Some (Inr st) \<Rightarrow> Some (cv_main_at st, map (cv_at st) [0..<3], queue_count st) | _ \<Rightarrow> None)"

lemma seen_D:
  "seen r = Some (p, ths, c) \<Longrightarrow> \<exists>st. r = Some (Inr st) \<and> cv_main_at st = p \<and> map (cv_at st) [0..<3] = ths"
  by (auto simp: seen_def split: option.splits sum.splits)

lemma one_waits_forever_end:
  "seen (cv_run 3 2 one_waits_forever cv_initial) = Some (M_join 1, [Left, D_blocked, Left], 0)"
  by code_simp

lemma faulty_report_end:
  "seen (cv_run 3 2 (butlast one_job_two_takers @ [Main_step True]) cv_initial) = Some (M_join 1, [Left, D_print None, Left], 0)"
  by code_simp

lemma all_served_end:
  "seen (cv_run 2 1 all_served cv_initial) = Some (M_done, [Left, Left, Not_created], 0)"
  by code_simp

lemma counts_two: "cv_counts [(CHR ''t'', ''2'')] 0 = Inr (2, 1)"
  by (simp add: cv_counts_def atoi_def decimal_def is_space_def is_digit_def init_thr_count_def)

lemma blocked_stuck:
  assumes "cv_threads_ok n m st" "cv_main_at st = M_join i" "i < n" "cv_at st i = D_blocked"
    "\<forall>t<n. cv_at st t = Left \<or> cv_at st t = D_blocked" "\<not> spurious e"
  shows "cv_step n m e st = None"
proof (cases e)
  case (Thread_step t al ws)
  have "cv_at st t \<in> {Left, D_blocked, Not_created}"
    using assms(1,2,5) by (cases "t < n") (auto simp: cv_threads_ok_def)
  then show ?thesis using Thread_step by auto
qed (use assms in auto)



text \<open>C30. Apart from spurious wake-ups the length of a run of \<^verbatim>\<open>prog_condV.c\<close> is bounded: with
  \<^verbatim>\<open>n\<close> threads, \<^verbatim>\<open>m\<close> of them dequeuing, it has at most \<^verbatim>\<open>n (14 + 2 m) + 3\<close> steps and three more for each
  spurious wake-up.\<close>

theorem cond_runs_bounded:
  assumes "cv_counts opts r = Inr (n, m)" "n \<noteq> 0" "list_all cv_granted es" "cv_run n m es cv_initial = Some (Inr st)"
  shows "length es \<le> n * (14 + 2 * m) + 3 + 3 * length (filter spurious es)"
proof -
  note bounds = cv_counts_some [OF assms(1,2)]
  then have "length es + cv_all_left n m st \<le> cv_all_left n m cv_initial + 3 * length (filter spurious es)"
    using cv_all_left_run [OF cv_live_start assms(3,4)] by simp
  then show ?thesis by (simp add: cv_all_left_initial)
qed

lemma cond_runs_bounded_witness:
  "\<exists>st. cv_run 2 1 all_served cv_initial = Some (Inr st) \<and> cv_main_at st = M_done
     \<and> length all_served \<le> 2 * (14 + 2 * 1) + 3 + 3 * length (filter spurious all_served)"
proof -
  obtain st where st: "cv_run 2 1 all_served cv_initial = Some (Inr st)" "cv_main_at st = M_done"
    using seen_D [OF all_served_end] by blast
  have "list_all cv_granted all_served" by code_simp
  from cond_runs_bounded [OF counts_two _ this st(1)] show ?thesis using st by (intro exI [of _ st] conjI) simp_all
qed

end
