(* ===== verification/Bandh.thy ===== *)
theory Bandh
  imports Prelude
begin

text \<open>
  The program \<^verbatim>\<open>BandhAnalysis/Solution1.cpp\<close>: how many working days are lost to the strikes of several
  parties.  The numbers \<^verbatim>\<open>cin\<close> delivers are the input; a result \<^const>\<open>None\<close> is a run that does not
  end, reads the first element of an empty vector, or goes on after a failed extraction.

  The lemmas show that the answers are those of the problem statement, \<^verbatim>\<open>BandhAnalysis/Problem1.txt\<close>,
  for every well-formed input, and that a parameter of zero makes the program run forever.
\<close>

section \<open>The program\<close>

abbreviation DAYS_INTERVAL :: u64 where
  "DAYS_INTERVAL \<equiv> 7"

record Party =
  bparam :: u32
  totDaysCount :: u64

definition fetch :: "'a::len itself \<Rightarrow> nat list \<Rightarrow> ('a word \<times> nat list) option" where
  "fetch T ns = (case ns of [] \<Rightarrow> None
     | k # ks \<Rightarrow> if k < 2 ^ LENGTH('a) then Some (of_nat k, ks) else None)"

fun processPartyInput :: "u64 \<Rightarrow> nat \<Rightarrow> nat list \<Rightarrow> (Party list \<times> nat list) option" where
  "processPartyInput daysCount 0 ns = Some ([], ns)"
| "processPartyInput daysCount (Suc k) ns = do {
     (bp, ns) \<leftarrow> fetch TYPE(32) ns;
     (ps, ns) \<leftarrow> processPartyInput daysCount k ns;
     Some (\<lparr>bparam = bp, totDaysCount = daysCount\<rparr> # ps, ns)
   }"

definition lost_day :: "u64 \<Rightarrow> bool" where
  "lost_day condVal = (let rd = condVal mod DAYS_INTERVAL in rd > 0 \<and> rd < DAYS_INTERVAL - 1)"

partial_function (option) party_days :: "u64 \<Rightarrow> u64 \<Rightarrow> u64 \<Rightarrow> u64 \<Rightarrow> u64 set \<Rightarrow> u64 set option" where
  "party_days daysCount bp index condVal workingSet =
     (if condVal \<le> daysCount
      then party_days daysCount bp (index + 1) ((index + 1) * bp)
             (if lost_day condVal then insert (index * bp) workingSet else workingSet)
      else Some workingSet)"

fun all_parties :: "u64 \<Rightarrow> Party list \<Rightarrow> u64 set \<Rightarrow> u64 set option" where
  "all_parties daysCount [] workingSet = Some workingSet"
| "all_parties daysCount (pr # prs) workingSet = do {
     let bp = ucast (bparam pr);
     workingSet \<leftarrow> party_days daysCount bp 1 (1 * bp) workingSet;
     all_parties daysCount prs workingSet
   }"

definition processOneTestCase :: "Party list \<Rightarrow> u32 option" where
  "processOneTestCase partyList =
     (case partyList of [] \<Rightarrow> None
      | p # _ \<Rightarrow> do {
          workingSet \<leftarrow> all_parties (totDaysCount p) partyList {};
          Some (of_nat (card workingSet))
        })"

fun read_cases :: "nat \<Rightarrow> nat list \<Rightarrow> (Party list list \<times> nat list) option" where
  "read_cases 0 ns = Some ([], ns)"
| "read_cases (Suc k) ns = do {
     (daysCount, ns) \<leftarrow> fetch TYPE(64) ns;
     (partyCount, ns) \<leftarrow> fetch TYPE(32) ns;
     (ps, ns) \<leftarrow> processPartyInput daysCount (unat partyCount) ns;
     (pss, ns) \<leftarrow> read_cases k ns;
     Some (ps # pss, ns)
   }"

fun answers :: "Party list list \<Rightarrow> u32 list option" where
  "answers [] = Some []"
| "answers (ps # pss) = do { ret \<leftarrow> processOneTestCase ps; rets \<leftarrow> answers pss; Some (ret # rets) }"

definition bandh_main :: "nat list \<Rightarrow> u32 list option" where
  "bandh_main ns = do {
     (testCases, ns) \<leftarrow> fetch TYPE(32) ns;
     (pss, ns) \<leftarrow> read_cases (unat testCases) ns;
     answers pss
   }"

section \<open>The problem\<close>

text \<open>Day 1 is a Monday; a day is lost if it is a strike day of some party and no Saturday or Sunday.\<close>

definition lost_days :: "nat \<Rightarrow> nat list \<Rightarrow> nat set" where
  "lost_days N bs = {d. 1 \<le> d \<and> d \<le> N \<and> d mod 7 \<noteq> 6 \<and> d mod 7 \<noteq> 0 \<and> (\<exists>b \<in> set bs. b dvd d)}"

fun case_numbers :: "(nat \<times> nat list) list \<Rightarrow> nat list" where
  "case_numbers [] = []"
| "case_numbers ((N, bs) # cs) = N # length bs # bs @ case_numbers cs"

definition problem_numbers :: "(nat \<times> nat list) list \<Rightarrow> nat list" where
  "problem_numbers cs = length cs # case_numbers cs"

fun case_ok :: "nat \<times> nat list \<Rightarrow> bool" where
  "case_ok (N, bs) = (N < 2 ^ 32 \<and> bs \<noteq> [] \<and> length bs < 2 ^ 31 \<and> (\<forall>b \<in> set bs. 0 < b \<and> b < 2 ^ 32))"

section \<open>One party\<close>

lemma lost_day_nat: "lost_day w \<longleftrightarrow> unat w mod 7 \<noteq> 0 \<and> unat w mod 7 \<noteq> 6"
proof -
  have "unat (w mod 7) = unat w mod 7" by (simp add: unat_mod_distrib)
  moreover have "unat w mod 7 < 7" by simp
  ultimately show ?thesis by (auto simp: lost_day_def Let_def word_less_nat_alt)
qed

lemma unat_u64: "n < 2 ^ 64 \<Longrightarrow> unat (of_nat n :: u64) = n"
  by (simp add: unsigned_of_nat take_bit_nat_eq_self)

lemma unat_u32: "n < 2 ^ 32 \<Longrightarrow> unat (of_nat n :: u32) = n"
  by (simp add: unsigned_of_nat take_bit_nat_eq_self)

text \<open>The strike days of one party from the \<open>i\<close>-th on, as the loop collects them.\<close>

definition days_from :: "nat \<Rightarrow> nat \<Rightarrow> nat \<Rightarrow> nat set" where
  "days_from N b i = {d. i * b \<le> d \<and> d \<le> N \<and> d mod 7 \<noteq> 6 \<and> d mod 7 \<noteq> 0 \<and> b dvd d}"

lemma days_from_step:
  assumes "0 < b" "i * b \<le> N"
  shows "days_from N b i = (if i * b mod 7 \<noteq> 0 \<and> i * b mod 7 \<noteq> 6 then insert (i * b) (days_from N b (i + 1)) else days_from N b (i + 1))"
proof -
  have "d = i * b \<or> (i + 1) * b \<le> d" if "i * b \<le> d" "b dvd d" for d
  proof -
    obtain k where k: "d = b * k" using \<open>b dvd d\<close> by blast
    then have "i \<le> k" using that(1) assms(1) by (simp add: mult.commute)
    then show ?thesis unfolding k using mult_le_mono1 [of "i + 1" k b] by (cases "i = k") (auto simp: mult.commute)
  qed
  then have "d \<in> days_from N b i \<longleftrightarrow> d \<in> days_from N b (i + 1) \<or> d = i * b \<and> d mod 7 \<noteq> 0 \<and> d mod 7 \<noteq> 6" for d
    using assms unfolding days_from_def by auto
  then show ?thesis by auto
qed

lemma days_from_end: "N < i * b \<Longrightarrow> days_from N b i = {}"
  by (auto simp: days_from_def)

lemma party_days_runs:
  assumes "0 < b" "b < 2 ^ 32" "N < 2 ^ 32" "(i - 1) * b \<le> N" "0 < i"
  shows "party_days (of_nat N) (of_nat b) (of_nat i) (of_nat (i * b)) ws = Some (ws \<union> of_nat ` days_from N b i)"
  using assms(4,5)
proof (induction "N + b - i * b" arbitrary: i ws rule: less_induct)
  case less
  have small: "i * b < 2 ^ 33" using less.prems assms(2,3) by (cases i) auto
  then have "i * b < 2 ^ 64" by (rule less_trans) simp
  then have i: "unat (of_nat (i * b) :: u64) = i * b" by (rule unat_u64)
  have "N < 2 ^ 64" using assms(3) by (rule less_trans) simp
  then have N: "unat (of_nat N :: u64) = N" by (rule unat_u64)
  have prod: "(of_nat i + 1) * of_nat b = (of_nat ((i + 1) * b) :: u64)" by (simp add: algebra_simps)
  show ?case
  proof (cases "i * b \<le> N")
    case True
    have "party_days (of_nat N) (of_nat b) (of_nat (i + 1)) (of_nat ((i + 1) * b)) ws'
        = Some (ws' \<union> of_nat ` days_from N b (i + 1))" for ws'
      using True less.prems assms(1) by (intro less.hyps) auto
    then have "party_days (of_nat N) (of_nat b) (of_nat i + 1) ((of_nat i + 1) * of_nat b) ws'
        = Some (ws' \<union> of_nat ` days_from N b (i + 1))" for ws'
      unfolding prod by (simp only: of_nat_add of_nat_1)
    then show ?thesis using True i N days_from_step [OF assms(1) True]
      by (subst party_days.simps) (simp add: word_le_nat_alt lost_day_nat)
  next
    case False
    then show ?thesis using i N days_from_end [of N i b]
      by (subst party_days.simps) (simp add: word_le_nat_alt)
  qed
qed

lemma days_from_1: "0 < b \<Longrightarrow> days_from N b (Suc 0) = {d. 1 \<le> d \<and> d \<le> N \<and> d mod 7 \<noteq> 6 \<and> d mod 7 \<noteq> 0 \<and> b dvd d}"
  by (auto simp: days_from_def dest: dvd_imp_le)

section \<open>All parties\<close>

lemma lost_days_Cons: "0 < b \<Longrightarrow> lost_days N (b # bs) = days_from N b 1 \<union> lost_days N bs"
  by (auto simp: lost_days_def days_from_1)

definition parties :: "nat \<Rightarrow> nat list \<Rightarrow> Party list" where
  "parties N bs = map (\<lambda>b. \<lparr>bparam = of_nat b, totDaysCount = of_nat N\<rparr>) bs"

lemma ucast_nat: "b < 2 ^ 32 \<Longrightarrow> (ucast (of_nat b :: u32) :: u64) = of_nat b"
  by (simp add: word_eq_iff_unsigned unsigned_ucast_eq unsigned_of_nat take_bit_nat_eq_self)

lemma all_parties_runs:
  assumes "N < 2 ^ 32"
  shows "\<forall>b \<in> set bs. 0 < b \<and> b < 2 ^ 32
    \<Longrightarrow> all_parties (of_nat N) (parties N bs) ws = Some (ws \<union> of_nat ` lost_days N bs)"
proof (induction bs arbitrary: ws)
  case Nil
  then show ?case by (simp add: parties_def lost_days_def)
next
  case (Cons b bs)
  then have "party_days (of_nat N) (of_nat b) 1 (of_nat b) ws = Some (ws \<union> of_nat ` days_from N b 1)"
    using party_days_runs [of b N 1 ws] assms by simp
  then show ?case using Cons lost_days_Cons [of b N bs]
    by (simp add: parties_def ucast_nat image_Un Un_assoc)
qed

lemma lost_days_finite: "finite (lost_days N bs)"
  by (rule finite_subset [of _ "{..N}"]) (auto simp: lost_days_def)

lemma card_days:
  assumes "N < 2 ^ 32"
  shows "card (of_nat ` lost_days N bs :: u64 set) = card (lost_days N bs)"
proof (rule card_image, rule inj_onI)
  fix d e assume "d \<in> lost_days N bs" "e \<in> lost_days N bs" "(of_nat d :: u64) = of_nat e"
  then have "d < 2 ^ 64" "e < 2 ^ 64" "(of_nat d :: u64) = of_nat e" using assms by (auto simp: lost_days_def)
  then show "d = e" using unat_u64 by metis
qed

lemma processOneTestCase_runs:
  assumes "case_ok (N, bs)"
  shows "processOneTestCase (parties N bs) = Some (of_nat (card (lost_days N bs)))"
proof -
  obtain b bs' where b: "bs = b # bs'" using assms by (cases bs) auto
  have "all_parties (of_nat N) (parties N bs) {} = Some (of_nat ` lost_days N bs)"
    using all_parties_runs [of N bs "{}"] assms by simp
  then show ?thesis using b card_days [of N bs] assms
    by (simp add: processOneTestCase_def parties_def)
qed

section \<open>Reading\<close>

lemma fetch_Some: "k < 2 ^ LENGTH('a) \<Longrightarrow> fetch TYPE('a::len) (k # ks) = Some (of_nat k, ks)"
  by (simp add: fetch_def)

lemma processPartyInput_reads:
  "\<forall>b \<in> set bs. b < 2 ^ 32 \<Longrightarrow> processPartyInput (of_nat N) (length bs) (bs @ ns) = Some (parties N bs, ns)"
  by (induction bs) (simp_all add: parties_def fetch_Some)

lemma read_cases_reads:
  "\<forall>c \<in> set cs. case_ok c \<Longrightarrow>
   read_cases (length cs) (case_numbers cs @ ns) = Some (map (\<lambda>(N, bs). parties N bs) cs, ns)"
proof (induction cs)
  case (Cons c cs)
  obtain N bs where c: "c = (N, bs)" by fastforce
  then have ok: "N < 2 ^ 32" "length bs < 2 ^ 31" "\<forall>b \<in> set bs. b < 2 ^ 32" using Cons by auto
  then have "N < 2 ^ 64" "length bs < 2 ^ 32" by auto
  then show ?case using Cons c ok(3) processPartyInput_reads [of bs N "case_numbers cs @ ns"]
    by (simp add: fetch_Some unat_u32)
qed simp

lemma answers_run:
  "\<forall>c \<in> set cs. case_ok c \<Longrightarrow>
   answers (map (\<lambda>(N, bs). parties N bs) cs) = Some (map (\<lambda>(N, bs). of_nat (card (lost_days N bs))) cs)"
  by (induction cs) (auto simp: processOneTestCase_runs simp del: case_ok.simps)

section \<open>A parameter of zero\<close>

lemma party_days_zero_end: "party_days daysCount bp i c ws = Some ws' \<Longrightarrow> bp = 0 \<longrightarrow> c \<noteq> 0"
  by (rule party_days.raw_induct [where P = "\<lambda>_ bp _ c _ _. bp = 0 \<longrightarrow> c \<noteq> 0"]) (fastforce split: if_splits)

lemma party_days_zero: "party_days daysCount 0 i 0 ws = None"
  using party_days_zero_end [of daysCount 0 i 0 ws] by (cases "party_days daysCount 0 i 0 ws") auto

lemma all_parties_zero: "pr \<in> set prs \<Longrightarrow> bparam pr = 0 \<Longrightarrow> all_parties daysCount prs ws = None"
  by (induction prs arbitrary: ws) (auto simp: party_days_zero Let_def split: Option.bind_splits)

lemma answers_None: "ps \<in> set pss \<Longrightarrow> processOneTestCase ps = None \<Longrightarrow> answers pss = None"
  by (induction pss) (auto split: Option.bind_splits)

section \<open>Results\<close>

text \<open>C13. For every input in the form of the problem statement (fewer than \<open>2 ^ 32\<close> days, at least one
  party in each case, no parameter zero) \<^verbatim>\<open>Solution1.cpp\<close> ends and answers each case with the number
  of working days on which some party strikes; numbers behind the last case are ignored.\<close>

theorem bandh_counts_lost_days:
  assumes "\<forall>c \<in> set cs. case_ok c" "length cs < 2 ^ 31"
  shows "bandh_main (problem_numbers cs @ ns) = Some (map (\<lambda>(N, bs). of_nat (card (lost_days N bs))) cs)
     \<and> (\<forall>(N, bs) \<in> set cs. card (lost_days N bs) \<le> N)"
proof -
  have "card (lost_days N bs) \<le> card {1..N}" for N bs
    by (rule card_mono) (auto simp: lost_days_def)
  then have "card (lost_days N bs) \<le> N" for N bs by simp
  moreover have "length cs < 2 ^ 32" using assms(2) by simp
  ultimately show ?thesis using read_cases_reads [OF assms(1), of ns] answers_run [OF assms(1)]
    by (auto simp: bandh_main_def problem_numbers_def fetch_Some unat_u32)
qed

text \<open>The example of the statement.\<close>

lemma example_days: "lost_days 14 [3, 4, 8] = {3, 4, 8, 9, 12}"
proof -
  have "lost_days 14 [3, 4, 8] = {d \<in> {1..14}. d mod 7 \<noteq> 6 \<and> d mod 7 \<noteq> 0 \<and> (\<exists>b \<in> {3, 4, 8}. b dvd d)}"
    by (auto simp: lost_days_def)
  also have "\<dots> = {3, 4, 8, 9, 12}" by code_simp
  finally show ?thesis .
qed

lemma bandh_counts_lost_days_witness:
  "bandh_main ([1, 14, 3, 3, 4, 8] @ []) = Some [5]"
proof -
  have "problem_numbers [(14, [3, 4, 8])] = [1, 14, 3, 3, 4, 8]" by (simp add: problem_numbers_def numeral_3_eq_3)
  then show ?thesis using bandh_counts_lost_days [of "[(14, [3, 4, 8])]" "[]"] by (simp add: example_days)
qed

text \<open>A party with parameter zero makes \<^verbatim>\<open>Solution1.cpp\<close> run forever, whatever the other parties
  and the number of days are.\<close>

theorem bandh_zero_never_ends:
  assumes "0 \<in> set bs" "ps = map (\<lambda>b. \<lparr>bparam = b, totDaysCount = N\<rparr>) bs" "ps \<in> set pss"
  shows "processOneTestCase ps = None \<and> answers pss = None"
proof -
  obtain pr where pr: "pr \<in> set ps" "bparam pr = 0" using assms(1,2) by force
  have "processOneTestCase ps = None"
    using all_parties_zero [OF pr] by (cases ps) (simp_all only: processOneTestCase_def list.case bind.bind_lzero)
  then show ?thesis using answers_None [OF assms(3)] by simp
qed

lemma bandh_zero_never_ends_witness:
  "answers [[\<lparr>bparam = 3, totDaysCount = 14\<rparr>, \<lparr>bparam = 0, totDaysCount = 14\<rparr>]] = None"
  using bandh_zero_never_ends [of "[3, 0]" "[\<lparr>bparam = 3, totDaysCount = 14\<rparr>, \<lparr>bparam = 0, totDaysCount = 14\<rparr>]" 14
      "[[\<lparr>bparam = 3, totDaysCount = 14\<rparr>, \<lparr>bparam = 0, totDaysCount = 14\<rparr>]]"] by simp

end
