(* ===== verification/Rw_Lock.thy ===== *)
theory Rw_Lock
  imports Prelude
begin

text \<open>
  The reader-writer lock \<^verbatim>\<open>rw_lock_t\<close> of \<^verbatim>\<open>prog_rwmutex.cpp\<close>, a monitor of one mutex and two
  condition variables, used by any number of threads that lock and unlock as they please.  A thread is
  a point of one of the four operations, one step is one statement, and any thread may take the next
  one.  The scheduler, the threads a signal wakes and spurious wake-ups are the events of a run.

  The lemmas show the invariant of the counters, that a writer excludes everybody else, and that no
  wake-up is lost: if somebody waits, somebody reads, writes or can go on.
\<close>

section \<open>The lock\<close>

datatype rw_point =
    Idle | Reading | Writing
  | R_enter | R_test | R_blocked | R_woken | R_count | R_leave
  | RU_enter | RU_count | RU_signal | RU_leave
  | W_enter | W_wait | W_test | W_blocked | W_woken | W_count | W_leave
  | WU_enter | WU_count | WU_signal | WU_broadcast | WU_leave

record rw_lock_t =
  NoOfReaders :: int
  NoOfWriters :: int
  NoOfWritersWaiting :: int
  class_mutex :: "nat option"
  points :: "nat \<Rightarrow> rw_point"

definition rw_initial :: rw_lock_t where
  "rw_initial = \<lparr>NoOfReaders = 0, NoOfWriters = 0, NoOfWritersWaiting = 0, class_mutex = None, points = (\<lambda>_. Idle)\<rparr>"

definition move :: "nat \<Rightarrow> rw_point \<Rightarrow> rw_lock_t \<Rightarrow> rw_lock_t" where
  "move t pc st = st\<lparr>points := (points st)(t := pc)\<rparr>"

definition enter :: "nat \<Rightarrow> rw_point \<Rightarrow> rw_lock_t \<Rightarrow> rw_lock_t option" where
  "enter t pc st = (if class_mutex st = None then Some (move t pc (st\<lparr>class_mutex := Some t\<rparr>)) else None)"

definition leave :: "nat \<Rightarrow> rw_point \<Rightarrow> rw_lock_t \<Rightarrow> rw_lock_t option" where
  "leave t pc st = Some (move t pc (st\<lparr>class_mutex := None\<rparr>))"

text \<open>A signal wakes some of the writers that are blocked, at least one if there is one.\<close>

definition wake :: "(nat \<Rightarrow> bool) \<Rightarrow> rw_point \<Rightarrow> rw_point \<Rightarrow> rw_lock_t \<Rightarrow> rw_lock_t" where
  "wake W pc pc' st = st\<lparr>points := (\<lambda>u. if W u \<and> points st u = pc then pc' else points st u)\<rparr>"

definition signal_ok :: "nat \<Rightarrow> nat list \<Rightarrow> rw_lock_t \<Rightarrow> bool" where
  "signal_ok n ws st =
     (list_ex (\<lambda>u. points st u = W_blocked) [0..<n] \<longrightarrow> list_ex (\<lambda>u. points st u = W_blocked) ws)"

definition signal_writer :: "nat \<Rightarrow> nat list \<Rightarrow> nat \<Rightarrow> rw_point \<Rightarrow> rw_lock_t \<Rightarrow> rw_lock_t option" where
  "signal_writer n ws t pc st =
     (if signal_ok n ws st then Some (move t pc (wake (\<lambda>u. u \<in> set ws) W_blocked W_woken st)) else None)"

fun r_lock :: "nat \<Rightarrow> rw_point \<Rightarrow> rw_lock_t \<Rightarrow> rw_lock_t option" where
  "r_lock t R_enter st = enter t R_test st"
| "r_lock t R_test st = (if NoOfWriters st > 0 then leave t R_blocked st else Some (move t R_count st))"
| "r_lock t R_woken st = enter t R_test st"
| "r_lock t R_count st = Some (move t R_leave (st\<lparr>NoOfReaders := NoOfReaders st + 1\<rparr>))"
| "r_lock t R_leave st = leave t Reading st"
| "r_lock t pc st = None"

fun w_lock :: "nat \<Rightarrow> rw_point \<Rightarrow> rw_lock_t \<Rightarrow> rw_lock_t option" where
  "w_lock t W_enter st = enter t W_wait st"
| "w_lock t W_wait st = Some (move t W_test (st\<lparr>NoOfWritersWaiting := NoOfWritersWaiting st + 1\<rparr>))"
| "w_lock t W_test st =
     (if NoOfReaders st > 0 \<or> NoOfWriters st > 0 then leave t W_blocked st else Some (move t W_count st))"
| "w_lock t W_woken st = enter t W_test st"
| "w_lock t W_count st =
     Some (move t W_leave (st\<lparr>NoOfWritersWaiting := NoOfWritersWaiting st - 1, NoOfWriters := NoOfWriters st + 1\<rparr>))"
| "w_lock t W_leave st = leave t Writing st"
| "w_lock t pc st = None"

fun r_unlock :: "nat \<Rightarrow> nat list \<Rightarrow> nat \<Rightarrow> rw_point \<Rightarrow> rw_lock_t \<Rightarrow> rw_lock_t option" where
  "r_unlock n ws t RU_enter st = enter t RU_count st"
| "r_unlock n ws t RU_count st = Some (move t RU_signal (st\<lparr>NoOfReaders := NoOfReaders st - 1\<rparr>))"
| "r_unlock n ws t RU_signal st =
     (if NoOfReaders st = 0 \<and> NoOfWritersWaiting st > 0 then signal_writer n ws t RU_leave st
      else Some (move t RU_leave st))"
| "r_unlock n ws t RU_leave st = leave t Idle st"
| "r_unlock n ws t pc st = None"

fun w_unlock :: "nat \<Rightarrow> nat list \<Rightarrow> nat \<Rightarrow> rw_point \<Rightarrow> rw_lock_t \<Rightarrow> rw_lock_t option" where
  "w_unlock n ws t WU_enter st = enter t WU_count st"
| "w_unlock n ws t WU_count st = Some (move t WU_signal (st\<lparr>NoOfWriters := NoOfWriters st - 1\<rparr>))"
| "w_unlock n ws t WU_signal st =
     (if NoOfWritersWaiting st > 0 then signal_writer n ws t WU_broadcast st else Some (move t WU_broadcast st))"
| "w_unlock n ws t WU_broadcast st = Some (move t WU_leave (wake (\<lambda>_. True) R_blocked R_woken st))"
| "w_unlock n ws t WU_leave st = leave t Idle st"
| "w_unlock n ws t pc st = None"

section \<open>Runs\<close>

text \<open>A thread calls an operation, goes on with it, or is woken without a reason.\<close>

datatype rw_event = Call_r_lock nat | Call_w_lock nat | Call_unlock nat | Go nat "nat list" | Spuriously nat

fun go :: "nat \<Rightarrow> nat list \<Rightarrow> nat \<Rightarrow> rw_point \<Rightarrow> rw_lock_t \<Rightarrow> rw_lock_t option" where
  "go n ws t pc st =
     (if pc \<in> {R_enter, R_test, R_woken, R_count, R_leave} then r_lock t pc st
      else if pc \<in> {W_enter, W_wait, W_test, W_woken, W_count, W_leave} then w_lock t pc st
      else if pc \<in> {RU_enter, RU_count, RU_signal, RU_leave} then r_unlock n ws t pc st
      else w_unlock n ws t pc st)"

fun rw_step :: "nat \<Rightarrow> rw_event \<Rightarrow> rw_lock_t \<Rightarrow> rw_lock_t option" where
  "rw_step n (Call_r_lock t) st = (if t < n \<and> points st t = Idle then Some (move t R_enter st) else None)"
| "rw_step n (Call_w_lock t) st = (if t < n \<and> points st t = Idle then Some (move t W_enter st) else None)"
| "rw_step n (Call_unlock t) st =
     (if points st t = Reading then Some (move t RU_enter st)
      else if points st t = Writing then Some (move t WU_enter st) else None)"
| "rw_step n (Go t ws) st = go n ws t (points st t) st"
| "rw_step n (Spuriously t) st =
     (if points st t = R_blocked then Some (move t R_woken st)
      else if points st t = W_blocked then Some (move t W_woken st) else None)"

fun rw_run :: "nat \<Rightarrow> rw_event list \<Rightarrow> rw_lock_t \<Rightarrow> rw_lock_t option" where
  "rw_run n [] st = Some st"
| "rw_run n (e # es) st = (case rw_step n e st of None \<Rightarrow> None | Some st' \<Rightarrow> rw_run n es st')"

section \<open>The invariant\<close>

text \<open>Who is inside the monitor, and what each thread counts for.\<close>

fun inside_m :: "rw_point \<Rightarrow> bool" where
  "inside_m R_test = True" | "inside_m R_count = True" | "inside_m R_leave = True"
| "inside_m RU_count = True" | "inside_m RU_signal = True" | "inside_m RU_leave = True"
| "inside_m W_wait = True" | "inside_m W_test = True" | "inside_m W_count = True" | "inside_m W_leave = True"
| "inside_m WU_count = True" | "inside_m WU_signal = True" | "inside_m WU_broadcast = True" | "inside_m WU_leave = True"
| "inside_m pc = False"

fun reads :: "rw_point \<Rightarrow> nat" where
  "reads R_leave = 1" | "reads Reading = 1" | "reads RU_enter = 1" | "reads RU_count = 1" | "reads pc = 0"

fun writes :: "rw_point \<Rightarrow> nat" where
  "writes W_leave = 1" | "writes Writing = 1" | "writes WU_enter = 1" | "writes WU_count = 1" | "writes pc = 0"

fun awaits :: "rw_point \<Rightarrow> nat" where
  "awaits W_test = 1" | "awaits W_blocked = 1" | "awaits W_woken = 1" | "awaits W_count = 1" | "awaits pc = 0"

definition counts_fit :: "nat \<Rightarrow> rw_lock_t \<Rightarrow> bool" where
  "counts_fit n st = (NoOfReaders st = int (thread_sum n (\<lambda>_. reads) (points st))
     \<and> NoOfWriters st = int (thread_sum n (\<lambda>_. writes) (points st))
     \<and> NoOfWritersWaiting st = int (thread_sum n (\<lambda>_. awaits) (points st)))"

definition holder_ok :: "nat \<Rightarrow> rw_lock_t \<Rightarrow> bool" where
  "holder_ok n st = ((\<forall>t. inside_m (points st t) \<longleftrightarrow> class_mutex st = Some t) \<and> (\<forall>t. points st t \<noteq> Idle \<longrightarrow> t < n))"

definition exclusive :: "rw_lock_t \<Rightarrow> bool" where
  "exclusive st = ((NoOfWriters st = 0 \<or> NoOfWriters st = 1 \<and> NoOfReaders st = 0)
     \<and> (\<forall>t. points st t = R_count \<longrightarrow> NoOfWriters st = 0)
     \<and> (\<forall>t. points st t = W_count \<longrightarrow> NoOfWriters st = 0 \<and> NoOfReaders st = 0))"

text \<open>Somebody is going to look at the counters again for the writers, or for the readers, that are blocked.\<close>

definition writers_served :: "nat \<Rightarrow> rw_lock_t \<Rightarrow> bool" where
  "writers_served n st = ((\<exists>t. points st t = W_blocked) \<longrightarrow> NoOfReaders st > 0 \<or> NoOfWriters st > 0
     \<or> (\<exists>t. points st t \<in> {W_woken, W_test, W_count, RU_signal, WU_signal}))"

definition readers_served :: "rw_lock_t \<Rightarrow> bool" where
  "readers_served st = ((\<exists>t. points st t = R_blocked) \<longrightarrow> NoOfWriters st > 0
     \<or> (\<exists>t. points st t \<in> {WU_signal, WU_broadcast}))"

definition rw_inv :: "nat \<Rightarrow> rw_lock_t \<Rightarrow> bool" where
  "rw_inv n st = (counts_fit n st \<and> holder_ok n st \<and> exclusive st \<and> writers_served n st \<and> readers_served st)"

section \<open>Steps as a relation\<close>

inductive rw_acts :: "nat \<Rightarrow> nat \<Rightarrow> rw_lock_t \<Rightarrow> rw_lock_t \<Rightarrow> bool" for n t st where
  call: "points st t = Idle \<Longrightarrow> t < n \<Longrightarrow> pc \<in> {R_enter, W_enter} \<Longrightarrow> rw_acts n t st (move t pc st)"
| call_unlock: "(points st t, pc) \<in> {(Reading, RU_enter), (Writing, WU_enter)} \<Longrightarrow> rw_acts n t st (move t pc st)"
| enter: "(points st t, pc) \<in> {(R_enter, R_test), (R_woken, R_test), (W_enter, W_wait), (W_woken, W_test),
     (RU_enter, RU_count), (WU_enter, WU_count)} \<Longrightarrow> class_mutex st = None \<Longrightarrow>
     rw_acts n t st (move t pc (st\<lparr>class_mutex := Some t\<rparr>))"
| leave: "(points st t, pc) \<in> {(R_leave, Reading), (W_leave, Writing), (RU_leave, Idle), (WU_leave, Idle)} \<Longrightarrow>
     rw_acts n t st (move t pc (st\<lparr>class_mutex := None\<rparr>))"
| r_wait: "points st t = R_test \<Longrightarrow> NoOfWriters st > 0 \<Longrightarrow> rw_acts n t st (move t R_blocked (st\<lparr>class_mutex := None\<rparr>))"
| r_pass: "points st t = R_test \<Longrightarrow> \<not> NoOfWriters st > 0 \<Longrightarrow> rw_acts n t st (move t R_count st)"
| r_count: "points st t = R_count \<Longrightarrow> rw_acts n t st (move t R_leave (st\<lparr>NoOfReaders := NoOfReaders st + 1\<rparr>))"
| ru_count: "points st t = RU_count \<Longrightarrow> rw_acts n t st (move t RU_signal (st\<lparr>NoOfReaders := NoOfReaders st - 1\<rparr>))"
| w_announce: "points st t = W_wait \<Longrightarrow>
     rw_acts n t st (move t W_test (st\<lparr>NoOfWritersWaiting := NoOfWritersWaiting st + 1\<rparr>))"
| w_wait: "points st t = W_test \<Longrightarrow> NoOfReaders st > 0 \<or> NoOfWriters st > 0 \<Longrightarrow>
     rw_acts n t st (move t W_blocked (st\<lparr>class_mutex := None\<rparr>))"
| w_pass: "points st t = W_test \<Longrightarrow> \<not> (NoOfReaders st > 0 \<or> NoOfWriters st > 0) \<Longrightarrow> rw_acts n t st (move t W_count st)"
| w_count: "points st t = W_count \<Longrightarrow> rw_acts n t st (move t W_leave
     (st\<lparr>NoOfWritersWaiting := NoOfWritersWaiting st - 1, NoOfWriters := NoOfWriters st + 1\<rparr>))"
| wu_count: "points st t = WU_count \<Longrightarrow> rw_acts n t st (move t WU_signal (st\<lparr>NoOfWriters := NoOfWriters st - 1\<rparr>))"
| ru_quiet: "points st t = RU_signal \<Longrightarrow> \<not> (NoOfReaders st = 0 \<and> NoOfWritersWaiting st > 0) \<Longrightarrow>
     rw_acts n t st (move t RU_leave st)"
| wu_quiet: "points st t = WU_signal \<Longrightarrow> \<not> NoOfWritersWaiting st > 0 \<Longrightarrow> rw_acts n t st (move t WU_broadcast st)"
| signal: "(points st t, pc) \<in> {(RU_signal, RU_leave), (WU_signal, WU_broadcast)} \<Longrightarrow> signal_ok n ws st \<Longrightarrow>
     rw_acts n t st (move t pc (wake (\<lambda>u. u \<in> set ws) W_blocked W_woken st))"
| broadcast: "points st t = WU_broadcast \<Longrightarrow> rw_acts n t st (move t WU_leave (wake (\<lambda>_. True) R_blocked R_woken st))"
| spuriously: "(points st t, pc) \<in> {(R_blocked, R_woken), (W_blocked, W_woken)} \<Longrightarrow> rw_acts n t st (move t pc st)"

lemma go_acts: "go n ws t (points st t) st = Some st' \<Longrightarrow> rw_acts n t st st'"
  by (cases "points st t")
     (auto simp: enter_def leave_def signal_writer_def intro: rw_acts.intros split: if_splits)

lemma rw_step_acts: "rw_step n e st = Some st' \<Longrightarrow> \<exists>t. rw_acts n t st st'"
proof (cases e)
  case (Go t ws)
  assume "rw_step n e st = Some st'"
  then have "go n ws t (points st t) st = Some st'" using Go by (simp del: go.simps)
  then show ?thesis by (blast intro: go_acts)
qed (auto intro: rw_acts.intros split: if_splits)

lemma move_sel [simp]:
  "NoOfReaders (move t pc st) = NoOfReaders st" "NoOfWriters (move t pc st) = NoOfWriters st"
  "NoOfWritersWaiting (move t pc st) = NoOfWritersWaiting st" "class_mutex (move t pc st) = class_mutex st"
  "points (move t pc st) = (points st)(t := pc)"
  by (simp_all add: move_def)

lemma wake_sel [simp]:
  "NoOfReaders (wake W pc pc' st) = NoOfReaders st" "NoOfWriters (wake W pc pc' st) = NoOfWriters st"
  "NoOfWritersWaiting (wake W pc pc' st) = NoOfWritersWaiting st" "class_mutex (wake W pc pc' st) = class_mutex st"
  "points (wake W pc pc' st) u = (if W u \<and> points st u = pc then pc' else points st u)"
  by (simp_all add: wake_def)

lemma thread_sum_wake:
  "f pc' = f pc \<Longrightarrow> thread_sum n (\<lambda>_. f) (points (wake W pc pc' st)) = thread_sum n (\<lambda>_. f) (points st)"
  unfolding thread_sum_def by (intro sum.cong) auto

section \<open>The invariant holds\<close>

lemma counts_fit_move:
  assumes "counts_fit n st" "t < n" "points st' = points st"
    "NoOfReaders st' + int (reads (points st t)) = NoOfReaders st + int (reads pc)"
    "NoOfWriters st' + int (writes (points st t)) = NoOfWriters st + int (writes pc)"
    "NoOfWritersWaiting st' + int (awaits (points st t)) = NoOfWritersWaiting st + int (awaits pc)"
  shows "counts_fit n (move t pc st')"
proof -
  have "int (thread_sum n (\<lambda>_. f) ((points st)(t := pc))) + int (f (points st t))
      = int (thread_sum n (\<lambda>_. f) (points st)) + int (f pc)" for f
    using thread_sum_upd [OF assms(2), of "\<lambda>_. f" "points st" pc] by (simp flip: of_nat_add)
  from this [of reads] this [of writes] this [of awaits] show ?thesis
    using assms(1,3-6) by (simp add: counts_fit_def)
qed

lemma counts_fit_wake:
  "(pc, pc') \<in> {(W_blocked, W_woken), (R_blocked, R_woken)} \<Longrightarrow> counts_fit n (wake W pc pc' st) = counts_fit n st"
  by (auto simp: counts_fit_def thread_sum_wake)

lemma rw_acts_bound: "rw_acts n t st st' \<Longrightarrow> holder_ok n st \<Longrightarrow> t < n"
  by (induction rule: rw_acts.induct) (auto simp: holder_ok_def)

lemma counts_fit_acts:
  assumes "rw_acts n t st st'" "counts_fit n st" "t < n"
  shows "counts_fit n st'"
  using assms
proof (induction rule: rw_acts.induct)
  case (signal pc ws)
  then have "counts_fit n (wake (\<lambda>u. u \<in> set ws) W_blocked W_woken st)" by (simp add: counts_fit_wake)
  then show ?case by (rule counts_fit_move) (use signal in auto)
next
  case broadcast
  then have "counts_fit n (wake (\<lambda>_. True) R_blocked R_woken st)" by (simp add: counts_fit_wake)
  then show ?case by (rule counts_fit_move) (use broadcast in auto)
qed (auto intro!: counts_fit_move)

lemma holder_ok_move:
  assumes "holder_ok n st" "t < n" "points st' = points st"
    "class_mutex st' = class_mutex st \<and> inside_m pc = inside_m (points st t)
     \<or> class_mutex st = None \<and> class_mutex st' = Some t \<and> inside_m pc
     \<or> inside_m (points st t) \<and> class_mutex st' = None \<and> \<not> inside_m pc"
  shows "holder_ok n (move t pc st')"
proof -
  have "inside_m (points st t) \<longleftrightarrow> class_mutex st = Some t" using assms(1) by (simp add: holder_ok_def)
  then show ?thesis using assms by (auto simp: holder_ok_def)
qed

lemma wake_inside:
  "(pc, pc') \<in> {(W_blocked, W_woken), (R_blocked, R_woken)} \<Longrightarrow>
   inside_m (points (wake W pc pc' st) u) = inside_m (points st u) \<and> (points (wake W pc pc' st) u = Idle \<longleftrightarrow> points st u = Idle)"
  by auto

lemma holder_ok_wake:
  "(pc, pc') \<in> {(W_blocked, W_woken), (R_blocked, R_woken)} \<Longrightarrow> holder_ok n st \<Longrightarrow> holder_ok n (wake W pc pc' st)"
  by (simp add: holder_ok_def wake_inside del: wake_sel(5))

lemma holder_ok_acts:
  assumes "rw_acts n t st st'" "holder_ok n st" "t < n"
  shows "holder_ok n st'"
  using assms
proof (induction rule: rw_acts.induct)
  case (signal pc ws)
  then have "holder_ok n (wake (\<lambda>u. u \<in> set ws) W_blocked W_woken st)" by (simp add: holder_ok_wake)
  then show ?case by (rule holder_ok_move) (use signal in auto)
next
  case broadcast
  then have "holder_ok n (wake (\<lambda>_. True) R_blocked R_woken st)" by (simp add: holder_ok_wake)
  then show ?case by (rule holder_ok_move) (use broadcast in auto)
qed (erule holder_ok_move; auto)+

lemma alone:
  "holder_ok n st \<Longrightarrow> inside_m (points st t) \<Longrightarrow> inside_m (points st u) \<Longrightarrow> u = t"
  unfolding holder_ok_def by force

lemma exclusive_move:
  assumes "exclusive st" "holder_ok n st" "points st' = points st"
    and "NoOfReaders st' = NoOfReaders st \<and> NoOfWriters st' = NoOfWriters st \<or> inside_m (points st t) \<and>
      (NoOfWriters st' = 0 \<or> NoOfWriters st' = 1 \<and> NoOfReaders st' = 0)"
    and "pc = R_count \<Longrightarrow> NoOfWriters st' = 0"
    and "pc = W_count \<Longrightarrow> NoOfWriters st' = 0 \<and> NoOfReaders st' = 0"
  shows "exclusive (move t pc st')"
proof -
  have "inside_m (points st t) \<Longrightarrow> u \<noteq> t \<Longrightarrow> points st u \<noteq> R_count \<and> points st u \<noteq> W_count" for u
    using alone [OF assms(2), of t u] by auto
  then show ?thesis using assms unfolding exclusive_def by (auto split: if_splits)
qed

lemma exclusive_wake:
  "pc' \<noteq> R_count \<Longrightarrow> pc' \<noteq> W_count \<Longrightarrow> exclusive st \<Longrightarrow> exclusive (wake W pc pc' st)"
  by (auto simp: exclusive_def split: if_splits)

lemma thread_counts:
  assumes "counts_fit n st" "t < n"
  shows "int (reads (points st t)) \<le> NoOfReaders st \<and> int (writes (points st t)) \<le> NoOfWriters st
     \<and> int (awaits (points st t)) \<le> NoOfWritersWaiting st"
  using assms thread_sum_ge [OF assms(2), of "\<lambda>_. reads" "points st"] thread_sum_ge [OF assms(2), of "\<lambda>_. writes" "points st"]
    thread_sum_ge [OF assms(2), of "\<lambda>_. awaits" "points st"] by (simp add: counts_fit_def)

lemma exclusive_acts:
  assumes "rw_acts n t st st'" "exclusive st" "holder_ok n st" "counts_fit n st"
  shows "exclusive st'"
proof -
  have ex: "(NoOfWriters st = 0 \<or> NoOfWriters st = 1 \<and> NoOfReaders st = 0)
     \<and> (points st t = R_count \<longrightarrow> NoOfWriters st = 0)
     \<and> (points st t = W_count \<longrightarrow> NoOfWriters st = 0 \<and> NoOfReaders st = 0)"
    using assms(2) unfolding exclusive_def by blast
  note counts = thread_counts [OF assms(4) rw_acts_bound [OF assms(1,3)]]
  from assms(1-3) ex counts show ?thesis
  proof (induction rule: rw_acts.induct)
    case (signal pc ws)
    have ok: "holder_ok n (wake (\<lambda>u. u \<in> set ws) W_blocked W_woken st)" using signal(4) by (simp add: holder_ok_wake)
    have "exclusive (wake (\<lambda>u. u \<in> set ws) W_blocked W_woken st)" using signal(3) by (simp add: exclusive_wake)
    then show ?case by (rule exclusive_move [OF _ ok]) (use signal in auto)
  next
    case broadcast
    have ok: "holder_ok n (wake (\<lambda>_. True) R_blocked R_woken st)" using broadcast(3) by (simp add: holder_ok_wake)
    have "exclusive (wake (\<lambda>_. True) R_blocked R_woken st)" using broadcast(2) by (simp add: exclusive_wake)
    then show ?case by (rule exclusive_move [OF _ ok]) auto
  qed (rule exclusive_move; auto)+
qed

lemma writers_served_move:
  assumes "writers_served n st" "points st' = points st"
    "pc \<in> {W_woken, W_test, W_count, RU_signal, WU_signal} \<or> NoOfReaders st' > 0 \<or> NoOfWriters st' > 0
     \<or> points st t \<notin> {W_woken, W_test, W_count, RU_signal, WU_signal} \<and> pc \<noteq> W_blocked
       \<and> NoOfReaders st' = NoOfReaders st \<and> NoOfWriters st' = NoOfWriters st"
  shows "writers_served n (move t pc st')"
  unfolding writers_served_def
proof (rule impI, elim exE)
  fix u assume u: "points (move t pc st') u = W_blocked"
  let ?S = "{W_woken, W_test, W_count, RU_signal, WU_signal}"
  show "NoOfReaders (move t pc st') > 0 \<or> NoOfWriters (move t pc st') > 0 \<or> (\<exists>v. points (move t pc st') v \<in> ?S)"
  proof (cases "pc \<in> ?S \<or> NoOfReaders st' > 0 \<or> NoOfWriters st' > 0")
    case True
    then show ?thesis by (metis fun_upd_same move_sel)
  next
    case False
    then have keep: "points st t \<notin> ?S" "pc \<noteq> W_blocked" "NoOfReaders st' = NoOfReaders st" "NoOfWriters st' = NoOfWriters st"
      using assms(3) by blast+
    then have "points st u = W_blocked" using u assms(2) by (simp split: if_splits)
    then obtain v where v: "points st v \<in> ?S" using assms(1) False keep(3,4) unfolding writers_served_def by metis
    then have "v \<noteq> t" using keep(1) by blast
    then have "points (move t pc st') v \<in> ?S" using v assms(2) by simp
    then show ?thesis by blast
  qed
qed

lemma no_writer_blocked:
  assumes "counts_fit n st" "holder_ok n st" "\<not> NoOfWritersWaiting st > 0"
  shows "points st u \<noteq> W_blocked"
proof
  assume u: "points st u = W_blocked"
  then have "u < n" using assms(2) by (auto simp: holder_ok_def)
  with thread_counts [OF assms(1)] u assms(3) show False by fastforce
qed

lemma served_signal:
  assumes "holder_ok n st" "signal_ok n ws st" "points st t \<noteq> W_blocked" "pc \<noteq> W_blocked"
  shows "writers_served n (move t pc (wake (\<lambda>u. u \<in> set ws) W_blocked W_woken st))"
proof (cases "\<exists>u. points st u = W_blocked")
  case True
  then obtain u where u: "points st u = W_blocked" by blast
  then have "u < n" using assms(1) by (simp add: holder_ok_def)
  with u obtain v where "v \<in> set ws" "points st v = W_blocked" using assms(2) by (auto simp: signal_ok_def list_ex_iff)
  moreover from this have "v \<noteq> t" using assms(3) by auto
  ultimately show ?thesis by (auto simp: writers_served_def intro!: exI [of _ v])
qed (use assms(4) in \<open>auto simp: writers_served_def split: if_splits\<close>)

lemma wake_readers:
  "points (wake W R_blocked R_woken st) u = W_blocked \<longleftrightarrow> points st u = W_blocked"
  "points (wake W R_blocked R_woken st) u \<in> {W_woken, W_test, W_count, RU_signal, WU_signal}
   \<longleftrightarrow> points st u \<in> {W_woken, W_test, W_count, RU_signal, WU_signal}"
  by auto

lemma wake_writers:
  "points (wake W W_blocked W_woken st) u = R_blocked \<longleftrightarrow> points st u = R_blocked"
  "points (wake W W_blocked W_woken st) u \<in> {WU_signal, WU_broadcast} \<longleftrightarrow> points st u \<in> {WU_signal, WU_broadcast}"
  by auto

lemma writers_served_acts:
  assumes "rw_acts n t st st'" "writers_served n st" "holder_ok n st" "counts_fit n st" "exclusive st"
  shows "writers_served n st'"
proof -
  have "0 \<le> NoOfReaders st \<and> 0 \<le> NoOfWriters st" using assms(4) by (simp add: counts_fit_def)
  with assms(1,2) no_writer_blocked [OF assms(4,3)] assms(3) show ?thesis
  proof (induction rule: rw_acts.induct)
    case (signal pc ws)
    then show ?case by (intro served_signal) auto
  next
    case ru_quiet
    then show ?case by (cases "NoOfReaders st = 0") (auto simp: writers_served_def split: if_splits)
  next
    case wu_quiet
    then show ?case by (auto simp: writers_served_def)
  next
    case broadcast
    then have "writers_served n (wake (\<lambda>_. True) R_blocked R_woken st)"
      by (simp only: writers_served_def wake_readers wake_sel(1-3))
    then show ?case by (rule writers_served_move) (use broadcast in auto)
  qed (erule writers_served_move; auto)+
qed

lemma readers_served_move:
  assumes "readers_served st" "points st' = points st"
    "pc \<in> {WU_signal, WU_broadcast} \<or> NoOfWriters st' > 0
     \<or> points st t \<notin> {WU_signal, WU_broadcast} \<and> pc \<noteq> R_blocked \<and> NoOfWriters st' = NoOfWriters st"
  shows "readers_served (move t pc st')"
  using assms unfolding readers_served_def by (auto split: if_splits)

lemma readers_served_acts:
  assumes "rw_acts n t st st'" "readers_served st" "exclusive st"
  shows "readers_served st'"
proof -
  have "0 \<le> NoOfWriters st" using assms(3) by (auto simp: exclusive_def)
  with assms(1,2) show ?thesis
  proof (induction rule: rw_acts.induct)
    case (signal pc ws)
    then have "readers_served (wake (\<lambda>u. u \<in> set ws) W_blocked W_woken st)"
      by (simp only: readers_served_def wake_writers wake_sel(1-3))
    then show ?case by (rule readers_served_move) (use signal in auto)
  next
    case broadcast
    then show ?case by (auto simp: readers_served_def split: if_splits)
  qed (erule readers_served_move; auto)+
qed

section \<open>Every run\<close>

lemma rw_inv_initial: "rw_inv n rw_initial"
  by (simp add: rw_inv_def rw_initial_def counts_fit_def holder_ok_def exclusive_def writers_served_def
      readers_served_def thread_sum_def)

lemma rw_inv_step:
  assumes "rw_step n e st = Some st'" "rw_inv n st"
  shows "rw_inv n st'"
proof -
  obtain t where acts: "rw_acts n t st st'" using rw_step_acts [OF assms(1)] by blast
  have inv: "counts_fit n st" "holder_ok n st" "exclusive st" "writers_served n st" "readers_served st"
    using assms(2) by (simp_all add: rw_inv_def)
  have "t < n" by (rule rw_acts_bound [OF acts inv(2)])
  then show ?thesis
    using counts_fit_acts [OF acts inv(1)] holder_ok_acts [OF acts inv(2)] exclusive_acts [OF acts inv(3,2,1)]
      writers_served_acts [OF acts inv(4,2,1,3)] readers_served_acts [OF acts inv(5,3)] by (simp add: rw_inv_def)
qed

lemma rw_inv_run: "rw_run n es st = Some st' \<Longrightarrow> rw_inv n st \<Longrightarrow> rw_inv n st'"
  by (induction n es st rule: rw_run.induct) (auto split: option.splits intro: rw_inv_step simp del: rw_step.simps)

lemma two_writers:
  assumes "counts_fit n st" "t < n" "u < n" "writes (points st t) = 1" "writes (points st u) = 1" "NoOfWriters st \<le> 1"
  shows "u = t"
proof (rule ccontr)
  assume "u \<noteq> t"
  then have "(\<Sum>v \<in> {t, u}. writes (points st v)) = 2" using assms(4,5) by simp
  moreover have "(\<Sum>v \<in> {t, u}. writes (points st v)) \<le> thread_sum n (\<lambda>_. writes) (points st)"
    unfolding thread_sum_def using assms(2,3) by (intro sum_mono2) auto
  ultimately show False using assms(1,6) by (simp add: counts_fit_def)
qed

section \<open>Nobody waits in vain\<close>

definition goes :: "nat \<Rightarrow> nat \<Rightarrow> rw_lock_t \<Rightarrow> bool" where
  "goes n t st = (\<exists>ws. rw_step n (Go t ws) st \<noteq> None)"

lemma signal_all: "signal_ok n [0..<n] st"
  by (simp add: signal_ok_def)

lemma can_go:
  assumes "points st t \<notin> {Idle, Reading, Writing, R_blocked, W_blocked}"
    "inside_m (points st t) \<or> class_mutex st = None"
  shows "goes n t st"
proof -
  have "rw_step n (Go t [0..<n]) st \<noteq> None"
    using assms by (cases "points st t") (auto simp: enter_def leave_def signal_writer_def signal_all)
  then show ?thesis unfolding goes_def by blast
qed

lemma none_goes:
  assumes "holder_ok n st" "\<forall>t. \<not> goes n t st"
  shows "points st t \<in> {Idle, Reading, Writing, R_blocked, W_blocked}"
proof -
  have "class_mutex st = None"
  proof (rule ccontr)
    assume "class_mutex st \<noteq> None"
    then obtain u where "inside_m (points st u)" using assms(1) by (auto simp: holder_ok_def)
    moreover from this have "points st u \<notin> {Idle, Reading, Writing, R_blocked, W_blocked}" by auto
    ultimately show False using can_go assms(2) by blast
  qed
  then show ?thesis using can_go [of st t n] assms(2) by blast
qed

lemma all_idle:
  assumes "rw_inv n st" "\<forall>t. points st t \<in> {Idle, R_blocked, W_blocked}"
  shows "points st t = Idle"
proof -
  have "reads (points st u) = 0" "writes (points st u) = 0" for u using assms(2) [rule_format, of u] by auto
  then have zero: "NoOfReaders st = 0" "NoOfWriters st = 0"
    using assms(1) by (simp_all add: rw_inv_def counts_fit_def thread_sum_def)
  have "points st u \<notin> {W_woken, W_test, W_count, RU_signal, WU_signal}" "points st u \<notin> {WU_signal, WU_broadcast}" for u
    using assms(2) [rule_format, of u] by auto
  then have "points st t \<noteq> W_blocked" "points st t \<noteq> R_blocked"
    using assms(1) zero unfolding rw_inv_def writers_served_def readers_served_def by fastforce+
  then show ?thesis using assms(2) by blast
qed

section \<open>Results\<close>

text \<open>Thread 0 writes while thread 1 waits to read and thread 2 to write.\<close>

definition contended :: "rw_event list" where
  "contended = Call_w_lock 0 # replicate 5 (Go 0 []) @ Call_r_lock 1 # replicate 2 (Go 1 [])
     @ Call_w_lock 2 # replicate 3 (Go 2 [])"

definition rw_seen :: "rw_lock_t option \<Rightarrow> (rw_point list \<times> int \<times> int \<times> int) option" where
  "rw_seen r = (case r of None \<Rightarrow> None
     | Some st \<Rightarrow> Some (map (points st) [0..<3], NoOfReaders st, NoOfWriters st, NoOfWritersWaiting st))"

lemma contended_end:
  "rw_seen (rw_run 3 contended rw_initial) = Some ([Writing, R_blocked, W_blocked], 0, 1, 1)"
  by code_simp

text \<open>C8. However any number of threads use the lock \<^verbatim>\<open>rw_lock_t\<close>: while a thread has it for writing, no
  other thread has it for writing or reading, and the counters are the numbers of threads that have
  been granted the lock and not yet given it back, and of writers that wait.\<close>

theorem rw_lock_exclusive:
  assumes "rw_run n es rw_initial = Some st"
  shows "(points st t = Writing \<and> points st u \<in> {Reading, Writing} \<longrightarrow> u = t)
     \<and> NoOfReaders st = (\<Sum>v<n. int (reads (points st v))) \<and> NoOfWriters st = (\<Sum>v<n. int (writes (points st v)))
     \<and> NoOfWritersWaiting st = (\<Sum>v<n. int (awaits (points st v)))"
proof -
  have inv: "counts_fit n st" "holder_ok n st" "exclusive st"
    using rw_inv_run [OF assms rw_inv_initial] by (simp_all add: rw_inv_def)
  have "u = t" if "points st t = Writing" "points st u \<in> {Reading, Writing}"
  proof -
    have less: "t < n" "u < n" using inv(2) that by (auto simp: holder_ok_def)
    have "NoOfWriters st = 1" "NoOfReaders st = 0"
      using thread_counts [OF inv(1) less(1)] that(1) inv(3) by (auto simp: exclusive_def)
    moreover from this have "points st u = Writing" using thread_counts [OF inv(1) less(2)] that(2) by auto
    ultimately show ?thesis using two_writers [OF inv(1) less] that(1) by simp
  qed
  then show ?thesis using inv(1) by (auto simp: counts_fit_def thread_sum_def)
qed

lemma rw_lock_exclusive_witness:
  "\<exists>st. rw_run 3 contended rw_initial = Some st \<and> points st 0 = Writing \<and> (\<forall>u. u \<noteq> 0 \<longrightarrow> points st u \<notin> {Reading, Writing})"
proof -
  obtain st where st: "rw_run 3 contended rw_initial = Some st" "map (points st) [0..<3] = [Writing, R_blocked, W_blocked]"
    using contended_end by (auto simp: rw_seen_def split: option.splits)
  then have "points st 0 = Writing" by (simp add: upt_rec numeral_eq_Suc)
  with rw_lock_exclusive [OF st(1), of 0] st(1) show ?thesis by blast
qed

text \<open>C9. Nobody waits in vain for the lock \<^verbatim>\<open>rw_lock_t\<close>: as long as a thread is inside one of the four
  operations, some thread can go on with its operation, or a thread has the lock for reading or writing.\<close>

theorem rw_lock_never_stuck:
  assumes "rw_run n es rw_initial = Some st" "points st t \<notin> {Idle, Reading, Writing}"
  shows "(\<exists>u ws. rw_step n (Go u ws) st \<noteq> None) \<or> (\<exists>u. points st u \<in> {Reading, Writing})"
proof (rule ccontr)
  assume stuck: "\<not> ?thesis"
  have inv: "rw_inv n st" using rw_inv_run [OF assms(1) rw_inv_initial] .
  then have "holder_ok n st" by (simp add: rw_inv_def)
  moreover have "\<forall>u. \<not> goes n u st" using stuck unfolding goes_def by blast
  ultimately have "points st u \<in> {Idle, Reading, Writing, R_blocked, W_blocked}" for u using none_goes by blast
  then have "\<forall>u. points st u \<in> {Idle, R_blocked, W_blocked}" using stuck by blast
  then have "points st t = Idle" by (rule all_idle [OF inv])
  then show False using assms(2) by simp
qed

lemma rw_lock_never_stuck_witness:
  "\<exists>st. rw_run 3 contended rw_initial = Some st \<and> points st 1 = R_blocked
     \<and> ((\<exists>u ws. rw_step 3 (Go u ws) st \<noteq> None) \<or> (\<exists>u. points st u \<in> {Reading, Writing}))"
proof -
  obtain st where st: "rw_run 3 contended rw_initial = Some st" "map (points st) [0..<3] = [Writing, R_blocked, W_blocked]"
    using contended_end by (auto simp: rw_seen_def split: option.splits)
  then have "points st 1 = R_blocked" by (simp add: upt_rec numeral_eq_Suc)
  with rw_lock_never_stuck [OF st(1), of 1] st(1) show ?thesis by simp
qed

end
