(* ===== verification/Tell_Wait.thy ===== *)
theory Tell_Wait
  imports Prelude
begin

text \<open>
  The synchronisation of parent and child in \<^verbatim>\<open>tcpipi/sock/tellwait.c\<close>, and its use by the forking
  server of \<^verbatim>\<open>servopen.c\<close>: after each \<^verbatim>\<open>fork\<close> the parent waits until the child has told it that it is
  done with the terminal.  A process is its flag, its signal mask and its pending signals; the two
  signals do not queue.  One step is one test, one system call or one assignment, and a child may send
  its signal, or end with an error before it does, at any moment after it was made.

  The lemmas show that the first handshake succeeds unless \<^verbatim>\<open>fork\<close> fails or the child ends before it
  tells, and that the second one can fail without that: \<^verbatim>\<open>WAIT_CHILD\<close> gives
  the signals free again, \<^verbatim>\<open>TELL_WAIT\<close> is called only once, and so the signal of the second child may
  arrive between the test of the flag and \<^verbatim>\<open>sigsuspend\<close>.
\<close>

section \<open>Signals\<close>

datatype signal = SIGUSR1 | SIGUSR2 | SIGOTHER

datatype wait_point = Running | Forking | Closing | Exited | Wait_test | Wait_suspend | Wait_paused | Wait_clear | Wait_restore

record process =
  sigflag :: bool
  handled :: "signal list"
  mask :: "signal list"
  pending :: "signal list"
  newmask :: "signal list"
  oldmask :: "signal list"
  zeromask :: "signal list"
  at_point :: wait_point

definition new_process :: "signal list \<Rightarrow> process" where
  "new_process m = \<lparr>sigflag = False, handled = [], mask = m, pending = [], newmask = [], oldmask = [],
     zeromask = [], at_point = Running\<rparr>"

text \<open>The handler, and the delivery of what is pending and not blocked.  A signal without a handler
  ends the process, the result \<^const>\<open>None\<close>.\<close>

definition sig_usr :: "process \<Rightarrow> process" where
  "sig_usr p = p\<lparr>sigflag := True\<rparr>"

definition deliver :: "process \<Rightarrow> process option" where
  "deliver p =
     (case filter (\<lambda>s. s \<notin> set (mask p)) (pending p) of [] \<Rightarrow> Some p
      | s # ss \<Rightarrow> if set (s # ss) \<subseteq> set (handled p)
          then Some ((sig_usr p)\<lparr>pending := filter (\<lambda>s. s \<in> set (mask p)) (pending p)\<rparr>) else None)"

text \<open>A process in \<^verbatim>\<open>sigsuspend\<close> has its own mask replaced; the call returns after a handler has run,
  with the mask it found.\<close>

definition wakes_up :: "process \<Rightarrow> bool" where
  "wakes_up p = list_ex (\<lambda>s. s \<notin> set (zeromask p)) (pending p)"

definition end_suspend :: "process \<Rightarrow> process option" where
  "end_suspend p =
     (if wakes_up p
      then do { q \<leftarrow> deliver (p\<lparr>mask := zeromask p\<rparr>); Some (q\<lparr>mask := mask p, at_point := Wait_test\<rparr>) }
      else Some (p\<lparr>at_point := Wait_paused\<rparr>))"

definition kill :: "signal \<Rightarrow> process \<Rightarrow> process option" where
  "kill s p =
     (let p = p\<lparr>pending := (if s \<in> set (pending p) then pending p else s # pending p)\<rparr>
      in if at_point p = Wait_paused then end_suspend p else deliver p)"

section \<open>The operations\<close>

definition TELL_WAIT :: "process \<Rightarrow> process" where
  "TELL_WAIT p =
     p\<lparr>handled := SIGUSR2 # SIGUSR1 # handled p, zeromask := [], newmask := [SIGUSR1, SIGUSR2],
       oldmask := mask p, mask := [SIGUSR1, SIGUSR2] @ mask p\<rparr>"

definition TELL_PARENT :: "process \<Rightarrow> process option" where
  "TELL_PARENT parent = kill SIGUSR2 parent"

definition TELL_CHILD :: "process \<Rightarrow> process option" where
  "TELL_CHILD child = kill SIGUSR1 child"

text \<open>\<^verbatim>\<open>WAIT_PARENT\<close> and \<^verbatim>\<open>WAIT_CHILD\<close> have the same body.\<close>

fun wait_step :: "wait_point \<Rightarrow> process \<Rightarrow> process option" where
  "wait_step Wait_test p = Some (p\<lparr>at_point := if sigflag p then Wait_clear else Wait_suspend\<rparr>)"
| "wait_step Wait_suspend p = end_suspend p"
| "wait_step Wait_clear p = Some (p\<lparr>sigflag := False, at_point := Wait_restore\<rparr>)"
| "wait_step Wait_restore p = deliver (p\<lparr>mask := oldmask p, at_point := Running\<rparr>)"
| "wait_step pc p = Some p"

section \<open>The server\<close>

text \<open>
  The parent, the number of connections accepted so far, whether the child it waits for has told
  it, and whether that child ended before it could.  \<open>Running\<close>, \<open>Forking\<close> and \<open>Closing\<close> are the points right before
  \<^verbatim>\<open>accept\<close>, \<^verbatim>\<open>fork\<close> and \<^verbatim>\<open>close\<close>.  When \<^verbatim>\<open>accept\<close> or \<^verbatim>\<open>fork\<close> fails, \<^verbatim>\<open>err_sys\<close> ends the parent; when
  \<^verbatim>\<open>getsockname\<close>, \<^verbatim>\<open>buffers\<close> or \<^verbatim>\<open>sockopts\<close> fails in the child, it ends the child.
\<close>

record server =
  parent :: process
  accepted :: nat
  told :: bool
  gone :: bool

datatype server_move = Parent | Child | Accept_fails | Fork_fails | Child_fails

definition server_start :: "signal list \<Rightarrow> server" where
  "server_start m = \<lparr>parent = TELL_WAIT (new_process m), accepted = 0, told = True, gone = False\<rparr>"

definition to_point :: "wait_point \<Rightarrow> server \<Rightarrow> server" where
  "to_point pc s = s\<lparr>parent := (parent s)\<lparr>at_point := pc\<rparr>\<rparr>"

text \<open>\<^const>\<open>None\<close> is a step that is not possible: the parent sleeps or has ended, or there is no child that
  could still tell it.\<close>

fun server_step :: "server_move \<Rightarrow> server \<Rightarrow> server option" where
  "server_step Parent s =
     (case at_point (parent s) of
        Running \<Rightarrow> Some ((to_point Forking s)\<lparr>accepted := accepted s + 1\<rparr>)
      | Forking \<Rightarrow> Some ((to_point Closing s)\<lparr>told := False, gone := False\<rparr>)
      | Closing \<Rightarrow> Some (to_point Wait_test s)
      | Exited \<Rightarrow> None
      | Wait_paused \<Rightarrow> None
      | pc \<Rightarrow> do { p \<leftarrow> wait_step pc (parent s); Some (s\<lparr>parent := p\<rparr>) })"
| "server_step Accept_fails s = (if at_point (parent s) = Running then Some (to_point Exited s) else None)"
| "server_step Fork_fails s = (if at_point (parent s) = Forking then Some (to_point Exited s) else None)"
| "server_step Child s =
     (if told s \<or> gone s then None
      else if at_point (parent s) = Exited then Some (s\<lparr>told := True\<rparr>)
      else do { p \<leftarrow> TELL_PARENT (parent s); Some (s\<lparr>parent := p, told := True\<rparr>) })"
| "server_step Child_fails s = (if told s \<or> gone s then None else Some (s\<lparr>gone := True\<rparr>))"

fun server_run :: "server_move list \<Rightarrow> server \<Rightarrow> server option" where
  "server_run [] s = Some s"
| "server_run (m # ms) s = do { s \<leftarrow> server_step m s; server_run ms s }"

section \<open>The first connection\<close>

text \<open>The signals are blocked until the handshake is over, and the flag is set only by the child.\<close>

definition first_ok :: "signal list \<Rightarrow> server \<Rightarrow> bool" where
  "first_ok m s = (let p = parent s; blocked = (mask p = [SIGUSR1, SIGUSR2] @ m);
       unseen = (\<not> sigflag p \<and> pending p = (if told s then [SIGUSR2] else [])) in
     accepted s = 1 \<and> handled p = [SIGUSR2, SIGUSR1] \<and> zeromask p = [] \<and> oldmask p = m \<and> \<not> (told s \<and> gone s)
     \<and> (case at_point p of
          Forking \<Rightarrow> blocked \<and> \<not> sigflag p \<and> pending p = [] \<and> told s
        | Closing \<Rightarrow> blocked \<and> unseen
        | Wait_test \<Rightarrow> blocked \<and> (sigflag p \<and> told s \<and> pending p = [] \<or> unseen)
        | Wait_suspend \<Rightarrow> blocked \<and> unseen
        | Wait_paused \<Rightarrow> blocked \<and> \<not> sigflag p \<and> \<not> told s \<and> pending p = []
        | Wait_clear \<Rightarrow> blocked \<and> sigflag p \<and> told s \<and> pending p = []
        | Wait_restore \<Rightarrow> blocked \<and> \<not> sigflag p \<and> told s \<and> pending p = []
        | Running \<Rightarrow> mask p = m \<and> \<not> sigflag p \<and> told s \<and> pending p = []
        | Exited \<Rightarrow> False))"

lemmas signal_defs = first_ok_def to_point_def TELL_PARENT_def kill_def deliver_def end_suspend_def wakes_up_def sig_usr_def

lemma first_ok_child:
  "first_ok m s \<Longrightarrow> \<not> told s \<Longrightarrow> \<not> gone s \<Longrightarrow> \<exists>s'. server_step Child s = Some s' \<and> first_ok m s'"
  by (cases "at_point (parent s)") (auto simp: signal_defs Let_def)

lemma first_ok_parent:
  "first_ok m s \<Longrightarrow> at_point (parent s) \<noteq> Running \<Longrightarrow> at_point (parent s) \<noteq> Wait_paused \<Longrightarrow>
   \<exists>s'. server_step Parent s = Some s' \<and> first_ok m s'"
  by (cases "at_point (parent s)") (auto simp: signal_defs Let_def)

text \<open>The steps the first handshake still takes, with a child that tells and with one that is gone.\<close>

fun steps_to_go :: "wait_point \<Rightarrow> bool \<Rightarrow> bool \<Rightarrow> nat" where
  "steps_to_go Running f t = 0"
| "steps_to_go Exited f t = 0"
| "steps_to_go Forking f t = 8"
| "steps_to_go Closing f t = (if t then 6 else 7)"
| "steps_to_go Wait_restore f t = 1"
| "steps_to_go Wait_clear f t = 2"
| "steps_to_go Wait_test f t = (if f then 3 else if t then 5 else 6)"
| "steps_to_go Wait_suspend f t = (if t then 4 else 5)"
| "steps_to_go Wait_paused f t = 4"

definition to_go :: "server \<Rightarrow> nat" where
  "to_go s = steps_to_go (at_point (parent s)) (sigflag (parent s)) (told s)"

text \<open>What holds after \<open>n\<close> steps of the first connection.\<close>

definition first_inv :: "signal list \<Rightarrow> nat \<Rightarrow> server \<Rightarrow> bool" where
  "first_inv m n s \<longleftrightarrow> first_ok m s \<and> (if gone s then n + to_go s \<le> 10 else n + to_go s = 9)"

lemma first_inv_move:
  assumes "first_inv m n s" "server_step a s = Some s'" "accepted s' = 1" "a \<noteq> Accept_fails" "a \<noteq> Fork_fails"
  shows "first_inv m (Suc n) s'"
  using assms
  by (cases a; cases "at_point (parent s)") (auto simp: first_inv_def signal_defs to_go_def Let_def split: if_splits)

lemma accepted_step: "server_step a s = Some s' \<Longrightarrow> accepted s \<le> accepted s'"
  by (cases a) (auto simp: to_point_def split: if_splits Option.bind_splits wait_point.splits)

lemma accepted_run: "server_run ms s = Some s' \<Longrightarrow> accepted s \<le> accepted s'"
  by (induction ms arbitrary: s) (fastforce dest: accepted_step split: Option.bind_splits)+

lemma no_step_exited:
  assumes "at_point (parent s) = Exited" "told s"
  shows "server_step a s = None"
  using assms by (cases a) auto

lemma first_run:
  "server_run ms s = Some s' \<Longrightarrow> first_inv m n s \<Longrightarrow> accepted s' = 1 \<Longrightarrow> Accept_fails \<notin> set ms \<Longrightarrow>
   first_inv m (n + length ms) s' \<or> at_point (parent s') = Exited \<and> Fork_fails \<in> set ms"
proof (induction ms arbitrary: s n)
  case (Cons a ms)
  then obtain s1 where s1: "server_step a s = Some s1" "server_run ms s1 = Some s'" by (auto split: Option.bind_splits)
  show ?case
  proof (cases "a = Fork_fails")
    case True
    then have "at_point (parent s1) = Exited \<and> told s1"
      using s1(1) Cons.prems(2) by (auto simp: first_inv_def first_ok_def to_point_def Let_def split: if_splits)
    then have "ms = []" using s1(2) no_step_exited [of s1] by (cases ms) auto
    then show ?thesis using True s1(2) \<open>at_point (parent s1) = Exited \<and> told s1\<close> by simp
  next
    case False
    have "accepted s = 1" using Cons.prems(2) by (simp add: first_inv_def first_ok_def Let_def)
    then have "accepted s1 = 1" using accepted_step [OF s1(1)] accepted_run [OF s1(2)] Cons.prems(3) by simp
    then have "first_inv m (Suc n) s1"
      using first_inv_move [OF Cons.prems(2) s1(1)] False Cons.prems(4) by auto
    then have "first_inv m (Suc n + length ms) s' \<or> at_point (parent s') = Exited \<and> Fork_fails \<in> set ms"
      using Cons.IH [OF s1(2)] Cons.prems(3,4) by (auto simp del: add_Suc)
    then show ?thesis by auto
  qed
qed simp

lemma first_inv_run:
  assumes "first_inv m n s"
  shows "if at_point (parent s) = Running
    then n = 9 \<and> told s \<and> \<not> gone s \<and> mask (parent s) = m \<and> \<not> sigflag (parent s) \<and> pending (parent s) = []
    else n < 9"
  using assms
  by (cases "at_point (parent s)") (auto simp: first_inv_def first_ok_def to_go_def Let_def split: if_splits)

lemma first_inv_goes:
  assumes "first_inv m n s" "at_point (parent s) \<noteq> Running"
  shows "if gone s
    then if at_point (parent s) = Wait_paused then \<forall>a. server_step a s = None
         else \<exists>s'. server_step Parent s = Some s' \<and> accepted s' = 1
    else \<exists>a s'. a \<in> {Parent, Child} \<and> server_step a s = Some s' \<and> accepted s' = 1"
proof -
  have ok: "first_ok m s" using assms(1) by (simp add: first_inv_def)
  have asleep: "\<forall>a. server_step a s = None" if "gone s" "at_point (parent s) = Wait_paused"
  proof
    fix a show "server_step a s = None" using that by (cases a) auto
  qed
  have "\<exists>s'. server_step Parent s = Some s' \<and> accepted s' = 1" if "at_point (parent s) \<noteq> Wait_paused"
    using first_ok_parent [OF ok assms(2) that] by (auto simp: first_ok_def Let_def)
  moreover have "\<exists>s'. server_step Child s = Some s' \<and> accepted s' = 1" if "at_point (parent s) = Wait_paused" "\<not> gone s"
    using first_ok_child [OF ok _ that(2)] ok that(1) by (auto simp: first_ok_def Let_def)
  ultimately show ?thesis using asleep by (metis insertI1 insertI2)
qed

lemma first_start:
  assumes "server_step a (server_start m) = Some s" "a \<noteq> Accept_fails"
  shows "first_inv m 1 s"
  using assms
  by (cases a) (auto simp: server_start_def TELL_WAIT_def new_process_def first_inv_def first_ok_def to_go_def to_point_def)

section \<open>Results\<close>


text \<open>The child tells while the parent is on its way to \<^verbatim>\<open>sigsuspend\<close>.\<close>

definition early_child :: "server_move list" where
  "early_child = [Parent, Parent, Parent, Parent, Child, Parent, Parent, Parent, Parent]"


text \<open>C21. From the second connection on the handshake can fail: if the child sends its signal after the
  parent has found the flag unset and before it calls \<^verbatim>\<open>sigsuspend\<close>, the parent sleeps with its flag set,
  the child has nothing left to send, and the server never accepts another connection.\<close>

theorem second_handshake_loses_signal:
  assumes "SIGUSR2 \<notin> set m" "SIGUSR1 \<notin> set m"
  shows "\<exists>s. server_run (early_child @ [Parent, Parent, Parent, Parent, Child, Parent]) (server_start m) = Some s
     \<and> accepted s = 2 \<and> told s \<and> sigflag (parent s) \<and> at_point (parent s) = Wait_paused
     \<and> (\<forall>a. server_step a s = None)"
proof -
  have "\<forall>a. server_step a s = None" if "at_point (parent s) = Wait_paused" "told s" for s
  proof
    fix a show "server_step a s = None" using that by (cases a) auto
  qed
  then show ?thesis using assms
    by (simp add: early_child_def server_start_def TELL_WAIT_def new_process_def signal_defs Let_def)
qed

lemma second_handshake_loses_signal_witness:
  "\<exists>s. server_run (early_child @ [Parent, Parent, Parent, Parent, Child, Parent]) (server_start []) = Some s
     \<and> accepted s = 2 \<and> sigflag (parent s) \<and> (\<forall>a. server_step a s = None)"
  using second_handshake_loses_signal [of "[]"] by auto

end
