(* ===== verification/Arp.thy ===== *)
theory Arp
  imports Trace_Reply C_Input
begin

text \<open>
  The ARP packets of \<^verbatim>\<open>prog_arp_linux.c\<close>, which sends one request and prints what comes back, as bytes
  in memory, for hosts of either byte order.  The kernel is a record of what the system calls answer;
  what \<^verbatim>\<open>recvfrom\<close> delivers is a list, so that a run of the endless loop is as long as the list.  The
  result of a run is the exit status, if it ends, and the lines printed.

  The lemmas show the frame that is sent byte by byte, the same on both kinds of hosts, and how frames
  that arrive are taken apart.
\<close>

section \<open>Packets\<close>

definition IP_ALEN :: nat where
  "IP_ALEN = 4"

definition ETH_ALEN :: nat where
  "ETH_ALEN = 6"

record arp_packet_linux =
  htype :: u16
  ptype :: u16
  hlen :: u8
  plen :: u8
  op_code :: u16
  sender_mac :: "u8 list"
  sender_ip :: "u8 list"
  target_mac :: "u8 list"
  target_ip :: "u8 list"

record ether_packet_linux =
  dest :: "u8 list"
  src :: "u8 list"
  eth_protocol :: u16
  arp_packet :: arp_packet_linux

text \<open>The structs in memory; all offsets of two-byte members are even, so there is no padding.\<close>

definition arp_bytes :: "host \<Rightarrow> arp_packet_linux \<Rightarrow> u8 list" where
  "arp_bytes e p = put16 e (htype p) @ put16 e (ptype p) @ [hlen p, plen p] @ put16 e (op_code p)
     @ sender_mac p @ sender_ip p @ target_mac p @ target_ip p"

definition ether_bytes :: "host \<Rightarrow> ether_packet_linux \<Rightarrow> u8 list" where
  "ether_bytes e p = dest p @ src p @ put16 e (eth_protocol p) @ arp_bytes e (arp_packet p)"

definition field :: "nat \<Rightarrow> nat \<Rightarrow> u8 list \<Rightarrow> u8 list" where
  "field i n bs = take n (drop i bs)"

definition field16 :: "host \<Rightarrow> nat \<Rightarrow> u8 list \<Rightarrow> u16" where
  "field16 e i bs = of_nat (val16 e (bs ! i) (bs ! (i + 1)))"

definition ether_packet :: "host \<Rightarrow> u8 list \<Rightarrow> ether_packet_linux" where
  "ether_packet e bs = \<lparr>dest = field 0 6 bs, src = field 6 6 bs, eth_protocol = field16 e 12 bs,
     arp_packet = \<lparr>htype = field16 e 14 bs, ptype = field16 e 16 bs, hlen = bs ! 18, plen = bs ! 19,
       op_code = field16 e 20 bs, sender_mac = field 22 6 bs, sender_ip = field 28 4 bs,
       target_mac = field 32 6 bs, target_ip = field 38 4 bs\<rparr>\<rparr>"

definition prepare_ether_packet :: "host \<Rightarrow> u8 list \<Rightarrow> ether_packet_linux \<Rightarrow> ether_packet_linux" where
  "prepare_ether_packet e mymac eth_packet =
     (let arbitary_ip = [1, 2, 3, 4]; my_ip = [10, 0, 2, 15]
      in eth_packet\<lparr>dest := replicate ETH_ALEN 0xFF, src := mymac, eth_protocol := htons e 0x806,
           arp_packet := (arp_packet eth_packet)\<lparr>htype := htons e 0x1, ptype := htons e 0x800, hlen := 0x6, plen := 0x4,
             op_code := htons e 0x1, sender_mac := mymac, sender_ip := my_ip, target_ip := arbitary_ip\<rparr>\<rparr>)"

section \<open>The program\<close>

datatype arp_received = Recv_error | Frame "u8 list"

record arp_kernel =
  a_socket :: int
  a_calloc :: bool
  a_hwaddr :: "u8 list option"
  a_ifindex :: "int option"
  a_bind :: int
  a_sendto :: "u8 list \<Rightarrow> int"

record sockaddr_ll =
  sll_family :: int
  sll_protocol :: u16
  sll_ifindex :: int
  sll_addr :: "u8 list"

definition AF_PACKET :: int where
  "AF_PACKET = 17"

definition prepare_slladdr :: "host \<Rightarrow> arp_kernel \<Rightarrow> sockaddr_ll \<Rightarrow> (string, sockaddr_ll \<times> u8 list) sum" where
  "prepare_slladdr e K sockaddr =
     (case a_hwaddr K of None \<Rightarrow> Inl ''ioctl(SIOCGIFHWADDR) failed!''
      | Some sa_data \<Rightarrow>
          (case a_ifindex K of None \<Rightarrow> Inl ''ioctl(SIOCGIFINDEX) failed!''
           | Some i \<Rightarrow> Inr (sockaddr\<lparr>sll_addr := take ETH_ALEN sa_data @ drop ETH_ALEN (sll_addr sockaddr), sll_ifindex := i, sll_protocol := htons e 0x806\<rparr>,
               take ETH_ALEN sa_data)))"

datatype arp_line = Perror string | Arp_request "u8 list" | Arp_reply "u8 list" | Sent "u8 list"

text \<open>A frame overwrites the packet from its beginning, at most \<^verbatim>\<open>sizeof(eth_packet)\<close> bytes of it.\<close>

definition receive_into :: "u8 list \<Rightarrow> u8 list \<Rightarrow> u8 list" where
  "receive_into buf ds = take (length buf) ds @ drop (length ds) buf"

fun arp_receive :: "host \<Rightarrow> arp_received list \<Rightarrow> u8 list \<Rightarrow> arp_line list" where
  "arp_receive e [] buf = []"
| "arp_receive e (Recv_error # rs) buf = Perror ''recvfrom error!'' # arp_receive e rs buf"
| "arp_receive e (Frame ds # rs) buf =
     (let buf = receive_into buf ds; p = arp_packet (ether_packet e buf)
      in (if op_code p = htons e 0x1 then Arp_request (sender_mac p) else Arp_reply (sender_mac p)) # arp_receive e rs buf)"

text \<open>The packet on the stack is not initialised; \<open>garbage\<close> is what it happens to hold.\<close>

definition arp_main :: "host \<Rightarrow> arp_kernel \<Rightarrow> u8 list \<Rightarrow> arp_received list \<Rightarrow> int option \<times> arp_line list" where
  "arp_main e K garbage rs =
     (if a_socket K < 0 then (Some 1, [Perror ''Socket creation error!''])
      else if \<not> a_calloc K then (Some 1, [Perror ''sock_addr allocation failed!''])
      else (case prepare_slladdr e K \<lparr>sll_family = AF_PACKET, sll_protocol = 0, sll_ifindex = 0, sll_addr = replicate 8 0\<rparr> of
        Inl msg \<Rightarrow> (Some 1, [Perror msg])
      | Inr (sock_addr, mymac) \<Rightarrow>
          (let bound = (if a_bind K < 0 then [Perror ''Bind Error!''] else []);
               pkt = ether_bytes e (prepare_ether_packet e mymac (ether_packet e garbage))
           in if a_sendto K pkt < 0 then (Some 1, bound @ [Perror ''Send to failed!''])
              else (None, bound @ Sent pkt # arp_receive e rs pkt))))"

section \<open>Layout\<close>

lemma put16_htons_big: "put16 e (htons e w) = [of_nat (unat w div 256), of_nat (unat w mod 256)]"
  using put16_htons [of e w] by simp

text \<open>A packet that is well-formed can be read back from its bytes.\<close>

definition packet_wf :: "ether_packet_linux \<Rightarrow> bool" where
  "packet_wf p = (length (dest p) = 6 \<and> length (src p) = 6 \<and> length (sender_mac (arp_packet p)) = 6
     \<and> length (sender_ip (arp_packet p)) = 4 \<and> length (target_mac (arp_packet p)) = 6 \<and> length (target_ip (arp_packet p)) = 4)"

lemma ether_bytes_length: "packet_wf p \<Longrightarrow> length (ether_bytes e p) = 42"
  by (simp add: packet_wf_def ether_bytes_def arp_bytes_def)

lemma ether_packet_wf: "length bs = 42 \<Longrightarrow> packet_wf (ether_packet e bs)"
  by (simp add: packet_wf_def ether_packet_def field_def)

lemma prepare_wf: "length m = 6 \<Longrightarrow> packet_wf p \<Longrightarrow> packet_wf (prepare_ether_packet e m p)"
  by (simp add: packet_wf_def prepare_ether_packet_def ETH_ALEN_def Let_def)

text \<open>The bytes of the request.\<close>

definition request_frame :: "u8 list \<Rightarrow> u8 list \<Rightarrow> u8 list" where
  "request_frame mymac junk = replicate 6 0xFF @ mymac @ [0x08, 0x06, 0, 1, 0x08, 0x00, 6, 4, 0, 1] @ mymac
     @ [10, 0, 2, 15] @ junk @ [1, 2, 3, 4]"

lemma prepare_bytes:
  "ether_bytes e (prepare_ether_packet e m p) = request_frame m (target_mac (arp_packet p))"
  by (simp add: ether_bytes_def arp_bytes_def prepare_ether_packet_def request_frame_def put16_htons_big Let_def ETH_ALEN_def)

lemma receive_length: "length (receive_into buf ds) = length buf"
  by (simp add: receive_into_def)

lemma receive_whole: "length ds = length buf \<Longrightarrow> receive_into buf ds = ds"
  by (simp add: receive_into_def)

lemma op_code_request:
  "op_code (arp_packet (ether_packet e bs)) = htons e 1 \<longleftrightarrow> bs ! 20 = 0 \<and> bs ! 21 = 1"
proof -
  have "op_code (arp_packet (ether_packet e bs)) = htons e 1 \<longleftrightarrow> of_nat (val16 BigEndian (bs ! 20) (bs ! 21)) = (1 :: u16)"
    by (simp only: ether_packet_def field16_def val16_network ether_packet_linux.select_convs arp_packet_linux.select_convs) simp
  also have "\<dots> \<longleftrightarrow> put16 BigEndian (of_nat (val16 BigEndian (bs ! 20) (bs ! 21))) = put16 BigEndian 1"
    by (rule put16_inject [symmetric])
  also have "\<dots> \<longleftrightarrow> [bs ! 20, bs ! 21] = [0, 1]" unfolding put16_val16 by simp
  finally show ?thesis by simp
qed

section \<open>What the program does\<close>

text \<open>The line printed for a frame that fills the packet.\<close>

definition arp_report :: "arp_received \<Rightarrow> arp_line" where
  "arp_report r = (case r of Recv_error \<Rightarrow> Perror ''recvfrom error!''
     | Frame ds \<Rightarrow> (if ds ! 20 = 0 \<and> ds ! 21 = 1 then Arp_request (field 22 6 ds) else Arp_reply (field 22 6 ds)))"

lemma receive_long: "length buf \<le> length ds \<Longrightarrow> receive_into buf ds = take (length buf) ds"
  by (simp add: receive_into_def)

lemma arp_receive_reports:
  "length buf = 42 \<Longrightarrow> \<forall>ds. Frame ds \<in> set rs \<longrightarrow> 42 \<le> length ds \<Longrightarrow> arp_receive e rs buf = map arp_report rs"
proof (induction rs arbitrary: buf)
  case (Cons r rs)
  show ?case
  proof (cases r)
    case (Frame ds)
    then have ds: "receive_into buf ds = take 42 ds" "42 \<le> length ds" using Cons.prems receive_long [of buf ds] by auto
    then have "arp_receive e rs (take 42 ds) = map arp_report rs" using Cons by simp
    moreover have "sender_mac (arp_packet (ether_packet e (take 42 ds))) = field 22 6 ds"
      by (simp add: ether_packet_def field_def min_def take_drop)
    ultimately show ?thesis using Frame ds by (simp add: Let_def op_code_request arp_report_def)
  qed (use Cons in \<open>simp add: arp_report_def\<close>)
qed simp

section \<open>Results\<close>

text \<open>When the system calls succeed, \<^verbatim>\<open>prog_arp_linux.c\<close> sends the same 42 bytes on hosts of either byte
  order, a broadcast ARP request with its own hardware address, in which the six bytes of the target
  address are whatever the stack held, and then names for every frame the sender and whether it is a
  request, that is, has operation code 1 in network byte order.\<close>

theorem arp_sends_request:
  assumes "0 \<le> a_socket K" "a_calloc K" "a_hwaddr K = Some sa_data" "6 \<le> length sa_data" "a_ifindex K = Some i"
    "0 \<le> a_bind K" "length garbage = 42" "\<forall>ds. 0 \<le> a_sendto K ds" "\<forall>ds. Frame ds \<in> set rs \<longrightarrow> 42 \<le> length ds"
  shows "arp_main e K garbage rs
     = (None, Sent (request_frame (take 6 sa_data) (field 32 6 garbage)) # map arp_report rs)"
proof -
  let ?m = "take 6 sa_data" and ?p = "ether_packet e garbage"
  have junk: "target_mac (arp_packet ?p) = field 32 6 garbage" by (simp add: ether_packet_def)
  have "length (ether_bytes e (prepare_ether_packet e ?m ?p)) = 42"
    using assms(4,7) by (intro ether_bytes_length prepare_wf ether_packet_wf) simp_all
  then have "length (request_frame ?m (field 32 6 garbage)) = 42" by (simp add: prepare_bytes junk)
  then show ?thesis using assms(1-6,8) arp_receive_reports [OF _ assms(9), of "request_frame ?m (field 32 6 garbage)" e]
    by (simp add: arp_main_def prepare_slladdr_def ETH_ALEN_def prepare_bytes junk Let_def not_less)
qed

definition sample_arp_kernel :: arp_kernel where
  "sample_arp_kernel = \<lparr>a_socket = 3, a_calloc = True, a_hwaddr = Some [2, 0, 0, 0, 0, 9, 0, 0], a_ifindex = Some 2,
     a_bind = 0, a_sendto = (\<lambda>_. 42)\<rparr>"

lemma arp_sends_request_witness:
  "arp_main LittleEndian sample_arp_kernel (replicate 42 0) [Recv_error]
     = (None, [Sent (request_frame [2, 0, 0, 0, 0, 9] [0, 0, 0, 0, 0, 0]), Perror ''recvfrom error!''])"
  using arp_sends_request [of sample_arp_kernel "[2, 0, 0, 0, 0, 9, 0, 0]" 2 "replicate 42 0" "[Recv_error]" LittleEndian]
  by (simp add: sample_arp_kernel_def field_def arp_report_def numeral_eq_Suc)

end
