(* ===== verification/Cpp_Queue.thy ===== *)
theory Cpp_Queue
  imports Prelude
begin

text \<open>
  The templates of the C++ samples: the ring of cells of \<^verbatim>\<open>prog_queue.cpp\<close>, which
  \<^verbatim>\<open>discovery/sunsetSolarDiscoDataModel.h\<close> repeats as \<^verbatim>\<open>dataQueue\<close>, and the bounded stack of
  \<^verbatim>\<open>prog_stack.cpp\<close>.  Cells are objects on a heap, the \<open>i\<close>-th that the constructor creates has
  address \<open>i\<close>; a result \<^const>\<open>None\<close> is a dereference of a null pointer.  What \<^verbatim>\<open>pop\<close> returns when there
  is nothing to pop is unspecified, and is \<^const>\<open>None\<close> as well.

  The lemmas show that the constructor builds a ring and that the queue behaves like one of one element
  less than its size which in addition swallows an element: the push that fills it up reports
  nothing, but what it stores is never popped.
\<close>

section \<open>The ring of cells\<close>

record 'a CBuffer =
  item :: 'a
  next_cell :: "nat option"

record 'a Queue =
  cells :: "nat \<rightharpoonup> 'a CBuffer"
  queueFull :: bool
  front :: "nat option"
  tail :: "nat option"

fun add_cells :: "nat \<Rightarrow> nat \<Rightarrow> nat option \<Rightarrow> ('a::zero) Queue \<Rightarrow> 'a Queue option" where
  "add_cells 0 index prev q = Some q"
| "add_cells (Suc k) index prev q =
     (let q' = q\<lparr>cells := (cells q)(index \<mapsto> \<lparr>item = 0, next_cell = front q\<rparr>)\<rparr>
      in if index = 0 then add_cells k (index + 1) (Some index) (q'\<lparr>front := Some index\<rparr>)
         else do {
           p \<leftarrow> prev;
           c \<leftarrow> cells q' p;
           add_cells k (index + 1) (Some index) (q'\<lparr>cells := (cells q')(p \<mapsto> c\<lparr>next_cell := Some index\<rparr>)\<rparr>)
         })"

definition new_Queue :: "nat \<Rightarrow> ('a::zero) Queue option" where
  "new_Queue sz = do {
     q \<leftarrow> add_cells sz 0 None \<lparr>cells = Map.empty, queueFull = False, front = None, tail = None\<rparr>;
     Some (q\<lparr>tail := front q\<rparr>)
   }"

datatype 'a shown = Queue_full 'a | Queue_empty | Popped "'a option" | Items "'a list"

definition queue_push :: "'a \<Rightarrow> 'a Queue \<Rightarrow> ('a shown list \<times> 'a Queue) option" where
  "queue_push x q =
     (if queueFull q then Some ([Queue_full x], q)
      else do {
        t \<leftarrow> tail q;
        c \<leftarrow> cells q t;
        let q = q\<lparr>cells := (cells q)(t \<mapsto> c\<lparr>item := x\<rparr>)\<rparr>;
        Some ([], if next_cell c = None \<or> next_cell c = front q then q\<lparr>queueFull := True\<rparr> else q\<lparr>tail := next_cell c\<rparr>)
      })"

definition queue_pop :: "'a Queue \<Rightarrow> ('a shown list \<times> 'a option \<times> 'a Queue) option" where
  "queue_pop q =
     (if front q = tail q then Some ([Queue_empty], None, q)
      else do {
        f \<leftarrow> front q;
        c \<leftarrow> cells q f;
        Some ([], Some (item c), q\<lparr>front := next_cell c, queueFull := False\<rparr>)
      })"

definition isEmpty :: "'a Queue \<Rightarrow> bool" where
  "isEmpty q = (front q = tail q)"

text \<open>What the discovery engine reads from its queue, under the lock of the queue.\<close>

definition readDiscoData :: "'a Queue \<Rightarrow> ('a shown list \<times> 'a option \<times> 'a Queue) option" where
  "readDiscoData q = (if \<not> isEmpty q then queue_pop q else Some ([], None, q))"

text \<open>The loop of \<^verbatim>\<open>printQueue\<close> ends within the number of cells, which is its fuel.\<close>

fun print_cells :: "nat \<Rightarrow> 'a Queue \<Rightarrow> nat option \<Rightarrow> 'a list option" where
  "print_cells 0 q buff = None"
| "print_cells (Suc k) q buff = do {
     b \<leftarrow> buff;
     c \<leftarrow> cells q b;
     (if buff = tail q then Some [item c]
      else do { xs \<leftarrow> print_cells k q (next_cell c); Some (item c # xs) })
   }"

definition printQueue :: "nat \<Rightarrow> 'a Queue \<Rightarrow> 'a shown list option" where
  "printQueue sz q = do { xs \<leftarrow> print_cells sz q (front q); Some [Items xs] }"

datatype 'a queue_op = Push 'a | Pop | Print

fun queue_call :: "nat \<Rightarrow> 'a queue_op \<Rightarrow> 'a Queue \<Rightarrow> ('a shown list \<times> 'a Queue) option" where
  "queue_call sz (Push x) q = queue_push x q"
| "queue_call sz Pop q = do { (out, x, q) \<leftarrow> queue_pop q; Some (out @ [Popped x], q) }"
| "queue_call sz Print q = do { out \<leftarrow> printQueue sz q; Some (out, q) }"

fun queue_ops :: "nat \<Rightarrow> 'a queue_op list \<Rightarrow> 'a Queue \<Rightarrow> 'a shown list option" where
  "queue_ops sz [] q = Some []"
| "queue_ops sz (e # es) q = do {
     (out, q) \<leftarrow> queue_call sz e q;
     outs \<leftarrow> queue_ops sz es q;
     Some (out @ outs)
   }"

definition queue_program :: "nat \<Rightarrow> ('a::zero) queue_op list \<Rightarrow> 'a shown list option" where
  "queue_program sz es = do { q \<leftarrow> new_Queue sz; queue_ops sz es q }"

text \<open>The calls of \<^verbatim>\<open>main\<close>.\<close>

definition queue_main :: "int shown list option" where
  "queue_main = queue_program 2 [Push 1, Push 2, Push 3, Print, Pop, Pop, Pop]"

section \<open>What the constructor builds\<close>

definition ring_next :: "nat \<Rightarrow> nat \<Rightarrow> nat option" where
  "ring_next sz a = (if sz = 1 then None else Some (Suc a mod sz))"

text \<open>The first \<open>k\<close> cells: a chain whose last cell points to the first, except for a single one.\<close>

definition ring_built :: "nat \<Rightarrow> ('a::zero) Queue \<Rightarrow> bool" where
  "ring_built k q = (cells q = (\<lambda>a. if a < k then Some \<lparr>item = 0, next_cell = ring_next k a\<rparr> else None)
     \<and> front q = (if k = 0 then None else Some 0) \<and> \<not> queueFull q)"

lemma built_step:
  assumes "ring_built k q" "0 < k"
  shows "ring_built (Suc k) (q\<lparr>cells := ((cells q)(k \<mapsto> \<lparr>item = 0, next_cell = front q\<rparr>))(k - 1 \<mapsto> \<lparr>item = 0, next_cell = Some k\<rparr>)\<rparr>)"
  using assms by (auto simp: ring_built_def ring_next_def fun_eq_iff)

lemma built_first:
  "ring_built 0 q \<Longrightarrow> ring_built 1 (q\<lparr>cells := (cells q)(0 \<mapsto> \<lparr>item = 0, next_cell = front q\<rparr>), front := Some 0\<rparr>)"
  by (simp add: ring_built_def ring_next_def fun_eq_iff)

lemma add_cells_built:
  "ring_built k q \<Longrightarrow> prev = (if k = 0 then None else Some (k - 1)) \<Longrightarrow> \<exists>q'. add_cells n k prev q = Some q' \<and> ring_built (k + n) q'"
proof (induction n arbitrary: k prev q)
  case (Suc n)
  show ?case
  proof (cases "k = 0")
    case True
    let ?q = "q\<lparr>cells := (cells q)(0 \<mapsto> \<lparr>item = 0, next_cell = front q\<rparr>), front := Some 0\<rparr>"
    have "ring_built 1 ?q" using built_first Suc.prems(1) True by blast
    then have "\<exists>q'. add_cells n 1 (Some 0) ?q = Some q' \<and> ring_built (1 + n) q'" by (rule Suc.IH) simp
    then show ?thesis using True by (simp add: Let_def)
  next
    case False
    let ?q = "q\<lparr>cells := ((cells q)(k \<mapsto> \<lparr>item = 0, next_cell = front q\<rparr>))(k - 1 \<mapsto> \<lparr>item = 0, next_cell = Some k\<rparr>)\<rparr>"
    have "ring_built (Suc k) ?q" using built_step Suc.prems(1) False by blast
    moreover have "((cells q)(k \<mapsto> \<lparr>item = 0, next_cell = front q\<rparr>)) (k - 1) = Some \<lparr>item = 0, next_cell = ring_next k (k - 1)\<rparr>"
      using Suc.prems(1) False by (auto simp: ring_built_def)
    moreover from calculation(1) have "\<exists>q'. add_cells n (Suc k) (Some k) ?q = Some q' \<and> ring_built (Suc k + n) q'"
      by (rule Suc.IH) simp
    ultimately show ?thesis using Suc.prems(2) False by (simp add: Let_def)
  qed
qed simp

text \<open>The ring in use: where it starts, what it holds from there, and how many cells lie before the tail.\<close>

definition ring_q :: "nat \<Rightarrow> nat \<Rightarrow> 'a list \<Rightarrow> nat \<Rightarrow> 'a Queue \<Rightarrow> bool" where
  "ring_q sz f ys n q = (length ys = sz \<and> n < sz \<and> f < sz
     \<and> (\<forall>i < sz. cells q ((f + i) mod sz) = Some \<lparr>item = ys ! i, next_cell = ring_next sz ((f + i) mod sz)\<rparr>)
     \<and> front q = Some f \<and> tail q = Some ((f + n) mod sz) \<and> (queueFull q \<longrightarrow> n = sz - 1))"

lemma new_Queue_ring: "0 < sz \<Longrightarrow> \<exists>q. new_Queue sz = Some q \<and> ring_q sz 0 (replicate sz 0) 0 (q :: 'a::zero Queue) \<and> \<not> queueFull q"
proof -
  assume sz: "0 < sz"
  let ?q0 = "\<lparr>cells = Map.empty, queueFull = False, front = None, tail = None\<rparr> :: 'a Queue"
  have "ring_built 0 ?q0" by (simp add: ring_built_def)
  then obtain q where "add_cells sz 0 None ?q0 = Some q" "ring_built sz q" using add_cells_built [of 0 ?q0 None sz] by auto
  then show ?thesis using sz by (simp add: new_Queue_def ring_built_def ring_q_def)
qed

section \<open>The operations on the ring\<close>

lemma mod_eq_less: "i < n \<Longrightarrow> j < n \<Longrightarrow> (f + i) mod n = (f + j) mod n \<longleftrightarrow> i = j" for n :: nat
proof -
  assume "i < n" "j < n"
  moreover have "f mod n < n" using calculation by simp
  moreover have "(f + k) mod n = (if f mod n + k < n then f mod n + k else f mod n + k - n)" if "k < n" for k
  proof -
    have "(f + k) mod n = (f mod n + k) mod n" by (simp add: mod_add_left_eq)
    moreover have "f mod n + k - n < n" using that \<open>f mod n < n\<close> by linarith
    ultimately show ?thesis by (simp add: mod_if [of "f mod n + k" n])
  qed
  ultimately show ?thesis by auto
qed

lemma ring_cell: "ring_q sz f ys n q \<Longrightarrow> i < sz \<Longrightarrow>
   cells q ((f + i) mod sz) = Some \<lparr>item = ys ! i, next_cell = ring_next sz ((f + i) mod sz)\<rparr>"
  by (simp add: ring_q_def)

lemma ring_next_at: "1 < sz \<Longrightarrow> ring_next sz ((f + i) mod sz) = Some ((f + Suc i) mod sz)"
  by (simp add: ring_next_def mod_Suc_eq)

text \<open>Storing the last element that fits is not followed by moving the tail.\<close>

lemma ring_store:
  assumes "ring_q sz f ys n q" "cells q ((f + n) mod sz) = Some c" "g = queueFull q"
  shows "ring_q sz f (ys[n := x]) n (q\<lparr>cells := (cells q)((f + n) mod sz \<mapsto> c\<lparr>item := x\<rparr>)\<rparr>)"
  using assms ring_cell [OF assms(1)] unfolding ring_q_def
  by (auto simp: mod_eq_less nth_list_update)

lemma queue_push_ring:
  assumes "ring_q sz f ys n q" "\<not> queueFull q"
  shows "\<exists>q'. queue_push x q = Some ([], q') \<and> ring_q sz f (ys[n := x]) (if n = sz - 1 then n else Suc n) q'
     \<and> (queueFull q' \<longleftrightarrow> n = sz - 1)"
proof -
  let ?t = "(f + n) mod sz"
  have n: "n < sz" "f < sz" "tail q = Some ?t" "front q = Some f" using assms(1) by (auto simp: ring_q_def)
  define c where "c = \<lparr>item = ys ! n, next_cell = ring_next sz ?t\<rparr>"
  have c: "cells q ?t = Some c" using ring_cell [OF assms(1) n(1)] by (simp add: c_def)
  let ?q = "q\<lparr>cells := (cells q)(?t \<mapsto> c\<lparr>item := x\<rparr>)\<rparr>"
  have ring: "ring_q sz f (ys[n := x]) n ?q" using ring_store [OF assms(1) c] by blast
  have full: "next_cell c = None \<or> next_cell c = Some f \<longleftrightarrow> n = sz - 1"
  proof (cases "sz = 1")
    case False
    then have "next_cell c = Some ((f + Suc n) mod sz)" using n ring_next_at [of sz f n] by (simp add: c_def)
    moreover have "(f + Suc n) mod sz = (f + 0) mod sz \<longleftrightarrow> n = sz - 1"
    proof (cases "Suc n < sz")
      case True
      then show ?thesis using mod_eq_less [of "Suc n" sz 0 f] n by simp
    next
      case False
      then have "Suc n = sz" using n(1) by simp
      then show ?thesis by simp
    qed
    ultimately show ?thesis using n by simp
  qed (use n in \<open>simp add: c_def ring_next_def\<close>)
  show ?thesis
  proof (cases "n = sz - 1")
    case True
    then show ?thesis using n c full ring assms(2) by (simp add: queue_push_def ring_q_def)
  next
    case False
    then have "next_cell c = Some ((f + Suc n) mod sz)" "Suc n < sz"
      using n ring_next_at [of sz f n] by (auto simp: c_def)
    then show ?thesis using n c full ring assms(2) False by (simp add: queue_push_def ring_q_def)
  qed
qed

lemma queue_push_full: "queueFull q \<Longrightarrow> queue_push x q = Some ([Queue_full x], q)"
  by (simp add: queue_push_def)

lemma ring_empty: "ring_q sz f ys n q \<Longrightarrow> front q = tail q \<longleftrightarrow> n = 0"
  using mod_eq_less [of 0 sz n f] by (auto simp: ring_q_def)

lemma queue_pop_empty: "ring_q sz f ys 0 q \<Longrightarrow> queue_pop q = Some ([Queue_empty], None, q)"
  by (simp add: queue_pop_def ring_empty)

lemma queue_pop_ring:
  assumes "ring_q sz f ys (Suc n) q"
  shows "\<exists>q'. queue_pop q = Some ([], Some (hd ys), q') \<and> ring_q sz (Suc f mod sz) (rotate1 ys) n q' \<and> \<not> queueFull q'"
proof -
  have n: "Suc n < sz" "f < sz" "length ys = sz" "front q = Some f" using assms by (auto simp: ring_q_def)
  then have f: "cells q f = Some \<lparr>item = hd ys, next_cell = Some (Suc f mod sz)\<rparr>"
    using ring_cell [OF assms, of 0] ring_next_at [of sz f 0] by (cases ys) auto
  have shift: "(Suc f mod sz + i) mod sz = (f + Suc i) mod sz" for i
    by (metis add_Suc add_Suc_right mod_add_left_eq)
  have last: "(f + sz) mod sz = (f + 0) mod sz" by simp
  have "cells q ((Suc f mod sz + i) mod sz)
      = Some \<lparr>item = rotate1 ys ! i, next_cell = ring_next sz ((Suc f mod sz + i) mod sz)\<rparr>" if "i < sz" for i
  proof (cases "Suc i < sz")
    case True
    then show ?thesis using ring_cell [OF assms True] n unfolding shift
      by (cases ys) (auto simp: nth_append)
  next
    case False
    then have i: "Suc i = sz" using that by simp
    have "rotate1 ys ! i = ys ! 0" using i n(3) by (cases ys) (auto simp: nth_append)
    then show ?thesis using ring_cell [OF assms, of 0] n i unfolding shift i by (simp add: last)
  qed
  then have "ring_q sz (Suc f mod sz) (rotate1 ys) n (q\<lparr>front := Some (Suc f mod sz), queueFull := False\<rparr>)"
    using assms n shift [of n] by (auto simp: ring_q_def)
  moreover have "front q \<noteq> tail q" using ring_empty [OF assms] by simp
  ultimately show ?thesis using f n by (simp add: queue_pop_def)
qed

lemma print_cells_ring:
  assumes "ring_q sz f ys n q"
  shows "i \<le> n \<Longrightarrow> n - i < k \<Longrightarrow> print_cells k q (Some ((f + i) mod sz)) = Some (take (Suc n - i) (drop i ys))"
proof (induction k arbitrary: i)
  case (Suc k)
  have n: "i < sz" "n < sz" "length ys = sz" "tail q = Some ((f + n) mod sz)" using assms Suc.prems by (auto simp: ring_q_def)
  then have drop: "drop i ys = ys ! i # drop (Suc i) ys" by (simp add: Cons_nth_drop_Suc)
  show ?case
  proof (cases "i = n")
    case True
    then show ?thesis using ring_cell [OF assms n(1)] n drop by simp
  next
    case False
    then have "print_cells k q (Some ((f + Suc i) mod sz)) = Some (take (Suc n - Suc i) (drop (Suc i) ys))"
      using Suc.prems by (intro Suc.IH) auto
    moreover have "1 < sz" using False n Suc.prems(1) by simp
    ultimately show ?thesis using ring_cell [OF assms n(1)] ring_next_at [of sz f i] n drop False Suc.prems(1)
        mod_eq_less [of i sz n f] by (simp add: Suc_diff_le)
  qed
qed simp

lemma printQueue_ring: "ring_q sz f ys n q \<Longrightarrow> printQueue sz q = Some [Items (take (Suc n) ys)]"
  using print_cells_ring [of sz f ys n q 0 sz] by (auto simp: printQueue_def ring_q_def)

section \<open>The queue it is\<close>

text \<open>
  A queue of less than \<open>sz\<close> elements.  A push that finds it full is refused with a message, but the
  first of these after an element was popped or the queue was made is swallowed instead.
\<close>

fun fifo_call :: "nat \<Rightarrow> 'a queue_op \<Rightarrow> 'a list \<times> bool \<Rightarrow> 'a shown list \<times> 'a list \<times> bool" where
  "fifo_call sz (Push x) (xs, full) =
     (if full then ([Queue_full x], xs, full)
      else if length xs = sz - 1 then ([], xs, True) else ([], xs @ [x], False))"
| "fifo_call sz Pop ([], full) = ([Queue_empty, Popped None], [], full)"
| "fifo_call sz Pop (x # xs, full) = ([Popped (Some x)], xs, False)"
| "fifo_call sz Print s = ([], s)"

fun fifo_calls :: "nat \<Rightarrow> 'a queue_op list \<Rightarrow> 'a list \<times> bool \<Rightarrow> 'a shown list" where
  "fifo_calls sz [] s = []"
| "fifo_calls sz (e # es) s = (let (out, s) = fifo_call sz e s in out @ fifo_calls sz es s)"

definition queue_holds :: "nat \<Rightarrow> 'a Queue \<Rightarrow> 'a list \<Rightarrow> bool" where
  "queue_holds sz q xs = (\<exists>f ys n. ring_q sz f ys n q \<and> xs = take n ys)"

lemma holdsI: "ring_q sz f ys n q \<Longrightarrow> xs = take n ys \<Longrightarrow> queue_holds sz q xs"
  by (auto simp: queue_holds_def)

lemma holds_length: "queue_holds sz q xs \<Longrightarrow> length xs < sz \<and> (queueFull q \<longrightarrow> length xs = sz - 1)"
  by (auto simp: queue_holds_def ring_q_def)

lemma holds_push:
  assumes "queue_holds sz q xs" "\<not> queueFull q"
  shows "\<exists>q'. queue_push x q = Some ([], q') \<and> queue_holds sz q' (if length xs = sz - 1 then xs else xs @ [x])
     \<and> (queueFull q' \<longleftrightarrow> length xs = sz - 1)"
proof -
  obtain f ys n where r: "ring_q sz f ys n q" "xs = take n ys" using assms(1) by (auto simp: queue_holds_def)
  then have n: "n < length ys" "length ys = sz" by (auto simp: ring_q_def)
  obtain q' where q': "queue_push x q = Some ([], q')" "ring_q sz f (ys[n := x]) (if n = sz - 1 then n else Suc n) q'"
    "queueFull q' \<longleftrightarrow> n = sz - 1" using queue_push_ring [OF r(1) assms(2), of x] by blast
  have "xs @ [x] = take (Suc n) (ys[n := x])" using n r(2) by (simp add: take_Suc_conv_app_nth)
  moreover have "length xs = n" using n r(2) by simp
  moreover have "queue_holds sz q' (if n = sz - 1 then take n (ys[n := x]) else take (Suc n) (ys[n := x]))"
    using holdsI [OF q'(2)] by (cases "n = sz - 1") simp_all
  ultimately show ?thesis using q'(1,3) r(2) by (intro exI [of _ q']) (simp split: if_splits)
qed

lemma holds_pop:
  assumes "queue_holds sz q (x # xs)"
  shows "\<exists>q'. queue_pop q = Some ([], Some x, q') \<and> queue_holds sz q' xs \<and> \<not> queueFull q'"
proof -
  obtain f ys k where r: "ring_q sz f ys k q" "x # xs = take k ys" using assms by (auto simp: queue_holds_def)
  then obtain n ys' where n: "k = Suc n" "ys = x # ys'" "xs = take n ys'" by (cases k; cases ys) auto
  moreover have "n < length ys" using r(1) n(1) by (simp add: ring_q_def)
  ultimately have "xs = take n (rotate1 ys)" by simp
  moreover obtain q' where "queue_pop q = Some ([], Some (hd ys), q')" "ring_q sz (Suc f mod sz) (rotate1 ys) n q'"
    "\<not> queueFull q'" using queue_pop_ring r(1) unfolding n(1) by blast
  ultimately show ?thesis using holdsI n(2) by fastforce
qed

lemma holds_pop_empty: "queue_holds sz q [] \<Longrightarrow> queue_pop q = Some ([Queue_empty], None, q)"
proof -
  assume "queue_holds sz q []"
  then obtain f ys n where r: "ring_q sz f ys n q" "[] = take n ys" by (auto simp: queue_holds_def)
  moreover have "n < length ys" using r(1) by (simp add: ring_q_def)
  ultimately have "n = 0" by auto
  then have "ring_q sz f ys 0 q" using r(1) by simp
  then show ?thesis by (rule queue_pop_empty)
qed

lemma holds_isEmpty: "queue_holds sz q xs \<Longrightarrow> isEmpty q \<longleftrightarrow> xs = []"
proof -
  assume "queue_holds sz q xs"
  then obtain f ys n where r: "ring_q sz f ys n q" "xs = take n ys" by (auto simp: queue_holds_def)
  moreover have "n < length ys" using r(1) by (simp add: ring_q_def)
  ultimately show ?thesis using ring_empty [OF r(1)] by (auto simp: isEmpty_def)
qed

lemma readDiscoData_first:
  assumes "queue_holds sz q xs"
  shows "\<exists>q'. readDiscoData q = Some ([], if xs = [] then None else Some (hd xs), q') \<and> queue_holds sz q' (tl xs)"
proof (cases xs)
  case Nil
  then show ?thesis using assms holds_isEmpty [OF assms] by (simp add: readDiscoData_def)
next
  case (Cons x xs')
  then show ?thesis using assms holds_isEmpty [OF assms] holds_pop [of sz q x xs'] by (auto simp: readDiscoData_def)
qed

lemma holds_call:
  assumes "queue_holds sz q xs" "e \<noteq> Print"
  shows "\<exists>q'. queue_call sz e q = Some (fst (fifo_call sz e (xs, queueFull q)), q')
     \<and> (case snd (fifo_call sz e (xs, queueFull q)) of (xs', full') \<Rightarrow> queue_holds sz q' xs' \<and> queueFull q' = full')"
proof (cases e)
  case (Push x)
  then show ?thesis using assms(1) holds_push [OF assms(1), of x] queue_push_full [of q x] by (cases "queueFull q") auto
next
  case Pop
  show ?thesis
  proof (cases xs)
    case Nil
    then show ?thesis using Pop assms(1) holds_pop_empty [of sz q] by simp
  next
    case (Cons x xs')
    then show ?thesis using Pop assms(1) holds_pop [of sz q x xs'] by auto
  qed
qed (use assms(2) in simp)

lemma holds_calls:
  "queue_holds sz q xs \<Longrightarrow> Print \<notin> set es \<Longrightarrow> queue_ops sz es q = Some (fifo_calls sz es (xs, queueFull q))"
proof (induction es arbitrary: q xs)
  case (Cons e es)
  obtain xs' full' out where call: "fifo_call sz e (xs, queueFull q) = (out, xs', full')" by (metis prod.exhaust)
  then obtain q' where "queue_call sz e q = Some (out, q')" "queue_holds sz q' xs'" "queueFull q' = full'"
    using holds_call [OF Cons.prems(1), of e] Cons.prems(2) by auto
  then show ?case using Cons.IH [of q' xs'] Cons.prems(2) call by simp
qed simp

lemma holds_new: "0 < sz \<Longrightarrow> \<exists>q. new_Queue sz = Some q \<and> queue_holds sz q [] \<and> \<not> queueFull q"
  using new_Queue_ring [of sz] by (fastforce simp: queue_holds_def)

section \<open>What users of the queue rely on\<close>

text \<open>
  The contract between the queue and the discovery engine: what the queue holds after an element was
  pushed or read, for a capacity of \<open>cap\<close> elements.
\<close>

locale bounded_queue =
  fixes cap :: nat
    and push :: "'a \<Rightarrow> 'q \<Rightarrow> ('o \<times> 'q) option"
    and read :: "'q \<Rightarrow> ('o \<times> 'a option \<times> 'q) option"
    and holds :: "'q \<Rightarrow> 'a list \<Rightarrow> bool"
    and full :: "'q \<Rightarrow> bool"
  assumes within_cap: "holds q xs \<Longrightarrow> length xs \<le> cap"
    and full_cap: "holds q xs \<Longrightarrow> full q \<Longrightarrow> length xs = cap"
    and push_room: "holds q xs \<Longrightarrow> length xs < cap \<Longrightarrow> \<exists>out q'. push x q = Some (out, q') \<and> holds q' (xs @ [x]) \<and> \<not> full q'"
    and push_no_room: "holds q xs \<Longrightarrow> length xs = cap \<Longrightarrow> \<exists>out q'. push x q = Some (out, q') \<and> holds q' xs"
    and read_first: "holds q xs \<Longrightarrow> \<exists>out q'. read q = Some (out, if xs = [] then None else Some (hd xs), q') \<and> holds q' (tl xs)"
begin

text \<open>Whatever is pushed, the queue holds the first elements that fit.\<close>

lemma push_first_ones:
  assumes "holds q (take cap zs)"
  shows "\<exists>out q'. push x q = Some (out, q') \<and> holds q' (take cap (zs @ [x]))"
proof (cases "length zs < cap")
  case True
  then show ?thesis using push_room [OF assms, of x] by auto
next
  case False
  then show ?thesis using push_no_room [OF assms, of x] by auto
qed

end

interpretation ring_queue: bounded_queue "sz - 1" queue_push readDiscoData "queue_holds sz" queueFull for sz
proof unfold_locales
  fix q :: "'a Queue" and xs x
  assume holds: "queue_holds sz q xs"
  note len = holds_length [OF holds]
  show "length xs \<le> sz - 1" "queueFull q \<Longrightarrow> length xs = sz - 1" using len by auto
  show "length xs < sz - 1 \<Longrightarrow> \<exists>out q'. queue_push x q = Some (out, q') \<and> queue_holds sz q' (xs @ [x]) \<and> \<not> queueFull q'"
    using holds_push [OF holds, of x] len by auto
  show "length xs = sz - 1 \<Longrightarrow> \<exists>out q'. queue_push x q = Some (out, q') \<and> queue_holds sz q' xs"
    using holds_push [OF holds, of x] queue_push_full [of q x] holds by (cases "queueFull q") auto
  show "\<exists>out q'. readDiscoData q = Some (out, if xs = [] then None else Some (hd xs), q') \<and> queue_holds sz q' (tl xs)"
    using readDiscoData_first [OF holds] by blast
qed

section \<open>The stack\<close>

record 'a Stack =
  stack_top :: nat
  size_of :: nat
  buffer :: "'a list"

datatype 'a stack_shown = Pushed 'a | Stack_full | No_items | Poped 'a

definition new_Stack :: "nat \<Rightarrow> ('a::zero) Stack" where
  "new_Stack s = \<lparr>stack_top = 0, size_of = s, buffer = replicate s 0\<rparr>"

definition stack_push :: "'a \<Rightarrow> 'a Stack \<Rightarrow> 'a stack_shown list \<times> 'a Stack" where
  "stack_push x s =
     (if stack_top s < size_of s then ([Pushed x], s\<lparr>buffer := (buffer s)[stack_top s := x], stack_top := stack_top s + 1\<rparr>)
      else ([Stack_full], s))"

definition stack_pop :: "'a Stack \<Rightarrow> 'a stack_shown list \<times> 'a option \<times> 'a Stack" where
  "stack_pop s =
     (if 0 = stack_top s then ([No_items], None, s)
      else (let ret = buffer s ! (stack_top s - 1) in ([Poped ret], Some ret, s\<lparr>stack_top := stack_top s - 1\<rparr>)))"

text \<open>The calls of \<^verbatim>\<open>main\<close>.\<close>

definition stack_main :: "int stack_shown list" where
  "stack_main =
     (let s = new_Stack 1; (a, s) = stack_push 6 s; (b, s) = stack_push 7 s; (c, _, s) = stack_pop s; (d, _, s) = stack_pop s
      in a @ b @ c @ d)"

text \<open>The elements, the last pushed first.\<close>

definition elements :: "'a Stack \<Rightarrow> 'a list" where
  "elements s = rev (take (stack_top s) (buffer s))"

definition stack_ok :: "'a Stack \<Rightarrow> bool" where
  "stack_ok s = (length (buffer s) = size_of s \<and> stack_top s \<le> size_of s)"

lemma stack_new: "stack_ok (new_Stack n) \<and> elements (new_Stack n) = [] \<and> size_of (new_Stack n) = n"
  by (simp add: stack_ok_def elements_def new_Stack_def)

lemma stack_push_elements:
  assumes "stack_ok s" "stack_push x s = (out, s')"
  shows "stack_ok s' \<and> size_of s' = size_of s
     \<and> (if length (elements s) < size_of s then out = [Pushed x] \<and> elements s' = x # elements s
        else out = [Stack_full] \<and> s' = s)"
  using assms by (auto simp: stack_ok_def stack_push_def elements_def take_Suc_conv_app_nth split: if_splits)

lemma stack_pop_elements:
  assumes "stack_ok s" "stack_pop s = (out, r, s')"
  shows "stack_ok s' \<and> size_of s' = size_of s
     \<and> (case elements s of [] \<Rightarrow> out = [No_items] \<and> r = None \<and> s' = s
        | x # xs \<Rightarrow> out = [Poped x] \<and> r = Some x \<and> elements s' = xs)"
proof (cases "stack_top s")
  case 0
  then show ?thesis using assms by (simp add: stack_pop_def elements_def)
next
  case (Suc k)
  then have "elements s = buffer s ! k # rev (take k (buffer s))"
    using assms(1) by (simp add: elements_def stack_ok_def take_Suc_conv_app_nth)
  then show ?thesis using Suc assms by (auto simp: stack_pop_def elements_def stack_ok_def Let_def)
qed

lemma stack_main_prints: "stack_main = [Pushed 6, Stack_full, Poped 6, No_items]"
  by code_simp

section \<open>Results\<close>

text \<open>C14. The template \<^verbatim>\<open>Queue\<close>, made with a positive size, is a queue that holds one element less
  than its size and gives the elements back in the order they were pushed, except that the push that
  makes it full is accepted without a message and its element is lost.  This holds for every sequence
  of pushes and pops, which never dereference a null pointer.\<close>

theorem ring_queue_refines_fifo:
  fixes es :: "('a::zero) queue_op list"
  assumes "0 < sz" "Print \<notin> set es"
  shows "queue_program sz es = Some (fifo_calls sz es ([], False))"
proof -
  obtain q :: "'a Queue" where "new_Queue sz = Some q" "queue_holds sz q []" "\<not> queueFull q" using holds_new [OF assms(1)] by blast
  then show ?thesis using holds_calls [of sz q "[]" es] assms(2) by (simp add: queue_program_def)
qed

lemma ring_queue_refines_fifo_witness:
  "queue_program 2 [Push 1, Push 2, Push (3 :: int), Pop, Pop] =
     Some [Queue_full 3, Popped (Some 1), Queue_empty, Popped None]"
  using ring_queue_refines_fifo [of 2 "[Push 1, Push 2, Push (3 :: int), Pop, Pop]"] by simp

lemma fifo_pushes:
  "length xs + length ys < sz \<Longrightarrow>
   fifo_calls sz (map Push ys @ es) (xs, False) = fifo_calls sz es (xs @ ys, False)"
  by (induction ys arbitrary: xs) auto

lemma fifo_pops:
  "fifo_calls sz (replicate (length xs) Pop @ es) (xs, full)
   = map (Popped \<circ> Some) xs @ fifo_calls sz es ([], if xs = [] then full else False)"
  by (induction xs arbitrary: full) auto

text \<open>A queue into which exactly as many elements are pushed as its size says, without a
  complaint, gives back all but the last of them; the last is lost.\<close>

theorem ring_queue_loses_last:
  fixes xs :: "('a::zero) list"
  assumes "length xs = sz" "0 < sz"
  shows "queue_program sz (map Push xs @ replicate sz Pop)
     = Some (map (Popped \<circ> Some) (butlast xs) @ [Queue_empty, Popped None])"
proof -
  have xs: "xs = butlast xs @ [last xs]" using assms by (cases xs) (simp_all add: append_butlast_last_id)
  have len: "length (butlast xs) = sz - 1" using assms by simp
  have "replicate sz Pop = replicate (length (butlast xs)) Pop @ [Pop :: 'a queue_op]"
    using assms unfolding len by (cases sz) (simp_all add: replicate_append_same)
  moreover have "map Push xs = map Push (butlast xs) @ [Push (last xs)]" by (subst xs) simp
  ultimately have "fifo_calls sz (map Push xs @ replicate sz Pop) ([], False)
      = fifo_calls sz (Push (last xs) # replicate (length (butlast xs)) Pop @ [Pop]) (butlast xs, False)"
    using fifo_pushes [of "[]" "butlast xs" sz "Push (last xs) # replicate (length (butlast xs)) Pop @ [Pop]"] len assms
    by simp
  also have "\<dots> = map (Popped \<circ> Some) (butlast xs) @ [Queue_empty, Popped None]"
    using fifo_pops [of sz "butlast xs" "[Pop]" True] len by simp
  finally show ?thesis using ring_queue_refines_fifo [of sz "map Push xs @ replicate sz Pop"] assms by auto
qed

lemma ring_queue_loses_last_witness:
  "queue_program 3 (map Push [4, 5, 6 :: int] @ replicate 3 Pop)
     = Some (map (Popped \<circ> Some) [4, 5] @ [Queue_empty, Popped None])"
  using ring_queue_loses_last [of "[4, 5, 6 :: int]" 3] by simp

lemma queue_main_prints:
  "queue_main = Some [Queue_full 3, Items [1, 2], Popped (Some 1), Queue_empty, Popped None, Queue_empty, Popped None]"
  by code_simp

end
