(* ===== verification/Disco.thy ===== *)
theory Disco
  imports Arp Cpp_Queue
begin

text \<open>
  The discovery tool of \<^verbatim>\<open>discovery/\<close>: the worker thread, which puts the sender of every ARP frame it
  receives on the queue of the engine, the user interface, which moves entries from the queue to its
  list, and the reading of the kernel's ARP table.  The steps of worker and interface are atomic, as
  each holds the lock of the queue for the one operation that matters.  Qt, the sockets and threads
  are left out; frames received, menu entries and buttons are the events.

  The lemmas show what the user sees: the addresses in the order in which they arrived, but each
  refresh that stops at its limit takes one more entry off the queue than it shows.
\<close>

section \<open>Data objects\<close>

text \<open>Pointers to data objects: null, or an object with its name and value.\<close>

datatype data_ptr = Null_obj | Obj (obj_name: string) (obj_value: string)

instantiation data_ptr :: zero
begin

definition zero_data_ptr :: data_ptr where
  "zero_data_ptr = Null_obj"

instance ..

end

section \<open>The worker\<close>

definition hex_digit :: "nat \<Rightarrow> char" where
  "hex_digit d = (if d < 10 then char_of (48 + d) else char_of (87 + d))"

definition hex2 :: "u8 \<Rightarrow> string" where
  "hex2 b = [hex_digit (unat b div 16), hex_digit (unat b mod 16)]"

fun separated :: "char \<Rightarrow> string list \<Rightarrow> string" where
  "separated c [] = []"
| "separated c [s] = s"
| "separated c (s # ss) = s @ c # separated c ss"

definition discovered_mac :: "u8 list \<Rightarrow> string" where
  "discovered_mac m = separated CHR '':'' (map hex2 m)"

definition discovered_ip :: "u8 list \<Rightarrow> string" where
  "discovered_ip a = separated CHR ''.'' (map (\<lambda>b. show_nat (unat b)) a)"

record engine =
  txqueue :: "data_ptr Queue"
  recvqueue :: "data_ptr Queue"
  eth_packet :: "u8 list"

definition DATAQ_SIZE :: nat where
  "DATAQ_SIZE = 1000"

definition recvQueuePush :: "data_ptr \<Rightarrow> engine \<Rightarrow> (data_ptr shown list \<times> engine) option" where
  "recvQueuePush obj en = do { (out, q) \<leftarrow> queue_push obj (recvqueue en); Some (out, en\<lparr>recvqueue := q\<rparr>) }"

text \<open>One pass of the loop of \<^verbatim>\<open>run\<close>.  The two buffers for the texts have fifty characters.\<close>

definition worker_step :: "arp_received \<Rightarrow> engine \<Rightarrow> (data_ptr shown list \<times> engine) option" where
  "worker_step r en =
     (case r of Recv_error \<Rightarrow> Some ([], en)
      | Frame ds \<Rightarrow>
          (let buf = receive_into (eth_packet en) ds; mac = discovered_mac (field 22 6 buf); ip = discovered_ip (field 28 4 buf)
           in if length mac < 50 \<and> length ip < 50 then recvQueuePush (Obj mac ip) (en\<lparr>eth_packet := buf\<rparr>) else None))"

text \<open>
  What the worker does first, with the same system calls as \<^verbatim>\<open>prog_arp_linux.c\<close>: the message with which it ends the
  whole program, or what it prints and the address it listens at.
\<close>

definition worker_start :: "host \<Rightarrow> arp_kernel \<Rightarrow> (string, string list \<times> sockaddr_ll) sum" where
  "worker_start e K =
     (if a_socket K < 0 then Inl ''Socket creation error!''
      else if \<not> a_calloc K then Inl ''sock_addr allocation failed!''
      else (let sock_addr = \<lparr>sll_family = 0, sll_protocol = 0, sll_ifindex = 0, sll_addr = replicate 8 0\<rparr> in
        case a_hwaddr K of None \<Rightarrow> Inl ''ioctl(SIOCGIFHWADDR) failed!''
        | Some sa_data \<Rightarrow>
            (let sock_addr = sock_addr\<lparr>sll_addr := take ETH_ALEN sa_data @ drop ETH_ALEN (sll_addr sock_addr)\<rparr> in
             case a_ifindex K of None \<Rightarrow> Inl ''ioctl(SIOCGIFINDEX) failed!''
             | Some i \<Rightarrow>
                 (let sock_addr = sock_addr\<lparr>sll_family := AF_PACKET, sll_ifindex := i, sll_protocol := htons e 0x806\<rparr>
                  in Inr (if a_bind K < 0 then [''Bind Error!''] else [], sock_addr)))))"

section \<open>The kernel's ARP table\<close>

definition is_hex :: "char \<Rightarrow> bool" where
  "is_hex c = (is_digit c \<or> (of_char c \<ge> (97::nat) \<and> of_char c \<le> (102::nat)) \<or> (of_char c \<ge> (65::nat) \<and> of_char c \<le> (70::nat)))"

definition hex_of :: "char \<Rightarrow> nat" where
  "hex_of c = (if is_digit c then of_char c - 48 else if of_char c \<ge> (97::nat) then of_char c - 87 else of_char c - 55)"

definition hex_val :: "string \<Rightarrow> nat" where
  "hex_val ds = foldl (\<lambda>v c. 16 * v + hex_of c) 0 ds"

definition after_0x :: "string \<Rightarrow> string" where
  "after_0x s = (if length s \<ge> 2 \<and> hd s = CHR ''0'' \<and> s ! 1 \<in> {CHR ''x'', CHR ''X''} then drop 2 s else s)"

text \<open>
  The conversions of the format of \<^verbatim>\<open>configure\<close>, each with what is left of the line.  \<open>Stopped\<close> is a mismatch, after
  which \<^verbatim>\<open>sscanf\<close> returns; \<open>Overrun\<close> is undefined behaviour, a word with its terminator that is
  longer than the array of 100 characters or a number that is not an unsigned one of 32 bits.
\<close>

datatype 'a scanned = Stopped | Overrun | Scanned 'a string

fun bind_scan :: "'a scanned \<Rightarrow> ('a \<Rightarrow> string \<Rightarrow> 'b scanned) \<Rightarrow> 'b scanned" where
  "bind_scan Stopped f = Stopped"
| "bind_scan Overrun f = Overrun"
| "bind_scan (Scanned x s) f = f x s"

definition scan_word :: "string \<Rightarrow> string scanned" where
  "scan_word s =
     (let s = dropWhile is_space s; w = takeWhile (\<lambda>c. \<not> is_space c) s
      in if w = [] then Stopped else if length w < 100 then Scanned w (dropWhile (\<lambda>c. \<not> is_space c) s) else Overrun)"

definition scan_0x :: "string \<Rightarrow> unit scanned" where
  "scan_0x s = (let s = dropWhile is_space s in if take 2 s = ''0x'' then Scanned () (drop 2 s) else Stopped)"

definition scan_hex :: "string \<Rightarrow> u32 scanned" where
  "scan_hex s =
     (let cs = dropWhile is_space s; rest = after_0x (after_sign cs); ds = takeWhile is_hex rest; v = hex_val ds
      in if ds = [] then Stopped
         else if v < 2 ^ 32 then Scanned (if hd cs = CHR ''-'' then - of_nat v else of_nat v) (dropWhile is_hex rest)
         else Overrun)"

text \<open>
  The call of \<^verbatim>\<open>sscanf\<close>: \<^const>\<open>None\<close> is an overrun, \<open>Some None\<close> a result below 4.  The two last words are
  not used, but overrun their arrays like the others.
\<close>

definition scan_row :: "string \<Rightarrow> (string \<times> u32 \<times> string) scanned" where
  "scan_row line =
     bind_scan (scan_word line) (\<lambda>ip s. bind_scan (scan_0x s) (\<lambda>_ s. bind_scan (scan_hex s) (\<lambda>ty s.
     bind_scan (scan_0x s) (\<lambda>_ s. bind_scan (scan_hex s) (\<lambda>flags s. bind_scan (scan_word s) (\<lambda>hwa s.
     Scanned (ip, ty, hwa) s))))))"

definition sscanf_row :: "string \<Rightarrow> (string \<times> u32 \<times> string) option option" where
  "sscanf_row line =
     (case scan_row (takeWhile (\<lambda>c. c \<noteq> CHR 0x00) line) of
        Stopped \<Rightarrow> Some None
      | Overrun \<Rightarrow> None
      | Scanned row s \<Rightarrow>
          (if bind_scan (scan_word s) (\<lambda>mask s. scan_word s) = Overrun then None else Some (Some row)))"

definition txqueue_push :: "data_ptr \<Rightarrow> engine \<Rightarrow> engine option" where
  "txqueue_push obj en = do { (out, q) \<leftarrow> queue_push obj (txqueue en); Some (en\<lparr>txqueue := q\<rparr>) }"

definition configure_row :: "string \<Rightarrow> engine \<Rightarrow> engine option" where
  "configure_row line en =
     (case sscanf_row line of
        None \<Rightarrow> None
      | Some None \<Rightarrow> Some en
      | Some (Some (ip, ty, hwa)) \<Rightarrow> (if ty = 1 then txqueue_push (Obj ip hwa) en else Some en))"

text \<open>The loop over the lines, of which \<^verbatim>\<open>fgets\<close> reads at most 199 characters at a time.\<close>

function configure_rows :: "string \<Rightarrow> engine \<Rightarrow> engine option" where
  "configure_rows cs en =
     (if cs = [] then Some en
      else (let (line, rest) = fgets_line 199 cs in do { en \<leftarrow> configure_row line en; configure_rows rest en }))"
  by auto
termination
proof (relation "measure (\<lambda>(cs, en). length cs)")
  show "wf (measure (\<lambda>(cs, en :: engine). length cs))" by simp
next
  fix cs :: string and en en' :: engine and x line rest
  assume "cs \<noteq> []" "x = fgets_line 199 cs" "(line, rest) = x"
  then show "((rest, en'), cs, en) \<in> measure (\<lambda>(cs, en). length cs)"
    by (cases cs) (auto dest: fgets_shorter)
qed

declare configure_rows.simps [simp del]

text \<open>\<open>euid\<close> is the effective user and \<open>table\<close> the file, if it can be opened; the first line is skipped.\<close>

definition configure :: "nat \<Rightarrow> string option \<Rightarrow> engine \<Rightarrow> (int \<times> engine) option" where
  "configure euid table en =
     (if euid \<noteq> 0 then Some (- 1, en)
      else (case table of
        None \<Rightarrow> Some (- 1, en)
      | Some cs \<Rightarrow> do { en \<leftarrow> configure_rows (snd (fgets_line 199 cs)) en; Some (0, en) }))"

section \<open>The user interface\<close>

definition engine_read :: "engine \<Rightarrow> (data_ptr \<times> engine) option" where
  "engine_read en = do {
     (out, x, q) \<leftarrow> readDiscoData (recvqueue en);
     Some (case x of None \<Rightarrow> Null_obj | Some d \<Rightarrow> d, en\<lparr>recvqueue := q\<rparr>)
   }"

text \<open>\<open>lcount--\<close> is compared before it is decremented, after the entry was taken.\<close>

fun show_nodes :: "nat \<Rightarrow> data_ptr \<Rightarrow> engine \<Rightarrow> (data_ptr list \<times> engine) option" where
  "show_nodes lcount Null_obj en = Some ([], en)"
| "show_nodes 0 data en = Some ([], en)"
| "show_nodes (Suc lcount) data en = do {
     (data', en) \<leftarrow> engine_read en;
     (rows, en) \<leftarrow> show_nodes lcount data' en;
     Some (data # rows, en)
   }"

definition showDiscoveredNodeInfo :: "nat \<Rightarrow> engine \<Rightarrow> (data_ptr list \<times> engine) option" where
  "showDiscoveredNodeInfo limit en = do { (data, en) \<leftarrow> engine_read en; show_nodes limit data en }"

datatype label = Discover | Stop

record ui =
  discoEngine :: "engine option"
  button :: label
  rows :: "data_ptr list"

datatype ui_event = Clicked nat "string option" "u8 list" | Refresh | Clear | Arrives arp_received

text \<open>A new engine; \<open>garbage\<close> is the packet on the stack of the worker.\<close>

definition new_engine :: "u8 list \<Rightarrow> engine option" where
  "new_engine garbage = do {
     t \<leftarrow> new_Queue DATAQ_SIZE;
     q \<leftarrow> new_Queue DATAQ_SIZE;
     Some \<lparr>txqueue = t, recvqueue = q, eth_packet = garbage\<rparr>
   }"

definition pbClicked :: "nat \<Rightarrow> string option \<Rightarrow> u8 list \<Rightarrow> ui \<Rightarrow> ui option" where
  "pbClicked euid table garbage u =
     (case button u of
        Discover \<Rightarrow> do {
          en \<leftarrow> new_engine garbage;
          (ret, en) \<leftarrow> configure euid table en;
          Some (if ret < 0 then u\<lparr>discoEngine := None\<rparr> else u\<lparr>discoEngine := Some en, button := Stop\<rparr>)
        }
      | Stop \<Rightarrow> (case discoEngine u of None \<Rightarrow> None
          | Some en \<Rightarrow> do {
              (shown, en) \<leftarrow> showDiscoveredNodeInfo DATAQ_SIZE en;
              Some (u\<lparr>rows := rows u @ shown, discoEngine := None, button := Discover\<rparr>)
            }))"

fun ui_step :: "ui_event \<Rightarrow> ui \<Rightarrow> ui option" where
  "ui_step (Clicked euid table garbage) u = pbClicked euid table garbage u"
| "ui_step Refresh u =
     (case discoEngine u of None \<Rightarrow> Some u
      | Some en \<Rightarrow> do {
          (shown, en) \<leftarrow> showDiscoveredNodeInfo 10 en;
          Some (u\<lparr>rows := rows u @ shown, discoEngine := Some en\<rparr>)
        })"
| "ui_step Clear u = Some (u\<lparr>rows := []\<rparr>)"
| "ui_step (Arrives r) u =
     (case discoEngine u of None \<Rightarrow> Some u
      | Some en \<Rightarrow> do { (out, en) \<leftarrow> worker_step r en; Some (u\<lparr>discoEngine := Some en\<rparr>) })"

fun ui_run :: "ui_event list \<Rightarrow> ui \<Rightarrow> ui option" where
  "ui_run [] u = Some u"
| "ui_run (e # es) u = do { u \<leftarrow> ui_step e u; ui_run es u }"

definition ui_start :: ui where
  "ui_start = \<lparr>discoEngine = None, button = Discover, rows = []\<rparr>"

section \<open>What the user sees\<close>

lemma hex2_length [simp]: "length (hex2 b) = 2"
  by (simp add: hex2_def)

lemma separated_length: "length (separated c ss) \<le> sum_list (map length ss) + length ss"
  by (induction c ss rule: separated.induct) auto

lemma show_nat_byte: "length (show_nat (unat (b :: u8))) \<le> 3"
proof -
  have "unat b < 256" using unsigned_less [of b, where 'a = nat] by simp
  then show ?thesis by (subst show_nat.simps, subst show_nat.simps, subst show_nat.simps) auto
qed

lemma field_length: "length (field i n bs) \<le> n"
  by (simp add: field_def)

lemma discovered_fit: "length (discovered_mac (field 22 6 bs)) < 50 \<and> length (discovered_ip (field 28 4 bs)) < 50"
proof -
  have "sum_list (map length (map hex2 (field 22 6 bs))) = 2 * length (field 22 6 bs)"
    by (simp add: comp_def sum_list_triv)
  then have "length (discovered_mac (field 22 6 bs)) \<le> 18"
    using separated_length [of "CHR '':''" "map hex2 (field 22 6 bs)"] field_length [of 22 6 bs]
    by (simp add: discovered_mac_def)
  moreover have "sum_list (map length (map (\<lambda>b. show_nat (unat b)) as)) \<le> 3 * length as" for as :: "u8 list"
    using show_nat_byte by (induction as) (auto intro: add_mono)
  from this [of "field 28 4 bs"] have "length (discovered_ip (field 28 4 bs)) \<le> 16"
    using separated_length [of "CHR ''.''" "map (\<lambda>b. show_nat (unat b)) (field 28 4 bs)"] field_length [of 28 4 bs]
    by (simp add: discovered_ip_def)
  ultimately show ?thesis by simp
qed

definition entry_of :: "u8 list \<Rightarrow> data_ptr" where
  "entry_of ds = Obj (discovered_mac (field 22 6 ds)) (discovered_ip (field 28 4 ds))"

text \<open>The engine holds a list of entries for the interface.\<close>

definition engine_holds :: "engine \<Rightarrow> data_ptr list \<Rightarrow> bool" where
  "engine_holds en xs = (queue_holds DATAQ_SIZE (recvqueue en) xs \<and> length (eth_packet en) = 42 \<and> Null_obj \<notin> set xs)"

lemma engine_read_first:
  assumes "engine_holds en xs"
  shows "\<exists>en'. engine_read en = Some (if xs = [] then Null_obj else hd xs, en') \<and> engine_holds en' (tl xs)"
proof -
  obtain out q where "readDiscoData (recvqueue en) = Some (out, if xs = [] then None else Some (hd xs), q)"
    "queue_holds DATAQ_SIZE q (tl xs)"
    using assms ring_queue.read_first [of DATAQ_SIZE "recvqueue en" xs] by (auto simp: engine_holds_def)
  then show ?thesis using assms by (cases xs) (auto simp: engine_read_def engine_holds_def)
qed

lemma show_nodes_shows:
  "engine_holds en xs \<Longrightarrow> data \<noteq> Null_obj \<Longrightarrow>
   \<exists>en'. show_nodes n data en = Some (take n (data # xs), en') \<and> engine_holds en' (drop n xs)"
proof (induction n arbitrary: data xs en)
  case 0
  then show ?case by (cases data) auto
next
  case (Suc n)
  obtain en' where read: "engine_read en = Some (if xs = [] then Null_obj else hd xs, en')" "engine_holds en' (tl xs)"
    using engine_read_first [OF Suc.prems(1)] by blast
  show ?case
  proof (cases xs)
    case Nil
    then show ?thesis using read Suc.prems(2) by (cases data) auto
  next
    case (Cons x xs')
    then have "x \<noteq> Null_obj" using Suc.prems(1) by (auto simp: engine_holds_def)
    then obtain en'' where "show_nodes n x en' = Some (take n (x # xs'), en'')" "engine_holds en'' (drop n xs')"
      using Suc.IH [of en' xs' x] read(2) Cons by auto
    then show ?thesis using read Suc.prems(2) Cons by (cases data) auto
  qed
qed

text \<open>\<open>n\<close> entries are shown, but one more is gone.\<close>

lemma showDiscoveredNodeInfo_shows:
  assumes "engine_holds en xs"
  shows "\<exists>en'. showDiscoveredNodeInfo n en = Some (take n xs, en') \<and> engine_holds en' (drop (Suc n) xs)"
proof -
  obtain en' where read: "engine_read en = Some (if xs = [] then Null_obj else hd xs, en')" "engine_holds en' (tl xs)"
    using engine_read_first [OF assms] by blast
  show ?thesis
  proof (cases xs)
    case Nil
    then show ?thesis using read by (cases n) (auto simp: showDiscoveredNodeInfo_def)
  next
    case (Cons x xs')
    then have "x \<noteq> Null_obj" using assms by (auto simp: engine_holds_def)
    then show ?thesis using read Cons show_nodes_shows [of en' xs' x n] by (simp add: showDiscoveredNodeInfo_def)
  qed
qed

section \<open>Arrivals\<close>

text \<open>The worker listens at the address at which \<^verbatim>\<open>prog_arp_linux.c\<close> sends, and ends the program where that does.\<close>

lemma worker_start_as_arp:
  "worker_start e K =
     (if a_socket K < 0 then Inl ''Socket creation error!''
      else if \<not> a_calloc K then Inl ''sock_addr allocation failed!''
      else (case prepare_slladdr e K \<lparr>sll_family = AF_PACKET, sll_protocol = 0, sll_ifindex = 0, sll_addr = replicate 8 0\<rparr> of
          Inl msg \<Rightarrow> Inl msg
        | Inr (sock_addr, mymac) \<Rightarrow> Inr (if a_bind K < 0 then [''Bind Error!''] else [], sock_addr)))"
  by (simp add: worker_start_def prepare_slladdr_def Let_def split: option.splits)

lemma worker_step_stores:
  assumes "engine_holds en xs" "42 \<le> length ds" "length xs < 999"
  shows "\<exists>out en'. worker_step (Frame ds) en = Some (out, en') \<and> engine_holds en' (xs @ [entry_of ds])"
proof -
  have buf: "receive_into (eth_packet en) ds = take 42 ds"
    using assms(1,2) receive_long [of "eth_packet en" ds] by (simp add: engine_holds_def)
  have entry: "Obj (discovered_mac (field 22 6 (take 42 ds))) (discovered_ip (field 28 4 (take 42 ds))) = entry_of ds"
    by (simp add: entry_of_def field_def min_def take_drop)
  have "queue_holds DATAQ_SIZE (recvqueue en) xs" using assms(1) by (simp add: engine_holds_def)
  then obtain out q where "queue_push (entry_of ds) (recvqueue en) = Some (out, q)" "queue_holds DATAQ_SIZE q (xs @ [entry_of ds])"
    using ring_queue.push_room [of DATAQ_SIZE "recvqueue en" xs "entry_of ds"] assms(3) by (auto simp: DATAQ_SIZE_def)
  then show ?thesis using assms(1,2) discovered_fit [of "take 42 ds"]
    by (simp add: worker_step_def buf entry Let_def recvQueuePush_def engine_holds_def) (simp add: entry_of_def)
qed

lemma ui_run_append: "ui_run (es @ es') u = do { u \<leftarrow> ui_run es u; ui_run es' u }"
  by (induction es arbitrary: u) (auto split: Option.bind_splits)

lemma arrivals_stored:
  "engine_holds en xs \<Longrightarrow> \<forall>ds \<in> set fs. 42 \<le> length ds \<Longrightarrow>
   length xs + length fs < 1000 \<Longrightarrow> discoEngine u = Some en \<Longrightarrow>
   \<exists>en'. ui_run (map (\<lambda>ds. Arrives (Frame ds)) fs) u = Some (u\<lparr>discoEngine := Some en'\<rparr>) \<and> engine_holds en' (xs @ map entry_of fs)"
proof (induction fs arbitrary: en xs u)
  case (Cons ds fs)
  then obtain out en' where step: "worker_step (Frame ds) en = Some (out, en')" "engine_holds en' (xs @ [entry_of ds])"
    using worker_step_stores [of en xs ds] by auto
  let ?u = "u\<lparr>discoEngine := Some en'\<rparr>"
  have "\<exists>en''. ui_run (map (\<lambda>ds. Arrives (Frame ds)) fs) ?u = Some (?u\<lparr>discoEngine := Some en''\<rparr>)
      \<and> engine_holds en'' ((xs @ [entry_of ds]) @ map entry_of fs)"
    using step(2) Cons.prems by (intro Cons.IH) auto
  then show ?case using step(1) Cons.prems(4) by auto
next
  case Nil
  then show ?case by (cases u) auto
qed

lemma refreshes_show:
  "engine_holds en xs \<Longrightarrow> discoEngine u = Some en \<Longrightarrow>
   \<exists>en'. ui_run (replicate k Refresh) u = Some (u\<lparr>discoEngine := Some en',
       rows := rows u @ concat (map (\<lambda>i. take 10 (drop (11 * i) xs)) [0..<k])\<rparr>) \<and> engine_holds en' (drop (11 * k) xs)"
proof (induction k)
  case (Suc k)
  then obtain en' where run: "ui_run (replicate k Refresh) u = Some (u\<lparr>discoEngine := Some en',
       rows := rows u @ concat (map (\<lambda>i. take 10 (drop (11 * i) xs)) [0..<k])\<rparr>)" "engine_holds en' (drop (11 * k) xs)"
    by blast
  obtain en'' where "showDiscoveredNodeInfo 10 en' = Some (take 10 (drop (11 * k) xs), en'')"
    "engine_holds en'' (drop (Suc 10) (drop (11 * k) xs))"
    using showDiscoveredNodeInfo_shows [OF run(2), of 10] by blast
  moreover have "replicate (Suc k) Refresh = replicate k Refresh @ [Refresh]" by (simp add: replicate_append_same)
  ultimately show ?case using run(1) by (cases u) (simp add: ui_run_append del: replicate.simps)
next
  case 0
  then show ?case by (cases u) auto
qed

section \<open>Reading the ARP table\<close>

text \<open>The format in which the kernel writes \<^verbatim>\<open>/proc/net/arp\<close>: columns padded with blanks.\<close>

definition pad :: "nat \<Rightarrow> string \<Rightarrow> string" where
  "pad n s = s @ replicate (n - length s) CHR '' ''"

fun show_hex :: "nat \<Rightarrow> string" where
  "show_hex n = (if n < 16 then [hex_digit n] else show_hex (n div 16) @ [hex_digit (n mod 16)])"

declare show_hex.simps [simp del]

record arp_row =
  row_ip :: string
  row_type :: nat
  row_flags :: nat
  row_hwa :: string
  row_dev :: string

definition row_text :: "arp_row \<Rightarrow> string" where
  "row_text r = pad 16 (row_ip r) @ '' 0x'' @ pad 10 (show_hex (row_type r)) @ ''0x'' @ pad 10 (show_hex (row_flags r))
     @ pad 17 (row_hwa r) @ ''     *        '' @ row_dev r"

definition arp_word :: "nat \<Rightarrow> string \<Rightarrow> bool" where
  "arp_word n w = (w \<noteq> [] \<and> length w \<le> n \<and> (\<forall>c \<in> set w. \<not> is_space c \<and> c \<noteq> CHR 0x00))"

definition row_ok :: "arp_row \<Rightarrow> bool" where
  "row_ok r = (arp_word 15 (row_ip r) \<and> row_type r < 2 ^ 32 \<and> row_flags r < 2 ^ 32 \<and> arp_word 96 (row_hwa r) \<and> arp_word 15 (row_dev r))"

lemma scan_word_at:
  assumes "arp_word 99 w" "\<forall>c \<in> set sp. is_space c" "rest = [] \<or> is_space (hd rest)"
  shows "scan_word (sp @ w @ rest) = Scanned w rest"
proof -
  have "dropWhile is_space (sp @ w @ rest) = w @ rest"
    using assms(1,2) by (cases w) (auto simp: arp_word_def dropWhile_append2)
  moreover have "takeWhile (\<lambda>c. \<not> is_space c) (w @ rest) = w" "dropWhile (\<lambda>c. \<not> is_space c) (w @ rest) = rest"
    using assms(1,3) by (cases rest; auto simp: arp_word_def takeWhile_append2 dropWhile_append2)+
  ultimately show ?thesis using assms(1) by (simp add: scan_word_def arp_word_def Let_def)
qed

lemma scan_0x_at: "\<forall>c \<in> set sp. is_space c \<Longrightarrow> scan_0x (sp @ ''0x'' @ rest) = Scanned () rest"
  by (simp add: scan_0x_def dropWhile_append2 is_space_def Let_def)

lemma hex_digit_hex: "d < 16 \<Longrightarrow> is_hex (hex_digit d) \<and> hex_of (hex_digit d) = d"
  by (auto simp: is_hex_def is_digit_def hex_of_def hex_digit_def)

lemma show_hex_hex: "\<forall>c \<in> set (show_hex n). is_hex c"
  by (induction n rule: show_hex.induct) (subst show_hex.simps, auto simp: hex_digit_hex)

lemma show_hex_nonempty: "show_hex n \<noteq> []"
  by (subst show_hex.simps) simp

lemma hex_val_snoc: "hex_val (ds @ [c]) = 16 * hex_val ds + hex_of c"
  by (simp add: hex_val_def)

lemma hex_val_show: "hex_val (show_hex n) = n"
proof (induction n rule: show_hex.induct)
  case (1 n)
  then show ?case
    by (subst show_hex.simps) (auto simp: hex_val_snoc hex_digit_hex, simp add: hex_val_def hex_digit_hex)
qed

lemma hex_char: "is_hex c \<Longrightarrow> \<not> is_space c \<and> c \<notin> {CHR ''-'', CHR ''+'', CHR ''x'', CHR ''X''} \<and> c \<noteq> CHR 0x00"
  by (auto simp: is_hex_def is_digit_def is_space_def)

lemma scan_hex_at:
  assumes "n < 2 ^ 32" "rest \<noteq> []" "is_space (hd rest)"
  shows "scan_hex (show_hex n @ rest) = Scanned (of_nat n) rest"
proof -
  obtain c cs where digits: "show_hex n = c # cs" using show_hex_nonempty [of n] by (cases "show_hex n") auto
  then have hex: "is_hex c" "\<forall>c \<in> set cs. is_hex c" using show_hex_hex [of n] by auto
  obtain r rs where rest: "rest = r # rs" "is_space r" using assms(2,3) by (cases rest) auto
  then have "\<not> is_hex r" using hex_char by blast
  have "(show_hex n @ rest) ! 1 \<notin> {CHR ''x'', CHR ''X''}"
    using hex rest hex_char unfolding digits by (cases cs) (auto simp: is_space_def)
  then have "after_0x (show_hex n @ rest) = show_hex n @ rest" by (auto simp: after_0x_def)
  moreover have "after_sign (show_hex n @ rest) = show_hex n @ rest" "dropWhile is_space (show_hex n @ rest) = show_hex n @ rest"
    "hd (show_hex n @ rest) \<noteq> CHR ''-''"
    using hex_char [OF hex(1)] by (auto simp: digits after_sign_def)
  moreover have "takeWhile is_hex (show_hex n @ rest) = show_hex n" "dropWhile is_hex (show_hex n @ rest) = rest"
    using show_hex_hex [of n] \<open>\<not> is_hex r\<close> rest by (auto simp: takeWhile_append2 dropWhile_append2)
  ultimately show ?thesis using assms(1) show_hex_nonempty [of n] by (simp add: scan_hex_def hex_val_show Let_def)
qed

lemma pad_blanks: "\<exists>m. pad n s @ rest = s @ replicate m CHR '' '' @ rest \<and> n - length s = m"
  by (simp add: pad_def)

lemma show_hex_length: "n < 16 ^ Suc k \<Longrightarrow> length (show_hex n) \<le> Suc k"
proof (induction k arbitrary: n)
  case (Suc k)
  have "n div 16 < 16 ^ Suc k" using Suc.prems by (simp add: div_less_iff_less_mult)
  from Suc.IH [OF this] show ?case by (subst show_hex.simps) simp
qed (simp add: show_hex.simps)

lemma blank [simp]: "is_space CHR '' ''"
  by (simp add: is_space_def)

lemma scan_row_text:
  assumes "row_ok r" "eol = CHR 0x0A # cs"
  shows "\<exists>s. scan_row (row_text r @ eol) = Scanned (row_ip r, of_nat (row_type r), row_hwa r) s
     \<and> bind_scan (scan_word s) (\<lambda>mask s. scan_word s) = Scanned (row_dev r) eol"
proof -
  have ok: "arp_word 99 (row_ip r)" "arp_word 99 (row_hwa r)" "arp_word 99 (row_dev r)" "row_type r < 2 ^ 32" "row_flags r < 2 ^ 32"
    using assms(1) by (auto simp: row_ok_def arp_word_def)
  have len: "length (show_hex (row_type r)) \<le> 8" "length (show_hex (row_flags r)) \<le> 8"
    using show_hex_length [of _ 7] ok(4,5) by simp_all
  define a where "a = replicate (10 - length (show_hex (row_type r))) CHR '' ''"
  define b where "b = replicate (10 - length (show_hex (row_flags r))) CHR '' ''"
  define c where "c = replicate (17 - length (row_hwa r)) CHR '' ''"
  have ab: "a \<noteq> []" "is_space (hd a)" "b \<noteq> []" "is_space (hd b)" "\<forall>x \<in> set a. is_space x" "\<forall>x \<in> set b. is_space x"
    "\<forall>x \<in> set c. is_space x"
    using len by (auto simp: a_def b_def c_def hd_replicate)
  have rest: "c @ ''     *        '' @ x = (c @ ''     '') @ ''*'' @ ''        '' @ x" for x by simp
  have t5: "scan_word (b @ row_hwa r @ c @ ''     *        '' @ row_dev r @ eol)
      = Scanned (row_hwa r) (c @ ''     *        '' @ row_dev r @ eol)"
    using ok(2) ab(6,7) by (intro scan_word_at) (auto simp: c_def hd_append)
  have t6: "scan_word (c @ ''     *        '' @ row_dev r @ eol) = Scanned ''*'' (''        '' @ row_dev r @ eol)"
    unfolding rest using ab(7) by (intro scan_word_at) (auto simp: arp_word_def is_space_def)
  have t7: "scan_word (''        '' @ row_dev r @ eol) = Scanned (row_dev r) eol"
    using ok(3) assms(2) by (intro scan_word_at) (auto simp: is_space_def)
  let ?t4 = "b @ row_hwa r @ c @ ''     *        '' @ row_dev r @ eol"
  have t4: "scan_hex (show_hex (row_flags r) @ ?t4) = Scanned (of_nat (row_flags r)) ?t4"
    using ok(5) ab(3,4) by (intro scan_hex_at) auto
  have t3: "scan_0x (a @ ''0x'' @ show_hex (row_flags r) @ ?t4) = Scanned () (show_hex (row_flags r) @ ?t4)"
    using ab(5) by (intro scan_0x_at) auto
  let ?t2 = "a @ ''0x'' @ show_hex (row_flags r) @ ?t4"
  have t2: "scan_hex (show_hex (row_type r) @ ?t2) = Scanned (of_nat (row_type r)) ?t2"
    using ok(4) ab(1,2) by (intro scan_hex_at) auto
  have blanks: "\<forall>x \<in> set (replicate n CHR '' '' @ '' ''). is_space x" for n by auto
  have t1: "scan_0x ((replicate n CHR '' '' @ '' '') @ ''0x'' @ show_hex (row_type r) @ ?t2) = Scanned () (show_hex (row_type r) @ ?t2)" for n
    by (rule scan_0x_at [OF blanks])
  let ?t1 = "(replicate (16 - length (row_ip r)) CHR '' '' @ '' '') @ ''0x'' @ show_hex (row_type r) @ ?t2"
  have t0: "scan_word ([] @ row_ip r @ ?t1) = Scanned (row_ip r) ?t1"
    using ok(1) by (intro scan_word_at) (auto simp: hd_append)
  have "row_text r @ eol = [] @ row_ip r @ ?t1"
    by (simp add: row_text_def pad_def a_def b_def c_def)
  then show ?thesis using t0 t1 t2 t3 t4 t5 t6 t7 by (simp add: scan_row_def)
qed

lemma row_text_line:
  assumes "row_ok r"
  shows "CHR 0x0A \<notin> set (row_text r)" "CHR 0x00 \<notin> set (row_text r)" "length (row_text r) < 199"
proof -
  have hex: "CHR 0x0A \<notin> set (show_hex n)" "CHR 0x00 \<notin> set (show_hex n)" for n
    using show_hex_hex [of n] hex_char by (auto simp: is_space_def)
  have word: "CHR 0x0A \<notin> set w \<and> CHR 0x00 \<notin> set w \<and> length w \<le> k" if "arp_word k w" for w k
    using that by (auto simp: arp_word_def is_space_def)
  have "arp_word 15 (row_ip r)" "arp_word 96 (row_hwa r)" "arp_word 15 (row_dev r)" "row_type r < 2 ^ 32" "row_flags r < 2 ^ 32"
    using assms by (simp_all add: row_ok_def)
  note ok = word [OF this(1)] word [OF this(2)] word [OF this(3)] show_hex_length [of "row_type r" 7]
    show_hex_length [of "row_flags r" 7] this(4,5)
  show "CHR 0x0A \<notin> set (row_text r)" "CHR 0x00 \<notin> set (row_text r)" "length (row_text r) < 199"
    using ok hex by (auto simp: row_text_def pad_def)
qed

lemma sscanf_row_text:
  assumes "row_ok r"
  shows "sscanf_row (row_text r @ [CHR 0x0A]) = Some (Some (row_ip r, of_nat (row_type r), row_hwa r))"
proof -
  have "\<forall>c \<in> set (row_text r @ [CHR 0x0A]). c \<noteq> CHR 0x00" using row_text_line(2) [OF assms] by fastforce
  then have line: "takeWhile (\<lambda>c. c \<noteq> CHR 0x00) (row_text r @ [CHR 0x0A]) = row_text r @ [CHR 0x0A]"
    by (simp only: takeWhile_eq_all_conv)
  obtain s where "scan_row (row_text r @ [CHR 0x0A]) = Scanned (row_ip r, of_nat (row_type r), row_hwa r) s"
    "bind_scan (scan_word s) (\<lambda>mask s. scan_word s) = Scanned (row_dev r) [CHR 0x0A]"
    using scan_row_text [OF assms, of "[CHR 0x0A]" "[]"] by blast
  then show ?thesis unfolding sscanf_row_def line by simp
qed

definition tx_holds :: "engine \<Rightarrow> data_ptr list \<Rightarrow> bool" where
  "tx_holds en zs = queue_holds DATAQ_SIZE (txqueue en) (take 999 zs)"

lemma txqueue_push_holds:
  assumes "tx_holds en zs"
  shows "\<exists>q. txqueue_push x en = Some (en\<lparr>txqueue := q\<rparr>) \<and> tx_holds (en\<lparr>txqueue := q\<rparr>) (zs @ [x])"
proof -
  obtain out q where "queue_push x (txqueue en) = Some (out, q)" "queue_holds DATAQ_SIZE q (take 999 (zs @ [x]))"
    using ring_queue.push_first_ones [of DATAQ_SIZE "txqueue en" zs x] assms by (auto simp: tx_holds_def DATAQ_SIZE_def)
  then show ?thesis by (auto simp: txqueue_push_def tx_holds_def)
qed

definition tx_entries :: "arp_row list \<Rightarrow> data_ptr list" where
  "tx_entries rs = map (\<lambda>r. Obj (row_ip r) (row_hwa r)) (filter (\<lambda>r. row_type r = 1) rs)"

lemma configure_rows_table:
  "\<forall>r \<in> set rs. row_ok r \<Longrightarrow> tx_holds en zs \<Longrightarrow>
   \<exists>q. configure_rows (concat (map (\<lambda>r. row_text r @ [CHR 0x0A]) rs)) en = Some (en\<lparr>txqueue := q\<rparr>)
     \<and> tx_holds (en\<lparr>txqueue := q\<rparr>) (zs @ tx_entries rs)"
proof (induction rs arbitrary: en zs)
  case Nil
  then show ?case by (subst configure_rows.simps) (cases en, auto simp: tx_entries_def)
next
  case (Cons r rs)
  have ok: "row_ok r" using Cons.prems(1) by simp
  have line: "fgets_line 199 (row_text r @ CHR 0x0A # cs) = (row_text r @ [CHR 0x0A], cs)" for cs
    using row_text_line [OF ok] by (intro fgets_whole_line) simp_all
  have type1: "(of_nat (row_type r) = (1 :: u32)) = (row_type r = 1)"
    using word_of_nat_eq_iff [of "row_type r" 1, where 'a = 32] ok by (simp add: row_ok_def take_bit_nat_eq_self_iff [THEN iffD2])
  obtain q where row: "configure_row (row_text r @ [CHR 0x0A]) en = Some (en\<lparr>txqueue := q\<rparr>)"
    "tx_holds (en\<lparr>txqueue := q\<rparr>) (zs @ tx_entries [r])"
  proof (cases "row_type r = 1")
    case True
    then show ?thesis using that txqueue_push_holds [OF Cons.prems(2), of "Obj (row_ip r) (row_hwa r)"] type1
      by (auto simp: configure_row_def sscanf_row_text [OF ok] tx_entries_def)
  next
    case False
    then show ?thesis using that [of "txqueue en"] Cons.prems(2) type1
      by (simp add: configure_row_def sscanf_row_text [OF ok] tx_entries_def)
  qed
  obtain q' where "configure_rows (concat (map (\<lambda>r. row_text r @ [CHR 0x0A]) rs)) (en\<lparr>txqueue := q\<rparr>)
      = Some (en\<lparr>txqueue := q'\<rparr>)" "tx_holds (en\<lparr>txqueue := q'\<rparr>) ((zs @ tx_entries [r]) @ tx_entries rs)"
    using Cons.IH [OF _ row(2)] Cons.prems(1) by auto
  then show ?case using row(1)
    by (subst configure_rows.simps) (auto simp: line tx_entries_def)
qed

lemma configure_table:
  assumes "CHR 0x0A \<notin> set header" "length header < 199" "\<forall>r \<in> set rs. row_ok r" "tx_holds en zs"
  shows "\<exists>q. configure 0 (Some (header @ CHR 0x0A # concat (map (\<lambda>r. row_text r @ [CHR 0x0A]) rs))) en
       = Some (0, en\<lparr>txqueue := q\<rparr>) \<and> tx_holds (en\<lparr>txqueue := q\<rparr>) (zs @ tx_entries rs)"
  using configure_rows_table [OF assms(3,4)] fgets_whole_line [OF assms(1,2)] by (auto simp: configure_def)

lemma new_engine_holds:
  "length garbage = 42 \<Longrightarrow> \<exists>en. new_engine garbage = Some en \<and> engine_holds en [] \<and> tx_holds en []"
proof -
  obtain q :: "data_ptr Queue" where "new_Queue DATAQ_SIZE = Some q" "queue_holds DATAQ_SIZE q []"
    using holds_new [of DATAQ_SIZE] by (auto simp: DATAQ_SIZE_def)
  then show "length garbage = 42 \<Longrightarrow> ?thesis" by (simp add: new_engine_def engine_holds_def tx_holds_def)
qed

text \<open>The button Discover, on a table as the kernel writes it.\<close>

lemma discover_clicked:
  assumes "CHR 0x0A \<notin> set header" "length header < 199" "\<forall>r \<in> set rs. row_ok r" "length garbage = 42" "button u = Discover"
  shows "\<exists>en. pbClicked 0 (Some (header @ CHR 0x0A # concat (map (\<lambda>r. row_text r @ [CHR 0x0A]) rs))) garbage u
       = Some (u\<lparr>discoEngine := Some en, button := Stop\<rparr>)
     \<and> engine_holds en [] \<and> tx_holds en (tx_entries rs)"
proof -
  obtain en where en: "new_engine garbage = Some en" "engine_holds en []" "tx_holds en []"
    using new_engine_holds [OF assms(4)] by blast
  then show ?thesis using configure_table [OF assms(1-3) en(3)] assms(5)
    by (auto simp: pbClicked_def engine_holds_def)
qed

section \<open>Results\<close>

text \<open>C22. Whatever the kernel's ARP table contains, written in its format, the button Discover starts an
  engine that has queued the address pairs of exactly the Ethernet entries, in order, up to 999.\<close>

theorem discover_reads_arp_table:
  assumes "CHR 0x0A \<notin> set header" "length header < 199" "\<forall>r \<in> set rs. row_ok r" "length garbage = 42"
  shows "\<exists>en. ui_run [Clicked 0 (Some (header @ CHR 0x0A # concat (map (\<lambda>r. row_text r @ [CHR 0x0A]) rs))) garbage] ui_start
       = Some \<lparr>discoEngine = Some en, button = Stop, rows = []\<rparr>
     \<and> queue_holds DATAQ_SIZE (txqueue en) (take 999 (map (\<lambda>r. Obj (row_ip r) (row_hwa r)) (filter (\<lambda>r. row_type r = 1) rs)))"
proof -
  obtain en where "pbClicked 0 (Some (header @ CHR 0x0A # concat (map (\<lambda>r. row_text r @ [CHR 0x0A]) rs))) garbage ui_start
       = Some (ui_start\<lparr>discoEngine := Some en, button := Stop\<rparr>)" "tx_holds en (tx_entries rs)"
    using discover_clicked [OF assms, of ui_start] by (auto simp: ui_start_def)
  then show ?thesis by (auto simp: ui_start_def tx_holds_def tx_entries_def)
qed

definition sample_arp_rows :: "arp_row list" where
  "sample_arp_rows =
     [\<lparr>row_ip = ''10.0.2.2'', row_type = 1, row_flags = 2, row_hwa = ''52:55:0a:00:02:02'', row_dev = ''eth0''\<rparr>,
      \<lparr>row_ip = ''10.0.3.9'', row_type = 32, row_flags = 0, row_hwa = ''00:00'', row_dev = ''ib0''\<rparr>]"

lemma sample_arp_rows_ok: "\<forall>r \<in> set sample_arp_rows. row_ok r"
  by (simp add: sample_arp_rows_def row_ok_def arp_word_def is_space_def)

lemma discover_reads_arp_table_witness:
  "\<exists>en. ui_run [Clicked 0 (Some (''IP address'' @ CHR 0x0A # concat (map (\<lambda>r. row_text r @ [CHR 0x0A]) sample_arp_rows)))
        (replicate 42 0)] ui_start
       = Some \<lparr>discoEngine = Some en, button = Stop, rows = []\<rparr>
     \<and> queue_holds DATAQ_SIZE (txqueue en) [Obj ''10.0.2.2'' ''52:55:0a:00:02:02'']"
proof -
  have "take 999 (map (\<lambda>r. Obj (row_ip r) (row_hwa r)) (filter (\<lambda>r. row_type r = 1) sample_arp_rows))
      = [Obj ''10.0.2.2'' ''52:55:0a:00:02:02'']" by (simp add: sample_arp_rows_def)
  then show ?thesis
    using discover_reads_arp_table [OF _ _ sample_arp_rows_ok, of "''IP address''" "replicate 42 0"] by simp
qed

text \<open>C12. Fewer than 1000 frames arrive after Discover, then the user refreshes the list \<open>k\<close> times and stops: the
  list has the senders in the order of arrival, but each refresh has skipped the eleventh entry
  after the ten it shows, if there was one.\<close>

theorem refresh_skips_an_entry:
  assumes "CHR 0x0A \<notin> set header" "length header < 199" "\<forall>r \<in> set rs. row_ok r" "length garbage = 42"
    "\<forall>ds \<in> set fs. 42 \<le> length ds" "length fs < 1000"
  shows "ui_run (Clicked 0 (Some (header @ CHR 0x0A # concat (map (\<lambda>r. row_text r @ [CHR 0x0A]) rs))) garbage
      # map (\<lambda>ds. Arrives (Frame ds)) fs @ replicate k Refresh @ [Clicked euid table garbage']) ui_start
     = Some \<lparr>discoEngine = None, button = Discover,
         rows = concat (map (\<lambda>i. take 10 (drop (11 * i) (map entry_of fs))) [0..<k]) @ drop (11 * k) (map entry_of fs)\<rparr>"
proof -
  let ?click = "Clicked 0 (Some (header @ CHR 0x0A # concat (map (\<lambda>r. row_text r @ [CHR 0x0A]) rs))) garbage"
  let ?xs = "map entry_of fs"
  let ?u = "\<lambda>en rs. \<lparr>discoEngine = Some en, button = Stop, rows = rs\<rparr>"
  obtain en where en: "ui_step ?click ui_start = Some (?u en [])" "engine_holds en []"
    using discover_clicked [OF assms(1-4), of ui_start] by (auto simp: ui_start_def)
  then obtain en' where arrived: "ui_run (map (\<lambda>ds. Arrives (Frame ds)) fs) (?u en []) = Some (?u en' [])" "engine_holds en' ?xs"
    using arrivals_stored [of en "[]" fs "?u en []"] assms(5,6) by auto
  let ?rows = "concat (map (\<lambda>i. take 10 (drop (11 * i) ?xs)) [0..<k])"
  obtain en'' where shown: "ui_run (replicate k Refresh) (?u en' []) = Some (?u en'' ?rows)" "engine_holds en'' (drop (11 * k) ?xs)"
    using refreshes_show [OF arrived(2), of "?u en' []" k] by auto
  obtain en3 where "showDiscoveredNodeInfo DATAQ_SIZE en'' = Some (take DATAQ_SIZE (drop (11 * k) ?xs), en3)"
    using showDiscoveredNodeInfo_shows [OF shown(2), of DATAQ_SIZE] by blast
  moreover have "take DATAQ_SIZE (drop (11 * k) ?xs) = drop (11 * k) ?xs" using assms(6) by (simp add: DATAQ_SIZE_def)
  ultimately have "ui_step (Clicked euid table garbage') (?u en'' ?rows)
      = Some \<lparr>discoEngine = None, button = Discover, rows = ?rows @ drop (11 * k) ?xs\<rparr>" by (simp add: pbClicked_def)
  then show ?thesis using en(1) arrived(1) shown(1) by (simp only: ui_run.simps ui_run_append append_Cons bind.bind_lunit)
qed

text \<open>Twelve hosts answer, and the eleventh is never shown.\<close>

definition sample_frames :: "u8 list list" where
  "sample_frames = map (\<lambda>i. replicate 28 0 @ [10, 0, 0, i] @ replicate 10 0) [1, 2, 3, 4, 5, 6, 7, 8, 9, 10, 11, 12]"

lemma refresh_skips_an_entry_witness:
  "map_option (map obj_value \<circ> rows) (ui_run (Clicked 0 (Some (''IP'' @ CHR 0x0A # concat (map (\<lambda>r. row_text r @ [CHR 0x0A]) [])))
        (replicate 42 0) # map (\<lambda>ds. Arrives (Frame ds)) sample_frames @ replicate 1 Refresh @ [Clicked 0 None []]) ui_start)
   = Some [''10.0.0.1'', ''10.0.0.2'', ''10.0.0.3'', ''10.0.0.4'', ''10.0.0.5'', ''10.0.0.6'', ''10.0.0.7'', ''10.0.0.8'',
       ''10.0.0.9'', ''10.0.0.10'', ''10.0.0.12'']"
proof -
  let ?xs = "map entry_of sample_frames"
  have "map obj_value (concat (map (\<lambda>i. take 10 (drop (11 * i) ?xs)) [0..<1]) @ drop (11 * 1) ?xs)
     = [''10.0.0.1'', ''10.0.0.2'', ''10.0.0.3'', ''10.0.0.4'', ''10.0.0.5'', ''10.0.0.6'', ''10.0.0.7'', ''10.0.0.8'',
       ''10.0.0.9'', ''10.0.0.10'', ''10.0.0.12'']" by code_simp
  then show ?thesis
    by (subst refresh_skips_an_entry) (simp_all add: sample_frames_def)
qed

end
