(* ===== verification/Event_Log.thy ===== *)
theory Event_Log
  imports In_Cksum
begin

text \<open>
  The routine \<^verbatim>\<open>eqllogQCopyEntry\<close> of \<^verbatim>\<open>prog_sigbus2.c\<close>, which copies an entry of an event log, a packed header,
  a name and an event, and on the way either marks the header as a dump or stamps the event with the time
  of the last boot, in the entry itself.  Structs are records with their bytes in memory for hosts
  of either byte order; \<^const>\<open>None\<close> is an access outside a block.

  The lemmas show that a record is read back from its bytes, and what is copied.
\<close>

section \<open>Numbers in memory\<close>

fun low_bytes :: "nat \<Rightarrow> nat \<Rightarrow> u8 list" where
  "low_bytes 0 v = []"
| "low_bytes (Suc n) v = of_nat (v mod 256) # low_bytes n (v div 256)"

fun low_val :: "u8 list \<Rightarrow> nat" where
  "low_val [] = 0"
| "low_val (b # bs) = unat b + 256 * low_val bs"

fun num_bytes :: "host \<Rightarrow> nat \<Rightarrow> nat \<Rightarrow> u8 list" where
  "num_bytes LittleEndian n v = low_bytes n v"
| "num_bytes BigEndian n v = rev (low_bytes n v)"

fun num_val :: "host \<Rightarrow> u8 list \<Rightarrow> nat" where
  "num_val LittleEndian bs = low_val bs"
| "num_val BigEndian bs = low_val (rev bs)"

definition mem_read :: "nat \<Rightarrow> nat \<Rightarrow> u8 list \<Rightarrow> u8 list option" where
  "mem_read i n bs = (if i + n \<le> length bs then Some (take n (drop i bs)) else None)"

definition mem_write :: "nat \<Rightarrow> u8 list \<Rightarrow> u8 list \<Rightarrow> u8 list option" where
  "mem_write i new bs =
     (if i + length new \<le> length bs then Some (take i bs @ new @ drop (i + length new) bs) else None)"

fun strlen :: "u8 list \<Rightarrow> nat option" where
  "strlen [] = None"
| "strlen (c # cs) = (if c = 0 then Some 0 else map_option Suc (strlen cs))"

section \<open>Headers and events\<close>

record uuid_t =
  uuid_low :: u64
  uuid_hi :: u64

definition eqllogPayloadDump :: u32 where
  "eqllogPayloadDump = 4"

record timeval =
  tv_sec :: u32
  tv_usec :: u32

record eqllogHeader_t =
  m_cksum :: u32
  m_numEvents :: u32
  m_name_unused :: u32
  m_uuid :: uuid_t
  m_index :: u64
  m_state :: u32

record eqllogEvent_t =
  m_event :: u32
  m_line :: u32
  m_size :: u32
  m_module_unused :: u32
  m_zbus :: u64
  m_sequenceNum :: u64
  m_sent :: timeval

definition get32 :: "host \<Rightarrow> nat \<Rightarrow> u8 list \<Rightarrow> u32" where
  "get32 e i bs = of_nat (num_val e (take 4 (drop i bs)))"

definition get64 :: "host \<Rightarrow> nat \<Rightarrow> u8 list \<Rightarrow> u64" where
  "get64 e i bs = of_nat (num_val e (take 8 (drop i bs)))"

definition header_of :: "host \<Rightarrow> u8 list \<Rightarrow> eqllogHeader_t" where
  "header_of e bs = \<lparr>m_cksum = get32 e 0 bs, m_numEvents = get32 e 4 bs, m_name_unused = get32 e 8 bs,
     m_uuid = \<lparr>uuid_low = get64 e 12 bs, uuid_hi = get64 e 20 bs\<rparr>, m_index = get64 e 28 bs, m_state = get32 e 36 bs\<rparr>"

definition header_bytes :: "host \<Rightarrow> eqllogHeader_t \<Rightarrow> u8 list" where
  "header_bytes e h = num_bytes e 4 (unat (m_cksum h)) @ num_bytes e 4 (unat (m_numEvents h)) @ num_bytes e 4 (unat (m_name_unused h))
     @ num_bytes e 8 (unat (uuid_low (m_uuid h))) @ num_bytes e 8 (unat (uuid_hi (m_uuid h)))
     @ num_bytes e 8 (unat (m_index h)) @ num_bytes e 4 (unat (m_state h))"

definition event_of :: "host \<Rightarrow> u8 list \<Rightarrow> eqllogEvent_t" where
  "event_of e bs = \<lparr>m_event = get32 e 0 bs, m_line = get32 e 4 bs, m_size = get32 e 8 bs, m_module_unused = get32 e 12 bs,
     m_zbus = get64 e 16 bs, m_sequenceNum = get64 e 24 bs, m_sent = \<lparr>tv_sec = get32 e 32 bs, tv_usec = get32 e 36 bs\<rparr>\<rparr>"

definition event_bytes :: "host \<Rightarrow> eqllogEvent_t \<Rightarrow> u8 list" where
  "event_bytes e v = num_bytes e 4 (unat (m_event v)) @ num_bytes e 4 (unat (m_line v)) @ num_bytes e 4 (unat (m_size v))
     @ num_bytes e 4 (unat (m_module_unused v)) @ num_bytes e 8 (unat (m_zbus v)) @ num_bytes e 8 (unat (m_sequenceNum v))
     @ num_bytes e 4 (unat (tv_sec (m_sent v))) @ num_bytes e 4 (unat (tv_usec (m_sent v)))"

section \<open>The routine\<close>

record sgElement_t =
  el_buf :: "u8 list option"
  el_len :: u32

definition stamp :: "timeval \<Rightarrow> eqllogEvent_t \<Rightarrow> eqllogEvent_t option" where
  "stamp boottime event =
     (if sint (tv_sec (m_sent event)) \<ge> 0 \<and> sint (tv_sec (m_sent event)) < 10000
      then Some (event\<lparr>m_sent := boottime\<rparr>) else None)"

text \<open>The loop over the events from number \<open>j\<close> on, \<open>k\<close> of them, at offset \<open>buf\<close> of the entry.\<close>

fun stamp_loop :: "host \<Rightarrow> timeval \<Rightarrow> nat \<Rightarrow> nat \<Rightarrow> nat \<Rightarrow> u8 list \<Rightarrow> u8 list option" where
  "stamp_loop e boottime 0 j buf bs = Some bs"
| "stamp_loop e boottime (Suc k) j buf bs = do {
     buf \<leftarrow> (if j = 1 then do { n \<leftarrow> strlen (drop buf bs); Some (buf + n + 1) } else Some buf);
     ev \<leftarrow> mem_read buf 40 bs;
     bs \<leftarrow> (case stamp boottime (event_of e ev) of None \<Rightarrow> Some bs
        | Some event \<Rightarrow> mem_write buf (event_bytes e event) bs);
     stamp_loop e boottime k (j + 1) (buf + 40) bs
   }"

text \<open>Result: what is returned, the destination and the entries.\<close>

definition eqllogQCopyEntry ::
    "host \<Rightarrow> timeval \<Rightarrow> u8 list \<Rightarrow> sgElement_t list \<Rightarrow> int \<Rightarrow> bool \<Rightarrow> (int \<times> u8 list \<times> sgElement_t list) option" where
  "eqllogQCopyEntry e boottime pDest m_iovecs entry flag_as_dump = do {
     el \<leftarrow> aget m_iovecs entry;
     (case el_buf el of
        None \<Rightarrow> Some (0, pDest, m_iovecs)
      | Some bs \<Rightarrow> do {
          h \<leftarrow> mem_read 0 40 bs;
          let head = header_of e h;
          (head, bs) \<leftarrow> (if \<not> flag_as_dump then do {
              n \<leftarrow> strlen (drop 40 bs);
              let head = head\<lparr>m_numEvents := 1\<rparr>;
              bs \<leftarrow> stamp_loop e boottime (unat (m_numEvents head)) 0 (40 + n + 1) bs;
              Some (head, bs)
            } else Some (head, bs));
          let head = (if flag_as_dump
            then head\<lparr>m_uuid := (m_uuid head)\<lparr>uuid_low := ucast (m_state head)\<rparr>, m_state := eqllogPayloadDump\<rparr> else head);
          pDest \<leftarrow> mem_write 0 (header_bytes e head) pDest;
          rest \<leftarrow> mem_read 40 (unat ((ucast (el_len el) :: u64) - 40)) bs;
          pDest \<leftarrow> mem_write 40 rest pDest;
          Some (sint (el_len el), pDest, m_iovecs[nat entry := el\<lparr>el_buf := Some bs\<rparr>])
        })
   }"

text \<open>The call of \<^verbatim>\<open>main\<close>: \<open>buf\<close> and \<open>dest\<close> are what the arrays of 1000 bytes happen to hold, the other three
  entries are not used.\<close>

definition eqllog_main :: "host \<Rightarrow> timeval \<Rightarrow> u8 list \<Rightarrow> u8 list \<Rightarrow> sgElement_t list \<Rightarrow> (int \<times> u8 list \<times> sgElement_t list) option" where
  "eqllog_main e boottime buf dest others =
     eqllogQCopyEntry e boottime dest (\<lparr>el_buf = Some (drop 1 buf), el_len = 40\<rparr> # others) 0 False"

section \<open>Round trips\<close>

lemma low_bytes_length [simp]: "length (low_bytes n v) = n"
  by (induction n arbitrary: v) auto

lemma low_val_bytes: "low_val (low_bytes n v) = v mod 256 ^ n"
proof (induction n arbitrary: v)
  case (Suc n)
  have "unat (of_nat (v mod 256) :: u8) = v mod 256" by (simp add: unsigned_of_nat take_bit_eq_mod)
  then show ?case using Suc by (simp add: mod_mult2_eq)
qed simp

lemma low_bytes_val: "low_bytes (length bs) (low_val bs) = bs"
proof (induction bs)
  case (Cons b bs)
  have "unat b < 256" using unsigned_less [of b, where 'a = nat] by simp
  then show ?case using Cons by simp
qed simp

lemma num_bytes_length [simp]: "length (num_bytes e n v) = n"
  by (cases e) auto

lemma num_val_bytes: "num_val e (num_bytes e n v) = v mod 256 ^ n"
  by (cases e) (simp_all add: low_val_bytes)

lemma get32_at:
  "length xs = i \<Longrightarrow> get32 e i (xs @ num_bytes e 4 (unat w) @ ys) = w"
  using unsigned_less [of w, where 'a = nat] by (simp add: get32_def num_val_bytes)

lemma get64_at:
  "length xs = i \<Longrightarrow> get64 e i (xs @ num_bytes e 8 (unat w) @ ys) = w"
  using unsigned_less [of w, where 'a = nat] by (simp add: get64_def num_val_bytes)

lemma header_bytes_length [simp]: "length (header_bytes e h) = 40"
  by (simp add: header_bytes_def)

lemma event_bytes_length [simp]: "length (event_bytes e v) = 40"
  by (simp add: event_bytes_def)

lemma get32_first: "get32 e 0 (num_bytes e 4 (unat w) @ ys) = w"
  using get32_at [of "[]" 0] by simp

lemma get32_last: "length xs = i \<Longrightarrow> get32 e i (xs @ num_bytes e 4 (unat w)) = w"
  using get32_at [of xs i e w "[]"] by simp

lemma header_of_bytes: "header_of e (header_bytes e h) = h"
proof -
  define a where "a = num_bytes e 4 (unat (m_cksum h))"
  define b where "b = num_bytes e 4 (unat (m_numEvents h))"
  define c where "c = num_bytes e 4 (unat (m_name_unused h))"
  define d where "d = num_bytes e 8 (unat (uuid_low (m_uuid h)))"
  define f where "f = num_bytes e 8 (unat (uuid_hi (m_uuid h)))"
  define g where "g = num_bytes e 8 (unat (m_index h))"
  define i where "i = num_bytes e 4 (unat (m_state h))"
  note parts = a_def b_def c_def d_def f_def g_def i_def
  have "header_bytes e h = a @ b @ c @ d @ f @ g @ i" by (simp add: header_bytes_def parts)
  moreover have "get32 e 0 (a @ b @ c @ d @ f @ g @ i) = m_cksum h" by (simp add: parts get32_first)
  moreover have "get32 e 4 (a @ b @ c @ d @ f @ g @ i) = m_numEvents h"
    using get32_at [of a 4 e "m_numEvents h" "c @ d @ f @ g @ i"] by (simp add: parts)
  moreover have "get32 e 8 (a @ b @ c @ d @ f @ g @ i) = m_name_unused h"
    using get32_at [of "a @ b" 8 e "m_name_unused h" "d @ f @ g @ i"] by (simp add: parts)
  moreover have "get64 e 12 (a @ b @ c @ d @ f @ g @ i) = uuid_low (m_uuid h)"
    using get64_at [of "a @ b @ c" 12 e "uuid_low (m_uuid h)" "f @ g @ i"] by (simp add: parts)
  moreover have "get64 e 20 (a @ b @ c @ d @ f @ g @ i) = uuid_hi (m_uuid h)"
    using get64_at [of "a @ b @ c @ d" 20 e "uuid_hi (m_uuid h)" "g @ i"] by (simp add: parts)
  moreover have "get64 e 28 (a @ b @ c @ d @ f @ g @ i) = m_index h"
    using get64_at [of "a @ b @ c @ d @ f" 28 e "m_index h" "i"] by (simp add: parts)
  moreover have "get32 e 36 (a @ b @ c @ d @ f @ g @ i) = m_state h"
    using get32_last [of "a @ b @ c @ d @ f @ g" 36 e "m_state h"] by (simp add: parts)
  ultimately show ?thesis by (simp add: header_of_def)
qed

lemma event_of_bytes: "event_of e (event_bytes e v) = v"
proof -
  define a where "a = num_bytes e 4 (unat (m_event v))"
  define b where "b = num_bytes e 4 (unat (m_line v))"
  define c where "c = num_bytes e 4 (unat (m_size v))"
  define d where "d = num_bytes e 4 (unat (m_module_unused v))"
  define f where "f = num_bytes e 8 (unat (m_zbus v))"
  define g where "g = num_bytes e 8 (unat (m_sequenceNum v))"
  define i where "i = num_bytes e 4 (unat (tv_sec (m_sent v)))"
  define j where "j = num_bytes e 4 (unat (tv_usec (m_sent v)))"
  note parts = a_def b_def c_def d_def f_def g_def i_def j_def
  have "event_bytes e v = a @ b @ c @ d @ f @ g @ i @ j" by (simp add: event_bytes_def parts)
  moreover have "get32 e 0 (a @ b @ c @ d @ f @ g @ i @ j) = m_event v" by (simp add: parts get32_first)
  moreover have "get32 e 4 (a @ b @ c @ d @ f @ g @ i @ j) = m_line v"
    using get32_at [of a 4 e "m_line v" "c @ d @ f @ g @ i @ j"] by (simp add: parts)
  moreover have "get32 e 8 (a @ b @ c @ d @ f @ g @ i @ j) = m_size v"
    using get32_at [of "a @ b" 8 e "m_size v" "d @ f @ g @ i @ j"] by (simp add: parts)
  moreover have "get32 e 12 (a @ b @ c @ d @ f @ g @ i @ j) = m_module_unused v"
    using get32_at [of "a @ b @ c" 12 e "m_module_unused v" "f @ g @ i @ j"] by (simp add: parts)
  moreover have "get64 e 16 (a @ b @ c @ d @ f @ g @ i @ j) = m_zbus v"
    using get64_at [of "a @ b @ c @ d" 16 e "m_zbus v" "g @ i @ j"] by (simp add: parts)
  moreover have "get64 e 24 (a @ b @ c @ d @ f @ g @ i @ j) = m_sequenceNum v"
    using get64_at [of "a @ b @ c @ d @ f" 24 e "m_sequenceNum v" "i @ j"] by (simp add: parts)
  moreover have "get32 e 32 (a @ b @ c @ d @ f @ g @ i @ j) = tv_sec (m_sent v)"
    using get32_at [of "a @ b @ c @ d @ f @ g" 32 e "tv_sec (m_sent v)" j] by (simp add: parts)
  moreover have "get32 e 36 (a @ b @ c @ d @ f @ g @ i @ j) = tv_usec (m_sent v)"
    using get32_last [of "a @ b @ c @ d @ f @ g @ i" 36 e "tv_usec (m_sent v)"] by (simp add: parts)
  ultimately show ?thesis by (simp add: event_of_def)
qed

lemma strlen_name: "0 \<notin> set name \<Longrightarrow> strlen (name @ 0 # cs) = Some (length name)"
  by (induction name) auto

lemma strlen_none: "0 \<notin> set cs \<Longrightarrow> strlen cs = None"
  by (induction cs) auto

section \<open>What is copied\<close>

definition stamped :: "timeval \<Rightarrow> eqllogEvent_t \<Rightarrow> eqllogEvent_t" where
  "stamped boottime event = (case stamp boottime event of None \<Rightarrow> event | Some event' \<Rightarrow> event')"

text \<open>A block with a part at a given offset.\<close>

lemma mem_read_at: "length xs = i \<Longrightarrow> length ys = n \<Longrightarrow> mem_read i n (xs @ ys @ zs) = Some ys"
  by (simp add: mem_read_def)

lemma mem_write_at: "length xs = i \<Longrightarrow> length ys = length new \<Longrightarrow> mem_write i new (xs @ ys @ zs) = Some (xs @ new @ zs)"
  by (simp add: mem_write_def)

lemma stamp_loop_one:
  assumes "length xs = i"
  shows "stamp_loop e boottime 1 0 i (xs @ event_bytes e v @ ys) = Some (xs @ event_bytes e (stamped boottime v) @ ys)"
proof -
  have "stamp_loop e boottime (Suc 0) 0 i (xs @ event_bytes e v @ ys) = Some (xs @ event_bytes e (stamped boottime v) @ ys)"
    using assms mem_read_at [OF assms, of "event_bytes e v" 40 ys] mem_write_at [OF assms, of "event_bytes e v" _ ys]
    by (auto simp: event_of_bytes stamped_def split: option.splits)
  then show ?thesis by simp
qed

definition dump_header :: "eqllogHeader_t \<Rightarrow> eqllogHeader_t" where
  "dump_header h = h\<lparr>m_uuid := (m_uuid h)\<lparr>uuid_low := ucast (m_state h)\<rparr>, m_state := eqllogPayloadDump\<rparr>"

lemma unat_wider: "unat (ucast w :: u64) = unat w" for w :: u32
  using unsigned_less [of w, where 'a = nat] by (simp add: unsigned_ucast_eq take_bit_nat_eq_self)

lemma unat_rest: "40 \<le> unat w \<Longrightarrow> unat ((ucast w :: u64) - 40) = unat w - 40" for w :: u32
proof -
  assume w: "40 \<le> unat w"
  moreover have "(40 :: u64) \<le> ucast w" using w by (simp add: word_le_nat_alt unat_wider)
  ultimately show ?thesis using unat_sub [of 40 "ucast w :: u64"] by (simp add: unat_wider)
qed

text \<open>The last two copies, of the header and of what follows it.\<close>

lemma copy_out:
  fixes w :: u32
  assumes "40 \<le> unat w" "unat w \<le> 40 + length body" "unat w \<le> length dest"
  shows "mem_read 40 (unat ((ucast w :: u64) - 40)) (header_bytes e h @ body) = Some (take (unat w - 40) body)"
    "mem_write 0 (header_bytes e h') dest = Some (header_bytes e h' @ drop 40 dest)"
    "mem_write 40 (take (unat w - 40) body) (header_bytes e h' @ drop 40 dest)
       = Some (header_bytes e h' @ take (unat w - 40) body @ drop (unat w) dest)"
proof -
  show "mem_read 40 (unat ((ucast w :: u64) - 40)) (header_bytes e h @ body) = Some (take (unat w - 40) body)"
    using assms by (simp add: unat_rest [OF assms(1)] mem_read_def)
  show "mem_write 0 (header_bytes e h') dest = Some (header_bytes e h' @ drop 40 dest)"
    using assms by (simp add: mem_write_def)
  have "length (take (unat w - 40) body) = unat w - 40" using assms(2) by simp
  then show "mem_write 40 (take (unat w - 40) body) (header_bytes e h' @ drop 40 dest)
       = Some (header_bytes e h' @ take (unat w - 40) body @ drop (unat w) dest)"
    using assms(1,3) by (simp add: mem_write_def del: length_take)
qed

lemma eqllog_copies_dump:
  assumes "0 \<le> entry" "entry < int (length iovecs)" "iovecs ! nat entry = \<lparr>el_buf = Some (header_bytes e h @ body), el_len = w\<rparr>"
    "40 \<le> unat w" "unat w \<le> 40 + length body" "unat w \<le> length dest"
  shows "eqllogQCopyEntry e boottime dest iovecs entry True
     = Some (sint w, header_bytes e (dump_header h) @ take (unat w - 40) body @ drop (unat w) dest, iovecs)"
proof -
  have "mem_read 0 40 (header_bytes e h @ body) = Some (header_bytes e h)" by (simp add: mem_read_def)
  moreover have "iovecs[nat entry := \<lparr>el_buf = Some (header_bytes e h @ body), el_len = w\<rparr>] = iovecs"
    by (simp add: assms(3) [symmetric])
  ultimately show ?thesis using assms(1-3) copy_out [OF assms(4-6)]
    by (simp add: eqllogQCopyEntry_def header_of_bytes dump_header_def Let_def)
qed

lemma eqllog_no_buffer:
  "0 \<le> entry \<Longrightarrow> entry < int (length iovecs) \<Longrightarrow> el_buf (iovecs ! nat entry) = None \<Longrightarrow>
   eqllogQCopyEntry e boottime dest iovecs entry flag = Some (0, dest, iovecs)"
  by (simp add: eqllogQCopyEntry_def)

text \<open>An entry shorter than its header makes the length of the second copy wrap around.\<close>

lemma eqllog_short_entry:
  assumes "aget iovecs entry = Some el" "el_buf el = Some bs" "unat (el_len el) < 40" "length bs < 2 ^ 63"
  shows "eqllogQCopyEntry e boottime dest iovecs entry True = None"
proof -
  have "(ucast (el_len el) :: u64) < 40" using assms(3) by (simp add: word_less_nat_alt unat_wider)
  then have "unat ((ucast (el_len el) :: u64) - 40) = 2 ^ 64 + unat (el_len el) - 40"
    by (simp add: unat_sub_if_size word_less_nat_alt not_le word_size unat_wider)
  then have "mem_read 40 (unat ((ucast (el_len el) :: u64) - 40)) bs = None" using assms(4) by (simp add: mem_read_def)
  then show ?thesis using assms(1,2) by (simp add: eqllogQCopyEntry_def Let_def split: Option.bind_splits)
qed

text \<open>The call of \<^verbatim>\<open>main\<close> searches the end of a string in an array that was never written.\<close>

lemma eqllog_main_runs_off:
  "length buf = 1000 \<Longrightarrow> 0 \<notin> set (drop 41 buf) \<Longrightarrow> eqllog_main e boottime buf dest others = None"
  using strlen_none [of "drop 41 buf"] by (simp add: eqllog_main_def eqllogQCopyEntry_def Let_def mem_read_def)

section \<open>Results\<close>

text \<open>C36. Copying an entry that is not a dump returns its length and puts into the destination the header with
  the number of events set to one, the name and the event, stamped with the time of the boot if its own
  time lies in the first ten thousand seconds; the entry itself keeps its header but gets the stamped
  event, and the destination behind the entry is untouched.\<close>

theorem eqllog_copies_stamped:
  assumes "0 \<le> entry" "entry < int (length iovecs)"
    "iovecs ! nat entry = \<lparr>el_buf = Some (header_bytes e h @ name @ 0 # event_bytes e v @ rest), el_len = w\<rparr>"
    "0 \<notin> set name" "40 \<le> unat w" "unat w \<le> 40 + length (name @ 0 # event_bytes e v @ rest)" "unat w \<le> length dest"
  shows "eqllogQCopyEntry e boottime dest iovecs entry False
     = Some (sint w, header_bytes e (h\<lparr>m_numEvents := 1\<rparr>)
           @ take (unat w - 40) (name @ 0 # event_bytes e (stamped boottime v) @ rest) @ drop (unat w) dest,
         iovecs[nat entry := \<lparr>el_buf = Some (header_bytes e h @ name @ 0 # event_bytes e (stamped boottime v) @ rest), el_len = w\<rparr>])"
proof -
  define body where "body = (\<lambda>v. name @ 0 # event_bytes e v @ rest)"
  let ?bs = "\<lambda>v. header_bytes e h @ body v"
  have "mem_read 0 40 (?bs v) = Some (header_bytes e h)" by (simp add: mem_read_def)
  moreover have "strlen (drop 40 (?bs v)) = Some (length name)" using strlen_name [OF assms(4)] by (simp add: body_def)
  moreover have "stamp_loop e boottime (Suc 0) 0 (40 + length name + 1) (?bs v) = Some (?bs (stamped boottime v))"
    using stamp_loop_one [of "header_bytes e h @ name @ [0]" "40 + length name + 1" e boottime v rest] by (simp add: body_def del: stamp_loop.simps)
  moreover have "unat w \<le> 40 + length (body (stamped boottime v))" using assms(6) by (simp add: body_def)
  moreover have "iovecs ! nat entry = \<lparr>el_buf = Some (?bs v), el_len = w\<rparr>" using assms(3) by (simp add: body_def)
  ultimately have "eqllogQCopyEntry e boottime dest iovecs entry False
     = Some (sint w, header_bytes e (h\<lparr>m_numEvents := 1\<rparr>) @ take (unat w - 40) (body (stamped boottime v)) @ drop (unat w) dest,
         iovecs[nat entry := \<lparr>el_buf = Some (?bs (stamped boottime v)), el_len = w\<rparr>])"
    using assms(1,2) copy_out [OF assms(5) _ assms(7), of "body (stamped boottime v)"]
    by (simp add: eqllogQCopyEntry_def header_of_bytes Let_def del: stamp_loop.simps)
  then show ?thesis by (simp add: body_def)
qed

definition sample_header :: eqllogHeader_t where
  "sample_header = \<lparr>m_cksum = 1, m_numEvents = 3, m_name_unused = 0, m_uuid = \<lparr>uuid_low = 7, uuid_hi = 8\<rparr>, m_index = 9, m_state = 2\<rparr>"

definition sample_event :: "timeval \<Rightarrow> eqllogEvent_t" where
  "sample_event t = \<lparr>m_event = 1, m_line = 2, m_size = 3, m_module_unused = 0, m_zbus = 5, m_sequenceNum = 6, m_sent = t\<rparr>"

lemma eqllog_copies_stamped_witness:
  "eqllogQCopyEntry LittleEndian \<lparr>tv_sec = 70000, tv_usec = 0\<rparr> (replicate 100 9)
      [\<lparr>el_buf = Some (header_bytes LittleEndian sample_header @ [65] @ 0 # event_bytes LittleEndian (sample_event \<lparr>tv_sec = 12, tv_usec = 34\<rparr>) @ []),
        el_len = 82\<rparr>] 0 False
   = Some (82, header_bytes LittleEndian (sample_header\<lparr>m_numEvents := 1\<rparr>)
         @ [65, 0] @ event_bytes LittleEndian (sample_event \<lparr>tv_sec = 70000, tv_usec = 0\<rparr>) @ replicate 18 9,
       [\<lparr>el_buf = Some (header_bytes LittleEndian sample_header @ [65, 0] @ event_bytes LittleEndian (sample_event \<lparr>tv_sec = 70000, tv_usec = 0\<rparr>)),
         el_len = 82\<rparr>])"
proof -
  have "stamped \<lparr>tv_sec = 70000, tv_usec = 0\<rparr> (sample_event \<lparr>tv_sec = 12, tv_usec = 34\<rparr>) = sample_event \<lparr>tv_sec = 70000, tv_usec = 0\<rparr>"
    by (simp add: stamped_def stamp_def sample_event_def)
  then show ?thesis
    by (subst eqllog_copies_stamped [where rest = "[]" and h = sample_header and name = "[65]" and w = 82
        and v = "sample_event \<lparr>tv_sec = 12, tv_usec = 34\<rparr>"]) (simp_all add: drop_replicate)
qed

end
