(* ===== verification/Spec2Isabelle.thy ===== *)
theory Spec2Isabelle
  imports Prog_Queue Prog_Quicksort In_Cksum Icmp Bloodgroup Sock_Loop Prog_Sem Solution3 Elbonian_Main Trace_Main Prog_Cond_Live Bandh Rw_Lock Tell_Wait Disco Event_Log
begin

text \<open>
  Verification of the C and C++ programs of this repository.

  The repository is a collection of independent programs; inside \<^verbatim>\<open>tcpipi/\<close> and \<^verbatim>\<open>CodeWar2013/\<close>
  a program consists of several components that call each other.  Each theory opens with a note on
  its part; this is the overview.  Paths are relative to \<^verbatim>\<open>src/\<close>.

  \<^bold>\<open>The programs and their theories.\<close>

  \<^item> Prelude: heaps of C structs with a bump allocator that may run dry, the option monad for code
    that may run into undefined behaviour, generic lemmas on lists, maps and words.

  \<^item> Prog_Queue: \<^verbatim>\<open>prog_queue.c\<close>.  The intrusive circular queue (push, pop, initialisation) on an
    explicit heap and the menu of \<^verbatim>\<open>main\<close>.  The locale \<open>fifo\<close> is the contract between queue and
    menu, interpreted on the linked implementation; the menu program refines a queue of numbers, and
    popping an empty queue dereferences a null pointer.

  \<^item> Prog_Quicksort: \<^verbatim>\<open>prog_quicksort.c\<close>, with the partition loop entered through a \<^verbatim>\<open>goto\<close> and array
    accesses checked.  Every range is sorted in place, permuted, with nothing outside it touched, and
    the recursion ends.

  \<^item> In_Cksum, Icmp: \<^verbatim>\<open>tcpipi/icmptime/icmptime.c\<close> and \<^verbatim>\<open>tcpipi/icmpaddrmask/icmpaddrmask.c\<close>.  The
    checksum they share is the one's complement of the one's complement sum in either byte order, and a
    packet that carries it verifies; requests are built, replies taken apart and the receive loops and
    exit codes described for every packet, short and foreign ones included.

  \<^item> Ring, Bloodgroup: \<^verbatim>\<open>CodeWar2013/bloodgroup.c\<close>.  Ring is the hand-made circular list the program
    builds twice, with the locale \<open>unique_list\<close> for lists without duplicates; Bloodgroup
    interprets it for marker sets and Rh allele sets and models the query for a child from reading the
    line to printing the groups, which are proved to be exactly the inheritable ones.

  \<^item> Sock_Conv, Sock_Options, Sock_Setup, Sock_Loop: the program \<^verbatim>\<open>tcpipi/sock\<close>, in the order in which its
    \<^verbatim>\<open>main\<close> uses the parts.  Sock_Conv has \<^verbatim>\<open>crlf.c\<close>, \<^verbatim>\<open>writen.c\<close> and the pattern of \<^verbatim>\<open>sourcesink.c\<close>;
    Sock_Options the globals and the \<^verbatim>\<open>getopt\<close> loop of \<^verbatim>\<open>main.c\<close>; Sock_Setup \<^verbatim>\<open>buffers.c\<close>,
    \<^verbatim>\<open>sockopts.c\<close>, \<^verbatim>\<open>cliopen.c\<close> and \<^verbatim>\<open>servopen.c\<close> over a record of kernel functions; Sock_Loop
    \<^verbatim>\<open>loop.c\<close>, the source and sink of \<^verbatim>\<open>sourcesink.c\<close> and \<^verbatim>\<open>main\<close> itself.  The copying loop refines an
    exchange of byte streams; a client session has no undefined behaviour; sockets that open are fully
    set up; the conversions stay in their buffers and are inverse to each other; an accepted command
    line is a consistent configuration.

  \<^item> Prog_Sem: \<^verbatim>\<open>prog_sem.c\<close>.  Forty threads and \<^verbatim>\<open>main\<close> as state machines over shared memory, a
    semaphore and a mutex, one statement per step and every interleaving.  The invariant gives memory
    safety apart from one unprotected read, freedom from deadlock with a bound on the length of every
    run, and the conservation of jobs.

  \<^item> Prog_Cond, Prog_Cond_Live: \<^verbatim>\<open>prog_condV.c\<close>, the same exchange of jobs with a counter, a condition
    variable and two mutexes, in the same style.  The number of threads is any that the program takes.
    Prog_Cond has the program, its invariant and the accesses that can go wrong, all in reports;
    Prog_Cond_Live shows that a run can only stop where dequeuers wait for jobs nobody will enqueue, and
    bounds its length.

  \<^item> Rw_Lock: the reader-writer lock of \<^verbatim>\<open>prog_rwmutex.cpp\<close>, a monitor with two condition variables for any
    number of threads: writers exclude everybody else and no wake-up is lost.

  \<^item> Tell_Wait: the signals between parent and child in \<^verbatim>\<open>tcpipi/sock/tellwait.c\<close> and the loop of the
    forking server that uses them.  The first handshake always completes, a later one may lose the
    signal.

  \<^item> Cpp_Queue: the ring of cells of \<^verbatim>\<open>prog_queue.cpp\<close>, which the discovery tool repeats, and the stack of
    \<^verbatim>\<open>prog_stack.cpp\<close>.  The queue refines a bounded list that swallows the push that fills it.

  \<^item> Arp, Disco: \<^verbatim>\<open>prog_arp_linux.c\<close>, the frame it sends and the reports of frames that arrive, and the tool
    of \<^verbatim>\<open>discovery/\<close> built on it: the engine with its queues (\<^verbatim>\<open>sunsetSolarDiscoEngine.cpp\<close>), the
    worker (\<^verbatim>\<open>sunsetSolarDiscoThread.cpp\<close>) and the handlers of \<^verbatim>\<open>discoveryUi.cpp\<close>.  The kernel's ARP table
    is read as it was written, and the list of the user has the senders in order of arrival except for
    the entry each refresh skips.

  \<^item> Event_Log: \<^verbatim>\<open>eqllogQCopyEntry\<close> of \<^verbatim>\<open>prog_sigbus2.c\<close>, packed structs as records and as bytes: what is
    copied, what is changed on the way, and the accesses outside a block.

  \<^item> Bandh: \<^verbatim>\<open>BandhAnalysis/Solution1.cpp\<close>, which counts the working days lost to strikes.

  \<^item> Dijks_List, Distances, Elbonian, Elbonian_Search, Elbonian_Main: \<^verbatim>\<open>CodeWar2013/elbonian.c\<close>.
    Dijks_List is the linked list of candidates with the locale \<open>candidate_list\<close> for what the search
    needs of it, interpreted on the linked cells; Distances is the specification, walks and least costs;
    Elbonian has the definitions and shows what graph is built; Elbonian_Search proves inside the locale
    that the labels become the distances, and then that the path printed is a shortest one;
    Elbonian_Main reads the input.

  \<^item> Trace_Probe, Trace_Reply, Trace_Loop, Trace_Route, Trace_Setup, Trace_Main: the two programs of
    \<^verbatim>\<open>tcpipi/traceroute\<close>, which share most of their text; the variant is a parameter and
    \<^verbatim>\<open>traceroute.lsrr.c\<close> an instance.  Trace_Probe has the packet of \<^verbatim>\<open>send_probe\<close>, the table of MTU
    values and \<^verbatim>\<open>frag_err\<close>: what is handed to the kernel, that the search for a size ends with the best
    one, and the invariant of table, size and allocated block.  Trace_Reply has \<^verbatim>\<open>wait_for_reply\<close>,
    \<^verbatim>\<open>packet_ok\<close>, \<^verbatim>\<open>print\<close>, \<^verbatim>\<open>inetname\<close> and \<^verbatim>\<open>deltaT\<close>: which messages are taken for an answer, in terms
    of network byte order, and that a quoted probe is recognised.  Trace_Loop has the loops of \<^verbatim>\<open>main\<close>
    and their safety, Trace_Route what is printed on a network that answers, Trace_Setup the options,
    the source route and the sockets, and Trace_Main the theorems about the whole programs, among them
    the conditions under which they read behind their packet.

  \<^item> C_Input: lines and decimal numbers as \<^verbatim>\<open>fgets\<close> and \<^verbatim>\<open>scanf\<close> see them, shared by the programs that
    read text.

  \<^item> Solution3: \<^verbatim>\<open>CodeWar2014/Problem3/Solution3.c\<close>.  The nested search is replaced by a closed form and
    is correct and complete; answers leak from one line of input to the next.

  \<^bold>\<open>Conventions.\<close>  Structs are records, enumerations and program points are datatypes.  A result
  \<open>None\<close> of a sequential program is undefined behaviour (a null or dangling pointer, an index out of
  range, signed overflow where the code can reach it); exits of the program are values of a sum type.
  Integers are words, or integers and naturals with the wrap-around written out, wherever their width
  matters; \<^verbatim>\<open>size_t\<close> has 64 bits, except in the traceroute programs, which assume a 32-bit \<^verbatim>\<open>long\<close>
  and are modelled on such a host.  What is not in the repository is a parameter: the host byte order,
  the kernel and the resolver (records of functions or lists of results), the allocator, the scheduler.
  Hypotheses on such a parameter are named predicates, and the witnesses instantiate them with
  concrete functions.

  \<^bold>\<open>Bounds and fuel.\<close>  The blood group query allocates fewer than 320 cells, so the theorem asks for
  that much room in the heap.  Loops that depend on the environment (select rounds, reads, writes,
  accepts) recurse over the list of what the environment reports, so a run is as long as the list; the
  accept loop of the server, which need not end, has fuel, one unit for a connection.  All other loops
  terminate as functions.  Runs of \<^verbatim>\<open>prog_sem.c\<close> need no fuel: their length is proved to be at most 363.
  Those of \<^verbatim>\<open>prog_condV.c\<close> have at most \<open>n (14 + 2 m) + 3\<close> steps for \<open>n\<close> threads of which \<open>m\<close> dequeue, and three more for
  every spurious wake-up.  Printing the ring of \<^verbatim>\<open>prog_queue.cpp\<close> has its number of cells as fuel, and the
  multiples of a party in \<^verbatim>\<open>Solution1.cpp\<close> are a partial function, proved to return for positive parameters.
  The probe loops of traceroute recurse over the answers the waits meet, and the retry of
  \<^verbatim>\<open>send_probe\<close> over what is left of the table of MTU values.
  The shortest path search asks for room for 200 nodes and 201 list cells, and for costs whose sums along
  the connected nodes stay below \<open>2 ^ 31\<close>.  The coin search is exact below \<open>2 ^ 30\<close>, where its unsigned product does not wrap.

  \<^bold>\<open>Not modelled.\<close>  Prompts, usage texts and diagnostics on stderr; the queries for a father or a
  mother of \<^verbatim>\<open>bloodgroup.c\<close>, whose function reads a member its struct does not have; the disabled checksum
  of the traceroute programs; message formatting of \<^verbatim>\<open>tcpipi/sock\<close> (\<^verbatim>\<open>error.c\<close>, \<^verbatim>\<open>strerror.c\<close>); the widgets
  of the discovery tool and the cancellation of its worker; samples of single language features; programs
  that only print what system calls return (\<^verbatim>\<open>lsif.c\<close>, \<^verbatim>\<open>prog_getifaddrs.c\<close>) or provoke a fault
  (\<^verbatim>\<open>prog_sigbus.c\<close>); \<^verbatim>\<open>prog_rwmutex.c\<close> and \<^verbatim>\<open>prog_rwmutex_1.cpp\<close>, which do not compile;
  the Java and Python code.
\<close>

end
